(* ===== verification/Prelude.thy ===== *)
theory Prelude
  imports Main "HOL-Library.Word"
begin

text \<open>
  Shared vocabulary of the development: the exceptions the Python code raises, the result
  and state-passing types every component uses, Python's integer bit operations, and the
  generic facts about lists, maps and bits that more than one component needs.

  A Python function that may raise returns \<open>pyerr + 'a\<close> (\<open>Inl\<close> for the exception class;
  message texts are not modelled). A method that mutates its object and may raise returns
  the pair of that result and the object afterwards, because the mutations made before a
  \<open>raise\<close> stay in place.
\<close>

unbundle bit_operations_syntax

section \<open>Collections of facts\<close>

named_theorems ring_simps \<open>what push and pop do to the fields of a ring\<close>
named_theorems frame_simps \<open>fields an operation leaves alone\<close>

section \<open>Exceptions and results\<close>

text \<open>
  The exception classes raised or caught under \<open>runtime/\<close>, \<open>fpga/\<close>, \<open>dv/\<close> and
  \<open>sim/\<close> (\<open>VerificationError\<close> is the class of \<open>dv/phase9/invariants.py\<close>).
  \<open>OutOfFuel\<close> is no Python exception: it marks a bounded unrolling of a \<open>while\<close> loop that
  was too short, and every loop that uses it has a theorem that it does not occur.
\<close>

datatype pyerr =
    ValueError
  | KeyError
  | IndexError
  | RuntimeError
  | PermissionError
  | BlockingIOError
  | TimeoutError
  | MemoryError
  | OverflowError
  | AttributeError
  | TypeError
  | ZeroDivisionError
  | FileNotFoundError
  | SystemExit int
  | StructError
  | VerificationError
  | OutOfFuel

type_synonym 'a res = "pyerr + 'a"

type_synonym byte = "8 word"

definition is_ok :: "'e + 'a \<Rightarrow> bool" where
  "is_ok r \<longleftrightarrow> (case r of Inl _ \<Rightarrow> False | Inr _ \<Rightarrow> True)"

lemma is_ok_simps [simp]: "is_ok (Inr x)" "\<not> is_ok (Inl e)"
  by (simp_all add: is_ok_def)

lemma is_okE [elim?]:
  assumes "is_ok r"
  obtains x where "r = Inr x"
  using assms by (cases r) auto

text \<open>\<open>for x in xs: check(x)\<close>, where only the exception matters.\<close>

fun check_all :: "('a \<Rightarrow> 'e + unit) \<Rightarrow> 'a list \<Rightarrow> 'e + unit" where
  "check_all f [] = Inr ()"
| "check_all f (x # xs) = (case f x of Inl e \<Rightarrow> Inl e | Inr _ \<Rightarrow> check_all f xs)"

lemma check_all_ok: "check_all f xs = Inr () \<longleftrightarrow> (\<forall>x\<in>set xs. f x = Inr ())"
  by (induction xs) (auto split: sum.splits)

text \<open>A list comprehension whose element expression may raise: the first error wins.\<close>

fun map_res :: "('a \<Rightarrow> 'e + 'b) \<Rightarrow> 'a list \<Rightarrow> 'e + 'b list" where
  "map_res f [] = Inr []"
| "map_res f (x # xs) =
     (case f x of Inl e \<Rightarrow> Inl e
      | Inr y \<Rightarrow> (case map_res f xs of Inl e \<Rightarrow> Inl e | Inr ys \<Rightarrow> Inr (y # ys)))"

lemma map_res_Inr: "map_res f xs = Inr ys \<longleftrightarrow> list_all2 (\<lambda>x y. f x = Inr y) xs ys"
proof (induction xs arbitrary: ys)
  case Nil
  then show ?case by auto
next
  case (Cons x xs)
  show ?case
    by (cases "f x"; cases "map_res f xs")
      (auto simp: list_all2_Cons1 simp flip: Cons.IH)
qed

lemma map_res_length: "map_res f xs = Inr ys \<Longrightarrow> length ys = length xs"
  by (simp add: map_res_Inr list_all2_lengthD)

lemma map_res_total:
  assumes "\<And>x. x \<in> set xs \<Longrightarrow> f x = Inr (g x)"
  shows "map_res f xs = Inr (map g xs)"
  using assms by (induction xs) auto

lemma map_res_if:
  "map_res (\<lambda>x. if bad x then Inl e else Inr (g x)) xs = (if \<exists>x\<in>set xs. bad x then Inl e else Inr (map g xs))"
  by (induction xs) auto

text \<open>The sequence of two steps of which the first may raise.\<close>

definition bind_res :: "'e + 'a \<Rightarrow> ('a \<Rightarrow> 'e + 'b) \<Rightarrow> 'e + 'b" where
  "bind_res r f = (case r of Inl e \<Rightarrow> Inl e | Inr x \<Rightarrow> f x)"

lemma bind_res_simps [simp]: "bind_res (Inl e) f = Inl e" "bind_res (Inr x) f = f x"
  by (simp_all add: bind_res_def)

lemma bind_res_Inr: "bind_res r f = Inr y \<longleftrightarrow> (\<exists>x. r = Inr x \<and> f x = Inr y)"
  by (cases r) simp_all

lemma bind_res_InrE:
  assumes "bind_res r f = Inr y"
  obtains x where "r = Inr x" and "f x = Inr y"
  using assms by (auto simp: bind_res_Inr)

lemma map_res_append:
  "map_res f (xs @ ys) = bind_res (map_res f xs) (\<lambda>us. bind_res (map_res f ys) (\<lambda>vs. Inr (us @ vs)))"
  by (induction xs) (auto simp: bind_res_def split: sum.split)

section \<open>Python integers and their bits\<close>

text \<open>
  Python integers are unbounded, so they are \<open>int\<close>. \<open>&\<close>, \<open>|\<close>, \<open>^\<close> and \<open>~\<close> are \<open>AND\<close>, \<open>OR\<close>,
  \<open>XOR\<close> and \<open>NOT\<close> on \<open>int\<close> (two's complement on both sides), \<open>x << n\<close> is \<open>push_bit\<close> and
  \<open>x >> n\<close> is \<open>drop_bit\<close>; a negative shift count raises \<open>ValueError\<close>.
\<close>

definition shift_left :: "int \<Rightarrow> int \<Rightarrow> int res" where
  "shift_left x n = (if n < 0 then Inl ValueError else Inr (push_bit (nat n) x))"

definition MASK32 :: int where "MASK32 = 0xFFFFFFFF"
definition MASK64 :: int where "MASK64 = push_bit 64 1 - 1"

lemma MASK32_mask: "MASK32 = mask 32"
  by (simp add: MASK32_def mask_eq_exp_minus_1)

lemma MASK64_mask: "MASK64 = mask 64"
  by (simp add: MASK64_def mask_eq_exp_minus_1)

lemma MASK64_val: "MASK64 = 18446744073709551615"
  by (simp add: MASK64_def)

lemma and_MASK32: "x AND MASK32 = x mod 2 ^ 32"
  by (simp only: MASK32_mask take_bit_eq_mask [symmetric] take_bit_eq_mod)

lemma and_MASK64: "x AND MASK64 = x mod 2 ^ 64"
  by (simp only: MASK64_mask take_bit_eq_mask [symmetric] take_bit_eq_mod)

text \<open>A value fits \<open>w\<close> bits when it is what its low \<open>w\<close> bits say.\<close>

lemma fits_take_bit: "0 \<le> x \<Longrightarrow> x < 2 ^ w \<Longrightarrow> take_bit w x = (x::int)"
  by (simp add: take_bit_int_eq_self)

lemma fits_bit:
  assumes "0 \<le> x" "x < 2 ^ w"
  shows "bit (x::int) n \<longleftrightarrow> n < w \<and> bit x n"
  using fits_take_bit [OF assms] by (metis bit_take_bit_iff)

lemma and_mask_fits: "0 \<le> x AND mask w \<and> x AND mask w < (2::int) ^ w"
  by (simp flip: take_bit_eq_mask)

lemma bit_or_push_one: "bit (m OR push_bit k (1::int)) i \<longleftrightarrow> bit m i \<or> i = k"
  by (auto simp: bit_simps bit_1_iff)

lemma and_not_zero_iff: "d AND NOT m = (0::int) \<longleftrightarrow> (\<forall>i. bit d i \<longrightarrow> bit m i)"
  by (auto simp: bit_eq_iff bit_simps)

lemma xor_fits:
  assumes "0 \<le> a" "a < 2 ^ w" "0 \<le> b" "b < (2::int) ^ w"
  shows "0 \<le> a XOR b \<and> a XOR b < 2 ^ w"
proof -
  have "take_bit w (a XOR b) = a XOR b"
    by (simp add: fits_take_bit assms)
  then show ?thesis by (metis take_bit_nonnegative take_bit_int_less_exp)
qed

section \<open>Lists\<close>

text \<open>
  \<open>for x in xs: if p(x): ... break\<close> acts on the first element with \<open>p\<close>, and
  \<open>xs.remove(x)\<close> deletes the first element equal to it: with \<open>find\<close> these are the same one.
\<close>

lemma find_SomeD: "find p xs = Some x \<Longrightarrow> x \<in> set xs \<and> p x"
  by (induction xs) (auto split: if_splits)

lemma find_NoneD: "find p xs = None \<Longrightarrow> x \<in> set xs \<Longrightarrow> \<not> p x"
  by (induction xs) (auto split: if_splits)

lemma length_remove1_less: "x \<in> set xs \<Longrightarrow> length (remove1 x xs) < length xs"
  by (simp add: length_remove1) (cases xs; simp)

lemma find_remove1_less [termination_simp]:
  "find p xs = Some x \<Longrightarrow> length (remove1 x xs) < length xs"
  by (simp add: find_SomeD length_remove1_less)

lemma sum_list_const_le:
  "(\<And>x. x \<in> set xs \<Longrightarrow> f x \<le> (b::'b::linordered_idom)) \<Longrightarrow> (\<Sum>x\<leftarrow>xs. f x) \<le> of_nat (length xs) * b"
  by (induction xs) (auto simp: algebra_simps intro: add_mono)

lemma sum_list_const_ge:
  "(\<And>x. x \<in> set xs \<Longrightarrow> (b::'b::linordered_idom) \<le> f x) \<Longrightarrow> of_nat (length xs) * b \<le> (\<Sum>x\<leftarrow>xs. f x)"
  by (induction xs) (auto simp: algebra_simps intro: add_mono)

section \<open>Dictionaries\<close>

lemma map_of_snoc: "k \<notin> fst ` set xs \<Longrightarrow> map_of (xs @ [(k, v)]) = (map_of xs)(k \<mapsto> v)"
proof -
  assume "k \<notin> fst ` set xs"
  then have "map_of xs k = None" by (simp add: map_of_eq_None_iff)
  then show ?thesis by (auto simp: map_add_def fun_eq_iff split: option.split)
qed

end
