(* ===== verification/Protocol.thy ===== *)
theory Protocol
  imports Prelude
begin

text \<open>
  \<open>runtime/driver/protocol.py\<close>: the frozen queue and graph protocol types.

  Each \<open>IntEnum\<close> is a datatype with its integer value; the wire-level structures are
  records of integers, because the Python dataclasses do not check their fields. Encoding a
  graph node validates every field width and then packs 116 bits into 16 little-endian
  bytes; decoding refuses any other length and any set bit above 115.
\<close>

section \<open>Enumerations\<close>

datatype device_status = BOOT_ROM | FIRMWARE_READY | RUNNING | FATAL

primrec device_status_value :: "device_status \<Rightarrow> int" where
  "device_status_value BOOT_ROM = 1"
| "device_status_value FIRMWARE_READY = 2"
| "device_status_value RUNNING = 3"
| "device_status_value FATAL = 0x80000000"

datatype status =
  OK | UNSUPPORTED | BAD_FLAGS | KV_MISS | GRAPH_INVALID | GRAPH_DEADLOCK | QUEUE_FULL | SECURITY

primrec status_value :: "status \<Rightarrow> int" where
  "status_value OK = 0"
| "status_value UNSUPPORTED = 1"
| "status_value BAD_FLAGS = 2"
| "status_value KV_MISS = 4"
| "status_value GRAPH_INVALID = 13"
| "status_value GRAPH_DEADLOCK = 14"
| "status_value QUEUE_FULL = 16"
| "status_value SECURITY = 17"

datatype command_opcode = SUBMIT_GRAPH | KV_TRANSLATE

primrec command_opcode_value :: "command_opcode \<Rightarrow> int" where
  "command_opcode_value SUBMIT_GRAPH = 1"
| "command_opcode_value KV_TRANSLATE = 2"

datatype graph_opcode = NOP | DMA | ATTENTION | TENSOR | COMPLETE

primrec graph_opcode_value :: "graph_opcode \<Rightarrow> int" where
  "graph_opcode_value NOP = 0"
| "graph_opcode_value DMA = 1"
| "graph_opcode_value ATTENTION = 2"
| "graph_opcode_value TENSOR = 3"
| "graph_opcode_value COMPLETE = 15"

datatype counter =
  ACCEPTED | COMPLETED | ERRORS | FAULT_OVERFLOWS | KV_FAULTS | KV_RECOVERED
| BOOT_ATTEMPTS | BOOT_FAILURES | GRAPH_NODES | QUEUE_ERRORS

primrec counter_value :: "counter \<Rightarrow> int" where
  "counter_value ACCEPTED = 0"
| "counter_value COMPLETED = 1"
| "counter_value ERRORS = 2"
| "counter_value FAULT_OVERFLOWS = 3"
| "counter_value KV_FAULTS = 4"
| "counter_value KV_RECOVERED = 5"
| "counter_value BOOT_ATTEMPTS = 6"
| "counter_value BOOT_FAILURES = 7"
| "counter_value GRAPH_NODES = 8"
| "counter_value QUEUE_ERRORS = 9"

definition all_counters :: "counter list" where
  "all_counters =
     [ACCEPTED, COMPLETED, ERRORS, FAULT_OVERFLOWS, KV_FAULTS, KV_RECOVERED,
      BOOT_ATTEMPTS, BOOT_FAILURES, GRAPH_NODES, QUEUE_ERRORS]"

text \<open>\<open>Counter(selector)\<close>: the member with that value, \<open>ValueError\<close> if there is none.\<close>

definition counter_of_value :: "int \<Rightarrow> counter res" where
  "counter_of_value v =
     (case find (\<lambda>c. counter_value c = v) all_counters of None \<Rightarrow> Inl ValueError | Some c \<Rightarrow> Inr c)"

lemma counter_of_value_inverse: "counter_of_value (counter_value c) = Inr c"
  by (cases c) (simp_all add: counter_of_value_def all_counters_def)

lemma status_value_inj: "status_value a = status_value b \<longleftrightarrow> a = b"
  by (cases a; cases b) simp_all

lemma graph_opcode_value_inj: "graph_opcode_value a = graph_opcode_value b \<longleftrightarrow> a = b"
  by (cases a; cases b) simp_all

section \<open>Wire structures\<close>

record graph_node =
  gn_opcode :: int
  gn_node_id :: int
  gn_dependencies :: int
  gn_operand0 :: int
  gn_operand1 :: int
  gn_flags :: int

record command =
  cmd_request_id :: int
  cmd_opcode :: int
  cmd_graph :: "graph_node list"
  cmd_priority :: int
  cmd_argument :: int
  cmd_flags :: int
  cmd_retry_count :: int

record completion =
  cpl_request_id :: int
  cpl_status :: status
  cpl_result :: int

record fault =
  flt_request_id :: int
  flt_address :: int
  flt_cause :: status
  flt_engine :: int
  flt_retry_count :: int
  flt_replayable :: bool

text \<open>The dataclass constructors with their default values.\<close>

definition mk_node :: "int \<Rightarrow> int \<Rightarrow> int \<Rightarrow> int \<Rightarrow> graph_node" where
  "mk_node opc nid deps op0 =
     \<lparr>gn_opcode = opc, gn_node_id = nid, gn_dependencies = deps, gn_operand0 = op0,
      gn_operand1 = 0, gn_flags = 0\<rparr>"

definition Completion :: "int \<Rightarrow> status \<Rightarrow> int \<Rightarrow> completion" where
  "Completion rid st res = \<lparr>cpl_request_id = rid, cpl_status = st, cpl_result = res\<rparr>"

definition Fault :: "int \<Rightarrow> int \<Rightarrow> status \<Rightarrow> int \<Rightarrow> fault" where
  "Fault rid addr cause retry =
     \<lparr>flt_request_id = rid, flt_address = addr, flt_cause = cause, flt_engine = 1,
      flt_retry_count = retry, flt_replayable = True\<rparr>"

lemma Completion_sel [simp]:
  "cpl_request_id (Completion r s v) = r" "cpl_status (Completion r s v) = s"
  "cpl_result (Completion r s v) = v"
  by (simp_all add: Completion_def)

lemma Completion_inject [simp]:
  "Completion r s v = Completion r' s' v' \<longleftrightarrow> r = r' \<and> s = s' \<and> v = v'"
  by (simp add: Completion_def)

lemma Fault_sel [simp]:
  "flt_request_id (Fault r a c n) = r" "flt_address (Fault r a c n) = a"
  "flt_cause (Fault r a c n) = c" "flt_retry_count (Fault r a c n) = n"
  "flt_replayable (Fault r a c n)"
  by (simp_all add: Fault_def)

section \<open>Bytes\<close>

text \<open>
  \<open>int.to_bytes(n, "little")\<close> raises \<open>OverflowError\<close> for a negative integer and for one that
  needs more than \<open>n\<close> bytes; \<open>int.from_bytes(bs, "little")\<close> weighs byte \<open>i\<close> by \<open>256 ^ i\<close>.
\<close>

fun le_bytes :: "nat \<Rightarrow> int \<Rightarrow> byte list" where
  "le_bytes 0 v = []"
| "le_bytes (Suc n) v = word_of_int v # le_bytes n (v div 256)"

definition to_bytes_le :: "nat \<Rightarrow> int \<Rightarrow> byte list res" where
  "to_bytes_le n v = (if v < 0 \<or> v \<ge> 256 ^ n then Inl OverflowError else Inr (le_bytes n v))"

fun from_bytes_le :: "byte list \<Rightarrow> int" where
  "from_bytes_le [] = 0"
| "from_bytes_le (b # bs) = uint b + 256 * from_bytes_le bs"

lemma length_le_bytes [simp]: "length (le_bytes n v) = n"
  by (induction n arbitrary: v) auto

lemma from_bytes_le_bounds: "0 \<le> from_bytes_le bs \<and> from_bytes_le bs < 256 ^ length bs"
proof (induction bs)
  case Nil
  then show ?case by simp
next
  case (Cons b bs)
  have "0 \<le> uint b" "uint b < 256"
    using uint_lt2p [of b] by simp_all
  with Cons show ?case by auto
qed

lemma from_le_bytes: "from_bytes_le (le_bytes n v) = v mod 256 ^ n"
proof (induction n arbitrary: v)
  case 0
  then show ?case by simp
next
  case (Suc n)
  have "v mod (256 * 256 ^ n) = 256 * (v div 256 mod 256 ^ n) + v mod 256"
    by (simp add: zmod_zmult2_eq)
  then show ?case
    by (simp add: Suc uint_word_of_int)
qed

lemma le_bytes_from: "le_bytes (length bs) (from_bytes_le bs) = bs"
proof (induction bs)
  case Nil
  then show ?case by simp
next
  case (Cons b bs)
  have "0 \<le> uint b" "uint b < 256"
    using uint_lt2p [of b] by simp_all
  then have "(uint b + 256 * from_bytes_le bs) div 256 = from_bytes_le bs" by simp
  moreover have "word_of_int (uint b + 256 * from_bytes_le bs) = b"
  proof -
    have "uint (word_of_int (uint b + 256 * from_bytes_le bs) :: byte)
        = (uint b + 256 * from_bytes_le bs) mod 256"
      by (simp only: uint_word_of_int) simp
    also have "\<dots> = uint b"
      using \<open>0 \<le> uint b\<close> \<open>uint b < 256\<close> by simp
    finally show ?thesis by (rule word_uint_eqI)
  qed
  ultimately show ?case using Cons by simp
qed

section \<open>Graph-node descriptors\<close>

text \<open>\<open>GraphNode._value\<close>: check the fields in order, then OR them together at their offsets.\<close>

definition check_field :: "int \<times> nat \<Rightarrow> unit res" where
  "check_field f = (if fst f < 0 \<or> fst f \<ge> push_bit (snd f) 1 then Inl ValueError else Inr ())"

definition node_fields :: "graph_node \<Rightarrow> (int \<times> nat) list" where
  "node_fields n =
     [(gn_opcode n, 4), (gn_flags n, 4), (gn_node_id n, 4), (gn_dependencies n, 8),
      (gn_operand0 n, 64), (gn_operand1 n, 32)]"

definition node_value :: "graph_node \<Rightarrow> int res" where
  "node_value n =
     (case check_all check_field (node_fields n) of Inl e \<Rightarrow> Inl e
      | Inr _ \<Rightarrow> Inr (gn_opcode n OR push_bit 4 (gn_flags n) OR push_bit 8 (gn_node_id n)
                    OR push_bit 12 (gn_dependencies n) OR push_bit 20 (gn_operand0 n)
                    OR push_bit 84 (gn_operand1 n)))"

definition encode :: "graph_node \<Rightarrow> byte list res" where
  "encode n = (case node_value n of Inl e \<Rightarrow> Inl e | Inr v \<Rightarrow> to_bytes_le 16 v)"

definition decode :: "byte list \<Rightarrow> graph_node res" where
  "decode data =
     (if length data \<noteq> 16 then Inl ValueError
      else let value = from_bytes_le data in
        if drop_bit 116 value \<noteq> 0 then Inl ValueError
        else Inr \<lparr>gn_opcode = value AND 0xF,
                  gn_node_id = drop_bit 8 value AND 0xF,
                  gn_dependencies = drop_bit 12 value AND 0xFF,
                  gn_operand0 = drop_bit 20 value AND (push_bit 64 1 - 1),
                  gn_operand1 = drop_bit 84 value AND (push_bit 32 1 - 1),
                  gn_flags = drop_bit 4 value AND 0xF\<rparr>)"

text \<open>The nodes \<open>encode\<close> accepts: every field within its width.\<close>

definition encodable :: "graph_node \<Rightarrow> bool" where
  "encodable n \<longleftrightarrow>
     (gn_opcode n \<in> {0..<2 ^ 4} \<and> gn_flags n \<in> {0..<2 ^ 4} \<and> gn_node_id n \<in> {0..<2 ^ 4} \<and>
      gn_dependencies n \<in> {0..<2 ^ 8} \<and> gn_operand0 n \<in> {0..<2 ^ 64} \<and>
      gn_operand1 n \<in> {0..<2 ^ 32})"

text \<open>Evaluated field by field, not by listing the intervals.\<close>

lemma encodable_code [code]:
  "encodable n \<longleftrightarrow>
     list_all (\<lambda>(v, w). 0 \<le> v \<and> v < push_bit w 1) (node_fields n)"
  by (auto simp: encodable_def node_fields_def)

definition packed :: "graph_node \<Rightarrow> int" where
  "packed n = gn_opcode n OR push_bit 4 (gn_flags n) OR push_bit 8 (gn_node_id n)
     OR push_bit 12 (gn_dependencies n) OR push_bit 20 (gn_operand0 n)
     OR push_bit 84 (gn_operand1 n)"

definition unpacked :: "int \<Rightarrow> graph_node" where
  "unpacked v =
     \<lparr>gn_opcode = take_bit 4 v, gn_node_id = take_bit 4 (drop_bit 8 v),
      gn_dependencies = take_bit 8 (drop_bit 12 v), gn_operand0 = take_bit 64 (drop_bit 20 v),
      gn_operand1 = take_bit 32 (drop_bit 84 v), gn_flags = take_bit 4 (drop_bit 4 v)\<rparr>"

lemma check_field_ok: "check_field f = Inr () \<longleftrightarrow> 0 \<le> fst f \<and> fst f < 2 ^ snd f"
  by (auto simp: check_field_def push_bit_eq_mult)

lemma node_value_eq:
  "node_value n = (if encodable n then Inr (packed n) else Inl ValueError)"
proof -
  have ok: "check_all check_field (node_fields n) = Inr () \<longleftrightarrow> encodable n"
    unfolding check_all_ok check_field_ok node_fields_def encodable_def by simp
  have err: "check_all check_field fs = Inl e \<Longrightarrow> e = ValueError" for fs e
    by (induction fs) (auto simp: check_field_def split: if_splits)
  show ?thesis
    by (cases "check_all check_field (node_fields n)")
      (use ok err in \<open>auto simp: node_value_def packed_def\<close>)
qed

text \<open>
  Bit \<open>i\<close> of a packed descriptor, for fields cut to their widths: each field owns its own
  range of bit positions.
\<close>

definition pack_fields :: "int \<Rightarrow> int \<Rightarrow> int \<Rightarrow> int \<Rightarrow> int \<Rightarrow> int \<Rightarrow> int" where
  "pack_fields opc fl nid deps op0 op1 =
     take_bit 4 opc OR push_bit 4 (take_bit 4 fl) OR push_bit 8 (take_bit 4 nid)
     OR push_bit 12 (take_bit 8 deps) OR push_bit 20 (take_bit 64 op0)
     OR push_bit 84 (take_bit 32 op1)"

lemma packed_pack_fields:
  assumes "encodable n"
  shows "packed n = pack_fields (gn_opcode n) (gn_flags n) (gn_node_id n) (gn_dependencies n)
           (gn_operand0 n) (gn_operand1 n)"
  using assms by (simp add: packed_def pack_fields_def encodable_def take_bit_int_eq_self)

lemma bit_pack_fields:
  "bit (pack_fields opc fl nid deps op0 op1) i \<longleftrightarrow>
     (if i < 4 then bit opc i else if i < 8 then bit fl (i - 4)
      else if i < 12 then bit nid (i - 8) else if i < 20 then bit deps (i - 12)
      else if i < 84 then bit op0 (i - 20) else i < 116 \<and> bit op1 (i - 84))"
  by (auto simp: pack_fields_def bit_simps)

lemma take_bit_pack_fields:
  "take_bit 4 (pack_fields opc fl nid deps op0 op1) = take_bit 4 opc"
  "take_bit 4 (drop_bit 4 (pack_fields opc fl nid deps op0 op1)) = take_bit 4 fl"
  "take_bit 4 (drop_bit 8 (pack_fields opc fl nid deps op0 op1)) = take_bit 4 nid"
  "take_bit 8 (drop_bit 12 (pack_fields opc fl nid deps op0 op1)) = take_bit 8 deps"
  "take_bit 64 (drop_bit 20 (pack_fields opc fl nid deps op0 op1)) = take_bit 64 op0"
  "take_bit 32 (drop_bit 84 (pack_fields opc fl nid deps op0 op1)) = take_bit 32 op1"
  by (rule bit_eqI; simp add: bit_take_bit_iff bit_drop_bit_eq bit_pack_fields; fail)+

lemma unpacked_packed: "encodable n \<Longrightarrow> unpacked (packed n) = n"
  by (simp add: packed_pack_fields unpacked_def take_bit_pack_fields)
    (simp add: encodable_def take_bit_int_eq_self)

lemma pack_fields_bounds:
  "0 \<le> pack_fields a b c d e f" "pack_fields a b c d e f < 2 ^ 116"
proof -
  have "take_bit 116 (pack_fields a b c d e f) = pack_fields a b c d e f"
    by (rule bit_eqI) (auto simp: bit_take_bit_iff bit_pack_fields)
  then show "0 \<le> pack_fields a b c d e f" "pack_fields a b c d e f < 2 ^ 116"
    by (metis take_bit_nonnegative, metis take_bit_int_less_exp)
qed

lemma encodable_unpacked: "encodable (unpacked v)"
  using take_bit_int_less_exp [of 4] take_bit_int_less_exp [of 8] take_bit_int_less_exp [of 32]
    take_bit_int_less_exp [of 64]
  by (simp add: encodable_def unpacked_def)

lemma packed_unpacked:
  assumes "drop_bit 116 v = 0"
  shows "packed (unpacked v) = v"
proof -
  have "0 \<le> v" "v < 2 ^ 116"
    using assms by (auto simp: drop_bit_eq_div div_eq_0_iff zdiv_eq_0_iff)
  then have hi: "bit v i \<longleftrightarrow> i < 116 \<and> bit v i" for i
    by (rule fits_bit)
  have "packed (unpacked v) = pack_fields v (drop_bit 4 v) (drop_bit 8 v) (drop_bit 12 v)
          (drop_bit 20 v) (drop_bit 84 v)"
    by (simp add: packed_def unpacked_def pack_fields_def)
  also have "\<dots> = v"
    by (rule bit_eqI) (subst hi, auto simp: bit_pack_fields bit_drop_bit_eq)
  finally show ?thesis .
qed

lemma encode_eq:
  "encode n = (if encodable n then Inr (le_bytes 16 (packed n)) else Inl ValueError)"
proof (cases "encodable n")
  case True
  then have "0 \<le> packed n" "packed n < 2 ^ 116"
    by (simp_all only: packed_pack_fields pack_fields_bounds)
  then have "\<not> (packed n < 0 \<or> packed n \<ge> 256 ^ 16)" by simp
  with True show ?thesis by (simp add: encode_def node_value_eq to_bytes_le_def)
qed (simp add: encode_def node_value_eq)

lemma decode_eq:
  "decode bs =
     (if length bs = 16 \<and> drop_bit 116 (from_bytes_le bs) = 0
      then Inr (unpacked (from_bytes_le bs)) else Inl ValueError)"
proof -
  have m: "x AND 0xF = take_bit 4 x" "x AND 0xFF = take_bit 8 x"
    "x AND (push_bit 64 1 - 1) = take_bit 64 x" "x AND (push_bit 32 1 - 1) = take_bit 32 x" for x :: int
    by (simp_all add: take_bit_eq_mask mask_eq_exp_minus_1)
  show ?thesis
    by (simp only: decode_def unpacked_def Let_def m) auto
qed

lemma decode_encode: "encode n = Inr bs \<Longrightarrow> decode bs = Inr n"
proof -
  assume "encode n = Inr bs"
  then have ok: "encodable n" and bs: "bs = le_bytes 16 (packed n)"
    by (auto simp: encode_eq split: if_splits)
  have b: "0 \<le> packed n" "packed n < 2 ^ 116"
    using ok by (simp_all only: packed_pack_fields pack_fields_bounds)
  then have "packed n mod 256 ^ 16 = packed n" by simp
  moreover have "drop_bit 116 (packed n) = 0"
    using b by (simp add: drop_bit_eq_div)
  ultimately show ?thesis
    using ok bs by (simp add: decode_eq from_le_bytes unpacked_packed)
qed

lemma encode_decode: "decode bs = Inr n \<Longrightarrow> encode n = Inr bs"
proof -
  assume "decode bs = Inr n"
  then have len: "length bs = 16" and hi: "drop_bit 116 (from_bytes_le bs) = 0"
    and n: "n = unpacked (from_bytes_le bs)"
    by (auto simp: decode_eq split: if_splits)
  have "le_bytes 16 (packed n) = bs"
    using le_bytes_from [of bs] len by (simp add: n packed_unpacked [OF hi])
  then show ?thesis
    by (simp add: encode_eq n encodable_unpacked)
qed

section \<open>Properties\<close>

text \<open>
  C14: encoding and decoding are inverse on exactly the legal values. A byte string is the
  encoding of a node if and only if it decodes to that node, so \<open>encode\<close> is injective,
  \<open>decode\<close> accepts no byte string that \<open>encode\<close> does not produce, and neither loses a bit.
\<close>

theorem encode_decode_iff: "encode n = Inr bs \<longleftrightarrow> decode bs = Inr n"
  using decode_encode encode_decode by blast

text \<open>
  \<open>encode\<close> succeeds exactly on nodes whose six fields fit their declared widths (4, 4, 4, 8,
  64 and 32 bits) and otherwise raises \<open>ValueError\<close>, never \<open>OverflowError\<close>: the packed value always
  fits the 16 bytes, and its top 12 bits (the reserved ones) are zero.
\<close>

theorem encode_total:
  "encode n =
     (if gn_opcode n \<in> {0..<2 ^ 4} \<and> gn_flags n \<in> {0..<2 ^ 4} \<and> gn_node_id n \<in> {0..<2 ^ 4} \<and>
         gn_dependencies n \<in> {0..<2 ^ 8} \<and> gn_operand0 n \<in> {0..<2 ^ 64} \<and>
         gn_operand1 n \<in> {0..<2 ^ 32}
      then Inr (le_bytes 16 (packed n)) else Inl ValueError) \<and>
   (case encode n of Inl e \<Rightarrow> e = ValueError
    | Inr bs \<Rightarrow> length bs = 16 \<and> drop_bit 116 (from_bytes_le bs) = 0)"
proof -
  have "encode n = Inr bs \<Longrightarrow> length bs = 16 \<and> drop_bit 116 (from_bytes_le bs) = 0" for bs
    using decode_encode [of n bs] by (auto simp: decode_eq split: if_splits)
  then show ?thesis
    by (cases "encode n") (auto simp: encode_eq encodable_def split: if_splits)
qed

end
