(* ===== verification/Ring.thy ===== *)
theory Ring
  imports Prelude
begin

text \<open>
  \<open>class Ring\<close> of \<open>runtime/driver/device.py\<close>: the bounded queue behind the command, completion
  and fault rings. The interface the device relies on is the locale \<open>bounded_fifo\<close>; the ring
  provides it, and beside it keeps the free-running 32-bit \<open>head\<close> and \<open>tail\<close> indices whose
  difference (modulo \<open>2 ^ 32\<close>) is the number of queued items.
\<close>

section \<open>The interface: a bounded first-in first-out queue\<close>

datatype 'a fifo_op = Enq 'a | Deq

datatype 'a fifo_out = Accepted bool | Item "'a option"

text \<open>A run of operations with what each one returned, on any queue and on the abstract one.\<close>

fun fifo_run ::
  "('a \<Rightarrow> 'q \<Rightarrow> bool \<times> 'q) \<Rightarrow> ('q \<Rightarrow> 'a option \<times> 'q) \<Rightarrow> 'a fifo_op list \<Rightarrow> 'q \<Rightarrow> 'a fifo_out list \<times> 'q"
where
  "fifo_run enq deq [] q = ([], q)"
| "fifo_run enq deq (Enq x # ops) q =
     (let (b, q1) = enq x q; (outs, q2) = fifo_run enq deq ops q1 in (Accepted b # outs, q2))"
| "fifo_run enq deq (Deq # ops) q =
     (let (y, q1) = deq q; (outs, q2) = fifo_run enq deq ops q1 in (Item y # outs, q2))"

fun list_enq :: "nat \<Rightarrow> 'a \<Rightarrow> 'a list \<Rightarrow> bool \<times> 'a list" where
  "list_enq cap x xs = (if length xs < cap then (True, xs @ [x]) else (False, xs))"

fun list_deq :: "'a list \<Rightarrow> 'a option \<times> 'a list" where
  "list_deq [] = (None, [])"
| "list_deq (x # xs) = (Some x, xs)"

locale bounded_fifo =
  fixes enq :: "'a \<Rightarrow> 'q \<Rightarrow> bool \<times> 'q"
    and deq :: "'q \<Rightarrow> 'a option \<times> 'q"
    and contents :: "'q \<Rightarrow> 'a list"
    and capacity :: "'q \<Rightarrow> nat"
    and invar :: "'q \<Rightarrow> bool"
  assumes invar_bound: "invar q \<Longrightarrow> length (contents q) \<le> capacity q"
    and enq_full: "invar q \<Longrightarrow> length (contents q) = capacity q \<Longrightarrow> enq x q = (False, q)"
    and enq_accepts: "invar q \<Longrightarrow> length (contents q) < capacity q \<Longrightarrow> fst (enq x q)"
    and enq_contents: "invar q \<Longrightarrow> length (contents q) < capacity q \<Longrightarrow>
          contents (snd (enq x q)) = contents q @ [x]"
    and enq_capacity: "invar q \<Longrightarrow> capacity (snd (enq x q)) = capacity q"
    and enq_invar: "invar q \<Longrightarrow> invar (snd (enq x q))"
    and deq_empty: "invar q \<Longrightarrow> contents q = [] \<Longrightarrow> deq q = (None, q)"
    and deq_first: "invar q \<Longrightarrow> contents q = x # xs \<Longrightarrow> fst (deq q) = Some x"
    and deq_contents: "invar q \<Longrightarrow> contents (snd (deq q)) = tl (contents q)"
    and deq_capacity: "invar q \<Longrightarrow> capacity (snd (deq q)) = capacity q"
    and deq_invar: "invar q \<Longrightarrow> invar (snd (deq q))"
begin

lemma enq_refines:
  assumes "invar q"
  shows "(case enq x q of (b, q') \<Rightarrow> (b, contents q')) = list_enq (capacity q) x (contents q)"
proof (cases "length (contents q) < capacity q")
  case True
  with assms enq_accepts [OF assms True, of x] enq_contents [OF assms True, of x] show ?thesis
    by (cases "enq x q") simp
next
  case False
  then have "length (contents q) = capacity q"
    using invar_bound [OF assms] by simp
  with assms show ?thesis by (simp add: enq_full)
qed

lemma deq_refines:
  assumes "invar q"
  shows "(case deq q of (y, q') \<Rightarrow> (y, contents q')) = list_deq (contents q)"
proof (cases "contents q")
  case Nil
  with assms show ?thesis by (simp add: deq_empty)
next
  case (Cons x xs)
  with assms deq_first [OF assms Cons] deq_contents [OF assms] show ?thesis
    by (cases "deq q") simp
qed

text \<open>Every run returns what the abstract bounded list returns, and ends in the same contents.\<close>

lemma run_refines:
  assumes "invar q"
  shows "(case fifo_run enq deq ops q of (outs, q') \<Rightarrow> (outs, contents q'))
       = fifo_run (list_enq (capacity q)) list_deq ops (contents q)
     \<and> invar (snd (fifo_run enq deq ops q))
     \<and> capacity (snd (fifo_run enq deq ops q)) = capacity q"
  using assms
proof (induction ops arbitrary: q)
  case Nil
  then show ?case by simp
next
  case (Cons a ops)
  show ?case
  proof (cases a)
    case (Enq x)
    obtain b q1 where q1: "enq x q = (b, q1)" by fastforce
    have "list_enq (capacity q) x (contents q) = (b, contents q1)" "invar q1" "capacity q1 = capacity q"
      using enq_refines [OF Cons.prems, of x] enq_invar [OF Cons.prems, of x]
        enq_capacity [OF Cons.prems, of x] q1 by simp_all
    with Cons.IH [of q1] Enq q1 show ?thesis
      by (auto simp del: list_enq.simps split: prod.splits)
  next
    case Deq
    obtain y q1 where q1: "deq q = (y, q1)" by fastforce
    have "list_deq (contents q) = (y, contents q1)" "invar q1" "capacity q1 = capacity q"
      using deq_refines [OF Cons.prems] deq_invar [OF Cons.prems]
        deq_capacity [OF Cons.prems] q1 by simp_all
    with Cons.IH [of q1] Deq q1 show ?thesis
      by (auto split: prod.splits)
  qed
qed

end

section \<open>The ring\<close>

record 'a ring =
  ring_entries :: int
  ring_items :: "'a list"
  ring_head :: int
  ring_tail :: int

definition Ring_init :: "int \<Rightarrow> 'a ring res" where
  "Ring_init entries =
     (if entries < 4 \<or> entries > 1024 \<or> entries AND (entries - 1) \<noteq> 0 then Inl ValueError
      else Inr \<lparr>ring_entries = entries, ring_items = [], ring_head = 0, ring_tail = 0\<rparr>)"

definition push :: "'a \<Rightarrow> 'a ring \<Rightarrow> bool \<times> 'a ring" where
  "push item r =
     (if int (length (ring_items r)) = ring_entries r then (False, r)
      else (True, r\<lparr>ring_items := ring_items r @ [item],
                    ring_tail := (ring_tail r + 1) AND MASK32\<rparr>))"

definition pop :: "'a ring \<Rightarrow> 'a option \<times> 'a ring" where
  "pop r =
     (case ring_items r of [] \<Rightarrow> (None, r)
      | x # xs \<Rightarrow> (Some x, r\<lparr>ring_head := (ring_head r + 1) AND MASK32, ring_items := xs\<rparr>))"

definition ring_len :: "'a ring \<Rightarrow> int" where
  "ring_len r = int (length (ring_items r))"

text \<open>
  The invariant: a legal size, no more items than entries, and 32-bit indices that differ by
  the number of items.
\<close>

definition legal_size :: "int \<Rightarrow> bool" where
  "legal_size n \<longleftrightarrow> n \<in> set (map (\<lambda>k. 2 ^ k) [2..<11])"

definition wf_ring :: "'a ring \<Rightarrow> bool" where
  "wf_ring r \<longleftrightarrow>
     legal_size (ring_entries r) \<and> ring_len r \<le> ring_entries r \<and>
     ring_head r \<in> {0..<2 ^ 32} \<and> ring_tail r \<in> {0..<2 ^ 32} \<and>
     (ring_tail r - ring_head r) mod 2 ^ 32 = ring_len r"

subsection \<open>Sizes\<close>

text \<open>\<open>n & (n - 1)\<close> clears the lowest set bit, so it is zero on powers of two only.\<close>

lemma and_pred_eq_0_iff:
  assumes "0 < n"
  shows "n AND (n - 1) = (0::int) \<longleftrightarrow> (\<exists>k. n = 2 ^ k)"
  using assms
proof (induction "nat n" arbitrary: n rule: less_induct)
  case less
  show ?case
  proof (cases "even n")
    case True
    then obtain m where m: "n = 2 * m" by blast
    with less.prems have "0 < m" "nat m < nat n" by auto
    then have IH: "m AND (m - 1) = 0 \<longleftrightarrow> (\<exists>k. m = 2 ^ k)"
      using less.hyps by blast
    have "(2 * m - 1) div 2 = m - 1" by simp
    then have "n AND (n - 1) = 2 * (m AND (m - 1))"
      by (subst and_int_rec) (simp add: m)
    moreover have "(\<exists>k. n = 2 ^ k) \<longleftrightarrow> (\<exists>k. m = 2 ^ k)"
    proof
      assume "\<exists>k. n = 2 ^ k"
      then obtain k where k: "n = 2 ^ k" by blast
      with True have "k \<noteq> 0" by (cases k) auto
      then obtain j where "k = Suc j" by (cases k) auto
      with k m show "\<exists>k. m = 2 ^ k" by auto
    next
      assume "\<exists>k. m = 2 ^ k"
      then show "\<exists>k. n = 2 ^ k" unfolding m by (metis power_Suc)
    qed
    ultimately show ?thesis using IH by simp
  next
    case False
    have pow: "(\<exists>k. n = 2 ^ k) \<longleftrightarrow> n = 1"
    proof
      assume "\<exists>k. n = 2 ^ k"
      then obtain k where "n = 2 ^ k" by blast
      with False show "n = 1" by (cases k) auto
    next
      assume "n = 1"
      then show "\<exists>k. n = 2 ^ k" by (intro exI [of _ 0]) simp
    qed
    from False obtain m where m: "n = 2 * m + 1" by (elim oddE)
    with less.prems have "0 \<le> m" by simp
    have "n AND (n - 1) = 2 * m"
      by (subst and_int_rec) (simp add: m)
    with pow m show ?thesis by auto
  qed
qed

lemma legal_size_iff:
  "legal_size n \<longleftrightarrow> 4 \<le> n \<and> n \<le> 1024 \<and> n AND (n - 1) = 0"
proof
  assume "legal_size n"
  then show "4 \<le> n \<and> n \<le> 1024 \<and> n AND (n - 1) = 0"
    by (auto simp: legal_size_def upt_rec and_pred_eq_0_iff)
next
  assume n: "4 \<le> n \<and> n \<le> 1024 \<and> n AND (n - 1) = 0"
  then obtain k where k: "n = 2 ^ k"
    using and_pred_eq_0_iff [of n] by auto
  have "(2::int) ^ 2 \<le> 2 ^ k" "(2::int) ^ k \<le> 2 ^ 10"
    using n k by simp_all
  then have "2 \<le> k" "k \<le> 10"
    by (simp_all only: power_increasing_iff)
  then show "legal_size n"
    unfolding legal_size_def k set_map set_upt by (intro imageI) simp
qed

lemma legal_size_bounds: "legal_size n \<Longrightarrow> 4 \<le> n \<and> n \<le> 1024"
  by (simp add: legal_size_iff)

lemma Ring_init_eq:
  "Ring_init n =
     (if legal_size n
      then Inr \<lparr>ring_entries = n, ring_items = [], ring_head = 0, ring_tail = 0\<rparr> else Inl ValueError)"
  by (auto simp: Ring_init_def legal_size_iff)

lemma Ring_init_fields:
  "Ring_init n = Inr r \<Longrightarrow> ring_items r = [] \<and> ring_entries r = n \<and> legal_size n"
  by (auto simp: Ring_init_eq split: if_splits)

lemma wf_Ring_init: "Ring_init n = Inr r \<Longrightarrow> wf_ring r"
  by (auto simp: Ring_init_eq wf_ring_def ring_len_def legal_size_bounds split: if_splits
      dest: legal_size_bounds)

subsection \<open>push and pop\<close>

lemma push_full [ring_simps]: "int (length (ring_items r)) = ring_entries r \<Longrightarrow> push x r = (False, r)"
  by (simp add: push_def)

lemma push_room [ring_simps]:
  assumes "int (length (ring_items r)) < ring_entries r"
  shows "fst (push x r)" "ring_items (snd (push x r)) = ring_items r @ [x]"
  using assms by (simp_all add: push_def)

lemma push_entries [simp, ring_simps]: "ring_entries (snd (push x r)) = ring_entries r"
  by (simp add: push_def)

lemma pop_entries [simp, ring_simps]: "ring_entries (snd (pop r)) = ring_entries r"
  by (simp add: pop_def split: list.split)

lemma pop_empty [ring_simps]: "ring_items r = [] \<Longrightarrow> pop r = (None, r)"
  by (simp add: pop_def)

lemma pop_first [ring_simps]: "ring_items r = x # xs \<Longrightarrow> fst (pop r) = Some x"
  by (simp add: pop_def)

lemma pop_items [simp, ring_simps]: "ring_items (snd (pop r)) = tl (ring_items r)"
  by (simp add: pop_def split: list.split)

lemma pop_None_iff: "fst (pop r) = None \<longleftrightarrow> ring_items r = []"
  by (simp add: pop_def split: list.split)

lemma pop_SomeD: "pop r = (Some x, r') \<Longrightarrow> ring_items r = x # ring_items r'"
  by (auto simp: pop_def split: list.splits)

lemma pop_NoneD: "pop r = (None, r') \<Longrightarrow> ring_items r = [] \<and> r' = r"
  by (auto simp: pop_def split: list.splits)

lemma push_TrueD:
  "push x r = (True, r') \<Longrightarrow> ring_items r' = ring_items r @ [x] \<and> ring_entries r' = ring_entries r"
  by (auto simp: push_def split: if_splits)

lemma push_FalseD:
  "push x r = (False, r') \<Longrightarrow> r' = r \<and> int (length (ring_items r)) = ring_entries r"
  by (auto simp: push_def split: if_splits)

lemma u32_range [simp]: "x AND MASK32 \<in> {0..<2 ^ 32}"
  by (simp add: and_MASK32)

lemma wf_push: "wf_ring r \<Longrightarrow> wf_ring (snd (push x r))"
proof -
  assume wf: "wf_ring r"
  show ?thesis
  proof (cases "int (length (ring_items r)) = ring_entries r")
    case True
    then show ?thesis using wf by (simp add: push_full)
  next
    case False
    have diff: "(ring_tail r - ring_head r) mod 2 ^ 32 = int (length (ring_items r))"
      and len: "int (length (ring_items r)) < ring_entries r" and "ring_entries r \<le> 1024"
      using wf False legal_size_bounds by (auto simp: wf_ring_def ring_len_def)
    then have "((ring_tail r - ring_head r) mod 2 ^ 32 + 1) mod 2 ^ 32
        = int (length (ring_items r)) + 1"
      by simp
    then have "((ring_tail r + 1) mod 2 ^ 32 - ring_head r) mod 2 ^ 32
        = int (length (ring_items r)) + 1"
      by (simp only: mod_simps) (simp add: algebra_simps)
    with wf False len show ?thesis
      by (simp add: wf_ring_def push_def ring_len_def and_MASK32)
  qed
qed

lemma wf_pop: "wf_ring r \<Longrightarrow> wf_ring (snd (pop r))"
proof -
  assume wf: "wf_ring r"
  show ?thesis
  proof (cases "ring_items r")
    case Nil
    then show ?thesis using wf by (simp add: pop_def)
  next
    case (Cons x xs)
    have diff: "(ring_tail r - ring_head r) mod 2 ^ 32 = int (length xs) + 1"
      and "int (length xs) + 1 \<le> ring_entries r" and "ring_entries r \<le> 1024"
      using wf Cons legal_size_bounds by (auto simp: wf_ring_def ring_len_def)
    then have "((ring_tail r - ring_head r) mod 2 ^ 32 - 1) mod 2 ^ 32 = int (length xs)"
      by simp
    then have "(ring_tail r - (ring_head r + 1) mod 2 ^ 32) mod 2 ^ 32 = int (length xs)"
      by (simp only: mod_simps) (simp add: algebra_simps)
    with wf Cons show ?thesis
      by (simp add: wf_ring_def pop_def ring_len_def and_MASK32)
  qed
qed

section \<open>The ring provides the interface\<close>

interpretation ring_fifo:
  bounded_fifo push pop ring_items "\<lambda>r. nat (ring_entries r)" wf_ring
proof unfold_locales
  fix q :: "'a ring" and x xs
  assume wf: "wf_ring q"
  then have le: "int (length (ring_items q)) \<le> ring_entries q" and "0 \<le> ring_entries q"
    by (auto simp: wf_ring_def ring_len_def)
  then show "length (ring_items q) \<le> nat (ring_entries q)" by simp
  show "length (ring_items q) = nat (ring_entries q) \<Longrightarrow> push x q = (False, q)"
    using le \<open>0 \<le> ring_entries q\<close> by (simp add: push_def)
  show "length (ring_items q) < nat (ring_entries q) \<Longrightarrow> fst (push x q)"
    using le \<open>0 \<le> ring_entries q\<close> by (simp add: push_def)
  show "length (ring_items q) < nat (ring_entries q) \<Longrightarrow>
      ring_items (snd (push x q)) = ring_items q @ [x]"
    using le \<open>0 \<le> ring_entries q\<close> by (simp add: push_def)
  show "nat (ring_entries (snd (push x q))) = nat (ring_entries q)"
    and "nat (ring_entries (snd (pop q))) = nat (ring_entries q)" by simp_all
  show "wf_ring (snd (push x q))" using wf by (rule wf_push)
  show "wf_ring (snd (pop q))" using wf by (rule wf_pop)
  show "ring_items q = [] \<Longrightarrow> pop q = (None, q)" by (rule pop_empty)
  show "ring_items q = x # xs \<Longrightarrow> fst (pop q) = Some x" by (rule pop_first)
  show "ring_items (snd (pop q)) = tl (ring_items q)" by simp
qed

section \<open>Properties\<close>

text \<open>
  C13: a ring constructed with \<open>n\<close> entries refines a bounded FIFO list of capacity \<open>n\<close>: for every
  sequence of pushes and pops it returns exactly what the list queue returns (items in order,
  \<open>False\<close> when full, \<open>None\<close> when empty) and holds the same items, and at the end the distance of
  the two free-running 32-bit indices is the number of queued items, also after they wrap.
\<close>

theorem ring_refines_fifo:
  assumes "Ring_init n = Inr r" and "fifo_run push pop ops r = (outs, r')"
  shows "fifo_run (list_enq (nat n)) list_deq ops [] = (outs, ring_items r') \<and>
         (ring_tail r' - ring_head r') AND MASK32 = int (length (ring_items r')) \<and>
         int (length (ring_items r')) \<le> n"
proof -
  have r: "ring_items r = []" "ring_entries r = n"
    using Ring_init_fields [OF assms(1)] by simp_all
  have "wf_ring r" by (rule wf_Ring_init [OF assms(1)])
  from ring_fifo.run_refines [OF this, of ops] have
    "(outs, ring_items r') = fifo_run (list_enq (nat n)) list_deq ops []"
    "wf_ring r'" "nat (ring_entries r') = nat n"
    by (simp_all add: assms(2) r)
  then show ?thesis
    using legal_size_bounds [of "ring_entries r'"] Ring_init_fields [OF assms(1)]
    by (auto simp: wf_ring_def ring_len_def and_MASK32)
qed

theorem ring_refines_fifo_witness:
  "\<exists>r r'. Ring_init 4 = Inr r \<and>
     fifo_run push pop [Enq 7, Enq 8, Deq, Enq 9, Enq 10, Enq 11, Enq (12::int), Deq] r
       = ([Accepted True, Accepted True, Item (Some 7), Accepted True,
           Accepted True, Accepted True, Accepted False, Item (Some 8)], r') \<and>
     (ring_tail r' - ring_head r') AND MASK32 = 3"
proof -
  let ?ops = "[Enq 7, Enq 8, Deq, Enq 9, Enq 10, Enq 11, Enq (12::int), Deq]"
  obtain r :: "int ring" where init: "Ring_init 4 = Inr r" by (simp add: Ring_init_def)
  obtain outs r' where run: "fifo_run push pop ?ops r = (outs, r')" by fastforce
  have abs: "fifo_run (list_enq (nat 4)) list_deq ?ops []
    = ([Accepted True, Accepted True, Item (Some 7), Accepted True,
        Accepted True, Accepted True, Accepted False, Item (Some 8)], [9, 10, 11])"
    by simp
  have "outs = [Accepted True, Accepted True, Item (Some 7), Accepted True,
        Accepted True, Accepted True, Accepted False, Item (Some 8)]"
    and "ring_items r' = [9, 10, 11]"
    and "(ring_tail r' - ring_head r') AND MASK32 = int (length (ring_items r'))"
    using ring_refines_fifo [OF init run] unfolding abs by simp_all
  with init run show ?thesis by auto
qed

text \<open>
  the constructor accepts exactly the powers of two from 4 through 1024 and raises
  \<open>ValueError\<close> on every other integer (zero and negative sizes included).
\<close>

theorem Ring_init_accepts:
  "Ring_init n =
     (if \<exists>k \<in> {2..10}. n = 2 ^ k
      then Inr \<lparr>ring_entries = n, ring_items = [], ring_head = 0, ring_tail = 0\<rparr>
      else Inl ValueError)"
proof -
  have "legal_size n \<longleftrightarrow> (\<exists>k \<in> {2..10}. n = 2 ^ k)"
    unfolding legal_size_def set_map set_upt by force
  then show ?thesis by (simp only: Ring_init_eq)
qed

end
