(* ===== verification/Scheduler.thy ===== *)
theory Scheduler
  imports Protocol "HOL-Library.Multiset"
begin

text \<open>
  The dependency scheduling that \<open>RcifDevice._execute_graph\<close> (\<open>runtime/driver/device.py\<close>) and
  \<open>FpgaPrototypeDevice._execute_graph\<close> (\<open>fpga/prototype.py\<close>) share: rescan the remaining nodes from
  the start, run the first ready one, set its bit in \<open>complete_mask\<close>, remove it and start over.
  What a node does, and what is reported when nothing is ready, differs between the two; the
  locale \<open>graph_engine\<close> states the scan as a contract over those, and the theories of the two
  engines interpret it.

  The abstract specification is \<open>sched_path\<close>: an execution that may run \<^emph>\<open>any\<close> ready node next.
\<close>

section \<open>Readiness\<close>

text \<open>\<open>if node.node_id > 7 or node.dependencies & ~complete_mask: continue\<close>\<close>

definition ready :: "int \<Rightarrow> graph_node \<Rightarrow> bool" where
  "ready complete_mask node \<longleftrightarrow>
     \<not> (gn_node_id node > 7 \<or> gn_dependencies node AND NOT complete_mask \<noteq> 0)"

text \<open>\<open>complete_mask |= 1 << node.node_id\<close>, for an id that is not negative.\<close>

definition mark_done :: "int \<Rightarrow> graph_node \<Rightarrow> int" where
  "mark_done complete_mask node = complete_mask OR push_bit (nat (gn_node_id node)) 1"

lemma ready_iff:
  "ready m n \<longleftrightarrow> gn_node_id n \<le> 7 \<and> (\<forall>i. bit (gn_dependencies n) i \<longrightarrow> bit m i)"
  by (auto simp: ready_def and_not_zero_iff)

lemma bit_mark_done: "bit (mark_done m n) i \<longleftrightarrow> bit m i \<or> i = nat (gn_node_id n)"
  unfolding mark_done_def by (rule bit_or_push_one)

lemma ready_mono: "ready m n \<Longrightarrow> (\<And>i. bit m i \<Longrightarrow> bit m' i) \<Longrightarrow> ready m' n"
  by (auto simp: ready_iff)

section \<open>The abstract scheduler\<close>

text \<open>
  \<open>exec n s\<close> runs node \<open>n\<close> in engine state \<open>s\<close>: \<open>Inl\<close> a new state when the graph goes on, \<open>Inr\<close>
  the final outcome when the node ends it.
\<close>

inductive sched_path ::
  "(graph_node \<Rightarrow> 's \<Rightarrow> 's + 'r) \<Rightarrow> graph_node list \<Rightarrow> int \<Rightarrow> 's \<Rightarrow>
   graph_node list \<Rightarrow> graph_node list \<Rightarrow> int \<Rightarrow> 's \<Rightarrow> bool" for exec
where
  path_nil: "sched_path exec rem m s [] rem m s"
| path_snoc: "sched_path exec rem m s tr rem1 m1 s1 \<Longrightarrow> n \<in> set rem1 \<Longrightarrow> ready m1 n \<Longrightarrow>
     exec n s1 = Inl s2 \<Longrightarrow>
     sched_path exec rem m s (tr @ [n]) (remove1 n rem1) (mark_done m1 n) s2"

inductive_cases sched_path_nilE: "sched_path exec rem m s [] rem' m' s'"
inductive_simps sched_path_nil_iff: "sched_path exec rem m s [] rem' m' s'"

lemma path_mset: "sched_path exec rem m s tr rem' m' s' \<Longrightarrow> mset rem = mset tr + mset rem'"
  by (induction rule: sched_path.induct) auto

lemma path_mask:
  "sched_path exec rem m s tr rem' m' s' \<Longrightarrow>
     bit m' i \<longleftrightarrow> bit m i \<or> (\<exists>n \<in> set tr. i = nat (gn_node_id n))"
  by (induction rule: sched_path.induct) (auto simp: bit_mark_done)

lemma path_cons:
  assumes "sched_path exec (remove1 n rem) (mark_done m n) s1 tr rem' m' s'"
    and "n \<in> set rem" "ready m n" "exec n s = Inl s1"
  shows "sched_path exec rem m s (n # tr) rem' m' s'"
  using assms
proof (induction "remove1 n rem" "mark_done m n" s1 tr rem' m' s' rule: sched_path.induct)
  case (path_nil s1)
  then show ?case
    using sched_path.path_snoc [OF sched_path.path_nil, of n rem m exec s s1] by simp
next
  case (path_snoc s1 tr rem1 m1 s2 k s3)
  then show ?case
    using sched_path.path_snoc [of exec rem m s "n # tr" rem1 m1 s2 k s3] by simp
qed

text \<open>Every node runs after the nodes it depends on.\<close>

lemma path_deps:
  "sched_path exec rem m s tr rem' m' s' \<Longrightarrow> k < length tr \<Longrightarrow> bit (gn_dependencies (tr ! k)) i \<Longrightarrow>
     bit m i \<or> (\<exists>j < k. nat (gn_node_id (tr ! j)) = i)"
proof (induction arbitrary: k rule: sched_path.induct)
  case (path_nil rem m s)
  then show ?case by simp
next
  case (path_snoc rem m s tr rem1 m1 s1 n s2)
  have earlier: "(tr @ [n]) ! j = tr ! j" if "j < k" for j
    using that path_snoc.prems(1) by (simp add: nth_append)
  show ?case
  proof (cases "k < length tr")
    case True
    then have "bit (gn_dependencies (tr ! k)) i"
      using path_snoc.prems(2) by (simp add: nth_append)
    with True have "bit m i \<or> (\<exists>j < k. nat (gn_node_id (tr ! j)) = i)"
      by (rule path_snoc.IH)
    with earlier show ?thesis by metis
  next
    case False
    with path_snoc.prems have k: "k = length tr" and "bit (gn_dependencies n) i"
      by (auto simp: nth_append less_Suc_eq)
    then have "bit m1 i"
      using path_snoc.hyps(3) by (simp add: ready_iff)
    then have "bit m i \<or> (\<exists>n' \<in> set tr. i = nat (gn_node_id n'))"
      by (simp only: path_mask [OF path_snoc.hyps(1)])
    then show ?thesis
      using earlier k by (metis in_set_conv_nth)
  qed
qed

lemma path_exec:
  "sched_path exec rem m s tr rem' m' s' \<Longrightarrow> n \<in> set tr \<Longrightarrow> gn_node_id n \<le> 7 \<and> (\<exists>s1 s2. exec n s1 = Inl s2)"
  by (induction rule: sched_path.induct) (auto simp: ready_iff)

text \<open>
  A schedule that got stuck has run everything any schedule can run: whatever another
  execution of the same graph runs, in whatever order, was run before the stuck one stopped.
\<close>

lemma stuck_path_maximal:
  assumes stuck: "sched_path exec rem m s tr rem' m' s'" "\<And>n. n \<in> set rem' \<Longrightarrow> \<not> ready m' n"
    and other: "sched_path exec2 rem m s2 tr2 rem2 m2 s2'"
  shows "mset tr2 \<subseteq># mset tr \<and> (\<forall>i. bit m2 i \<longrightarrow> bit m' i)"
    and "n \<in> set rem2 \<Longrightarrow> ready m2 n \<Longrightarrow> n \<in> set tr"
proof -
  have split: "mset rem = mset tr + mset rem'" by (rule path_mset [OF stuck(1)])
  have next_run: "mset (tr2 @ [n]) \<subseteq># mset tr"
    if p: "sched_path exec2 rem m s2 tr2 rem2 m2 s2'" and sub: "mset tr2 \<subseteq># mset tr"
      and bits: "\<forall>i. bit m2 i \<longrightarrow> bit m' i" and n: "n \<in> set rem2" "ready m2 n"
    for tr2 rem2 m2 s2' n
  proof (rule ccontr)
    assume no: "\<not> mset (tr2 @ [n]) \<subseteq># mset tr"
    have "count (mset tr2) n = count (mset tr) n"
    proof (rule ccontr)
      assume "count (mset tr2) n \<noteq> count (mset tr) n"
      with mset_subset_eq_count [OF sub, of n] have "count (mset tr2) n < count (mset tr) n" by simp
      then have "mset (tr2 @ [n]) \<subseteq># mset tr"
        using mset_subset_eq_count [OF sub] by (intro mset_subset_eqI) (auto simp: Suc_le_eq)
      with no show False ..
    qed
    moreover have "count (mset tr2) n + count (mset rem2) n = count (mset tr) n + count (mset rem') n"
      using path_mset [OF p] split by (metis count_union)
    moreover have "count (mset rem2) n > 0" using n by simp
    ultimately have "n \<in> set rem'" by (metis add_left_cancel count_greater_zero_iff set_mset_mset)
    with stuck(2) show False using ready_mono [OF n(2)] bits by blast
  qed
  have main: "mset tr2 \<subseteq># mset tr \<and> (\<forall>i. bit m2 i \<longrightarrow> bit m' i)"
    using other split next_run stuck(1)
  proof (induction rule: sched_path.induct)
    case (path_nil rem m s)
    then show ?case using path_mask by fastforce
  next
    case (path_snoc rem m s tr0 rem1 m1 s1 n s2)
    then have IH: "mset tr0 \<subseteq># mset tr" "\<forall>i. bit m1 i \<longrightarrow> bit m' i" by auto
    have sub: "mset (tr0 @ [n]) \<subseteq># mset tr"
      using path_snoc.prems(2) [OF path_snoc.hyps(1) IH path_snoc.hyps(2,3)] .
    then have "n \<in> set tr" by (metis in_set_conv_decomp mset_subset_eqD set_mset_mset)
    then have "bit m' (nat (gn_node_id n))"
      using path_mask [OF path_snoc.prems(3)] by blast
    with sub IH show ?case by (auto simp: bit_mark_done)
  qed
  then show "mset tr2 \<subseteq># mset tr \<and> (\<forall>i. bit m2 i \<longrightarrow> bit m' i)" .
  assume "n \<in> set rem2" "ready m2 n"
  then have "mset (tr2 @ [n]) \<subseteq># mset tr"
    using next_run [OF other] main by blast
  then show "n \<in> set tr" by (metis in_set_conv_decomp mset_subset_eqD set_mset_mset)
qed

section \<open>The contract of an engine's scan loop\<close>

text \<open>
  \<open>loop rem m s\<close> is what the engine's \<open>while remaining\<close> computes from the remaining nodes, the
  completion mask and the engine state; \<open>stuck\<close> and \<open>drained\<close> are its outcomes when no node is
  ready and when all nodes ran without one ending the graph.
\<close>

locale graph_engine =
  fixes loop :: "graph_node list \<Rightarrow> int \<Rightarrow> 's \<Rightarrow> 'r"
    and exec :: "graph_node \<Rightarrow> 's \<Rightarrow> 's + 'r"
    and stuck :: "int \<Rightarrow> 's \<Rightarrow> 'r"
    and drained :: "int \<Rightarrow> 's \<Rightarrow> 'r"
  assumes loop_drained: "loop [] m s = drained m s"
    and loop_stuck: "rem \<noteq> [] \<Longrightarrow> find (ready m) rem = None \<Longrightarrow> loop rem m s = stuck m s"
    and loop_step: "find (ready m) rem = Some n \<Longrightarrow> exec n s = Inl s' \<Longrightarrow>
          loop rem m s = loop (remove1 n rem) (mark_done m n) s'"
    and loop_end: "find (ready m) rem = Some n \<Longrightarrow> exec n s = Inr r \<Longrightarrow> loop rem m s = r"
begin

text \<open>
  The loop follows one path of the abstract scheduler and stops for one of three reasons: it
  ran everything, nothing is ready, or the node it runs next ends the graph.
\<close>

lemma loop_follows_path:
  obtains tr rem' m' s' where
    "sched_path exec rem m s tr rem' m' s'"
    "find (ready m') rem' = None \<and> loop rem m s = (if rem' = [] then drained m' s' else stuck m' s')
     \<or> (\<exists>n r. find (ready m') rem' = Some n \<and> exec n s' = Inr r \<and> loop rem m s = r)"
proof -
  have "\<exists>tr rem' m' s'. sched_path exec rem m s tr rem' m' s' \<and>
    (find (ready m') rem' = None \<and> loop rem m s = (if rem' = [] then drained m' s' else stuck m' s')
     \<or> (\<exists>n r. find (ready m') rem' = Some n \<and> exec n s' = Inr r \<and> loop rem m s = r))"
  proof (induction "length rem" arbitrary: rem m s rule: less_induct)
    case less
    show ?case
    proof (cases "find (ready m) rem")
      case None
      then have "loop rem m s = (if rem = [] then drained m s else stuck m s)"
        using loop_drained loop_stuck by simp
      with None show ?thesis
        by (intro exI [of _ "[]"] exI [of _ rem] exI [of _ m] exI [of _ s])
          (simp add: sched_path.path_nil)
    next
      case (Some n)
      show ?thesis
      proof (cases "exec n s")
        case (Inr r)
        then have "loop rem m s = r" using loop_end [OF Some] by simp
        with Some Inr show ?thesis
          by (intro exI [of _ "[]"] exI [of _ rem] exI [of _ m] exI [of _ s])
            (simp add: sched_path.path_nil)
      next
        case (Inl s1)
        have n: "n \<in> set rem" "ready m n" using find_SomeD [OF Some] by simp_all
        have eq: "loop rem m s = loop (remove1 n rem) (mark_done m n) s1"
          by (rule loop_step [OF Some Inl])
        obtain tr rem' m' s' where
          p: "sched_path exec (remove1 n rem) (mark_done m n) s1 tr rem' m' s'"
          and out: "find (ready m') rem' = None \<and>
             loop rem m s = (if rem' = [] then drained m' s' else stuck m' s')
           \<or> (\<exists>n r. find (ready m') rem' = Some n \<and> exec n s' = Inr r \<and> loop rem m s = r)"
          using less [OF length_remove1_less [OF n(1)], of "mark_done m n" s1] unfolding eq by blast
        have "sched_path exec rem m s (n # tr) rem' m' s'"
          using p n Inl by (rule path_cons)
        with out show ?thesis by blast
      qed
    qed
  qed
  then show ?thesis using that by blast
qed

text \<open>
  The deterministic scan loses nothing: when it stops because nothing is ready, no other
  order of running ready nodes gets any further, and a node that always ends the graph
  is out of reach of every one of them.
\<close>

lemma stuck_is_final:
  assumes path: "sched_path exec rem m s tr rem' m' s'" and none: "find (ready m') rem' = None"
    and other: "sched_path exec rem m s tr2 rem2 m2 s2"
    and n: "n \<in> set rem2" "ready m2 n"
  shows "\<exists>s1 s2. exec n s1 = Inl s2"
  using stuck_path_maximal(2) [OF path _ other n] find_NoneD [OF none] path_exec [OF path]
  by blast

end

end
