(* ===== verification/Device.thy ===== *)
theory Device
  imports Ring Scheduler
begin

text \<open>
  \<open>class RcifDevice\<close> of \<open>runtime/driver/device.py\<close>: registers, the three rings, the graph
  scheduler boundary and the KV MMU.

  The record \<open>device\<close> holds the instance attributes. Its operations are stated on
  \<open>'x device_scheme\<close>, so they also apply to the subclass of \<open>fpga/prototype.py\<close>, whose record
  extends this one; the method the subclass overrides, \<open>_execute_graph\<close>, is the argument \<open>eg\<close>
  of the operations that dispatch to it. The locale \<open>engine_contract\<close> is what the rest of the
  control plane relies on of such an override.
\<close>

section \<open>State\<close>

record device =
  otp_minimum_version :: int
  counters :: "counter \<Rightarrow> int"
  debug_locked :: bool
  status :: device_status
  secure_verified :: bool
  boot_failed :: bool
  firmware_version :: int
  enabled :: bool
  command_ring :: "command ring option"
  completion_ring :: "completion ring option"
  fault_ring :: "fault ring option"
  pending :: "int \<rightharpoonup> command"
  kv_pages :: "int \<rightharpoonup> int"

type_synonym ('v, 'x) dev_result = "'v res \<times> 'x device_scheme"

type_synonym 'x graph_method = "command \<Rightarrow> 'x device_scheme \<Rightarrow> (unit, 'x) dev_result"

section \<open>Operations\<close>

definition power_on_reset :: "'x device_scheme \<Rightarrow> 'x device_scheme" where
  "power_on_reset d =
     d\<lparr>status := BOOT_ROM, secure_verified := False, boot_failed := False, debug_locked := False,
       firmware_version := 0, enabled := False, command_ring := None, completion_ring := None,
       fault_ring := None, pending := Map.empty, kv_pages := Map.empty\<rparr>"

text \<open>The constructor sets three attributes; \<open>power_on_reset\<close> sets all the others.\<close>

definition RcifDevice_init :: "int \<Rightarrow> device" where
  "RcifDevice_init otp =
     power_on_reset
       \<lparr>otp_minimum_version = otp, counters = (\<lambda>_. 0), debug_locked = False, status = BOOT_ROM,
        secure_verified = False, boot_failed = False, firmware_version = 0, enabled = False,
        command_ring = None, completion_ring = None, fault_ring = None, pending = Map.empty,
        kv_pages = Map.empty\<rparr>"

definition warm_reset :: "'x device_scheme \<Rightarrow> 'x device_scheme" where
  "warm_reset d =
     (let locked = debug_locked d; version = firmware_version d; verified = secure_verified d in
      d\<lparr>enabled := False, status := (if verified then FIRMWARE_READY else BOOT_ROM),
        command_ring := None, completion_ring := None, fault_ring := None, pending := Map.empty,
        debug_locked := locked, firmware_version := version\<rparr>)"

definition initialize_queues :: "int \<Rightarrow> 'x device_scheme \<Rightarrow> (unit, 'x) dev_result" where
  "initialize_queues entries d =
     (case Ring_init entries of Inl e \<Rightarrow> (Inl e, d)
      | Inr r1 \<Rightarrow> let d1 = d\<lparr>command_ring := Some r1\<rparr> in
        (case Ring_init entries of Inl e \<Rightarrow> (Inl e, d1)
         | Inr r2 \<Rightarrow> let d2 = d1\<lparr>completion_ring := Some r2\<rparr> in
           (case Ring_init entries of Inl e \<Rightarrow> (Inl e, d2)
            | Inr r3 \<Rightarrow> (Inr (), d2\<lparr>fault_ring := Some r3\<rparr>))))"

definition enable :: "'x device_scheme \<Rightarrow> (unit, 'x) dev_result" where
  "enable d =
     (if \<not> secure_verified d \<or> boot_failed d then (Inl PermissionError, d)
      else if command_ring d = None \<or> completion_ring d = None \<or> fault_ring d = None
      then (Inl RuntimeError, d)
      else (Inr (), d\<lparr>enabled := True, status := RUNNING\<rparr>))"

definition increment :: "counter \<Rightarrow> int \<Rightarrow> 'x device_scheme \<Rightarrow> 'x device_scheme" where
  "increment c amount d = d\<lparr>counters := (counters d)(c := min MASK64 (counters d c + amount))\<rparr>"

definition complete_with :: "completion \<Rightarrow> 'x device_scheme \<Rightarrow> 'x device_scheme" where
  "complete_with cpl d =
     (let dropped = (increment QUEUE_ERRORS 1 d)\<lparr>status := FATAL, enabled := False\<rparr> in
      case completion_ring d of None \<Rightarrow> dropped
      | Some r \<Rightarrow>
        (case push cpl r of (accepted, r') \<Rightarrow>
           if \<not> accepted then dropped
           else let d1 = increment COMPLETED 1 (d\<lparr>completion_ring := Some r'\<rparr>) in
             if cpl_status cpl \<noteq> OK then increment ERRORS 1 d1 else d1))"

definition translate :: "command \<Rightarrow> 'x device_scheme \<Rightarrow> 'x device_scheme" where
  "translate cmd d =
     (let page = cmd_argument cmd; rid = cmd_request_id cmd in
      case kv_pages d page of Some phys \<Rightarrow> complete_with (Completion rid OK phys) d
      | None \<Rightarrow>
        (let flt = Fault rid page KV_MISS (cmd_retry_count cmd);
             d1 = increment KV_FAULTS 1 (d\<lparr>pending := (pending d)(rid \<mapsto> cmd)\<rparr>);
             overflow = (\<lambda>d2. complete_with (Completion rid KV_MISS page)
               ((increment FAULT_OVERFLOWS 1 d2)\<lparr>pending := (pending d2)(rid := None)\<rparr>)) in
         case fault_ring d1 of None \<Rightarrow> overflow d1
         | Some r \<Rightarrow>
           (case push flt r of (accepted, r') \<Rightarrow>
              if accepted then d1\<lparr>fault_ring := Some r'\<rparr> else overflow d1)))"

definition execute :: "'x graph_method \<Rightarrow> 'x graph_method" where
  "execute eg cmd d =
     (if cmd_flags cmd \<noteq> 0 then (Inr (), complete_with (Completion (cmd_request_id cmd) BAD_FLAGS 0) d)
      else if cmd_opcode cmd = command_opcode_value SUBMIT_GRAPH then eg cmd d
      else if cmd_opcode cmd = command_opcode_value KV_TRANSLATE then (Inr (), translate cmd d)
      else (Inr (), complete_with (Completion (cmd_request_id cmd) UNSUPPORTED 0) d))"

definition submit :: "command \<Rightarrow> 'x device_scheme \<Rightarrow> (bool, 'x) dev_result" where
  "submit cmd d =
     (if \<not> enabled d then (Inl RuntimeError, d)
      else case command_ring d of None \<Rightarrow> (Inl RuntimeError, d)
      | Some r \<Rightarrow>
        (case push cmd r of (accepted, r') \<Rightarrow>
           if accepted then (Inr True, d\<lparr>command_ring := Some r'\<rparr>)
           else (Inr False, increment QUEUE_ERRORS 1 d)))"

text \<open>
  The \<open>while\<close> of \<open>process\<close>: one unit of fuel per iteration. \<open>process\<close> starts it with one more
  than the number of queued commands; \<open>OutOfFuel\<close> would need an \<open>_execute_graph\<close> that
  enqueues commands itself.
\<close>

fun process_loop ::
  "'x graph_method \<Rightarrow> nat \<Rightarrow> int option \<Rightarrow> int \<Rightarrow> 'x device_scheme \<Rightarrow> (int, 'x) dev_result"
where
  "process_loop eg 0 budget processed d = (Inl OutOfFuel, d)"
| "process_loop eg (Suc fuel) budget processed d =
     (if (case budget of None \<Rightarrow> True | Some b \<Rightarrow> processed < b) then
        (case command_ring d of None \<Rightarrow> (Inl AttributeError, d)
         | Some r \<Rightarrow>
           (case pop r of (None, r') \<Rightarrow> (Inr processed, d\<lparr>command_ring := Some r'\<rparr>)
            | (Some cmd, r') \<Rightarrow>
              (case execute eg cmd (increment ACCEPTED 1 (d\<lparr>command_ring := Some r'\<rparr>)) of
                 (Inl e, d2) \<Rightarrow> (Inl e, d2)
               | (Inr _, d2) \<Rightarrow> process_loop eg fuel budget (processed + 1) d2)))
      else (Inr processed, d))"

definition process :: "'x graph_method \<Rightarrow> int option \<Rightarrow> 'x device_scheme \<Rightarrow> (int, 'x) dev_result" where
  "process eg budget d =
     (if \<not> enabled d then (Inr 0, d)
      else case command_ring d of None \<Rightarrow> (Inr 0, d)
      | Some r \<Rightarrow> process_loop eg (Suc (length (ring_items r))) budget 0 d)"

definition replay :: "'x graph_method \<Rightarrow> int \<Rightarrow> 'x device_scheme \<Rightarrow> (bool, 'x) dev_result" where
  "replay eg rid d =
     (let d1 = d\<lparr>pending := (pending d)(rid := None)\<rparr> in
      case pending d rid of None \<Rightarrow> (Inr False, d1)
      | Some cmd \<Rightarrow>
        if cmd_retry_count cmd \<ge> 3 then (Inr False, d1)
        else (case execute eg (cmd\<lparr>cmd_retry_count := cmd_retry_count cmd + 1\<rparr>) d1 of
                (Inl e, d2) \<Rightarrow> (Inl e, d2)
              | (Inr _, d2) \<Rightarrow> (Inr True, d2)))"

definition read_counter :: "int \<Rightarrow> 'x device_scheme \<Rightarrow> int res" where
  "read_counter selector d =
     (case counter_of_value selector of Inl e \<Rightarrow> Inl e | Inr c \<Rightarrow> Inr (counters d c))"

section \<open>The graph engine of the control-plane model\<close>

text \<open>
  \<open>RcifDevice._execute_graph\<close>. Its \<open>while remaining\<close> touches the device only to report the
  completion, so the loop computes that completion; a ready \<open>NOP\<close> with a negative node id
  raises \<open>ValueError\<close> at the shift.
\<close>

fun graph_loop :: "int \<Rightarrow> graph_node list \<Rightarrow> int \<Rightarrow> int \<Rightarrow> completion res" where
  "graph_loop rid remaining complete_mask result =
     (if remaining = [] then Inr (Completion rid GRAPH_INVALID complete_mask)
      else case find (ready complete_mask) remaining of
        None \<Rightarrow> Inr (Completion rid GRAPH_DEADLOCK complete_mask)
      | Some node \<Rightarrow>
        if gn_opcode node = graph_opcode_value NOP then
          (case shift_left 1 (gn_node_id node) of Inl e \<Rightarrow> Inl e
           | Inr b \<Rightarrow> graph_loop rid (remove1 node remaining) (complete_mask OR b)
                      (result XOR gn_operand0 node))
        else if gn_opcode node = graph_opcode_value COMPLETE then
          Inr (Completion rid OK ((result XOR gn_operand0 node) AND MASK64))
        else Inr (Completion rid GRAPH_INVALID (gn_opcode node)))"

declare graph_loop.simps [simp del]

definition execute_graph :: "'x graph_method" where
  "execute_graph cmd d =
     (let graph = cmd_graph cmd; rid = cmd_request_id cmd in
      if graph = [] \<or> length graph > 8 \<or> \<not> (0 \<le> cmd_priority cmd \<and> cmd_priority cmd \<le> 3)
      then (Inr (), complete_with (Completion rid GRAPH_INVALID 0) d)
      else let d1 = increment GRAPH_NODES (int (length graph)) d in
        (case graph_loop rid graph 0 0 of Inl e \<Rightarrow> (Inl e, d1)
         | Inr cpl \<Rightarrow> (Inr (), complete_with cpl d1)))"

text \<open>The same loop as an instance of the shared scheduling contract: what one node does.\<close>

definition node_exec :: "int \<Rightarrow> graph_node \<Rightarrow> int \<Rightarrow> int + completion res" where
  "node_exec rid node result =
     (if gn_opcode node = graph_opcode_value NOP then
        (if gn_node_id node < 0 then Inr (Inl ValueError) else Inl (result XOR gn_operand0 node))
      else if gn_opcode node = graph_opcode_value COMPLETE then
        Inr (Inr (Completion rid OK ((result XOR gn_operand0 node) AND MASK64)))
      else Inr (Inr (Completion rid GRAPH_INVALID (gn_opcode node))))"

interpretation base_engine:
  graph_engine "graph_loop rid" "node_exec rid"
    "\<lambda>m _. Inr (Completion rid GRAPH_DEADLOCK m)" "\<lambda>m _. Inr (Completion rid GRAPH_INVALID m)"
  for rid :: int
proof unfold_locales
  fix rem m s n s' r
  show "graph_loop rid [] m s = Inr (Completion rid GRAPH_INVALID m)"
    by (simp add: graph_loop.simps)
  show "graph_loop rid rem m s = Inr (Completion rid GRAPH_DEADLOCK m)"
    if "rem \<noteq> []" "find (ready m) rem = None"
    using that by (simp add: graph_loop.simps [of rid rem m s])
  show "graph_loop rid rem m s = graph_loop rid (remove1 n rem) (mark_done m n) s'"
    if "find (ready m) rem = Some n" "node_exec rid n s = Inl s'"
    using that by (auto simp: graph_loop.simps [of rid rem m s] node_exec_def shift_left_def
        mark_done_def split: if_splits)
  show "graph_loop rid rem m s = r"
    if "find (ready m) rem = Some n" "node_exec rid n s = Inr r"
    using that by (auto simp: graph_loop.simps [of rid rem m s] node_exec_def shift_left_def
        split: if_splits)
qed

lemma node_exec_InlD:
  "node_exec rid n s = Inl s' \<Longrightarrow>
     gn_opcode n = graph_opcode_value NOP \<and> 0 \<le> gn_node_id n \<and> s' = s XOR gn_operand0 n"
  by (auto simp: node_exec_def split: if_splits)

definition xor_operands :: "graph_node list \<Rightarrow> int" where
  "xor_operands ns = fold (\<lambda>n acc. acc XOR gn_operand0 n) ns 0"

lemma xor_operands_snoc [simp]: "xor_operands (ns @ [n]) = xor_operands ns XOR gn_operand0 n"
  by (simp add: xor_operands_def)

lemma base_path_result:
  "sched_path (node_exec rid) rem m s tr rem' m' s' \<Longrightarrow>
     s' = s XOR xor_operands tr \<and> (\<forall>n \<in> set tr. gn_opcode n = graph_opcode_value NOP \<and> 0 \<le> gn_node_id n)"
proof (induction rule: sched_path.induct)
  case (path_nil rem m s)
  then show ?case by (simp add: xor_operands_def)
next
  case (path_snoc rem m s tr rem1 m1 s1 n s2)
  then show ?case using node_exec_InlD [OF path_snoc.hyps(4)] by (auto simp: xor.assoc)
qed

lemma xor_operands_range:
  "(\<And>n. n \<in> set ns \<Longrightarrow> encodable n) \<Longrightarrow> xor_operands ns \<in> {0..<2 ^ 64}"
proof (induction ns rule: rev_induct)
  case Nil
  then show ?case by (simp add: xor_operands_def)
next
  case (snoc n ns)
  then have "xor_operands ns \<in> {0..<2 ^ 64}" "encodable n" by auto
  then show ?case
    using xor_fits [of "xor_operands ns" 64 "gn_operand0 n"] by (auto simp: encodable_def)
qed

text \<open>How \<open>graph_loop\<close> ended, read off the path it followed.\<close>

lemma graph_loop_cases:
  obtains
    (ok) tr n rem' m' where "sched_path (node_exec rid) g m s tr rem' m' (s XOR xor_operands tr)"
      "find (ready m') rem' = Some n" "gn_opcode n = graph_opcode_value COMPLETE"
      "graph_loop rid g m s = Inr (Completion rid OK (((s XOR xor_operands tr) XOR gn_operand0 n) AND MASK64))"
  | (bad) tr n rem' m' where "sched_path (node_exec rid) g m s tr rem' m' (s XOR xor_operands tr)"
      "find (ready m') rem' = Some n"
      "gn_opcode n \<notin> {graph_opcode_value NOP, graph_opcode_value COMPLETE}"
      "graph_loop rid g m s = Inr (Completion rid GRAPH_INVALID (gn_opcode n))"
  | (negative) tr n rem' m' where "sched_path (node_exec rid) g m s tr rem' m' (s XOR xor_operands tr)"
      "find (ready m') rem' = Some n" "gn_node_id n < 0" "graph_loop rid g m s = Inl ValueError"
  | (stuck) tr rem' m' where "sched_path (node_exec rid) g m s tr rem' m' (s XOR xor_operands tr)"
      "find (ready m') rem' = None" "rem' \<noteq> []" "graph_loop rid g m s = Inr (Completion rid GRAPH_DEADLOCK m')"
  | (drained) tr m' where "sched_path (node_exec rid) g m s tr [] m' (s XOR xor_operands tr)"
      "graph_loop rid g m s = Inr (Completion rid GRAPH_INVALID m')"
proof -
  obtain tr rem' m' s' where p: "sched_path (node_exec rid) g m s tr rem' m' s'"
    and out: "find (ready m') rem' = None \<and>
        graph_loop rid g m s = (if rem' = [] then Inr (Completion rid GRAPH_INVALID m')
                                else Inr (Completion rid GRAPH_DEADLOCK m'))
      \<or> (\<exists>n r. find (ready m') rem' = Some n \<and> node_exec rid n s' = Inr r \<and> graph_loop rid g m s = r)"
    by (rule base_engine.loop_follows_path)
  have s': "s' = s XOR xor_operands tr" using base_path_result [OF p] by simp
  show ?thesis
  proof (cases "find (ready m') rem'")
    case None
    with out p s' show ?thesis by (cases "rem' = []") (auto intro: stuck drained)
  next
    case (Some n)
    with out have ex: "node_exec rid n s' = Inr (graph_loop rid g m s)" by auto
    have p': "sched_path (node_exec rid) g m s tr rem' m' (s XOR xor_operands tr)"
      using p s' by simp
    consider "gn_opcode n = graph_opcode_value NOP" | "gn_opcode n = graph_opcode_value COMPLETE"
      | "gn_opcode n \<notin> {graph_opcode_value NOP, graph_opcode_value COMPLETE}" by blast
    then show ?thesis
    proof cases
      case 1
      with ex have "gn_node_id n < 0" "graph_loop rid g m s = Inl ValueError"
        by (simp_all add: node_exec_def split: if_splits)
      then show ?thesis by (rule negative [OF p' Some])
    next
      case 2
      with ex s' have "graph_loop rid g m s
          = Inr (Completion rid OK (((s XOR xor_operands tr) XOR gn_operand0 n) AND MASK64))"
        by (simp add: node_exec_def)
      then show ?thesis by (rule ok [OF p' Some 2])
    next
      case 3
      with ex have "graph_loop rid g m s = Inr (Completion rid GRAPH_INVALID (gn_opcode n))"
        by (simp add: node_exec_def)
      then show ?thesis by (rule bad [OF p' Some 3])
    qed
  qed
qed

lemma graph_loop_request_id: "graph_loop rid g m s = Inr c \<Longrightarrow> cpl_request_id c = rid"
  by (rule graph_loop_cases [of rid g m s]) auto

lemma graph_loop_returns:
  assumes "\<And>n. n \<in> set g \<Longrightarrow> 0 \<le> gn_node_id n"
  shows "\<exists>c. graph_loop rid g m s = Inr c"
proof (rule graph_loop_cases [of rid g m s])
  fix tr n rem' m'
  assume p: "sched_path (node_exec rid) g m s tr rem' m' (s XOR xor_operands tr)"
    and n: "find (ready m') rem' = Some n" "gn_node_id n < 0"
  have "n \<in> set rem'" using find_SomeD [OF n(1)] by simp
  then have "n \<in> set g" using path_mset [OF p] by (metis set_mset_mset union_iff)
  with assms n(2) show ?thesis by force
qed auto

text \<open>A graph listed in an order in which every node is ready when its turn comes.\<close>

fun in_order :: "int \<Rightarrow> graph_node list \<Rightarrow> bool" where
  "in_order m [] = True"
| "in_order m (n # ns) = (ready m n \<and> 0 \<le> gn_node_id n \<and> in_order (mark_done m n) ns)"

lemma graph_loop_in_order:
  assumes "in_order m (ns @ [c])" and "\<And>n. n \<in> set ns \<Longrightarrow> gn_opcode n = graph_opcode_value NOP"
    and "gn_opcode c = graph_opcode_value COMPLETE"
  shows "graph_loop rid (ns @ [c]) m s
       = Inr (Completion rid OK ((fold (\<lambda>n acc. acc XOR gn_operand0 n) (ns @ [c]) s) AND MASK64))"
  using assms
proof (induction ns arbitrary: m s)
  case Nil
  then show ?case by (simp add: graph_loop.simps [of rid "[c]"])
next
  case (Cons n ns)
  have first: "find (ready m) ((n # ns) @ [c]) = Some n" using Cons.prems(1) by simp
  have "node_exec rid n s = Inl (s XOR gn_operand0 n)"
    using Cons.prems(1,2) by (simp add: node_exec_def)
  from base_engine.loop_step [OF first this] Cons show ?case by simp
qed

section \<open>Properties of the graph engine\<close>

text \<open>
  C6: a reported deadlock is real. If the device answers \<open>GRAPH_DEADLOCK\<close>, then no execution of
  the graph that runs ready nodes in \<^emph>\<open>any\<close> order ever gets a \<open>COMPLETE\<close> node (or a node of an
  unsupported opcode) ready: everything that can become ready is a \<open>NOP\<close>. The fixed scan
  order of the code therefore never turns a graph that could finish into a deadlock.
\<close>

theorem deadlock_is_real:
  assumes "graph_loop rid g 0 0 = Inr c" and "cpl_status c = GRAPH_DEADLOCK"
    and "sched_path (node_exec rid) g 0 0 tr rem m s" and "n \<in> set rem" and "ready m n"
  shows "gn_opcode n = graph_opcode_value NOP"
proof -
  have "\<exists>tr' rem' m'. sched_path (node_exec rid) g 0 0 tr' rem' m' (0 XOR xor_operands tr')
      \<and> find (ready m') rem' = None"
    by (rule graph_loop_cases [of rid g 0 0]) (use assms(1,2) in auto)
  then obtain tr' rem' m' where "sched_path (node_exec rid) g 0 0 tr' rem' m' (0 XOR xor_operands tr')"
    "find (ready m') rem' = None" by blast
  from base_engine.stuck_is_final [OF this assms(3-5)] show ?thesis
    using node_exec_InlD by blast
qed

definition stuck_graph :: "graph_node list" where
  "stuck_graph = [mk_node 0 0 2 0, mk_node 0 2 0 5, mk_node 15 1 1 0]"

theorem deadlock_is_real_witness:
  "\<exists>c m s. graph_loop 9 stuck_graph 0 0 = Inr c \<and> cpl_status c = GRAPH_DEADLOCK \<and> cpl_result c = 4 \<and>
     sched_path (node_exec 9) stuck_graph 0 0 [] stuck_graph m s \<and> ready m (mk_node 0 2 0 5) \<and>
     gn_opcode (mk_node 0 2 0 5) = graph_opcode_value NOP"
proof -
  have run: "graph_loop 9 stuck_graph 0 0 = Inr (Completion 9 GRAPH_DEADLOCK 4)"
    by (simp add: stuck_graph_def mk_node_def graph_loop.simps ready_def shift_left_def)
  have p: "sched_path (node_exec 9) stuck_graph 0 0 [] stuck_graph 0 0" by (rule path_nil)
  have n: "mk_node 0 2 0 5 \<in> set stuck_graph" "ready 0 (mk_node 0 2 0 5)"
    by (simp_all add: stuck_graph_def mk_node_def ready_def)
  from deadlock_is_real [OF run _ p n] run p n show ?thesis by auto
qed

text \<open>
  C7: what an \<open>OK\<close> completion of a graph means. There is a run of distinct positions of the
  graph ending in a \<open>COMPLETE\<close> node, all others of the run being \<open>NOP\<close>s with ids 0 to 7, in
  which every node comes after the nodes its dependency mask names; and the result is the
  XOR of the operands of the run, cut to 64 bits.
\<close>

theorem graph_ok_meaning:
  assumes "graph_loop rid g 0 0 = Inr (Completion rid OK res)"
  shows "\<exists>tr n rest. mset g = mset (tr @ n # rest) \<and> gn_opcode n = graph_opcode_value COMPLETE \<and>
     (\<forall>x \<in> set tr. gn_opcode x = graph_opcode_value NOP \<and> gn_node_id x \<in> {0..7}) \<and>
     (\<forall>k < Suc (length tr). \<forall>i. bit (gn_dependencies ((tr @ [n]) ! k)) i \<longrightarrow>
        (\<exists>j < k. gn_node_id (tr ! j) = int i)) \<and>
     res = xor_operands (tr @ [n]) mod 2 ^ 64"
proof -
  have "\<exists>tr n rem' m'. sched_path (node_exec rid) g 0 0 tr rem' m' (0 XOR xor_operands tr) \<and>
      find (ready m') rem' = Some n \<and> gn_opcode n = graph_opcode_value COMPLETE \<and>
      res = (xor_operands tr XOR gn_operand0 n) AND MASK64"
    by (rule graph_loop_cases [of rid g 0 0]) (use assms in auto)
  then obtain tr n rem' m' where p: "sched_path (node_exec rid) g 0 0 tr rem' m' (0 XOR xor_operands tr)"
    and n: "n \<in> set rem'" "ready m' n" and opc: "gn_opcode n = graph_opcode_value COMPLETE"
    and res: "res = (xor_operands tr XOR gn_operand0 n) AND MASK64"
    using find_SomeD by metis
  have nops: "\<forall>x \<in> set tr. gn_opcode x = graph_opcode_value NOP \<and> gn_node_id x \<in> {0..7}"
    using base_path_result [OF p] path_exec [OF p] by auto
  have ids: "\<exists>j < k. gn_node_id (tr ! j) = int i"
    if "\<exists>j < k. nat (gn_node_id (tr ! j)) = i" "k \<le> length tr" for k i
  proof -
    from that obtain j where "j < k" "nat (gn_node_id (tr ! j)) = i" by blast
    moreover from this that(2) have "0 \<le> gn_node_id (tr ! j)" using nops by simp
    ultimately show ?thesis by auto
  qed
  have "\<exists>j < k. gn_node_id (tr ! j) = int i"
    if k: "k < Suc (length tr)" and b: "bit (gn_dependencies ((tr @ [n]) ! k)) i" for k i
  proof (cases "k < length tr")
    case True
    with b have "\<exists>j < k. nat (gn_node_id (tr ! j)) = i"
      using path_deps [OF p True] by (simp add: nth_append)
    with True show ?thesis by (auto intro: ids)
  next
    case False
    with k b have "bit m' i" "k = length tr" using n(2) by (auto simp: ready_iff nth_append less_Suc_eq)
    then have "\<exists>j < k. nat (gn_node_id (tr ! j)) = i"
      using path_mask [OF p, of i] by (auto simp: in_set_conv_nth)
    with \<open>k = length tr\<close> show ?thesis by (auto intro: ids)
  qed
  moreover have "mset g = mset (tr @ n # remove1 n rem')"
    using path_mset [OF p] n(1) by simp
  ultimately show ?thesis
    using nops opc res by (intro exI [of _ tr] exI [of _ n] exI [of _ "remove1 n rem'"])
      (simp add: and_MASK64)
qed

text \<open>The graph of the driver's test: two \<open>NOP\<close>s, then a \<open>COMPLETE\<close> that depends on both.\<close>

definition sample_graph :: "graph_node list" where
  "sample_graph = [mk_node 0 0 0 0x1234, mk_node 0 1 1 0xFF, mk_node 15 2 3 0xA000]"

lemma sample_graph_run: "graph_loop 1 sample_graph 0 0 = Inr (Completion 1 OK 0xB2CB)"
  by (simp add: sample_graph_def mk_node_def graph_loop.simps ready_def shift_left_def MASK64_def)

theorem graph_ok_meaning_witness:
  "graph_loop 1 sample_graph 0 0 = Inr (Completion 1 OK 0xB2CB) \<and>
   (\<exists>tr n rest. mset sample_graph = mset (tr @ n # rest) \<and> xor_operands (tr @ [n]) mod 2 ^ 64 = 0xB2CB)"
  using graph_ok_meaning [OF sample_graph_run] sample_graph_run by metis

text \<open>
  a graph written in dependency order always finishes. If every node is ready when the
  ones before it are done, all but the last are \<open>NOP\<close>s and the last is \<open>COMPLETE\<close>, the device
  answers \<open>OK\<close> with the XOR of all operands, whatever the number of nodes.
\<close>

theorem in_order_graph_completes:
  assumes "in_order 0 (ns @ [c])" and "\<forall>n \<in> set ns. gn_opcode n = graph_opcode_value NOP"
    and "gn_opcode c = graph_opcode_value COMPLETE"
  shows "graph_loop rid (ns @ [c]) 0 0 = Inr (Completion rid OK (xor_operands (ns @ [c]) AND MASK64))"
  using graph_loop_in_order [of 0 ns c rid 0] assms by (simp add: xor_operands_def)

theorem in_order_graph_completes_witness:
  "graph_loop 5 ([mk_node 0 0 0 0x1234, mk_node 0 1 1 0xFF] @ [mk_node 15 2 3 0xA000]) 0 0
     = Inr (Completion 5 OK (xor_operands sample_graph AND MASK64))"
  using in_order_graph_completes [of "[mk_node 0 0 0 0x1234, mk_node 0 1 1 0xFF]" "mk_node 15 2 3 0xA000" 5]
  by (simp add: mk_node_def ready_def mark_done_def sample_graph_def)

end
