(* ===== verification/ControlPlane.thy ===== *)
theory ControlPlane
  imports Device
begin

text \<open>
  What the operations of \<open>RcifDevice\<close> (\<open>runtime/driver/device.py\<close>) keep and change: frame
  lemmas, the contract an \<open>_execute_graph\<close> override must meet (\<open>engine_frame\<close> for every
  command, \<open>engine_contract\<close> for the commands the driver builds), and the command/completion
  accounting that \<open>Firmware\<close> and \<open>Driver\<close> extend.
\<close>

section \<open>Frames\<close>

lemma increment_sel [simp, frame_simps]:
  "otp_minimum_version (increment c n d) = otp_minimum_version d"
  "debug_locked (increment c n d) = debug_locked d"
  "status (increment c n d) = status d"
  "secure_verified (increment c n d) = secure_verified d"
  "boot_failed (increment c n d) = boot_failed d"
  "firmware_version (increment c n d) = firmware_version d"
  "enabled (increment c n d) = enabled d"
  "command_ring (increment c n d) = command_ring d"
  "completion_ring (increment c n d) = completion_ring d"
  "fault_ring (increment c n d) = fault_ring d"
  "pending (increment c n d) = pending d"
  "kv_pages (increment c n d) = kv_pages d"
  "device.more (increment c n d) = device.more d"
  by (simp_all add: increment_def)

lemma complete_with_sel [simp, frame_simps]:
  "otp_minimum_version (complete_with c d) = otp_minimum_version d"
  "debug_locked (complete_with c d) = debug_locked d"
  "secure_verified (complete_with c d) = secure_verified d"
  "boot_failed (complete_with c d) = boot_failed d"
  "firmware_version (complete_with c d) = firmware_version d"
  "command_ring (complete_with c d) = command_ring d"
  "fault_ring (complete_with c d) = fault_ring d"
  "pending (complete_with c d) = pending d"
  "kv_pages (complete_with c d) = kv_pages d"
  "device.more (complete_with c d) = device.more d"
  by (simp_all add: complete_with_def Let_def split: option.split prod.split)

text \<open>The two outcomes of reporting a completion: queued, or dropped with a fatal stop.\<close>

lemma complete_with_room:
  assumes "completion_ring d = Some r" and "int (length (ring_items r)) < ring_entries r"
  shows "status (complete_with c d) = status d" "enabled (complete_with c d) = enabled d"
    and "completion_ring (complete_with c d) = Some (snd (push c r))"
  using assms by (auto simp: complete_with_def Let_def push_def)

lemma complete_with_dropped:
  assumes "completion_ring d = None \<or>
     (\<exists>r. completion_ring d = Some r \<and> int (length (ring_items r)) = ring_entries r)"
  shows "status (complete_with c d) = FATAL" "\<not> enabled (complete_with c d)"
    and "completion_ring (complete_with c d) = completion_ring d"
  using assms by (auto simp: complete_with_def Let_def push_full)

lemma complete_with_status:
  "status (complete_with c d) = status d \<and> enabled (complete_with c d) = enabled d \<or>
   status (complete_with c d) = FATAL \<and> \<not> enabled (complete_with c d)"
  by (auto simp: complete_with_def Let_def split: option.split prod.split)

lemma complete_with_ring_None: "completion_ring (complete_with c d) = None \<longleftrightarrow> completion_ring d = None"
  by (auto simp: complete_with_def Let_def split: option.split prod.split)

text \<open>Counters only grow, and stop at \<open>2 ^ 64 - 1\<close>.\<close>

definition counters_grow :: "(counter \<Rightarrow> int) \<Rightarrow> (counter \<Rightarrow> int) \<Rightarrow> bool" where
  "counters_grow f g \<longleftrightarrow> (\<forall>c. f c \<le> MASK64 \<longrightarrow> f c \<le> g c \<and> g c \<le> MASK64)"

lemma counters_grow_refl [simp, intro]: "counters_grow f f"
  by (simp add: counters_grow_def)

lemma counters_grow_trans [trans]: "counters_grow f g \<Longrightarrow> counters_grow g h \<Longrightarrow> counters_grow f h"
  by (auto simp: counters_grow_def intro: order_trans)

lemma counters_grow_increment: "0 \<le> n \<Longrightarrow> counters_grow (counters d) (counters (increment c n d))"
  by (auto simp: counters_grow_def increment_def)

lemma counters_grow_complete_with: "counters_grow (counters d) (counters (complete_with c d))"
proof -
  have upd: "counters (complete_with c d) \<in>
      {counters (increment QUEUE_ERRORS 1 d), counters (increment COMPLETED 1 d),
       counters (increment ERRORS 1 (increment COMPLETED 1 d))}"
    by (auto simp: complete_with_def Let_def increment_def split: option.split prod.split)
  have "counters_grow (counters d) (counters (increment ERRORS 1 (increment COMPLETED 1 d)))"
    by (rule counters_grow_trans [OF counters_grow_increment counters_grow_increment]) simp_all
  with upd show ?thesis by (auto simp: counters_grow_increment)
qed

text \<open>Everything but the counters and the subclass's own attributes.\<close>

definition same_control :: "'x device_scheme \<Rightarrow> 'x device_scheme \<Rightarrow> bool" where
  "same_control d d' \<longleftrightarrow>
     otp_minimum_version d' = otp_minimum_version d \<and> debug_locked d' = debug_locked d \<and>
     status d' = status d \<and> secure_verified d' = secure_verified d \<and>
     boot_failed d' = boot_failed d \<and> firmware_version d' = firmware_version d \<and>
     enabled d' = enabled d \<and> command_ring d' = command_ring d \<and>
     completion_ring d' = completion_ring d \<and> fault_ring d' = fault_ring d \<and>
     pending d' = pending d \<and> kv_pages d' = kv_pages d \<and>
     counters_grow (counters d) (counters d')"

lemma same_control_refl [simp, intro]: "same_control d d"
  by (simp add: same_control_def)

lemma same_control_increment [intro]: "0 \<le> n \<Longrightarrow> same_control d (increment c n d)"
  by (simp add: same_control_def counters_grow_increment)

lemma same_control_trans: "same_control d d1 \<Longrightarrow> same_control d1 d2 \<Longrightarrow> same_control d d2"
  unfolding same_control_def using counters_grow_trans by (elim conjE) (intro conjI; (fast | simp))

text \<open>
  What running commands may change of the part that decides whether the device may run:
  nothing of the security state, and \<open>status\<close>/\<open>enabled\<close> only to the fatal stop.
\<close>

definition keeps_security :: "'x device_scheme \<Rightarrow> 'x device_scheme \<Rightarrow> bool" where
  "keeps_security d d' \<longleftrightarrow>
     otp_minimum_version d' = otp_minimum_version d \<and> debug_locked d' = debug_locked d \<and>
     secure_verified d' = secure_verified d \<and> boot_failed d' = boot_failed d \<and>
     firmware_version d' = firmware_version d \<and>
     (status d' = status d \<and> enabled d' = enabled d \<or> status d' = FATAL \<and> \<not> enabled d') \<and>
     (command_ring d' = None \<longleftrightarrow> command_ring d = None) \<and>
     (completion_ring d' = None \<longleftrightarrow> completion_ring d = None) \<and>
     (fault_ring d' = None \<longleftrightarrow> fault_ring d = None) \<and>
     counters_grow (counters d) (counters d')"

lemma keeps_security_refl [simp, intro]: "keeps_security d d"
  by (simp add: keeps_security_def)

lemma keeps_security_trans [trans]:
  assumes 1: "keeps_security d d1" and 2: "keeps_security d1 d2"
  shows "keeps_security d d2"
proof -
  have "status d2 = status d \<and> enabled d2 = enabled d \<or> status d2 = FATAL \<and> \<not> enabled d2"
    using 1 2 unfolding keeps_security_def by (elim conjE disjE) simp_all
  moreover have "counters_grow (counters d) (counters d2)"
    using 1 2 counters_grow_trans unfolding keeps_security_def by blast
  ultimately show ?thesis
    using 1 2 unfolding keeps_security_def by (elim conjE) (intro conjI; simp only:)
qed

lemma keeps_security_same_control: "same_control d d' \<Longrightarrow> keeps_security d d'"
  by (auto simp: keeps_security_def same_control_def)

lemma keeps_security_increment [intro]: "0 \<le> n \<Longrightarrow> keeps_security d (increment c n d)"
  by (rule keeps_security_same_control) (rule same_control_increment)

lemma keeps_security_complete_with [intro]: "keeps_security d (complete_with c d)"
  using complete_with_status [of c d] complete_with_ring_None [of c d]
  by (simp add: keeps_security_def counters_grow_complete_with)

lemma keeps_security_updates [intro]:
  "command_ring d \<noteq> None \<Longrightarrow> keeps_security d (d\<lparr>command_ring := Some r\<rparr>)"
  "fault_ring d \<noteq> None \<Longrightarrow> keeps_security d (d\<lparr>fault_ring := Some f\<rparr>)"
  "completion_ring d \<noteq> None \<Longrightarrow> keeps_security d (d\<lparr>completion_ring := Some q\<rparr>)"
  "keeps_security d (d\<lparr>pending := p\<rparr>)" "keeps_security d (d\<lparr>kv_pages := k\<rparr>)"
  by (simp_all add: keeps_security_def)

lemma keeps_security_translate: "keeps_security d (translate cmd d)"
proof -
  let ?d1 = "increment KV_FAULTS 1 (d\<lparr>pending := (pending d)(cmd_request_id cmd \<mapsto> cmd)\<rparr>)"
  let ?d2 = "(increment FAULT_OVERFLOWS 1 ?d1)\<lparr>pending := (pending ?d1)(cmd_request_id cmd := None)\<rparr>"
  have d1: "keeps_security d ?d1"
    by (rule keeps_security_trans [OF keeps_security_updates(4)]) (rule keeps_security_increment, simp)
  have "keeps_security d ?d2"
    by (rule keeps_security_trans [OF d1],
        rule keeps_security_trans [OF keeps_security_increment keeps_security_updates(4)]) simp
  then have "keeps_security d (complete_with c ?d2)" for c
    using keeps_security_trans keeps_security_complete_with by blast
  moreover have "keeps_security d (?d1\<lparr>fault_ring := Some r\<rparr>)" if "fault_ring d \<noteq> None" for r
    by (rule keeps_security_trans [OF d1]) (rule keeps_security_updates, simp add: that)
  ultimately show ?thesis
    by (auto simp: translate_def Let_def split: option.split prod.split)
qed

section \<open>The contract of \<open>_execute_graph\<close>\<close>

text \<open>
  For every command: the override changes counters and attributes of its own, and then either
  reports one completion or stops with an exception.
\<close>

locale engine_frame =
  fixes eg :: "'x graph_method"
  assumes eg_shape: "\<exists>d0. same_control d d0 \<and>
    (snd (eg cmd d) = d0 \<or> (\<exists>c. snd (eg cmd d) = complete_with c d0))"
begin

lemma eg_keeps: "keeps_security d (snd (eg cmd d))"
proof -
  obtain d0 where "same_control d d0"
    "snd (eg cmd d) = d0 \<or> (\<exists>c. snd (eg cmd d) = complete_with c d0)"
    using eg_shape by blast
  then show ?thesis
    using keeps_security_same_control keeps_security_complete_with keeps_security_trans by metis
qed

lemma execute_keeps: "keeps_security d (snd (execute eg cmd d))"
  by (simp add: execute_def eg_keeps keeps_security_translate keeps_security_complete_with)

lemma process_loop_keeps: "keeps_security d (snd (process_loop eg fuel budget n d))"
proof (induction fuel arbitrary: n d)
  case 0
  then show ?case by simp
next
  case (Suc fuel)
  show ?case
  proof (cases "command_ring d")
    case None
    then show ?thesis by (simp split: option.split)
  next
    case (Some r)
    have pop_keeps: "keeps_security d (d\<lparr>command_ring := Some r'\<rparr>)" for r'
      by (rule keeps_security_updates) (simp add: Some)
    have step: "keeps_security d (snd (execute eg cmd (increment ACCEPTED 1 (d\<lparr>command_ring := Some r'\<rparr>))))"
      for cmd r'
      by (rule keeps_security_trans [OF pop_keeps],
          rule keeps_security_trans [OF keeps_security_increment execute_keeps]) simp
    show ?thesis
    proof (cases "pop r")
      case (Pair y r')
      show ?thesis
      proof (cases y)
        case None
        then show ?thesis using Some Pair pop_keeps by (simp split: option.split)
      next
        case (Some cmd)
        obtain x d2 where x: "execute eg cmd (increment ACCEPTED 1 (d\<lparr>command_ring := Some r'\<rparr>)) = (x, d2)"
          by fastforce
        then have "keeps_security d d2" using step [of cmd r'] by simp
        moreover have "keeps_security d2 (snd (process_loop eg fuel budget (n + 1) d2))"
          by (rule Suc.IH)
        ultimately have "keeps_security d (snd (process_loop eg fuel budget (n + 1) d2))"
          by (rule keeps_security_trans)
        with \<open>command_ring d = Some r\<close> Pair Some x \<open>keeps_security d d2\<close> show ?thesis
          by (auto split: option.split sum.split)
      qed
    qed
  qed
qed

lemma process_keeps: "keeps_security d (snd (process eg budget d))"
  by (simp add: process_def process_loop_keeps del: process_loop.simps split: option.split)

text \<open>Running commands never changes a mapping; only the firmware installs one.\<close>

lemma eg_kv_pages: "kv_pages (snd (eg cmd d)) = kv_pages d"
proof -
  obtain d0 where "same_control d d0"
    "snd (eg cmd d) = d0 \<or> (\<exists>c. snd (eg cmd d) = complete_with c d0)"
    using eg_shape by blast
  then show ?thesis by (auto simp: same_control_def)
qed

lemma execute_kv_pages: "kv_pages (snd (execute eg cmd d)) = kv_pages d"
  by (simp add: execute_def eg_kv_pages translate_def Let_def split: option.split prod.split)

lemma process_loop_kv_pages: "kv_pages (snd (process_loop eg fuel budget n d)) = kv_pages d"
proof (induction fuel arbitrary: n d budget)
  case (Suc fuel)
  have "kv_pages d2 = kv_pages d"
    if "execute eg cmd (increment ACCEPTED 1 (d\<lparr>command_ring := r\<rparr>)) = (x, d2)" for cmd r x d2
    using execute_kv_pages [of cmd "increment ACCEPTED 1 (d\<lparr>command_ring := r\<rparr>)"] that by simp
  then show ?case
    by (auto simp: Suc.IH split: option.split prod.split sum.split)
qed simp

lemma process_kv_pages: "kv_pages (snd (process eg budget d)) = kv_pages d"
  by (simp add: process_def process_loop_kv_pages del: process_loop.simps split: option.split)

lemma replay_kv_pages: "kv_pages (snd (replay eg rid d)) = kv_pages d"
proof -
  have "kv_pages d2 = kv_pages d"
    if "execute eg c (d\<lparr>pending := m\<rparr>) = (x, d2)" for c m x d2
    using execute_kv_pages [of c "d\<lparr>pending := m\<rparr>"] that by simp
  then show ?thesis
    by (auto simp: replay_def Let_def split: option.split prod.split sum.split)
qed

lemma replay_keeps: "keeps_security d (snd (replay eg rid d))"
proof -
  have p: "keeps_security d (d\<lparr>pending := (pending d)(rid := None)\<rparr>)"
    by (rule keeps_security_updates)
  have x: "keeps_security d (snd (execute eg c (d\<lparr>pending := (pending d)(rid := None)\<rparr>)))" for c
    using p execute_keeps by (rule keeps_security_trans)
  have "keeps_security d d2" if "execute eg c (d\<lparr>pending := (pending d)(rid := None)\<rparr>) = (y, d2)" for c y d2
    using x [of c] that by simp
  with p show ?thesis
    by (auto simp: replay_def Let_def split: option.split prod.split sum.split)
qed

end

lemma keeps_security_submit: "keeps_security d (snd (submit cmd d))"
  by (auto simp: submit_def split: option.split prod.split)

section \<open>Commands the driver builds, and their answers\<close>

text \<open>The two \<open>Command(...)\<close> calls of \<open>runtime/driver/driver.py\<close>.\<close>

definition graph_cmd :: "int \<Rightarrow> graph_node list \<Rightarrow> int \<Rightarrow> command" where
  "graph_cmd rid g prio =
     \<lparr>cmd_request_id = rid, cmd_opcode = command_opcode_value SUBMIT_GRAPH, cmd_graph = g,
      cmd_priority = prio, cmd_argument = 0, cmd_flags = 0, cmd_retry_count = 0\<rparr>"

definition kv_cmd :: "int \<Rightarrow> int \<Rightarrow> command" where
  "kv_cmd rid page =
     \<lparr>cmd_request_id = rid, cmd_opcode = command_opcode_value KV_TRANSLATE, cmd_graph = [],
      cmd_priority = 0, cmd_argument = page, cmd_flags = 0, cmd_retry_count = 0\<rparr>"

lemma graph_cmd_sel [simp]:
  "cmd_request_id (graph_cmd r g p) = r" "cmd_opcode (graph_cmd r g p) = command_opcode_value SUBMIT_GRAPH"
  "cmd_graph (graph_cmd r g p) = g" "cmd_priority (graph_cmd r g p) = p" "cmd_flags (graph_cmd r g p) = 0"
  by (simp_all add: graph_cmd_def)

lemma kv_cmd_sel [simp]:
  "cmd_request_id (kv_cmd r p) = r" "cmd_opcode (kv_cmd r p) = command_opcode_value KV_TRANSLATE"
  "cmd_argument (kv_cmd r p) = p" "cmd_flags (kv_cmd r p) = 0" "cmd_retry_count (kv_cmd r p) = 0"
  by (simp_all add: kv_cmd_def)

definition driver_command :: "command \<Rightarrow> bool" where
  "driver_command cmd \<longleftrightarrow>
     (\<exists>rid g p. cmd = graph_cmd rid g p \<and> list_all encodable g) \<or> (\<exists>rid page. cmd = kv_cmd rid page)"

text \<open>
  \<open>answered answers kv (cmd, c)\<close>: completion \<open>c\<close> is a right answer to \<open>cmd\<close>, where \<open>answers\<close> says
  what the graph engine may answer and translations are answered from the page table \<open>kv\<close>.
\<close>

definition answered ::
  "(command \<Rightarrow> completion \<Rightarrow> bool) \<Rightarrow> (int \<rightharpoonup> int) \<Rightarrow> command \<times> completion \<Rightarrow> bool"
where
  "answered answers kv x =
     (if cmd_opcode (fst x) = command_opcode_value KV_TRANSLATE
      then \<exists>phys. kv (cmd_argument (fst x)) = Some phys \<and>
             snd x = Completion (cmd_request_id (fst x)) OK phys
      else answers (fst x) (snd x))"

text \<open>
  A running device mid-flight: completions of \<open>fin\<close> queued, faults \<open>fps\<close> (request id and page)
  waiting for the firmware, commands \<open>q\<close> not yet started; all ids distinct and everything
  together no more than one ring's worth.
\<close>

definition in_flight ::
  "(command \<times> completion) list \<Rightarrow> (int \<times> int) list \<Rightarrow> command list \<Rightarrow> command list"
where
  "in_flight fin fps q = map fst fin @ map (\<lambda>(r, p). kv_cmd r p) fps @ q"

definition serving ::
  "('x \<Rightarrow> bool) \<Rightarrow> (command \<Rightarrow> completion \<Rightarrow> bool) \<Rightarrow> int \<Rightarrow> (command \<times> completion) list \<Rightarrow>
   (int \<times> int) list \<Rightarrow> command list \<Rightarrow> 'x device_scheme \<Rightarrow> bool"
where
  "serving sane answers N fin fps q d \<longleftrightarrow>
     enabled d \<and> status d = RUNNING \<and> sane (device.more d) \<and>
     (\<exists>r. command_ring d = Some r \<and> ring_entries r = N \<and> ring_items r = q) \<and>
     (\<exists>r. completion_ring d = Some r \<and> ring_entries r = N \<and> ring_items r = map snd fin) \<and>
     (\<exists>r. fault_ring d = Some r \<and> ring_entries r = N \<and>
          ring_items r = map (\<lambda>(r, p). Fault r p KV_MISS 0) fps) \<and>
     pending d = map_of (map (\<lambda>(r, p). (r, kv_cmd r p)) fps) \<and>
     (\<forall>x \<in> set fin. answered answers (kv_pages d) x) \<and>
     (\<forall>c \<in> set q. driver_command c) \<and>
     distinct (map cmd_request_id (in_flight fin fps q)) \<and>
     int (length (in_flight fin fps q)) \<le> N"

lemma servingI_control:
  assumes "serving sane answers N fin fps q d" "same_control d d'" "sane (device.more d')"
  shows "serving sane answers N fin fps q d'"
  using assms by (simp add: serving_def same_control_def)

text \<open>The translations of \<open>q\<close> the page table does not cover: request id and page.\<close>

definition kv_misses :: "(int \<rightharpoonup> int) \<Rightarrow> command list \<Rightarrow> (int \<times> int) list" where
  "kv_misses kv q = map (\<lambda>c. (cmd_request_id c, cmd_argument c))
     (filter (\<lambda>c. cmd_opcode c = command_opcode_value KV_TRANSLATE \<and> kv (cmd_argument c) = None) q)"

lemma kv_misses_simps [simp]:
  "kv_misses kv [] = []"
  "kv_misses kv (c # q) =
     (if cmd_opcode c = command_opcode_value KV_TRANSLATE \<and> kv (cmd_argument c) = None
      then [(cmd_request_id c, cmd_argument c)] else []) @ kv_misses kv q"
  by (simp_all add: kv_misses_def)

text \<open>A completion is queued: there is room, because at most \<open>N\<close> requests are in flight.\<close>

lemma serving_complete:
  assumes d: "serving sane answers N fin fps q d"
    and ans: "answered answers (kv_pages d) (cmd, c)"
    and room: "int (length (in_flight fin fps q)) < N"
    and fresh: "cmd_request_id cmd \<notin> cmd_request_id ` set (in_flight fin fps q)"
  shows "serving sane answers N (fin @ [(cmd, c)]) fps q (complete_with c d)"
proof -
  obtain r where r: "completion_ring d = Some r" "ring_entries r = N" "ring_items r = map snd fin"
    using d by (auto simp: serving_def)
  have len: "int (length (ring_items r)) < ring_entries r"
    using room r by (simp add: in_flight_def)
  have ids: "distinct (map cmd_request_id (in_flight (fin @ [(cmd, c)]) fps q))"
    using d fresh by (auto simp: serving_def in_flight_def)
  have "map snd fin @ [c] = map snd (fin @ [(cmd, c)])" by simp
  with complete_with_room [OF r(1) len, of c] d r ans room ids len show ?thesis
    by (simp add: serving_def push_room in_flight_def)
qed

lemma serving_fault:
  assumes d: "serving sane answers N fin fps q d" and miss: "kv_pages d page = None"
    and room: "int (length (in_flight fin fps q)) < N"
    and fresh: "rid \<notin> cmd_request_id ` set (in_flight fin fps q)"
  shows "serving sane answers N fin (fps @ [(rid, page)]) q (translate (kv_cmd rid page) d)"
proof -
  obtain r where r: "fault_ring d = Some r" "ring_entries r = N"
    "ring_items r = map (\<lambda>(r, p). Fault r p KV_MISS 0) fps"
    using d by (auto simp: serving_def)
  have len: "int (length (ring_items r)) < ring_entries r"
    using room r by (simp add: in_flight_def)
  have ids: "distinct (map cmd_request_id (in_flight fin (fps @ [(rid, page)]) q))"
    using d fresh by (auto simp: serving_def in_flight_def)
  have rid: "rid \<notin> set (map (\<lambda>(r, p). r) fps)"
    using fresh by (force simp: in_flight_def)
  have pend: "(map_of (map (\<lambda>(r, p). (r, kv_cmd r p)) fps))(rid \<mapsto> kv_cmd rid page)
      = map_of (map (\<lambda>(r, p). (r, kv_cmd r p)) (fps @ [(rid, page)]))"
    using rid by (subst map_append, subst list.map, subst list.map, subst prod.case)
      (rule map_of_snoc [symmetric], force)
  have push: "push (Fault rid page KV_MISS 0) r = (True, snd (push (Fault rid page KV_MISS 0) r))"
    using push_room(1) [OF len] by (metis prod.collapse)
  have "translate (kv_cmd rid page) d
      = (increment KV_FAULTS 1 (d\<lparr>pending := (pending d)(rid \<mapsto> kv_cmd rid page)\<rparr>))
          \<lparr>fault_ring := Some (snd (push (Fault rid page KV_MISS 0) r))\<rparr>"
    using miss r(1) push_room(1) [OF len] by (simp add: translate_def Let_def split: prod.split) (metis split_pairs)
  moreover have "pending d = map_of (map (\<lambda>(r, p). (r, kv_cmd r p)) fps)"
    using d by (simp add: serving_def)
  ultimately show ?thesis
    using d r ids room pend len by (simp add: serving_def push_room in_flight_def)
qed

lemma serving_pop_command:
  assumes "serving sane answers N fin fps (cmd # q) d"
  obtains r where "command_ring d = Some r" "fst (pop r) = Some cmd"
    "serving sane answers N fin fps q (increment ACCEPTED 1 (d\<lparr>command_ring := Some (snd (pop r))\<rparr>))"
    "driver_command cmd" "int (length (in_flight fin fps q)) < N"
    "cmd_request_id cmd \<notin> cmd_request_id ` set (in_flight fin fps q)"
proof -
  obtain r where r: "command_ring d = Some r" "ring_entries r = N" "ring_items r = cmd # q"
    using assms by (auto simp: serving_def)
  have "serving sane answers N fin fps q (d\<lparr>command_ring := Some (snd (pop r))\<rparr>)"
    using assms r by (auto simp: serving_def in_flight_def)
  then have "serving sane answers N fin fps q (increment ACCEPTED 1 (d\<lparr>command_ring := Some (snd (pop r))\<rparr>))"
    using servingI_control [OF _ same_control_increment] assms by (simp add: serving_def)
  moreover have "driver_command cmd" "int (length (in_flight fin fps q)) < N"
    using assms by (auto simp: serving_def in_flight_def)
  moreover have "cmd_request_id cmd \<notin> cmd_request_id ` set (in_flight fin fps q)"
  proof -
    define A where "A = map fst fin @ map (\<lambda>(r, p). kv_cmd r p) fps"
    have "distinct (map cmd_request_id (A @ cmd # q))"
      using assms by (simp add: serving_def in_flight_def A_def)
    then have "cmd_request_id cmd \<notin> cmd_request_id ` set (A @ q)" by auto
    then show ?thesis by (simp add: in_flight_def A_def)
  qed
  ultimately show ?thesis using that r pop_first [OF r(3)] by blast
qed

text \<open>
  For the commands of the driver: the override reports exactly one completion, for the right
  request and with an answer \<open>answers\<close> allows, and keeps its own attributes \<open>sane\<close>.
\<close>

locale engine_contract = engine_frame eg for eg :: "'x graph_method" +
  fixes sane :: "'x \<Rightarrow> bool" and answers :: "command \<Rightarrow> completion \<Rightarrow> bool"
  assumes eg_answers: "sane (device.more d) \<Longrightarrow> list_all encodable g \<Longrightarrow>
      \<exists>c d0. eg (graph_cmd rid g prio) d = (Inr (), complete_with c d0) \<and> same_control d d0 \<and>
        sane (device.more d0) \<and> answers (graph_cmd rid g prio) c"
    and answers_id: "answers cmd c \<Longrightarrow> cpl_request_id c = cmd_request_id cmd"
begin

lemma execute_serving:
  assumes d: "serving sane answers N fin fps q d" and cmd: "driver_command cmd"
    and room: "int (length (in_flight fin fps q)) < N"
    and fresh: "cmd_request_id cmd \<notin> cmd_request_id ` set (in_flight fin fps q)"
  obtains (completed) c d' where "execute eg cmd d = (Inr (), d')" "kv_pages d' = kv_pages d"
      "serving sane answers N (fin @ [(cmd, c)]) fps q d'" "kv_misses (kv_pages d) [cmd] = []"
  | (faulted) rid page d' where "execute eg cmd d = (Inr (), d')" "kv_pages d' = kv_pages d"
      "cmd = kv_cmd rid page" "kv_pages d page = None"
      "serving sane answers N fin (fps @ [(rid, page)]) q d'"
proof -
  from cmd consider (graph) rid g p where "cmd = graph_cmd rid g p" "list_all encodable g"
    | (kv) rid page where "cmd = kv_cmd rid page"
    by (auto simp: driver_command_def)
  then show ?thesis
  proof cases
    case graph
    have "sane (device.more d)" using d by (simp add: serving_def)
    then obtain c d0 where c: "eg cmd d = (Inr (), complete_with c d0)" "same_control d d0"
      "sane (device.more d0)" "answers cmd c"
      using eg_answers graph by blast
    have "serving sane answers N (fin @ [(cmd, c)]) fps q (complete_with c d0)"
    proof (rule serving_complete [OF servingI_control [OF d c(2,3)] _ room fresh])
      show "answered answers (kv_pages d0) (cmd, c)"
        using c graph by (simp add: answered_def)
    qed
    with c show ?thesis
      using graph by (intro completed [of "complete_with c d0" c]) (simp_all add: execute_def same_control_def)
  next
    case kv
    show ?thesis
    proof (cases "kv_pages d page")
      case (Some phys)
      then have "translate cmd d = complete_with (Completion rid OK phys) d"
        by (simp add: translate_def kv)
      moreover have "serving sane answers N (fin @ [(cmd, Completion rid OK phys)]) fps q
          (complete_with (Completion rid OK phys) d)"
        using Some by (intro serving_complete [OF d _ room fresh]) (simp add: answered_def kv)
      ultimately show ?thesis
        using completed [of "complete_with (Completion rid OK phys) d" "Completion rid OK phys"] Some
        by (simp add: execute_def kv)
    next
      case None
      have "serving sane answers N fin (fps @ [(rid, page)]) q (translate cmd d)"
        unfolding kv by (rule serving_fault [OF d None room]) (use fresh kv in simp)
      moreover have "kv_pages (translate cmd d) = kv_pages d"
        using None by (simp add: translate_def kv Let_def split: option.split prod.split)
      ultimately show ?thesis
        using faulted [of "translate cmd d" rid page] None by (simp add: execute_def kv)
    qed
  qed
qed

lemma process_loop_serving:
  assumes "serving sane answers N fin fps q d" and "length q < fuel"
  obtains fin' fps' d' where
    "process_loop eg fuel None n d = (Inr (n + int (length q)), d')" "kv_pages d' = kv_pages d"
    "serving sane answers N (fin @ fin') (fps @ fps') [] d'"
    "mset (in_flight fin' fps' []) = mset q"
    "fps' = kv_misses (kv_pages d) q"
proof -
  have "\<exists>fin' fps' d'. process_loop eg fuel None n d = (Inr (n + int (length q)), d') \<and>
      kv_pages d' = kv_pages d \<and> serving sane answers N (fin @ fin') (fps @ fps') [] d' \<and>
      mset (in_flight fin' fps' []) = mset q \<and> fps' = kv_misses (kv_pages d) q"
    using assms
  proof (induction q arbitrary: fin fps d fuel n)
    case Nil
    then obtain r k where r: "command_ring d = Some r" "ring_items r = []" "fuel = Suc k"
      by (cases fuel) (auto simp: serving_def)
    with Nil show ?case
      by (intro exI [of _ "[]"] exI [of _ d]) (simp add: pop_empty in_flight_def)
  next
    case (Cons cmd q)
    obtain k where k: "fuel = Suc k" "length q < k" using Cons.prems(2) by (cases fuel) auto
    obtain r where r: "command_ring d = Some r" "fst (pop r) = Some cmd"
      and cmd: "driver_command cmd" "int (length (in_flight fin fps q)) < N"
        "cmd_request_id cmd \<notin> cmd_request_id ` set (in_flight fin fps q)"
      and d1: "serving sane answers N fin fps q (increment ACCEPTED 1 (d\<lparr>command_ring := Some (snd (pop r))\<rparr>))"
        (is "serving _ _ _ _ _ _ ?d1")
      by (rule serving_pop_command [OF Cons.prems(1)])
    have pop: "pop r = (Some cmd, snd (pop r))" using r(2) by (metis prod.collapse)
    have unfold: "process_loop eg fuel None n d = process_loop eg k None (n + 1) d2"
      if "execute eg cmd ?d1 = (Inr (), d2)" for d2
      by (subst k(1), subst process_loop.simps(2), subst r(1)) (simp add: that, subst pop, simp add: that)
    have kv1: "kv_pages ?d1 = kv_pages d" by simp
    show ?case
    proof (rule execute_serving [OF d1 cmd], goal_cases)
      case (1 c d2)
      obtain fin' fps' d' where ih: "process_loop eg k None (n + 1) d2 = (Inr (n + 1 + int (length q)), d')"
        "kv_pages d' = kv_pages d2" "serving sane answers N ((fin @ [(cmd, c)]) @ fin') (fps @ fps') [] d'"
        "mset (in_flight fin' fps' []) = mset q" "fps' = kv_misses (kv_pages d2) q"
        using Cons.IH [OF 1(3) k(2)] by blast
      show ?thesis
        using ih 1(2,4) kv1 unfold [OF 1(1)]
        by (intro exI [of _ "(cmd, c) # fin'"] exI [of _ fps'] exI [of _ d']) (simp add: in_flight_def)
    next
      case (2 rid page d2)
      obtain fin' fps' d' where ih: "process_loop eg k None (n + 1) d2 = (Inr (n + 1 + int (length q)), d')"
        "kv_pages d' = kv_pages d2" "serving sane answers N (fin @ fin') ((fps @ [(rid, page)]) @ fps') [] d'"
        "mset (in_flight fin' fps' []) = mset q" "fps' = kv_misses (kv_pages d2) q"
        using Cons.IH [OF 2(5) k(2)] by blast
      show ?thesis
        using ih 2(2,3,4) kv1 unfold [OF 2(1)]
        by (intro exI [of _ fin'] exI [of _ "(rid, page) # fps'"] exI [of _ d']) (simp add: in_flight_def)
    qed
  qed
  then show ?thesis using that by blast
qed

lemma process_serving:
  assumes "serving sane answers N fin fps q d"
  obtains fin' fps' d' where
    "process eg None d = (Inr (int (length q)), d')" "kv_pages d' = kv_pages d"
    "serving sane answers N (fin @ fin') (fps @ fps') [] d'"
    "mset (in_flight fin' fps' []) = mset q"
    "fps' = kv_misses (kv_pages d) q"
proof -
  obtain r where r: "enabled d" "command_ring d = Some r" "ring_items r = q"
    using assms by (auto simp: serving_def)
  then have "process eg None d = process_loop eg (Suc (length q)) None 0 d"
    by (simp add: process_def del: process_loop.simps)
  moreover obtain fin' fps' d' where
    "process_loop eg (Suc (length q)) None 0 d = (Inr (0 + int (length q)), d')" "kv_pages d' = kv_pages d"
    "serving sane answers N (fin @ fin') (fps @ fps') [] d'"
    "mset (in_flight fin' fps' []) = mset q" "fps' = kv_misses (kv_pages d) q"
    by (rule process_loop_serving [OF assms, of "Suc (length q)" 0]) simp
  ultimately show ?thesis using that by simp
qed

end

section \<open>The control-plane engine meets the contract\<close>

definition graph_verdict :: "command \<Rightarrow> completion" where
  "graph_verdict cmd =
     (let g = cmd_graph cmd; rid = cmd_request_id cmd; invalid = Completion rid GRAPH_INVALID 0 in
      if g = [] \<or> length g > 8 \<or> cmd_priority cmd \<notin> {0..3} then invalid
      else case graph_loop rid g 0 0 of Inl _ \<Rightarrow> invalid | Inr c \<Rightarrow> c)"

lemma graph_verdict_request_id [simp]: "cpl_request_id (graph_verdict cmd) = cmd_request_id cmd"
  by (auto simp: graph_verdict_def Let_def graph_loop_request_id split: sum.split)

interpretation base_contract:
  engine_contract execute_graph "\<lambda>_ :: 'x. True" "\<lambda>cmd c. c = graph_verdict cmd"
proof unfold_locales
  fix d :: "'x device_scheme" and cmd c rid g prio
  show "\<exists>d0. same_control d d0 \<and>
      (snd (execute_graph cmd d) = d0 \<or> (\<exists>c. snd (execute_graph cmd d) = complete_with c d0))"
  proof (cases "cmd_graph cmd = [] \<or> length (cmd_graph cmd) > 8 \<or> \<not> (0 \<le> cmd_priority cmd \<and> cmd_priority cmd \<le> 3)")
    case True
    then show ?thesis by (intro exI [of _ d]) (auto simp: execute_graph_def)
  next
    case False
    have "same_control d (increment GRAPH_NODES (int (length (cmd_graph cmd))) d)" by auto
    then show ?thesis
      using False by (auto simp: execute_graph_def Let_def split: sum.split intro!: exI)
  qed
  show "\<exists>c d0. execute_graph (graph_cmd rid g prio) d = (Inr (), complete_with c d0) \<and> same_control d d0 \<and>
      True \<and> c = graph_verdict (graph_cmd rid g prio)" if "list_all encodable g"
  proof -
    have "\<exists>c. graph_loop rid g 0 0 = Inr c"
      by (rule graph_loop_returns) (use that in \<open>auto simp: list_all_iff encodable_def\<close>)
    then obtain c where c: "graph_loop rid g 0 0 = Inr c" by blast
    have "same_control d (increment GRAPH_NODES (int (length g)) d)" by auto
    with c show ?thesis
      by (cases "g = [] \<or> length g > 8 \<or> \<not> (0 \<le> prio \<and> prio \<le> 3)")
        (auto simp: execute_graph_def graph_verdict_def Let_def)
  qed
  show "cpl_request_id c = cmd_request_id cmd" if "c = graph_verdict cmd"
    using that by simp
qed

end
