(* ===== verification/Firmware.thy ===== *)
theory Firmware
  imports ControlPlane
begin

text \<open>
  \<open>runtime/driver/firmware.py\<close>: image signing, ROM verification, secure boot and the fault
  service routine.

  SHA-256 and HMAC are not in the repository: they are the parameters \<open>sha\<close> (the digest of a
  message) and \<open>mac\<close> (the HMAC-SHA256 of a message under a key) of the definitions that call
  \<open>hashlib\<close> and \<open>hmac\<close>. No theorem assumes anything of them.
\<close>

section \<open>Images\<close>

record firmware_image =
  img_payload :: "byte list"
  img_security_version :: int
  img_digest :: "byte list"
  img_signature :: "byte list"

definition MANIFEST_MAGIC :: int where "MANIFEST_MAGIC = 0x52434657"

text \<open>\<open>struct.pack("<III", ...)\<close>: \<open>struct.error\<close> when an argument does not fit 32 bits.\<close>

definition pack_u32 :: "int \<Rightarrow> byte list res" where
  "pack_u32 v = (if v < 0 \<or> v \<ge> 2 ^ 32 then Inl StructError else Inr (le_bytes 4 v))"

definition manifest_bytes :: "int \<Rightarrow> int \<Rightarrow> byte list res" where
  "manifest_bytes len version =
     (case map_res pack_u32 [MANIFEST_MAGIC, len, version] of Inl e \<Rightarrow> Inl e | Inr ws \<Rightarrow> Inr (concat ws))"

definition sign ::
  "(byte list \<Rightarrow> byte list) \<Rightarrow> (byte list \<Rightarrow> byte list \<Rightarrow> byte list) \<Rightarrow>
   byte list \<Rightarrow> int \<Rightarrow> byte list \<Rightarrow> firmware_image res"
where
  "sign sha mac payload version root_key =
     (let digest = sha payload in
      case manifest_bytes (int (length payload)) version of Inl e \<Rightarrow> Inl e
      | Inr header \<Rightarrow>
        Inr \<lparr>img_payload = payload, img_security_version = version, img_digest = digest,
             img_signature = mac root_key (header @ digest)\<rparr>)"

section \<open>The controller\<close>

record firmware =
  fw_root_key :: "byte list"
  fw_queue_entries :: int
  fw_next_physical_page :: int

definition FirmwareController_init :: "byte list \<Rightarrow> int \<Rightarrow> firmware res" where
  "FirmwareController_init root_key entries =
     (if length root_key < 16 then Inl ValueError
      else Inr \<lparr>fw_root_key = root_key, fw_queue_entries = entries, fw_next_physical_page = 0x1000\<rparr>)"

definition rom_verify ::
  "(byte list \<Rightarrow> byte list) \<Rightarrow> (byte list \<Rightarrow> byte list \<Rightarrow> byte list) \<Rightarrow>
   firmware \<Rightarrow> firmware_image \<Rightarrow> 'x device_scheme \<Rightarrow> bool res"
where
  "rom_verify sha mac fw img d =
     (if img_security_version img < otp_minimum_version d then Inr False
      else let digest = sha (img_payload img) in
        if digest \<noteq> img_digest img then Inr False
        else case manifest_bytes (int (length (img_payload img))) (img_security_version img) of
          Inl e \<Rightarrow> Inl e
        | Inr header \<Rightarrow> Inr (mac (fw_root_key fw) (header @ digest) = img_signature img))"

definition boot ::
  "(byte list \<Rightarrow> byte list) \<Rightarrow> (byte list \<Rightarrow> byte list \<Rightarrow> byte list) \<Rightarrow>
   firmware \<Rightarrow> firmware_image \<Rightarrow> bool \<Rightarrow> 'x device_scheme \<Rightarrow> (bool, 'x) dev_result"
where
  "boot sha mac fw img lock_debug d =
     (let d1 = increment BOOT_ATTEMPTS 1 d in
      case rom_verify sha mac fw img d1 of Inl e \<Rightarrow> (Inl e, d1)
      | Inr False \<Rightarrow>
        (Inr False, (increment BOOT_FAILURES 1 d1)
           \<lparr>boot_failed := True, secure_verified := False, status := FATAL, enabled := False\<rparr>)
      | Inr True \<Rightarrow>
        (case initialize_queues (fw_queue_entries fw) d1 of
           (Inl e, d2) \<Rightarrow>
             (if e = ValueError
              then (Inr False, (increment BOOT_FAILURES 1 d2)\<lparr>boot_failed := True, status := FATAL\<rparr>)
              else (Inl e, d2))
         | (Inr _, d2) \<Rightarrow>
             (let d3 = d2\<lparr>secure_verified := True, boot_failed := False,
                          firmware_version := img_security_version img,
                          otp_minimum_version := max (otp_minimum_version d2) (img_security_version img),
                          status := FIRMWARE_READY\<rparr>;
                  d4 = (if lock_debug then d3\<lparr>debug_locked := True\<rparr> else d3) in
              case enable d4 of (Inl e, d5) \<Rightarrow> (Inl e, d5) | (Inr _, d5) \<Rightarrow> (Inr True, d5))))"

text \<open>
  The body of the \<open>for\<close> loop once a fault is popped: install a mapping for an unmapped page, then
  replay the faulted command. The result says whether the fault was recovered.
\<close>

definition serve_fault ::
  "'x graph_method \<Rightarrow> fault \<Rightarrow> firmware \<Rightarrow> 'x device_scheme \<Rightarrow> bool res \<times> firmware \<times> 'x device_scheme"
where
  "serve_fault eg flt fw d =
     (if \<not> flt_replayable flt \<or> flt_retry_count flt \<ge> 3 then (Inr False, fw, d)
      else let page = flt_address flt;
        (fw1, d1) =
          (if kv_pages d page = None
           then (fw\<lparr>fw_next_physical_page := fw_next_physical_page fw + 1\<rparr>,
                 d\<lparr>kv_pages := (kv_pages d)(page \<mapsto> fw_next_physical_page fw)\<rparr>)
           else (fw, d)) in
        case replay eg (flt_request_id flt) d1 of
          (Inl e, d2) \<Rightarrow> (Inl e, fw1, d2)
        | (Inr replayed, d2) \<Rightarrow>
            if replayed then (Inr True, fw1, increment KV_RECOVERED 1 d2) else (Inr False, fw1, d2))"

text \<open>\<open>for _ in range(budget)\<close> over the fault ring.\<close>

fun service_loop ::
  "'x graph_method \<Rightarrow> nat \<Rightarrow> int \<Rightarrow> firmware \<Rightarrow> 'x device_scheme \<Rightarrow>
   int res \<times> firmware \<times> 'x device_scheme"
where
  "service_loop eg 0 recovered fw d = (Inr recovered, fw, d)"
| "service_loop eg (Suc n) recovered fw d =
     (case fault_ring d of None \<Rightarrow> (Inl AttributeError, fw, d)
      | Some r \<Rightarrow>
        (case pop r of (None, r') \<Rightarrow> (Inr recovered, fw, d\<lparr>fault_ring := Some r'\<rparr>)
         | (Some flt, r') \<Rightarrow>
           (case serve_fault eg flt fw (d\<lparr>fault_ring := Some r'\<rparr>) of
              (Inl e, fw1, d1) \<Rightarrow> (Inl e, fw1, d1)
            | (Inr ok, fw1, d1) \<Rightarrow>
                service_loop eg n (if ok then recovered + 1 else recovered) fw1 d1)))"

definition service_faults ::
  "'x graph_method \<Rightarrow> int \<Rightarrow> firmware \<Rightarrow> 'x device_scheme \<Rightarrow> int res \<times> firmware \<times> 'x device_scheme"
where
  "service_faults eg budget fw d =
     (if fault_ring d = None then (Inr 0, fw, d) else service_loop eg (nat budget) 0 fw d)"

section \<open>What verification and boot decide\<close>

definition authentic ::
  "(byte list \<Rightarrow> byte list) \<Rightarrow> (byte list \<Rightarrow> byte list \<Rightarrow> byte list) \<Rightarrow> byte list \<Rightarrow> firmware_image \<Rightarrow> bool"
where
  "authentic sha mac key img \<longleftrightarrow>
     img_digest img = sha (img_payload img) \<and>
     (\<exists>header. manifest_bytes (int (length (img_payload img))) (img_security_version img) = Inr header \<and>
        img_signature img = mac key (header @ img_digest img))"

lemma rom_verify_True:
  "rom_verify sha mac fw img d = Inr True \<longleftrightarrow>
     otp_minimum_version d \<le> img_security_version img \<and> authentic sha mac (fw_root_key fw) img"
  by (auto simp: rom_verify_def authentic_def Let_def split: sum.split if_splits)

lemma rom_verify_increment [simp]: "rom_verify sha mac fw img (increment c n d) = rom_verify sha mac fw img d"
  by (simp add: rom_verify_def)

lemma initialize_queues_legal:
  assumes "legal_size n"
  obtains r1 r2 r3 where
    "initialize_queues n d = (Inr (), d\<lparr>command_ring := Some r1, completion_ring := Some r2, fault_ring := Some r3\<rparr>)"
    "Ring_init n = Inr r1" "Ring_init n = Inr r2" "Ring_init n = Inr r3"
  using assms by (simp add: initialize_queues_def Ring_init_eq)

lemma initialize_queues_illegal: "\<not> legal_size n \<Longrightarrow> initialize_queues n d = (Inl ValueError, d)"
  by (simp add: initialize_queues_def Ring_init_eq)

lemma initialize_queues_sel:
  "enabled (snd (initialize_queues n d)) = enabled d"
  "secure_verified (snd (initialize_queues n d)) = secure_verified d"
  "debug_locked (snd (initialize_queues n d)) = debug_locked d"
  "otp_minimum_version (snd (initialize_queues n d)) = otp_minimum_version d"
  "firmware_version (snd (initialize_queues n d)) = firmware_version d"
  "counters (snd (initialize_queues n d)) = counters d"
  "kv_pages (snd (initialize_queues n d)) = kv_pages d"
  "device.more (snd (initialize_queues n d)) = device.more d"
  by (simp_all add: initialize_queues_def Ring_init_eq)

text \<open>The device a successful boot leaves behind.\<close>

definition booted :: "firmware \<Rightarrow> firmware_image \<Rightarrow> bool \<Rightarrow> 'x device_scheme \<Rightarrow> 'x device_scheme \<Rightarrow> bool" where
  "booted fw img lock d d' \<longleftrightarrow>
     enabled d' \<and> status d' = RUNNING \<and> secure_verified d' \<and> \<not> boot_failed d' \<and>
     firmware_version d' = img_security_version img \<and>
     otp_minimum_version d' = max (otp_minimum_version d) (img_security_version img) \<and>
     debug_locked d' = (lock \<or> debug_locked d) \<and>
     (\<exists>r. command_ring d' = Some r \<and> Ring_init (fw_queue_entries fw) = Inr r) \<and>
     (\<exists>r. completion_ring d' = Some r \<and> Ring_init (fw_queue_entries fw) = Inr r) \<and>
     (\<exists>r. fault_ring d' = Some r \<and> Ring_init (fw_queue_entries fw) = Inr r) \<and>
     pending d' = pending d \<and> kv_pages d' = kv_pages d \<and> device.more d' = device.more d \<and>
     counters d' = counters (increment BOOT_ATTEMPTS 1 d)"

lemma boot_cases:
  obtains
    (booted) d' where "boot sha mac fw img lock d = (Inr True, d')" "booted fw img lock d d'"
      "legal_size (fw_queue_entries fw)" "otp_minimum_version d \<le> img_security_version img"
      "authentic sha mac (fw_root_key fw) img"
  | (rejected) "boot sha mac fw img lock d =
        (Inr False, (increment BOOT_FAILURES 1 (increment BOOT_ATTEMPTS 1 d))
           \<lparr>boot_failed := True, secure_verified := False, status := FATAL, enabled := False\<rparr>)"
      "rom_verify sha mac fw img d = Inr False"
  | (bad_size) "boot sha mac fw img lock d =
        (Inr False, (increment BOOT_FAILURES 1 (increment BOOT_ATTEMPTS 1 d))
           \<lparr>boot_failed := True, status := FATAL\<rparr>)"
      "\<not> legal_size (fw_queue_entries fw)" "rom_verify sha mac fw img d = Inr True"
  | (raised) e where "boot sha mac fw img lock d = (Inl e, increment BOOT_ATTEMPTS 1 d)"
      "rom_verify sha mac fw img d = Inl e"
proof (cases "rom_verify sha mac fw img d")
  case (Inl e)
  then show ?thesis by (intro raised [of e]) (simp_all add: boot_def Let_def)
next
  case (Inr b)
  show ?thesis
  proof (cases "b \<and> legal_size (fw_queue_entries fw)")
    case False
    show ?thesis
    proof (cases b)
      case True
      with Inr False show ?thesis
        by (intro bad_size) (simp_all add: boot_def Let_def initialize_queues_illegal)
    next
      case False
      with Inr show ?thesis by (intro rejected) (simp_all add: boot_def Let_def)
    qed
  next
    case True
    then have ver: "rom_verify sha mac fw img d = Inr True" and legal: "legal_size (fw_queue_entries fw)"
      using Inr by simp_all
    define d1 where "d1 = increment BOOT_ATTEMPTS 1 d"
    have ver1: "rom_verify sha mac fw img d1 = Inr True" using ver by (simp add: d1_def)
    have d1: "otp_minimum_version d1 = otp_minimum_version d" "debug_locked d1 = debug_locked d"
      "pending d1 = pending d" "kv_pages d1 = kv_pages d" "device.more d1 = device.more d"
      by (simp_all add: d1_def)
    obtain r1 r2 r3 where q: "initialize_queues (fw_queue_entries fw) d1
        = (Inr (), d1\<lparr>command_ring := Some r1, completion_ring := Some r2, fault_ring := Some r3\<rparr>)"
      "Ring_init (fw_queue_entries fw) = Inr r1" "Ring_init (fw_queue_entries fw) = Inr r2"
      "Ring_init (fw_queue_entries fw) = Inr r3"
      by (rule initialize_queues_legal [OF legal])
    have "\<exists>d'. boot sha mac fw img lock d = (Inr True, d') \<and> booted fw img lock d d'"
      using ver1 q d1 unfolding boot_def booted_def d1_def [symmetric]
      by (simp add: Let_def enable_def)
    with ver legal show ?thesis using booted by (auto simp: rom_verify_True)
  qed
qed

lemma boot_True_iff:
  "fst (boot sha mac fw img lock d) = Inr True \<longleftrightarrow>
     otp_minimum_version d \<le> img_security_version img \<and> authentic sha mac (fw_root_key fw) img \<and>
     legal_size (fw_queue_entries fw)"
proof (cases rule: boot_cases [of sha mac fw img lock d])
  case booted
  then show ?thesis by simp
qed (use rom_verify_True [of sha mac fw img d] in force)+

end
