(* ===== verification/Platform.thy ===== *)
theory Platform
  imports Firmware
begin

text \<open>
  The device and its firmware controller as one state machine. \<open>RcifDevice\<close> and
  \<open>FirmwareController\<close> share the device object, so the state is the pair of both records and
  an event is a call a host, a test bench or the firmware can make on either, with any
  argument and in any order. The theorems quantify over every sequence of such calls.
\<close>

section \<open>Events\<close>

datatype fw_event =
    Boot firmware_image bool
  | PowerOnReset
  | WarmReset
  | InitializeQueues int
  | Enable
  | Submit command
  | Process "int option"
  | Replay int
  | ServiceFaults int
  | PopCompletion

type_synonym 'x platform = "firmware \<times> 'x device_scheme"

text \<open>
  The state after the call; an exception leaves the mutations made before it. \<open>PopCompletion\<close> is
  the host taking one completion from the ring, as \<open>RcifDriver.poll\<close> does.
\<close>

fun fw_step ::
  "'x graph_method \<Rightarrow> (byte list \<Rightarrow> byte list) \<Rightarrow> (byte list \<Rightarrow> byte list \<Rightarrow> byte list) \<Rightarrow>
   fw_event \<Rightarrow> 'x platform \<Rightarrow> 'x platform"
where
  "fw_step eg sha mac (Boot img lock) (fw, d) = (fw, snd (boot sha mac fw img lock d))"
| "fw_step eg sha mac PowerOnReset (fw, d) = (fw, power_on_reset d)"
| "fw_step eg sha mac WarmReset (fw, d) = (fw, warm_reset d)"
| "fw_step eg sha mac (InitializeQueues n) (fw, d) = (fw, snd (initialize_queues n d))"
| "fw_step eg sha mac Enable (fw, d) = (fw, snd (enable d))"
| "fw_step eg sha mac (Submit cmd) (fw, d) = (fw, snd (submit cmd d))"
| "fw_step eg sha mac (Process budget) (fw, d) = (fw, snd (process eg budget d))"
| "fw_step eg sha mac (Replay rid) (fw, d) = (fw, snd (replay eg rid d))"
| "fw_step eg sha mac (ServiceFaults budget) (fw, d) = snd (service_faults eg budget fw d)"
| "fw_step eg sha mac PopCompletion (fw, d) =
     (fw, case completion_ring d of None \<Rightarrow> d | Some r \<Rightarrow> d\<lparr>completion_ring := Some (snd (pop r))\<rparr>)"

definition fw_run ::
  "'x graph_method \<Rightarrow> (byte list \<Rightarrow> byte list) \<Rightarrow> (byte list \<Rightarrow> byte list \<Rightarrow> byte list) \<Rightarrow>
   fw_event list \<Rightarrow> 'x platform \<Rightarrow> 'x platform"
where
  "fw_run eg sha mac evs s = fold (fw_step eg sha mac) evs s"

lemma fw_run_simps [simp]:
  "fw_run eg sha mac [] s = s"
  "fw_run eg sha mac (ev # evs) s = fw_run eg sha mac evs (fw_step eg sha mac ev s)"
  "fw_run eg sha mac (evs @ evs') s = fw_run eg sha mac evs' (fw_run eg sha mac evs s)"
  by (simp_all add: fw_run_def)

text \<open>\<open>RcifDevice()\<close> and \<open>FirmwareController(device, root_key, queue_entries)\<close>.\<close>

definition fresh :: "byte list \<Rightarrow> int \<Rightarrow> int \<Rightarrow> firmware \<times> device" where
  "fresh key entries otp =
     (\<lparr>fw_root_key = key, fw_queue_entries = entries, fw_next_physical_page = 0x1000\<rparr>, RcifDevice_init otp)"

lemma FirmwareController_init_fresh:
  "FirmwareController_init key entries = Inr fw \<longleftrightarrow> 16 \<le> length key \<and> fw = fst (fresh key entries otp)"
  by (auto simp: FirmwareController_init_def fresh_def)

lemma fresh_sel [simp]:
  "fw_root_key (fst (fresh key entries otp)) = key"
  "fw_queue_entries (fst (fresh key entries otp)) = entries"
  "fw_next_physical_page (fst (fresh key entries otp)) = 0x1000"
  "snd (fresh key entries otp) = RcifDevice_init otp"
  by (simp_all add: fresh_def)

lemma RcifDevice_init_sel [simp]:
  "otp_minimum_version (RcifDevice_init otp) = otp" "counters (RcifDevice_init otp) c = 0"
  "\<not> debug_locked (RcifDevice_init otp)" "status (RcifDevice_init otp) = BOOT_ROM"
  "\<not> secure_verified (RcifDevice_init otp)" "\<not> boot_failed (RcifDevice_init otp)"
  "firmware_version (RcifDevice_init otp) = 0" "\<not> enabled (RcifDevice_init otp)"
  "command_ring (RcifDevice_init otp) = None" "completion_ring (RcifDevice_init otp) = None"
  "fault_ring (RcifDevice_init otp) = None" "pending (RcifDevice_init otp) = Map.empty"
  "kv_pages (RcifDevice_init otp) = Map.empty"
  by (simp_all add: RcifDevice_init_def power_on_reset_def)

section \<open>What each call keeps\<close>

lemma power_on_reset_sel [simp]:
  "otp_minimum_version (power_on_reset d) = otp_minimum_version d"
  "counters (power_on_reset d) = counters d" "\<not> debug_locked (power_on_reset d)"
  "\<not> secure_verified (power_on_reset d)" "\<not> enabled (power_on_reset d)"
  "firmware_version (power_on_reset d) = 0"
  "kv_pages (power_on_reset d) = Map.empty"
  by (simp_all add: power_on_reset_def)

lemma warm_reset_sel [simp]:
  "otp_minimum_version (warm_reset d) = otp_minimum_version d"
  "counters (warm_reset d) = counters d" "debug_locked (warm_reset d) = debug_locked d"
  "secure_verified (warm_reset d) = secure_verified d" "\<not> enabled (warm_reset d)"
  "boot_failed (warm_reset d) = boot_failed d"
  "firmware_version (warm_reset d) = firmware_version d" "kv_pages (warm_reset d) = kv_pages d"
  by (simp_all add: warm_reset_def Let_def)

lemma enable_sel [simp]:
  "otp_minimum_version (snd (enable d)) = otp_minimum_version d"
  "counters (snd (enable d)) = counters d" "debug_locked (snd (enable d)) = debug_locked d"
  "secure_verified (snd (enable d)) = secure_verified d"
  "boot_failed (snd (enable d)) = boot_failed d"
  "firmware_version (snd (enable d)) = firmware_version d" "kv_pages (snd (enable d)) = kv_pages d"
  by (simp_all add: enable_def)

lemma enabled_enable: "enabled (snd (enable d)) \<Longrightarrow> enabled d \<or> secure_verified d"
  by (auto simp: enable_def split: if_splits)

declare initialize_queues_sel [simp]

lemma submit_kv_pages [simp]: "kv_pages (snd (submit cmd d)) = kv_pages d"
  by (simp add: submit_def split: option.split prod.split)

text \<open>The mappings the firmware installs: distinct physical pages, below the next free one.\<close>

definition kv_wf :: "int \<Rightarrow> (int \<rightharpoonup> int) \<Rightarrow> bool" where
  "kv_wf next m \<longleftrightarrow> 0x1000 \<le> next \<and> inj_on m (dom m) \<and> ran m \<subseteq> {0x1000..<next}"

lemma kv_wf_empty: "0x1000 \<le> next \<Longrightarrow> kv_wf next Map.empty"
  by (simp add: kv_wf_def)

lemma kv_wf_install:
  assumes "kv_wf next m" and "m page = None"
  shows "kv_wf (next + 1) (m(page \<mapsto> next))"
proof -
  have "next \<notin> ran m" using assms(1) by (auto simp: kv_wf_def)
  then have "m p \<noteq> Some next" for p by (auto simp: ran_def)
  then have "inj_on (m(page \<mapsto> next)) (dom (m(page \<mapsto> next)))"
    using assms(1) unfolding inj_on_def kv_wf_def dom_def by (auto simp: eq_commute [of "Some next"])
  moreover have "ran (m(page \<mapsto> next)) = insert next (ran m)"
    using assms(2) by (simp add: ran_map_upd)
  ultimately show ?thesis using assms(1) by (auto simp: kv_wf_def)
qed

text \<open>What a call of the controller on a fault may change.\<close>

definition serves :: "'x platform \<Rightarrow> 'x platform \<Rightarrow> bool" where
  "serves s s' \<longleftrightarrow>
     keeps_security (snd s) (snd s') \<and> fw_root_key (fst s') = fw_root_key (fst s) \<and>
     fw_queue_entries (fst s') = fw_queue_entries (fst s) \<and>
     (kv_wf (fw_next_physical_page (fst s)) (kv_pages (snd s)) \<longrightarrow>
      kv_wf (fw_next_physical_page (fst s')) (kv_pages (snd s')))"

lemma serves_refl [simp, intro]: "serves s s"
  by (simp add: serves_def)

lemma serves_trans: "serves s1 s2 \<Longrightarrow> serves s2 s3 \<Longrightarrow> serves s1 s3"
  using keeps_security_trans by (fastforce simp: serves_def)

lemma serves_device: "keeps_security d d' \<Longrightarrow> kv_pages d' = kv_pages d \<Longrightarrow> serves (fw, d) (fw, d')"
  by (simp add: serves_def)

lemma serves_install:
  assumes "kv_pages d page = None"
  shows "serves (fw, d) (fw\<lparr>fw_next_physical_page := fw_next_physical_page fw + 1\<rparr>,
                         d\<lparr>kv_pages := (kv_pages d)(page \<mapsto> fw_next_physical_page fw)\<rparr>)"
  using assms by (auto simp: serves_def intro: kv_wf_install keeps_security_updates)

context engine_frame
begin

lemma serve_fault_serves: "serves (fw, d) (snd (serve_fault eg flt fw d))"
proof (cases "\<not> flt_replayable flt \<or> flt_retry_count flt \<ge> 3")
  case True
  then show ?thesis by (auto simp: serve_fault_def)
next
  case False
  have after: "serves s (snd (case replay eg rid d1 of (Inl e, d2) \<Rightarrow> (Inl e, fw1, d2)
      | (Inr b, d2) \<Rightarrow> if b then (Inr True, fw1, increment KV_RECOVERED 1 d2) else (Inr False, fw1, d2)))"
    if s: "serves s (fw1, d1)" for s fw1 d1 rid
  proof -
    obtain y d2 where y: "replay eg rid d1 = (y, d2)" by fastforce
    then have "keeps_security d1 d2" "kv_pages d2 = kv_pages d1"
      using replay_keeps [of d1 rid] replay_kv_pages [of rid d1] by auto
    moreover from this have "keeps_security d1 (increment KV_RECOVERED 1 d2)"
      using keeps_security_trans keeps_security_increment [of 1 d2] by fastforce
    ultimately have "serves (fw1, d1) (fw1, d2)" "serves (fw1, d1) (fw1, increment KV_RECOVERED 1 d2)"
      by (simp_all add: serves_device)
    with y s show ?thesis by (auto split: sum.split intro: serves_trans)
  qed
  show ?thesis
    using False after [OF serves_refl] after [OF serves_install]
    by (cases "kv_pages d (flt_address flt) = None") (auto simp: serve_fault_def Let_def)
qed

lemma service_loop_serves: "serves (fw, d) (snd (service_loop eg n recovered fw d))"
proof (induction n arbitrary: recovered fw d)
  case 0
  then show ?case by simp
next
  case (Suc n)
  show ?case
  proof (cases "fault_ring d")
    case None
    then show ?thesis by simp
  next
    case ring: (Some q)
    obtain x q' where pop: "pop q = (x, q')" by fastforce
    have d1: "serves (fw, d) (fw, d\<lparr>fault_ring := Some q'\<rparr>)"
      using ring by (intro serves_device) (auto intro: keeps_security_updates)
    show ?thesis
    proof (cases x)
      case None
      with ring pop d1 show ?thesis by simp
    next
      case (Some flt)
      obtain y fw1 d2 where y: "serve_fault eg flt fw (d\<lparr>fault_ring := Some q'\<rparr>) = (y, fw1, d2)"
        by (metis prod_cases3)
      then have "serves (fw, d) (fw1, d2)"
        using serves_trans [OF d1 serve_fault_serves [of fw "d\<lparr>fault_ring := Some q'\<rparr>" flt]] by simp
      with ring pop Some y show ?thesis
        using serves_trans Suc.IH [of fw1 d2] by (simp split: sum.split) blast
    qed
  qed
qed

lemma service_faults_serves: "serves (fw, d) (snd (service_faults eg budget fw d))"
  by (simp add: service_faults_def service_loop_serves)

end

section \<open>Every sequence of calls\<close>

text \<open>
  The security part of the state, which only the boot path and the resets write. \<open>runs\<close> relates
  the states around a call that does neither.
\<close>

definition runs :: "'x platform \<Rightarrow> 'x platform \<Rightarrow> bool" where
  "runs s s' \<longleftrightarrow>
     fw_root_key (fst s') = fw_root_key (fst s) \<and> fw_queue_entries (fst s') = fw_queue_entries (fst s) \<and>
     otp_minimum_version (snd s') = otp_minimum_version (snd s) \<and>
     debug_locked (snd s') = debug_locked (snd s) \<and> secure_verified (snd s') = secure_verified (snd s) \<and>
     firmware_version (snd s') = firmware_version (snd s) \<and>
     (enabled (snd s') \<longrightarrow> enabled (snd s) \<or> secure_verified (snd s)) \<and>
     counters_grow (counters (snd s)) (counters (snd s'))"

lemma runs_serves: "serves s s' \<Longrightarrow> runs s s'"
  by (auto simp: runs_def serves_def keeps_security_def)

context engine_frame
begin

lemma step_serves:
  "serves (fw, d) (fw_step eg sha mac (Submit cmd) (fw, d))"
  "serves (fw, d) (fw_step eg sha mac (Process budget) (fw, d))"
  "serves (fw, d) (fw_step eg sha mac (Replay rid) (fw, d))"
  "serves (fw, d) (fw_step eg sha mac (ServiceFaults n) (fw, d))"
  "serves (fw, d) (fw_step eg sha mac PopCompletion (fw, d))"
  using keeps_security_updates(3) [of d]
  by (simp_all add: serves_device keeps_security_submit process_keeps process_kv_pages replay_keeps
      replay_kv_pages service_faults_serves split: option.split)

lemma step_runs:
  assumes "ev \<noteq> PowerOnReset" and "\<And>img lock. ev \<noteq> Boot img lock"
  shows "runs s (fw_step eg sha mac ev s)"
proof -
  obtain fw d where s: "s = (fw, d)" by fastforce
  show ?thesis
  proof (cases ev)
    case (InitializeQueues n)
    then show ?thesis by (simp add: s runs_def)
  next
    case Enable
    then show ?thesis using enabled_enable [of d] by (simp add: s runs_def)
  next
    case WarmReset
    then show ?thesis by (simp add: s runs_def)
  qed (use assms step_serves [of fw d, THEN runs_serves] s in simp_all)
qed

lemma run_counters_grow: "counters_grow (counters (snd s)) (counters (snd (fw_run eg sha mac evs s)))"
proof (induction evs rule: rev_induct)
  case Nil
  then show ?case by simp
next
  case (snoc ev evs)
  define s1 where "s1 = fw_run eg sha mac evs s"
  obtain fw d where s1: "s1 = (fw, d)" by fastforce
  have "counters_grow (counters d) (counters (snd (fw_step eg sha mac ev s1)))"
  proof (cases "ev = PowerOnReset \<or> (\<exists>img lock. ev = Boot img lock)")
    case False
    then show ?thesis using step_runs [of ev s1] by (simp add: runs_def s1)
  next
    case True
    have twice: "counters_grow (counters d) (counters (increment BOOT_FAILURES 1 (increment BOOT_ATTEMPTS 1 d)))"
      by (rule counters_grow_trans [OF counters_grow_increment counters_grow_increment]) simp_all
    have "counters_grow (counters d) (counters (snd (boot sha mac fw img lock d)))" for img lock
      by (rule boot_cases [of sha mac fw img lock d])
        (simp_all add: twice counters_grow_increment booted_def)
    with True show ?thesis by (auto simp: s1)
  qed
  with snoc show ?case
    using counters_grow_trans by (fastforce simp: s1_def [symmetric] s1)
qed

lemma run_kv_wf:
  assumes "kv_wf (fw_next_physical_page (fst s)) (kv_pages (snd s))"
  shows "kv_wf (fw_next_physical_page (fst (fw_run eg sha mac evs s))) (kv_pages (snd (fw_run eg sha mac evs s)))"
    (is "?wf (fw_run eg sha mac evs s)")
proof (induction evs rule: rev_induct)
  case Nil
  then show ?case using assms by simp
next
  case (snoc ev evs)
  define s1 where "s1 = fw_run eg sha mac evs s"
  obtain fw d where s1: "s1 = (fw, d)" by fastforce
  have wf: "kv_wf (fw_next_physical_page fw) (kv_pages d)" using snoc s1 s1_def by simp
  have boot: "kv_pages (snd (boot sha mac fw img lock d)) = kv_pages d" for img lock
    by (rule boot_cases [of sha mac fw img lock d]) (simp_all add: booted_def)
  have "?wf (fw_step eg sha mac ev s1)"
  proof (cases ev)
    case PowerOnReset
    then show ?thesis using wf by (simp add: s1 kv_wf_def)
  qed (use wf step_serves [of fw d] in \<open>simp_all add: s1 serves_def boot\<close>)
  then show ?case by (simp add: s1_def)
qed

end

text \<open>
  The event that authorised the firmware a device is running: a boot of an authentic image of
  its version, after which no power-on reset and no boot call that came to a verdict happened.
\<close>

definition boot_raises :: "firmware_image \<Rightarrow> bool" where
  "boot_raises img \<longleftrightarrow>
     \<not> is_ok (manifest_bytes (int (length (img_payload img))) (img_security_version img))"

definition authorised ::
  "(byte list \<Rightarrow> byte list) \<Rightarrow> (byte list \<Rightarrow> byte list \<Rightarrow> byte list) \<Rightarrow> byte list \<Rightarrow> int \<Rightarrow>
   fw_event list \<Rightarrow> int \<Rightarrow> bool"
where
  "authorised sha mac key otp evs version \<longleftrightarrow>
     (\<exists>pre img lock post. evs = pre @ Boot img lock # post \<and> authentic sha mac key img \<and>
        img_security_version img = version \<and> otp \<le> version \<and> PowerOnReset \<notin> set post \<and>
        (\<forall>img' lock'. Boot img' lock' \<in> set post \<longrightarrow> boot_raises img'))"

lemma authorised_snoc:
  assumes "authorised sha mac key otp evs version" and "ev \<noteq> PowerOnReset"
    and "\<And>img lock. ev = Boot img lock \<Longrightarrow> boot_raises img"
  shows "authorised sha mac key otp (evs @ [ev]) version"
proof -
  obtain pre img lock post where p: "evs = pre @ Boot img lock # post" "authentic sha mac key img"
    "img_security_version img = version" "otp \<le> version" "PowerOnReset \<notin> set post"
    "\<forall>img' lock'. Boot img' lock' \<in> set post \<longrightarrow> boot_raises img'"
    using assms(1) by (auto simp: authorised_def)
  show ?thesis
    unfolding authorised_def
    by (intro exI [of _ pre] exI [of _ img] exI [of _ lock] exI [of _ "post @ [ev]"]) (use p assms in auto)
qed

lemma authorised_boot:
  "authentic sha mac key img \<Longrightarrow> otp \<le> img_security_version img \<Longrightarrow>
   authorised sha mac key otp (evs @ [Boot img lock]) (img_security_version img)"
  unfolding authorised_def by (intro exI [of _ evs] exI [of _ img] exI [of _ lock] exI [of _ "[]"]) simp

lemma rom_verify_Inl: "rom_verify sha mac fw img d = Inl e \<Longrightarrow> boot_raises img"
  by (auto simp: rom_verify_def boot_raises_def Let_def split: if_splits sum.splits)

text \<open>The invariant behind secure boot, for a device that started unverified with \<open>otp\<close>.\<close>

definition boot_inv ::
  "(byte list \<Rightarrow> byte list) \<Rightarrow> (byte list \<Rightarrow> byte list \<Rightarrow> byte list) \<Rightarrow> byte list \<Rightarrow> int \<Rightarrow> int \<Rightarrow>
   fw_event list \<Rightarrow> 'x platform \<Rightarrow> bool"
where
  "boot_inv sha mac key entries otp evs s \<longleftrightarrow>
     fw_root_key (fst s) = key \<and> fw_queue_entries (fst s) = entries \<and>
     otp \<le> otp_minimum_version (snd s) \<and> (enabled (snd s) \<longrightarrow> secure_verified (snd s)) \<and>
     (secure_verified (snd s) \<longrightarrow> legal_size entries \<and>
        authorised sha mac key otp evs (firmware_version (snd s)))"

lemma boot_inv_boot:
  assumes inv: "boot_inv sha mac key entries otp evs (fw, d)"
  shows "boot_inv sha mac key entries otp (evs @ [Boot img lock]) (fw, snd (boot sha mac fw img lock d))"
proof (cases rule: boot_cases [of sha mac fw img lock d])
  case (booted d')
  then show ?thesis using inv authorised_boot by (auto simp: boot_inv_def booted_def)
next
  case rejected
  then show ?thesis using inv by (simp add: boot_inv_def)
next
  case bad_size
  then show ?thesis using inv by (auto simp: boot_inv_def)
next
  case (raised e)
  then show ?thesis
    using inv rom_verify_Inl [OF raised(2)] authorised_snoc [of sha mac key otp evs "firmware_version d" "Boot img lock"]
    by (auto simp: boot_inv_def)
qed

context engine_frame
begin

lemma boot_inv_step:
  assumes inv: "boot_inv sha mac key entries otp evs s"
  shows "boot_inv sha mac key entries otp (evs @ [ev]) (fw_step eg sha mac ev s)"
proof -
  obtain fw d where s: "s = (fw, d)" by fastforce
  consider "ev = PowerOnReset" | img lock where "ev = Boot img lock"
    | "ev \<noteq> PowerOnReset" "\<And>img lock. ev \<noteq> Boot img lock" by blast
  then show ?thesis
  proof cases
    case 1
    then show ?thesis using inv by (simp add: s boot_inv_def)
  next
    case 2
    then show ?thesis using boot_inv_boot inv by (simp add: s)
  next
    case 3
    then show ?thesis
      using inv step_runs [OF 3, of s sha mac] authorised_snoc [of sha mac key otp evs _ ev]
      by (auto simp: boot_inv_def runs_def)
  qed
qed

lemma boot_inv_run:
  assumes "boot_inv sha mac key entries otp [] s"
  shows "boot_inv sha mac key entries otp evs (fw_run eg sha mac evs s)"
  using assms by (induction evs rule: rev_induct) (simp_all add: boot_inv_step)

lemma otp_mono_step: "otp_minimum_version (snd s) \<le> otp_minimum_version (snd (fw_step eg sha mac ev s))"
proof -
  obtain fw d where s: "s = (fw, d)" by fastforce
  have "otp_minimum_version d \<le> otp_minimum_version (snd (boot sha mac fw img lock d))" for img lock
    by (rule boot_cases [of sha mac fw img lock d]) (simp_all add: booted_def)
  then show ?thesis
    using step_runs [of ev s sha mac] by (cases ev) (auto simp: s runs_def simp del: fw_step.simps(3-))
qed

lemma otp_mono_run: "otp_minimum_version (snd s) \<le> otp_minimum_version (snd (fw_run eg sha mac evs s))"
proof (induction evs rule: rev_induct)
  case (snoc ev evs)
  then show ?case using otp_mono_step [of "fw_run eg sha mac evs s" sha mac ev] by simp
qed simp

lemma debug_locked_run:
  assumes "debug_locked (snd s)" and "PowerOnReset \<notin> set evs"
  shows "debug_locked (snd (fw_run eg sha mac evs s))"
  using assms(2)
proof (induction evs rule: rev_induct)
  case (snoc ev evs)
  define s1 where "s1 = fw_run eg sha mac evs s"
  obtain fw d where s1: "s1 = (fw, d)" by fastforce
  have locked: "debug_locked d" using snoc s1 s1_def by simp
  have "debug_locked (snd (boot sha mac fw img lock d))" for img lock
    using locked by (cases rule: boot_cases [of sha mac fw img lock d]) (simp_all add: booted_def)
  then have "debug_locked (snd (fw_step eg sha mac ev s1))"
    using step_runs [of ev s1 sha mac] snoc.prems locked
    by (cases ev) (auto simp: s1 runs_def simp del: fw_step.simps(3-))
  then show ?case by (simp add: s1_def)
qed (use assms in simp)

end

section \<open>Properties of the boot chain\<close>

text \<open>
  C2: secure boot. Whatever sequence of calls a host and its firmware make on a device built with
  OTP version \<open>otp\<close>, with whatever commands, queue sizes, resets and images: if queue processing is
  enabled, the device is verified, and the last boot call of the sequence that came to a verdict
  was given an authentic image (its digest is the payload's and its signature is the MAC of the
  manifest under the root key), at least as new as \<open>otp\<close>, whose version is the running one; and no
  power-on reset happened since. In particular a rejected image stops the device until another
  image passes, and a warm reset does not bypass that.
\<close>

theorem enabled_only_after_secure_boot:
  assumes "fw_run execute_graph sha mac evs (fresh key entries otp) = (fw, d)" and "enabled d"
  shows "secure_verified d \<and>
     (\<exists>pre img lock post. evs = pre @ Boot img lock # post \<and> authentic sha mac key img \<and>
        img_security_version img = firmware_version d \<and> otp \<le> firmware_version d \<and>
        PowerOnReset \<notin> set post \<and>
        (\<forall>img' lock'. Boot img' lock' \<in> set post \<longrightarrow> boot_raises img'))"
proof -
  have "boot_inv sha mac key entries otp [] (fresh key entries otp)" by (simp add: boot_inv_def)
  from base_contract.boot_inv_run [OF this, of evs] assms show ?thesis
    by (simp add: boot_inv_def authorised_def)
qed

text \<open>A toy digest and MAC, to evaluate the model on: the theorems hold for any.\<close>

definition toy_sha :: "byte list \<Rightarrow> byte list" where "toy_sha bs = [fold (+) bs 1]"
definition toy_mac :: "byte list \<Rightarrow> byte list \<Rightarrow> byte list" where "toy_mac key msg = [fold (XOR) (key @ msg) 0]"
definition toy_key :: "byte list" where "toy_key = replicate 16 7"
definition toy_image :: "int \<Rightarrow> firmware_image" where
  "toy_image v = (case sign toy_sha toy_mac [1, 2, 3] v toy_key of Inr img \<Rightarrow> img
     | Inl _ \<Rightarrow> \<lparr>img_payload = [], img_security_version = 0, img_digest = [], img_signature = []\<rparr>)"

lemma pack_u32_ok: "0 \<le> v \<Longrightarrow> v < 2 ^ 32 \<Longrightarrow> pack_u32 v = Inr (le_bytes 4 v)"
  by (simp add: pack_u32_def)

lemma manifest_bytes_ok:
  assumes "0 \<le> n" "n < 2 ^ 32" "0 \<le> v" "v < 2 ^ 32"
  shows "manifest_bytes n v = Inr (le_bytes 4 MANIFEST_MAGIC @ le_bytes 4 n @ le_bytes 4 v)"
  using assms by (simp add: manifest_bytes_def pack_u32_ok MANIFEST_MAGIC_def)

lemma sign_ok:
  assumes "length payload < 2 ^ 32" "0 \<le> v" "v < 2 ^ 32"
  obtains img where "sign sha mac payload v key = Inr img" "authentic sha mac key img"
    "img_security_version img = v" "img_payload img = payload"
proof -
  have "int (length payload) < 2 ^ 32" using assms(1) by (metis of_nat_less_iff of_nat_numeral of_nat_power)
  then have m: "manifest_bytes (int (length payload)) v
      = Inr (le_bytes 4 MANIFEST_MAGIC @ le_bytes 4 (int (length payload)) @ le_bytes 4 v)"
    using assms by (simp add: manifest_bytes_ok)
  define img where "img = \<lparr>img_payload = payload, img_security_version = v, img_digest = sha payload,
    img_signature = mac key ((le_bytes 4 MANIFEST_MAGIC @ le_bytes 4 (int (length payload)) @ le_bytes 4 v) @ sha payload)\<rparr>"
  have "sign sha mac payload v key = Inr img" "authentic sha mac key img"
    using m by (simp_all add: sign_def Let_def authentic_def img_def)
  then show ?thesis by (rule that) (simp_all add: img_def)
qed

lemma toy_image:
  assumes "0 \<le> v" "v < 2 ^ 32"
  shows "authentic toy_sha toy_mac toy_key (toy_image v)" "img_security_version (toy_image v) = v"
proof -
  have "length [1, 2, 3 :: byte] < 2 ^ 32" by simp
  then obtain img where "sign toy_sha toy_mac [1, 2, 3] v toy_key = Inr img"
    "authentic toy_sha toy_mac toy_key img" "img_security_version img = v"
    using assms by (rule sign_ok)
  then show "authentic toy_sha toy_mac toy_key (toy_image v)" "img_security_version (toy_image v) = v"
    by (simp_all add: toy_image_def)
qed

lemma legal_size_16: "legal_size 16"
  by (simp add: legal_size_def upt_rec)

lemma toy_boot:
  assumes "otp_minimum_version d \<le> v" "0 \<le> v" "v < 2 ^ 32" "fw_root_key fw = toy_key" "fw_queue_entries fw = 16"
  obtains d' where "boot toy_sha toy_mac fw (toy_image v) lock d = (Inr True, d')"
    "booted fw (toy_image v) lock d d'"
proof -
  have ver: "rom_verify toy_sha toy_mac fw (toy_image v) d = Inr True"
    unfolding rom_verify_True using toy_image [OF assms(2,3)] assms(1,4) by simp
  show ?thesis
  proof (rule boot_cases [of toy_sha toy_mac fw "toy_image v" lock d], goal_cases)
    case (1 d')
    show ?case by (rule that [OF 1(1,2)])
  qed (use ver legal_size_16 assms(5) in simp_all)
qed

theorem enabled_only_after_secure_boot_witness:
  "\<exists>fw d. fw_run execute_graph toy_sha toy_mac [Boot (toy_image 3) True] (fresh toy_key 16 1) = (fw, d) \<and>
     enabled d \<and> secure_verified d \<and> authentic toy_sha toy_mac toy_key (toy_image 3) \<and> firmware_version d = 3"
proof -
  obtain d where d: "boot toy_sha toy_mac (fst (fresh toy_key 16 1)) (toy_image 3) True (RcifDevice_init 1) = (Inr True, d)"
    "booted (fst (fresh toy_key 16 1)) (toy_image 3) True (RcifDevice_init 1) d"
    by (rule toy_boot [of "RcifDevice_init 1" 3 "fst (fresh toy_key 16 1)" True]) simp_all
  have run: "fw_run execute_graph toy_sha toy_mac [Boot (toy_image 3) True] (fresh toy_key 16 1)
      = (fst (fresh toy_key 16 1), d)"
    using d(1) by (simp add: fresh_def)
  have en: "enabled d" "firmware_version d = 3" using d(2) toy_image(2) [of 3] by (simp_all add: booted_def)
  have "secure_verified d" using enabled_only_after_secure_boot [OF run en(1)] by (rule conjunct1)
  with run en toy_image(1) [of 3] show ?thesis
    by (intro exI [of _ "fst (fresh toy_key 16 1)"] exI [of _ d]) simp
qed

text \<open>
  C5: anti-rollback. If two boot calls of one device succeed, the later image is not older than
  the earlier one, whatever happens between them: resets, failed boots, other controllers' keys
  and versions notwithstanding.
\<close>

theorem no_firmware_rollback:
  assumes "fst (boot sha mac fw1 img1 lock1 d1) = Inr True"
    and "snd (fw_run execute_graph sha mac evs (fw, snd (boot sha mac fw1 img1 lock1 d1))) = d2"
    and "fst (boot sha mac fw2 img2 lock2 d2) = Inr True"
  shows "img_security_version img1 \<le> img_security_version img2"
proof -
  obtain d' where "boot sha mac fw1 img1 lock1 d1 = (Inr True, d')" "booted fw1 img1 lock1 d1 d'"
    using assms(1) by (cases rule: boot_cases [of sha mac fw1 img1 lock1 d1]) auto
  then have "img_security_version img1 \<le> otp_minimum_version d2"
    using base_contract.otp_mono_run [of "(fw, d')" sha mac evs] assms(2) by (simp add: booted_def)
  then show ?thesis using assms(3) by (simp add: boot_True_iff)
qed

theorem no_firmware_rollback_witness:
  "\<exists>d1 d2. boot toy_sha toy_mac (fst (fresh toy_key 16 1)) (toy_image 3) True (RcifDevice_init 1) = (Inr True, d1) \<and>
     snd (fw_run execute_graph toy_sha toy_mac [WarmReset, PowerOnReset] (fst (fresh toy_key 16 1), d1)) = d2 \<and>
     fst (boot toy_sha toy_mac (fst (fresh toy_key 16 1)) (toy_image 4) True d2) = Inr True \<and>
     fst (boot toy_sha toy_mac (fst (fresh toy_key 16 1)) (toy_image 2) True d2) \<noteq> Inr True \<and>
     img_security_version (toy_image 3) \<le> img_security_version (toy_image 4)"
proof -
  let ?fw = "fst (fresh toy_key 16 1)"
  obtain d1 where d1: "boot toy_sha toy_mac ?fw (toy_image 3) True (RcifDevice_init 1) = (Inr True, d1)"
    "booted ?fw (toy_image 3) True (RcifDevice_init 1) d1"
    by (rule toy_boot [of "RcifDevice_init 1" 3 ?fw True]) simp_all
  define d2 where "d2 = power_on_reset (warm_reset d1)"
  have run: "snd (fw_run execute_graph toy_sha toy_mac [WarmReset, PowerOnReset] (?fw, d1)) = d2"
    by (simp add: d2_def)
  have otp: "otp_minimum_version d2 = 3"
    using d1(2) toy_image(2) [of 3] by (simp add: d2_def booted_def)
  have second: "fst (boot toy_sha toy_mac ?fw (toy_image 4) True d2) = Inr True"
    by (rule toy_boot [of d2 4 ?fw True]) (simp_all add: otp)
  have old: "fst (boot toy_sha toy_mac ?fw (toy_image 2) True d2) \<noteq> Inr True"
    using toy_image(2) [of 2] by (simp add: boot_True_iff otp)
  have first: "fst (boot toy_sha toy_mac ?fw (toy_image 3) True (RcifDevice_init 1)) = Inr True"
    using d1(1) by simp
  from no_firmware_rollback [OF first, unfolded d1(1) snd_conv, OF run second] d1(1) run second old
  show ?thesis by blast
qed

text \<open>
  the debug lock holds. Once set, no call but a power-on reset clears it: not a warm reset,
  not a boot that asks for no lock, not a failed boot.
\<close>

theorem debug_lock_persists:
  assumes "debug_locked d" and "PowerOnReset \<notin> set evs"
  shows "debug_locked (snd (fw_run execute_graph sha mac evs (fw, d)))"
  using base_contract.debug_locked_run [of "(fw, d)" evs] assms by simp

theorem debug_lock_persists_witness:
  "debug_locked ((RcifDevice_init 1)\<lparr>debug_locked := True\<rparr>) \<and>
   debug_locked (snd (fw_run execute_graph toy_sha toy_mac [WarmReset, Boot (toy_image 3) False, Process None]
     (fst (fresh toy_key 16 1), (RcifDevice_init 1)\<lparr>debug_locked := True\<rparr>)))"
  using debug_lock_persists
    [of "(RcifDevice_init 1)\<lparr>debug_locked := True\<rparr>" "[WarmReset, Boot (toy_image 3) False, Process None]"
        toy_sha toy_mac "fst (fresh toy_key 16 1)"] by simp

text \<open>
  C9: the outcome of a boot call. It returns true exactly when the image is authentic and new
  enough and the queue size is legal; then the device runs that image with three empty queues of
  that size, the anti-rollback version is raised to the image's and the lock is set as asked.
  A call that returns false has counted a failure and left the device in \<open>FATAL\<close>.
\<close>

theorem boot_outcome:
  shows "case boot sha mac fw img lock d of
      (Inr True, d') \<Rightarrow> otp_minimum_version d \<le> img_security_version img \<and>
        authentic sha mac (fw_root_key fw) img \<and> legal_size (fw_queue_entries fw) \<and>
        booted fw img lock d d'
    | (Inr False, d') \<Rightarrow> \<not> (otp_minimum_version d \<le> img_security_version img \<and>
          authentic sha mac (fw_root_key fw) img \<and> legal_size (fw_queue_entries fw)) \<and>
        status d' = FATAL \<and> boot_failed d' \<and>
        counters d' = counters (increment BOOT_FAILURES 1 (increment BOOT_ATTEMPTS 1 d))
    | (Inl e, d') \<Rightarrow> boot_raises img \<and> d' = increment BOOT_ATTEMPTS 1 d"
proof (cases rule: boot_cases [of sha mac fw img lock d])
  case (booted d')
  then show ?thesis by simp
next
  case rejected
  then show ?thesis using rom_verify_True [of sha mac fw img d] by auto
next
  case bad_size
  then show ?thesis by simp
next
  case (raised e)
  then show ?thesis using rom_verify_Inl [OF raised(2)] by simp
qed

text \<open>
  C10: signing and boot agree. An image made by \<open>FirmwareImage.sign\<close> under the controller's root
  key, with a version that fits the manifest and is not below the OTP version, boots; the same
  image with another payload, digest unchanged, is rejected unless the digest collides.
\<close>

theorem signed_image_boots:
  assumes "length payload < 2 ^ 32" "0 \<le> v" "v < 2 ^ 32" "otp_minimum_version d \<le> v"
    and "legal_size (fw_queue_entries fw)"
  shows "\<exists>img. sign sha mac payload v (fw_root_key fw) = Inr img \<and>
     fst (boot sha mac fw img lock d) = Inr True \<and>
     (\<forall>payload'. sha payload' \<noteq> sha payload \<longrightarrow>
        fst (boot sha mac fw (img\<lparr>img_payload := payload'\<rparr>) lock d) = Inr False)"
proof -
  have len: "int (length payload) < 2 ^ 32" using assms(1) by (metis of_nat_less_iff of_nat_numeral of_nat_power)
  obtain img where img: "sign sha mac payload v (fw_root_key fw) = Inr img"
    "authentic sha mac (fw_root_key fw) img" "img_security_version img = v"
    by (rule sign_ok [OF assms(1-3)])
  have dig: "img_digest img = sha payload"
    using img(1) assms len by (auto simp: sign_def Let_def manifest_bytes_ok)
  have "fst (boot sha mac fw (img\<lparr>img_payload := payload'\<rparr>) lock d) = Inr False"
    if "sha payload' \<noteq> sha payload" for payload'
  proof -
    have "rom_verify sha mac fw (img\<lparr>img_payload := payload'\<rparr>) d = Inr False"
      using that dig by (simp add: rom_verify_def Let_def)
    then show ?thesis
      by (cases rule: boot_cases [of sha mac fw "img\<lparr>img_payload := payload'\<rparr>" lock d])
        (use rom_verify_True [of sha mac fw "img\<lparr>img_payload := payload'\<rparr>" d] in auto)
  qed
  with img assms(4,5) show ?thesis by (auto simp: boot_True_iff)
qed

lemma toy_sha_ne: "toy_sha [1, 2] \<noteq> toy_sha [1, 2, 3]"
  by (simp add: toy_sha_def)

theorem signed_image_boots_witness:
  "\<exists>img. sign toy_sha toy_mac [1, 2, 3] 5 toy_key = Inr img \<and>
     fst (boot toy_sha toy_mac (fst (fresh toy_key 16 1)) img True (RcifDevice_init 1)) = Inr True \<and>
     fst (boot toy_sha toy_mac (fst (fresh toy_key 16 1)) (img\<lparr>img_payload := [1, 2]\<rparr>) True (RcifDevice_init 1))
       = Inr False"
  using signed_image_boots [of "[1, 2, 3]" 5 "RcifDevice_init 1" "fst (fresh toy_key 16 1)" toy_sha toy_mac True]
  by (simp add: legal_size_16) (metis (full_types) toy_sha_ne)

text \<open>
  C8: the MMU never aliases. In every state any sequence of calls can reach from a new device and
  controller, two virtual pages are never mapped to one physical page, and no physical page is
  below the firmware's first one, \<open>0x1000\<close>.
\<close>

theorem kv_pages_never_alias:
  assumes "fw_run execute_graph sha mac evs (fresh key entries otp) = (fw, d)"
    and "kv_pages d p = Some phys"
  shows "0x1000 \<le> phys \<and> (\<forall>q. kv_pages d q = Some phys \<longrightarrow> q = p)"
proof -
  have "kv_wf (fw_next_physical_page (fst (fresh key entries otp))) (kv_pages (snd (fresh key entries otp)))"
    by (simp add: kv_wf_empty)
  from base_contract.run_kv_wf [OF this, of sha mac evs] assms
  have inj: "inj_on (kv_pages d) (dom (kv_pages d))" and ran: "ran (kv_pages d) \<subseteq> {0x1000..<fw_next_physical_page fw}"
    by (simp_all add: kv_wf_def)
  have "phys \<in> ran (kv_pages d)" using assms(2) by (auto simp: ran_def)
  with ran have "0x1000 \<le> phys" by auto
  moreover have "q = p" if "kv_pages d q = Some phys" for q
    using inj_onD [OF inj, of q p] that assms(2) by auto
  ultimately show ?thesis by blast
qed

definition kv_demo :: "fw_event list" where
  "kv_demo = [Boot (toy_image 3) True, Submit (kv_cmd 1 9), Submit (kv_cmd 2 5), Process None, ServiceFaults 16]"

lemma kv_demo_run:
  "map (kv_pages (snd (fw_run execute_graph toy_sha toy_mac kv_demo (fresh toy_key 16 1)))) [5, 9, 7]
     = [Some 0x1001, Some 0x1000, None]"
  by code_simp

theorem kv_pages_never_alias_witness:
  "\<exists>fw d. fw_run execute_graph toy_sha toy_mac kv_demo (fresh toy_key 16 1) = (fw, d) \<and>
     kv_pages d 5 = Some 0x1001 \<and> kv_pages d 9 = Some 0x1000 \<and> (\<forall>q. kv_pages d q = Some 0x1001 \<longrightarrow> q = 5)"
proof -
  obtain fw d where run: "fw_run execute_graph toy_sha toy_mac kv_demo (fresh toy_key 16 1) = (fw, d)" by fastforce
  then have "kv_pages d 5 = Some 0x1001" "kv_pages d 9 = Some 0x1000" using kv_demo_run by simp_all
  with run kv_pages_never_alias [OF run, of 5 "0x1001"] show ?thesis by blast
qed

text \<open>
  the performance counters are monotone and saturate: over any two consecutive sequences of
  calls none of them decreases, and none passes \<open>2 ^ 64 - 1\<close>.
\<close>

theorem counters_monotone:
  "counters (snd (fw_run execute_graph sha mac evs (fresh key entries otp))) c
     \<le> counters (snd (fw_run execute_graph sha mac (evs @ evs') (fresh key entries otp))) c \<and>
   counters (snd (fw_run execute_graph sha mac (evs @ evs') (fresh key entries otp))) c \<in> {0..2 ^ 64 - 1}"
proof -
  let ?s0 = "fresh key entries otp" and ?s1 = "fw_run execute_graph sha mac evs (fresh key entries otp)"
  have "counters_grow (counters (snd ?s0)) (counters (snd ?s1))"
    "counters_grow (counters (snd ?s1)) (counters (snd (fw_run execute_graph sha mac evs' ?s1)))"
    by (rule base_contract.run_counters_grow)+
  then have "0 \<le> counters (snd ?s1) c" "counters (snd ?s1) c \<le> MASK64"
    "counters (snd ?s1) c \<le> counters (snd (fw_run execute_graph sha mac evs' ?s1)) c"
    "counters (snd (fw_run execute_graph sha mac evs' ?s1)) c \<le> MASK64"
    by (simp_all add: counters_grow_def MASK64_val)
  then show ?thesis by (simp add: MASK64_val)
qed

end
