(* ===== verification/Driver.thy ===== *)
theory Driver
  imports Platform
begin

text \<open>
  \<open>class RcifDriver\<close> of \<open>runtime/driver/driver.py\<close>: request ids, submission, polling and the
  completion mailbox, on top of the device and its firmware controller.

  The driver holds references to both objects, so its methods take and return the triple of the
  three states.
\<close>

section \<open>State and operations\<close>

record driver =
  drv_next_request_id :: int
  drv_completions :: "int \<rightharpoonup> completion"

type_synonym 'x host = "driver \<times> firmware \<times> 'x device_scheme"

definition RcifDriver_init :: driver where
  "RcifDriver_init = \<lparr>drv_next_request_id = 1, drv_completions = Map.empty\<rparr>"

text \<open>\<open>RcifDevice.ID\<close> and \<open>RcifDevice.VERSION\<close>.\<close>

definition DEVICE_ID :: int where "DEVICE_ID = 0x52434946"
definition DEVICE_VERSION :: int where "DEVICE_VERSION = 0x00010000"

definition probe :: "'x device_scheme \<Rightarrow> unit res" where
  "probe d =
     (if DEVICE_ID \<noteq> 0x52434946 \<or> drop_bit 16 DEVICE_VERSION \<noteq> 1 then Inl RuntimeError
      else if \<not> enabled d then Inl RuntimeError else Inr ())"

definition allocate_request_id :: "driver \<Rightarrow> int \<times> driver" where
  "allocate_request_id drv =
     (let rid = drv_next_request_id drv;
          next1 = (drv_next_request_id drv + 1) AND (push_bit 64 1 - 1);
          next2 = (if next1 = 0 then 1 else next1) in
      (rid, drv\<lparr>drv_next_request_id := next2\<rparr>))"

text \<open>The end of both submission methods: hand the command to the device.\<close>

definition issue :: "command \<Rightarrow> driver \<Rightarrow> 'x device_scheme \<Rightarrow> int res \<times> driver \<times> 'x device_scheme" where
  "issue cmd drv d =
     (case submit cmd d of (Inl e, d1) \<Rightarrow> (Inl e, drv, d1)
      | (Inr accepted, d1) \<Rightarrow>
          if accepted then (Inr (cmd_request_id cmd), drv, d1) else (Inl BlockingIOError, drv, d1))"

definition submit_graph ::
  "graph_node list \<Rightarrow> int \<Rightarrow> driver \<Rightarrow> 'x device_scheme \<Rightarrow> int res \<times> driver \<times> 'x device_scheme"
where
  "submit_graph nodes prio drv d =
     (case map_res encode nodes of Inl e \<Rightarrow> (Inl e, drv, d)
      | Inr _ \<Rightarrow> (case allocate_request_id drv of (rid, drv1) \<Rightarrow> issue (graph_cmd rid nodes prio) drv1 d))"

definition translate_kv ::
  "int \<Rightarrow> driver \<Rightarrow> 'x device_scheme \<Rightarrow> int res \<times> driver \<times> 'x device_scheme"
where
  "translate_kv page drv d =
     (if page < 0 \<or> page \<ge> push_bit 64 1 then (Inl ValueError, drv, d)
      else (case allocate_request_id drv of (rid, drv1) \<Rightarrow> issue (kv_cmd rid page) drv1 d))"

text \<open>The \<open>while True\<close> of \<open>poll\<close>: it ends when the completion ring is empty.\<close>

function drain :: "completion ring \<Rightarrow> (int \<rightharpoonup> completion) \<Rightarrow> int \<Rightarrow> completion ring \<times> (int \<rightharpoonup> completion) \<times> int" where
  "drain r box drained =
     (case pop r of (None, r') \<Rightarrow> (r', box, drained)
      | (Some c, r') \<Rightarrow> drain r' (box(cpl_request_id c \<mapsto> c)) (drained + 1))"
  by pat_completeness auto

termination
  by (relation "measure (\<lambda>(r, _, _). length (ring_items r))")
    (auto simp: pop_def split: list.splits if_splits)

declare drain.simps [simp del]

definition poll :: "'x graph_method \<Rightarrow> bool \<Rightarrow> 'x host \<Rightarrow> int res \<times> 'x host" where
  "poll eg service h =
     (case h of (drv, fw, d) \<Rightarrow>
        (case process eg None d of (Inl e, d1) \<Rightarrow> (Inl e, drv, fw, d1)
         | (Inr _, d1) \<Rightarrow>
           (case (if service then service_faults eg 16 fw d1 else (Inr 0, fw, d1)) of
              (Inl e, fw1, d2) \<Rightarrow> (Inl e, drv, fw1, d2)
            | (Inr _, fw1, d2) \<Rightarrow>
              (case completion_ring d2 of None \<Rightarrow> (Inr 0, drv, fw1, d2)
               | Some r \<Rightarrow>
                 (case drain r (drv_completions drv) 0 of (r', box, n) \<Rightarrow>
                    (Inr n, drv\<lparr>drv_completions := box\<rparr>, fw1, d2\<lparr>completion_ring := Some r'\<rparr>))))))"

definition take_completion :: "int \<Rightarrow> driver \<Rightarrow> completion option \<times> driver" where
  "take_completion rid drv =
     (drv_completions drv rid, drv\<lparr>drv_completions := (drv_completions drv)(rid := None)\<rparr>)"

text \<open>\<open>for _ in range(polls)\<close>; \<open>poll()\<close> has its default \<open>service_firmware=True\<close>.\<close>

fun wait_loop :: "'x graph_method \<Rightarrow> int \<Rightarrow> nat \<Rightarrow> 'x host \<Rightarrow> completion res \<times> 'x host" where
  "wait_loop eg rid 0 h = (Inl TimeoutError, h)"
| "wait_loop eg rid (Suc n) h =
     (case poll eg True h of (Inl e, h1) \<Rightarrow> (Inl e, h1)
      | (Inr _, drv, fw, d) \<Rightarrow>
        (case take_completion rid drv of
           (Some c, drv1) \<Rightarrow> (Inr c, drv1, fw, d)
         | (None, drv1) \<Rightarrow> wait_loop eg rid n (drv1, fw, d)))"

definition wait :: "'x graph_method \<Rightarrow> int \<Rightarrow> int \<Rightarrow> 'x host \<Rightarrow> completion res \<times> 'x host" where
  "wait eg rid polls h = wait_loop eg rid (nat polls) h"

definition driver_read_counter :: "int \<Rightarrow> 'x device_scheme \<Rightarrow> int res" where
  "driver_read_counter selector d = read_counter selector d"

section \<open>Request ids and validation\<close>

lemma allocate_request_id_small:
  assumes "0 \<le> drv_next_request_id drv" "drv_next_request_id drv < 2 ^ 64 - 1"
  shows "allocate_request_id drv
    = (drv_next_request_id drv, drv\<lparr>drv_next_request_id := drv_next_request_id drv + 1\<rparr>)"
proof -
  have "(drv_next_request_id drv + 1) AND (push_bit 64 1 - 1) = drv_next_request_id drv + 1"
    unfolding MASK64_def [symmetric] and_MASK64 using assms by simp
  then show ?thesis using assms by (simp add: allocate_request_id_def Let_def)
qed

lemma map_res_encode:
  "map_res encode ns = (if list_all encodable ns then Inr (map (\<lambda>n. le_bytes 16 (packed n)) ns)
     else Inl ValueError)"
  by (induction ns) (auto simp: encode_eq)

section \<open>Serving faults and draining completions\<close>

text \<open>The page table after the firmware mapped a list of faulted pages, and its next free page.\<close>

fun install_pages :: "int list \<Rightarrow> (int \<rightharpoonup> int) \<times> int \<Rightarrow> (int \<rightharpoonup> int) \<times> int" where
  "install_pages [] s = s"
| "install_pages (p # ps) (m, n) = install_pages ps (if m p = None then (m(p \<mapsto> n), n + 1) else (m, n))"

lemma install_pages_extends: "fst s \<subseteq>\<^sub>m fst (install_pages ps s)"
proof (induction ps s rule: install_pages.induct)
  case (2 p ps m n)
  define s' where "s' = (if m p = None then (m(p \<mapsto> n), n + 1) else (m, n))"
  have "m \<subseteq>\<^sub>m fst s'" by (auto simp: s'_def map_le_def)
  also have "fst s' \<subseteq>\<^sub>m fst (install_pages ps s')" using 2 by (simp only: s'_def)
  finally show ?case by (simp add: s'_def)
qed simp

lemma map_le_defined: "m \<subseteq>\<^sub>m m' \<Longrightarrow> m x \<noteq> None \<Longrightarrow> m' x = m x"
  by (auto simp: map_le_def dom_def)

lemma install_pages_covers: "p \<in> set ps \<Longrightarrow> fst (install_pages ps s) p \<noteq> None"
proof (induction ps s rule: install_pages.induct)
  case (2 p' ps m n)
  define s' where "s' = (if m p' = None then (m(p' \<mapsto> n), n + 1) else (m, n))"
  show ?case
  proof (cases "p = p'")
    case True
    have "fst s' p' \<noteq> None" by (simp add: s'_def)
    then have "fst (install_pages ps s') p' \<noteq> None"
      using map_le_defined [OF install_pages_extends] by metis
    with True show ?thesis by (simp add: s'_def)
  qed (use 2 in simp)
qed simp

lemma kv_cmd_ids [simp]:
  "cmd_request_id \<circ> (\<lambda>(r, p). kv_cmd r p) = fst" "(\<lambda>x. cmd_request_id (case x of (r, p) \<Rightarrow> kv_cmd r p)) = fst"
  by (auto simp: fun_eq_iff)

lemma answered_extends:
  assumes "answered answers kv x" and "kv \<subseteq>\<^sub>m kv'"
  shows "answered answers kv' x"
  using assms by (auto simp: answered_def map_le_def dom_def split: if_splits)

lemma serving_next_fault:
  assumes d: "serving sane answers N fin ((rid, page) # fps) [] d" and f: "fault_ring d = Some r"
    and kv: "kv_pages d \<subseteq>\<^sub>m kv"
  shows "fst (pop r) = Some (Fault rid page KV_MISS 0)" "pending d rid = Some (kv_cmd rid page)"
    "serving sane answers N fin fps []
       (d\<lparr>fault_ring := Some (snd (pop r)), kv_pages := kv, pending := (pending d)(rid := None)\<rparr>)"
    "int (length (in_flight fin fps [])) < N" "rid \<notin> cmd_request_id ` set (in_flight fin fps [])"
proof -
  have r: "ring_entries r = N" "ring_items r = Fault rid page KV_MISS 0 # map (\<lambda>(r, p). Fault r p KV_MISS 0) fps"
    using d f by (auto simp: serving_def)
  show "fst (pop r) = Some (Fault rid page KV_MISS 0)" using pop_first [OF r(2)] by simp
  have pend: "pending d = map_of (map (\<lambda>(r, p). (r, kv_cmd r p)) ((rid, page) # fps))"
    using d by (simp add: serving_def)
  then show "pending d rid = Some (kv_cmd rid page)" by simp
  show "int (length (in_flight fin fps [])) < N" using d by (auto simp: serving_def in_flight_def)
  have "distinct (map cmd_request_id (in_flight fin ((rid, page) # fps) []))"
    using d by (simp add: serving_def)
  then show fresh: "rid \<notin> cmd_request_id ` set (in_flight fin fps [])"
    by (force simp: in_flight_def)
  then have "rid \<notin> fst ` set fps" by (force simp: in_flight_def)
  then have "rid \<notin> fst ` set (map (\<lambda>(r, p). (r, kv_cmd r p)) fps)" by force
  then have "map_of (map (\<lambda>(r, p). (r, kv_cmd r p)) fps) rid = None"
    by (simp add: map_of_eq_None_iff)
  then have "(pending d)(rid := None) = map_of (map (\<lambda>(r, p). (r, kv_cmd r p)) fps)"
    using pend by auto
  then show "serving sane answers N fin fps []
       (d\<lparr>fault_ring := Some (snd (pop r)), kv_pages := kv, pending := (pending d)(rid := None)\<rparr>)"
    using d r pop_first [OF r(2)] answered_extends [OF _ kv]
    by (auto simp: serving_def in_flight_def)
qed

context engine_contract
begin

text \<open>One fault: the page is mapped, the command replayed, its completion queued.\<close>

lemma serve_fault_serving:
  assumes d: "serving sane answers N fin ((rid, page) # fps) [] d" and f: "fault_ring d = Some r"
  obtains phys fw' d' where
    "serve_fault eg (Fault rid page KV_MISS 0) fw (d\<lparr>fault_ring := Some (snd (pop r))\<rparr>) = (Inr True, fw', d')"
    "fw' = fw\<lparr>fw_next_physical_page := fw_next_physical_page fw'\<rparr>"
    "(kv_pages d', fw_next_physical_page fw') = install_pages [page] (kv_pages d, fw_next_physical_page fw)"
    "kv_pages d' page = Some phys"
    "serving sane answers N (fin @ [(kv_cmd rid page, Completion rid OK phys)]) fps [] d'"
proof -
  define fw1 where "fw1 = (if kv_pages d page = None
    then fw\<lparr>fw_next_physical_page := fw_next_physical_page fw + 1\<rparr> else fw)"
  define kv where "kv = (if kv_pages d page = None
    then (kv_pages d)(page \<mapsto> fw_next_physical_page fw) else kv_pages d)"
  have ext: "kv_pages d \<subseteq>\<^sub>m kv" by (auto simp: kv_def map_le_def)
  obtain phys where phys: "kv page = Some phys" by (cases "kv_pages d page") (auto simp: kv_def)
  note nf = serving_next_fault [OF d f ext]
  define d1 where "d1 = d\<lparr>fault_ring := Some (snd (pop r)), kv_pages := kv, pending := (pending d)(rid := None)\<rparr>"
  have d1: "kv_pages d1 = kv" by (simp add: d1_def)
  define d2 where "d2 = complete_with (Completion rid OK phys) d1"
  have "d\<lparr>fault_ring := Some (snd (pop r)), kv_pages := kv_pages d, pending := (pending d)(rid := None)\<rparr>
      = d\<lparr>fault_ring := Some (snd (pop r)), pending := (pending d)(rid := None)\<rparr>" by simp
  then have "serve_fault eg (Fault rid page KV_MISS 0) fw (d\<lparr>fault_ring := Some (snd (pop r))\<rparr>)
      = (Inr True, fw1, increment KV_RECOVERED 1 d2)"
    using nf(2) phys
    by (simp add: serve_fault_def replay_def execute_def translate_def kv_cmd_def fw1_def kv_def d1_def d2_def
        Let_def command_opcode_value_def split: if_splits)
  moreover have "serving sane answers N (fin @ [(kv_cmd rid page, Completion rid OK phys)]) fps []
      (increment KV_RECOVERED 1 d2)"
  proof (rule servingI_control)
    show "serving sane answers N (fin @ [(kv_cmd rid page, Completion rid OK phys)]) fps [] d2"
      unfolding d2_def
    proof (rule serving_complete [OF nf(3) [folded d1_def]])
      show "answered answers (kv_pages d1) (kv_cmd rid page, Completion rid OK phys)"
        using phys d1 by (simp add: answered_def)
    qed (use nf(4,5) in simp_all)
    then show "sane (device.more (increment KV_RECOVERED 1 d2))" by (simp add: serving_def)
  qed auto
  ultimately show ?thesis
    using phys d1 by (intro that [of fw1 "increment KV_RECOVERED 1 d2" phys])
      (simp_all add: d2_def fw1_def kv_def)
qed

text \<open>All of them, within the budget, in the order they were raised.\<close>

lemma service_loop_serving:
  assumes "serving sane answers N fin fps [] d" and "length fps \<le> n"
  shows "\<exists>fin' fw' d'. service_loop eg n k fw d = (Inr (k + int (length fps)), fw', d') \<and>
    fw' = fw\<lparr>fw_next_physical_page := fw_next_physical_page fw'\<rparr> \<and>
    (kv_pages d', fw_next_physical_page fw') = install_pages (map snd fps) (kv_pages d, fw_next_physical_page fw) \<and>
    map fst fin' = map (\<lambda>(r, p). kv_cmd r p) fps \<and> serving sane answers N (fin @ fin') [] [] d'"
  using assms
proof (induction fps arbitrary: fin fw d k n)
  case Nil
  then obtain r where r: "fault_ring d = Some r" "ring_items r = []" by (auto simp: serving_def)
  have upd: "d\<lparr>fault_ring := Some r\<rparr> = d" using r(1) by simp
  have "service_loop eg n k fw d = (Inr k, fw, d)"
    by (cases n) (simp_all only: service_loop.simps r(1) pop_empty [OF r(2)] option.case prod.case upd)
  with Nil show ?case by (intro exI [of _ "[]"]) simp
next
  case (Cons f fps)
  obtain rid page where f: "f = (rid, page)" by fastforce
  obtain m where m: "n = Suc m" "length fps \<le> m" using Cons.prems(2) by (cases n) auto
  obtain r where r: "fault_ring d = Some r" using Cons.prems(1) by (auto simp: serving_def)
  obtain phys fw1 d1 where 1:
    "serve_fault eg (Fault rid page KV_MISS 0) fw (d\<lparr>fault_ring := Some (snd (pop r))\<rparr>) = (Inr True, fw1, d1)"
    "fw1 = fw\<lparr>fw_next_physical_page := fw_next_physical_page fw1\<rparr>"
    "(kv_pages d1, fw_next_physical_page fw1) = install_pages [page] (kv_pages d, fw_next_physical_page fw)"
    "serving sane answers N (fin @ [(kv_cmd rid page, Completion rid OK phys)]) fps [] d1"
    by (rule serve_fault_serving [OF Cons.prems(1) [unfolded f] r, of fw])
  have pop: "pop r = (Some (Fault rid page KV_MISS 0), snd (pop r))"
    using serving_next_fault(1) [OF Cons.prems(1) [unfolded f] r map_le_refl] by (metis prod.collapse)
  have step: "service_loop eg n k fw d = service_loop eg m (k + 1) fw1 d1"
    unfolding m(1) service_loop.simps(2) r option.case by (subst pop) (simp add: 1(1))
  obtain fin' fw' d' where 2: "service_loop eg m (k + 1) fw1 d1 = (Inr (k + 1 + int (length fps)), fw', d')"
    "fw' = fw1\<lparr>fw_next_physical_page := fw_next_physical_page fw'\<rparr>"
    "(kv_pages d', fw_next_physical_page fw') = install_pages (map snd fps) (kv_pages d1, fw_next_physical_page fw1)"
    "map fst fin' = map (\<lambda>(r, p). kv_cmd r p) fps"
    "serving sane answers N ((fin @ [(kv_cmd rid page, Completion rid OK phys)]) @ fin') [] [] d'"
    using Cons.IH [OF 1(4) m(2)] by blast
  have fw': "fw' = fw\<lparr>fw_next_physical_page := fw_next_physical_page fw'\<rparr>"
    by (subst 2(2), subst 1(2)) simp
  have pages: "(kv_pages d', fw_next_physical_page fw')
      = install_pages (map snd (f # fps)) (kv_pages d, fw_next_physical_page fw)"
    unfolding 2(3) 1(3) by (simp add: f)
  show ?case
    using 2(1,4,5) step fw' pages f
    by (intro exI [of _ "(kv_cmd rid page, Completion rid OK phys) # fin'"] exI [of _ fw'] exI [of _ d']) simp
qed

end

text \<open>Draining empties the ring into the mailbox, later completions overwriting earlier ones.\<close>

definition file_all :: "completion list \<Rightarrow> (int \<rightharpoonup> completion) \<Rightarrow> (int \<rightharpoonup> completion)" where
  "file_all cs box = fold (\<lambda>c b. b(cpl_request_id c \<mapsto> c)) cs box"

lemma drain_all:
  "\<exists>r'. drain r box n = (r', file_all (ring_items r) box, n + int (length (ring_items r))) \<and>
     ring_items r' = [] \<and> ring_entries r' = ring_entries r"
proof (induction "ring_items r" arbitrary: r box n)
  case Nil
  then have "pop r = (None, r)" by (simp add: pop_empty)
  with Nil show ?case by (subst drain.simps) (simp add: file_all_def)
next
  case (Cons c cs)
  have items: "ring_items r = c # cs" using Cons.hyps(2) by simp
  have p: "fst (pop r) = Some c" "ring_items (snd (pop r)) = cs" "ring_entries (snd (pop r)) = ring_entries r"
    using pop_first [OF items] items by simp_all
  then have pop: "pop r = (Some c, snd (pop r))" by (metis prod.collapse)
  obtain r' where "drain (snd (pop r)) (box(cpl_request_id c \<mapsto> c)) (n + 1)
      = (r', file_all cs (box(cpl_request_id c \<mapsto> c)), n + 1 + int (length cs))"
    "ring_items r' = []" "ring_entries r' = ring_entries r"
    using Cons.hyps(1) [of "snd (pop r)" "box(cpl_request_id c \<mapsto> c)" "n + 1"] p by auto
  then show ?case
    by (subst drain.simps, subst pop) (simp add: items file_all_def)
qed

lemma file_all_other: "i \<notin> cpl_request_id ` set cs \<Longrightarrow> file_all cs box i = box i"
  by (induction cs arbitrary: box) (simp_all add: file_all_def)

lemma file_all_distinct:
  "distinct (map cpl_request_id cs) \<Longrightarrow> c \<in> set cs \<Longrightarrow> file_all cs box (cpl_request_id c) = Some c"
proof (induction cs arbitrary: box)
  case (Cons c' cs)
  show ?case
  proof (cases "c = c'")
    case True
    then have "cpl_request_id c \<notin> cpl_request_id ` set cs" using Cons.prems(1) by auto
    from file_all_other [OF this, of "box(cpl_request_id c' \<mapsto> c')"] True show ?thesis
      by (simp add: file_all_def)
  next
    case False
    with Cons show ?thesis by (simp add: file_all_def)
  qed
qed simp

lemma serving_drained:
  assumes "serving sane answers N fin [] [] d" and "ring_items r = []" "ring_entries r = N"
  shows "serving sane answers N [] [] [] (d\<lparr>completion_ring := Some r\<rparr>)"
  using assms by (auto simp: serving_def in_flight_def)

context engine_contract
begin

lemma answered_id: "answered answers kv (cmd, c) \<Longrightarrow> cpl_request_id c = cmd_request_id cmd"
  by (auto simp: answered_def answers_id split: if_splits)

text \<open>A poll answers everything that was queued.\<close>

lemma poll_serving:
  assumes d: "serving sane answers N [] [] q d" and N: "N \<le> 16"
  obtains fw' d' box where
    "poll eg True (drv, fw, d) = (Inr (int (length q)), drv\<lparr>drv_completions := box\<rparr>, fw', d')"
    "serving sane answers N [] [] [] d'"
    "fw' = fw\<lparr>fw_next_physical_page := fw_next_physical_page fw'\<rparr>"
    "(kv_pages d', fw_next_physical_page fw')
       = install_pages (map snd (kv_misses (kv_pages d) q)) (kv_pages d, fw_next_physical_page fw)"
    "\<And>cmd. cmd \<in> set q \<Longrightarrow> \<exists>c. box (cmd_request_id cmd) = Some c \<and> answered answers (kv_pages d') (cmd, c)"
    "\<And>i. i \<notin> cmd_request_id ` set q \<Longrightarrow> box i = drv_completions drv i"
proof -
  obtain fin fps d1 where 1: "process eg None d = (Inr (int (length q)), d1)" "kv_pages d1 = kv_pages d"
    "serving sane answers N fin fps [] d1" "mset (in_flight fin fps []) = mset q"
    "fps = kv_misses (kv_pages d) q"
    by (rule process_serving [OF d]) auto
  have "fault_ring d1 \<noteq> None" and len16: "length fps \<le> 16"
    using 1(3) N by (auto simp: serving_def in_flight_def)
  then have serve: "service_faults eg 16 fw d1 = service_loop eg 16 0 fw d1"
    by (auto simp: service_faults_def simp del: service_loop.simps)
  obtain fin' fw' d2 where 2: "service_loop eg 16 0 fw d1 = (Inr (0 + int (length fps)), fw', d2)"
    "fw' = fw\<lparr>fw_next_physical_page := fw_next_physical_page fw'\<rparr>"
    "(kv_pages d2, fw_next_physical_page fw') = install_pages (map snd fps) (kv_pages d1, fw_next_physical_page fw)"
    "map fst fin' = map (\<lambda>(r, p). kv_cmd r p) fps" "serving sane answers N (fin @ fin') [] [] d2"
    using service_loop_serving [OF 1(3) len16, of 0 fw] by blast
  define all where "all = fin @ fin'"
  have cmds: "mset (map fst all) = mset q"
    using 1(4) 2(4) by (simp add: all_def in_flight_def flip: mset_append)
  obtain r where r: "completion_ring d2 = Some r" "ring_entries r = N" "ring_items r = map snd all"
    using 2(5) by (auto simp: serving_def all_def)
  obtain r' where r': "drain r (drv_completions drv) 0
      = (r', file_all (map snd all) (drv_completions drv), int (length all))" "ring_items r' = []" "ring_entries r' = N"
    using drain_all [of r "drv_completions drv" 0] r by auto
  have ans: "answered answers (kv_pages d2) (cmd, c)" if "(cmd, c) \<in> set all" for cmd c
    using 2(5) that by (auto simp: serving_def all_def)
  have ids: "map cpl_request_id (map snd all) = map cmd_request_id (map fst all)"
  proof -
    have "cpl_request_id (snd x) = cmd_request_id (fst x)" if "x \<in> set all" for x
      using answered_id [OF ans] that by (cases x) simp
    then show ?thesis by simp
  qed
  have "distinct (map cmd_request_id (map fst all))" using 2(5) by (simp add: serving_def in_flight_def all_def)
  then have dist: "distinct (map cpl_request_id (map snd all))" by (simp only: ids)
  have len: "length all = length q" using cmds by (metis length_map mset_eq_length)
  have set: "set q = fst ` set all" using cmds by (metis list.set_map set_mset_mset)
  show ?thesis
  proof (rule that [of "file_all (map snd all) (drv_completions drv)" fw' "d2\<lparr>completion_ring := Some r'\<rparr>"])
    show "poll eg True (drv, fw, d) = (Inr (int (length q)),
        drv\<lparr>drv_completions := file_all (map snd all) (drv_completions drv)\<rparr>, fw', d2\<lparr>completion_ring := Some r'\<rparr>)"
      using 1(1) serve 2(1) r(1) r'(1) len by (simp add: poll_def)
    show "serving sane answers N [] [] [] (d2\<lparr>completion_ring := Some r'\<rparr>)"
      using 2(5) r' by (intro serving_drained)
    show "\<exists>c. file_all (map snd all) (drv_completions drv) (cmd_request_id cmd) = Some c \<and>
        answered answers (kv_pages (d2\<lparr>completion_ring := Some r'\<rparr>)) (cmd, c)" if "cmd \<in> set q" for cmd
    proof -
      have "cmd \<in> fst ` set all" using that set by simp
      then obtain c where c: "(cmd, c) \<in> set all" by force
      then have "c \<in> set (map snd all)" by force
      from file_all_distinct [OF dist this] ans [OF c] answered_id show ?thesis by fastforce
    qed
    show "file_all (map snd all) (drv_completions drv) i = drv_completions drv i"
      if "i \<notin> cmd_request_id ` set q" for i
      using that set ids by (intro file_all_other) (metis image_image list.set_map)
  qed (use 2(2,3) 1(2,5) in simp_all)
qed

end

end
