(* ===== verification/Service.thy ===== *)
theory Service
  imports Driver
begin

text \<open>
  What the whole control plane (driver, firmware, device) promises a client, as a small abstract
  machine, and the proof that the code implements it call by call: every public method of
  \<open>RcifDriver\<close>, \<open>poll\<close> with and without fault service, counters and the fatal stop included.

  The abstract service knows nothing of rings, indices, \<open>Fault\<close> records, pending commands or
  replays. It has a queue of accepted requests, the translations that wait for a page, a mailbox of
  answers, a page table, the totals the counters show and a flag that says whether it still runs.
\<close>

section \<open>Calls and replies\<close>

datatype driver_call =
    SubmitGraph "graph_node list" int
  | TranslateKv int
  | Poll bool
  | TakeCompletion int
  | Wait int int
  | ReadCounter int
  | Probe

datatype driver_reply =
    RequestId "int res"
  | Drained "int res"
  | Mail "completion option"
  | Waited "completion res"
  | Counted "int res"
  | Probed "unit res"

fun drv_call :: "'x graph_method \<Rightarrow> driver_call \<Rightarrow> 'x host \<Rightarrow> driver_reply \<times> 'x host" where
  "drv_call eg (SubmitGraph nodes prio) (drv, fw, d) =
     (case submit_graph nodes prio drv d of (r, drv1, d1) \<Rightarrow> (RequestId r, drv1, fw, d1))"
| "drv_call eg (TranslateKv page) (drv, fw, d) =
     (case translate_kv page drv d of (r, drv1, d1) \<Rightarrow> (RequestId r, drv1, fw, d1))"
| "drv_call eg (Poll service) h = (case poll eg service h of (r, h1) \<Rightarrow> (Drained r, h1))"
| "drv_call eg (TakeCompletion rid) (drv, fw, d) =
     (case take_completion rid drv of (r, drv1) \<Rightarrow> (Mail r, drv1, fw, d))"
| "drv_call eg (Wait rid polls) h = (case wait eg rid polls h of (r, h1) \<Rightarrow> (Waited r, h1))"
| "drv_call eg (ReadCounter selector) (drv, fw, d) = (Counted (driver_read_counter selector d), drv, fw, d)"
| "drv_call eg Probe (drv, fw, d) = (Probed (probe d), drv, fw, d)"

fun drv_run :: "'x graph_method \<Rightarrow> driver_call list \<Rightarrow> 'x host \<Rightarrow> driver_reply list \<times> 'x host" where
  "drv_run eg [] h = ([], h)"
| "drv_run eg (c # cs) h =
     (case drv_call eg c h of (r, h1) \<Rightarrow> (case drv_run eg cs h1 of (rs, h2) \<Rightarrow> (r # rs, h2)))"

section \<open>The abstract service\<close>

record service =
  sv_next_id :: int
  sv_queue :: "command list"
  sv_waiting :: "(int \<times> int) list"
  sv_box :: "int \<rightharpoonup> completion"
  sv_pages :: "int \<rightharpoonup> int"
  sv_next_page :: int
  sv_running :: bool
  sv_totals :: "counter \<Rightarrow> int"

definition sv_init :: service where
  "sv_init = \<lparr>sv_next_id = 1, sv_queue = [], sv_waiting = [], sv_box = Map.empty, sv_pages = Map.empty,
     sv_next_page = 0x1000, sv_running = True, sv_totals = (\<lambda>_. 0)(BOOT_ATTEMPTS := 1)\<rparr>"

text \<open>
  Starting the queued requests: a graph is answered with its verdict, a translation of a known page
  with the physical page, and any other translation starts to wait (request id and page), unless
  \<open>N\<close> already do: then its answer is \<open>KV_MISS\<close>.
\<close>

fun sv_start ::
  "int \<Rightarrow> (int \<rightharpoonup> int) \<Rightarrow> command list \<Rightarrow> (int \<times> int) list \<Rightarrow> completion list \<times> (int \<times> int) list"
where
  "sv_start N pages [] waiting = ([], waiting)"
| "sv_start N pages (cmd # q) waiting =
     (let rid = cmd_request_id cmd; page = cmd_argument cmd;
          answer = (\<lambda>c. case sv_start N pages q waiting of (cs, w) \<Rightarrow> (c # cs, w)) in
      if cmd_opcode cmd = command_opcode_value KV_TRANSLATE then
        (case pages page of Some phys \<Rightarrow> answer (Completion rid OK phys)
         | None \<Rightarrow> if int (length waiting) < N then sv_start N pages q (waiting @ [(rid, page)])
                  else answer (Completion rid KV_MISS page))
      else answer (graph_verdict cmd))"

text \<open>What that adds to the counters, and what delivering the answers \<open>out\<close> adds: \<open>N\<close> of them fit.\<close>

definition nodes_run :: "command \<Rightarrow> int" where
  "nodes_run cmd =
     (if cmd_opcode cmd = command_opcode_value KV_TRANSLATE \<or> cmd_graph cmd = [] \<or> length (cmd_graph cmd) > 8 \<or>
         cmd_priority cmd \<notin> {0..3} then 0 else int (length (cmd_graph cmd)))"

definition start_totals :: "int \<Rightarrow> (int \<rightharpoonup> int) \<Rightarrow> command list \<Rightarrow> (int \<times> int) list \<Rightarrow> counter \<Rightarrow> int" where
  "start_totals N pages q waiting k =
     (case k of
        ACCEPTED \<Rightarrow> int (length q)
      | GRAPH_NODES \<Rightarrow> sum_list (map nodes_run q)
      | KV_FAULTS \<Rightarrow> int (length (kv_misses pages q))
      | FAULT_OVERFLOWS \<Rightarrow> int (length waiting) + int (length (kv_misses pages q))
          - int (length (snd (sv_start N pages q waiting)))
      | _ \<Rightarrow> 0)"

definition out_totals :: "int \<Rightarrow> completion list \<Rightarrow> counter \<Rightarrow> int" where
  "out_totals N out k =
     (case k of
        COMPLETED \<Rightarrow> int (length (take (nat N) out))
      | ERRORS \<Rightarrow> int (length (filter (\<lambda>c. cpl_status c \<noteq> OK) (take (nat N) out)))
      | QUEUE_ERRORS \<Rightarrow> int (length out) - int (length (take (nat N) out))
      | _ \<Rightarrow> 0)"

text \<open>
  A poll starts what is queued, lets the first 16 waiting translations have their pages if it
  serves faults, and puts the answers in the mailbox. If there are more than \<open>N\<close>, the others are
  lost and the service stops for good.
\<close>

definition sv_poll :: "int \<Rightarrow> bool \<Rightarrow> service \<Rightarrow> int \<times> service" where
  "sv_poll N serve s =
     (case sv_start N (sv_pages s) (sv_queue s) (sv_waiting s) of (answers, waiting) \<Rightarrow>
        let served = (if serve then take 16 waiting else []);
            new = install_pages (map snd served) (sv_pages s, sv_next_page s);
            out = answers @ map (\<lambda>(rid, page). Completion rid OK (the (fst new page))) served;
            delivered = take (nat N) out in
        (int (length delivered),
         s\<lparr>sv_queue := [], sv_waiting := drop (length served) waiting,
           sv_box := file_all delivered (sv_box s), sv_pages := fst new, sv_next_page := snd new,
           sv_running := (sv_running s \<and> int (length out) \<le> N),
           sv_totals := (\<lambda>k. sv_totals s k + start_totals N (sv_pages s) (sv_queue s) (sv_waiting s) k
             + (if k = KV_RECOVERED then int (length served) else 0) + out_totals N out k)\<rparr>))"

definition sv_take :: "int \<Rightarrow> service \<Rightarrow> completion option \<times> service" where
  "sv_take rid s = (sv_box s rid, s\<lparr>sv_box := (sv_box s)(rid := None)\<rparr>)"

fun sv_wait :: "int \<Rightarrow> int \<Rightarrow> nat \<Rightarrow> service \<Rightarrow> completion res \<times> service" where
  "sv_wait N rid 0 s = (Inl TimeoutError, s)"
| "sv_wait N rid (Suc n) s =
     (case sv_take rid (snd (sv_poll N True s)) of
        (Some c, s1) \<Rightarrow> (Inr c, s1) | (None, s1) \<Rightarrow> sv_wait N rid n s1)"

text \<open>A request: a full queue refuses, a stopped service raises, and the id is spent either way.\<close>

definition sv_issue :: "int \<Rightarrow> (int \<Rightarrow> command) \<Rightarrow> service \<Rightarrow> int res \<times> service" where
  "sv_issue N mk s =
     (let rid = sv_next_id s; s1 = s\<lparr>sv_next_id := rid + 1\<rparr> in
      if \<not> sv_running s then (Inl RuntimeError, s1)
      else if int (length (sv_queue s)) < N then (Inr rid, s1\<lparr>sv_queue := sv_queue s @ [mk rid]\<rparr>)
      else (Inl BlockingIOError, s1\<lparr>sv_totals := (sv_totals s)(QUEUE_ERRORS := sv_totals s QUEUE_ERRORS + 1)\<rparr>))"

fun sv_call :: "int \<Rightarrow> driver_call \<Rightarrow> service \<Rightarrow> driver_reply \<times> service" where
  "sv_call N (SubmitGraph nodes prio) s =
     (if \<not> list_all encodable nodes then (RequestId (Inl ValueError), s)
      else case sv_issue N (\<lambda>rid. graph_cmd rid nodes prio) s of (r, s1) \<Rightarrow> (RequestId r, s1))"
| "sv_call N (TranslateKv page) s =
     (if page < 0 \<or> page \<ge> 2 ^ 64 then (RequestId (Inl ValueError), s)
      else case sv_issue N (\<lambda>rid. kv_cmd rid page) s of (r, s1) \<Rightarrow> (RequestId r, s1))"
| "sv_call N (Poll serve) s = (case sv_poll N serve s of (n, s1) \<Rightarrow> (Drained (Inr n), s1))"
| "sv_call N (TakeCompletion rid) s = (case sv_take rid s of (c, s1) \<Rightarrow> (Mail c, s1))"
| "sv_call N (Wait rid polls) s = (case sv_wait N rid (nat polls) s of (r, s1) \<Rightarrow> (Waited r, s1))"
| "sv_call N (ReadCounter selector) s =
     (Counted (case counter_of_value selector of Inl e \<Rightarrow> Inl e | Inr k \<Rightarrow> Inr (min MASK64 (sv_totals s k))), s)"
| "sv_call N Probe s = (Probed (if sv_running s then Inr () else Inl RuntimeError), s)"

fun sv_run :: "int \<Rightarrow> driver_call list \<Rightarrow> service \<Rightarrow> driver_reply list \<times> service" where
  "sv_run N [] s = ([], s)"
| "sv_run N (c # cs) s =
     (case sv_call N c s of (r, s1) \<Rightarrow> (case sv_run N cs s1 of (rs, s2) \<Rightarrow> (r # rs, s2)))"

section \<open>Devices between two calls\<close>

text \<open>Counters show their total, up to \<open>2 ^ 64 - 1\<close>.\<close>

definition reads :: "(counter \<Rightarrow> int) \<Rightarrow> 'x device_scheme \<Rightarrow> bool" where
  "reads T d \<longleftrightarrow> (\<forall>k. counters d k = min MASK64 (T k))"

lemma reads_increment:
  assumes "reads T d" "0 \<le> n" "\<And>k. T' k = (if k = c then T k + n else T k)"
  shows "reads T' (increment c n d)"
  using assms by (auto simp: reads_def increment_def)

lemma reads_cong: "reads T d \<Longrightarrow> counters d' = counters d \<Longrightarrow> (\<And>k. T' k = T k) \<Longrightarrow> reads T' d'"
  by (simp add: reads_def)

text \<open>
  A device with queues of \<open>N\<close> entries that has produced the answers \<open>out\<close> since its completions
  were last collected: commands \<open>q\<close> queued, translations \<open>w\<close> waiting. \<open>run\<close> says whether it ran
  when they were collected, \<open>T\<close> what the counters had without these answers.
\<close>

definition holds ::
  "int \<Rightarrow> bool \<Rightarrow> (counter \<Rightarrow> int) \<Rightarrow> command list \<Rightarrow> (int \<times> int) list \<Rightarrow> completion list \<Rightarrow> 'x device_scheme \<Rightarrow> bool"
where
  "holds N run T q w out d \<longleftrightarrow>
     enabled d = (run \<and> int (length out) \<le> N) \<and> status d = (if enabled d then RUNNING else FATAL) \<and>
     (\<exists>r. command_ring d = Some r \<and> ring_entries r = N \<and> ring_items r = q) \<and>
     (\<exists>r. completion_ring d = Some r \<and> ring_entries r = N \<and> ring_items r = take (nat N) out) \<and>
     (\<exists>r. fault_ring d = Some r \<and> ring_entries r = N \<and>
          ring_items r = map (\<lambda>(r, p). Fault r p KV_MISS 0) w) \<and>
     pending d = map_of (map (\<lambda>(r, p). (r, kv_cmd r p)) w) \<and>
     reads (\<lambda>k. T k + out_totals N out k) d \<and>
     distinct (map fst w @ map cmd_request_id q) \<and> (\<forall>c \<in> set q. driver_command c) \<and>
     int (length q) \<le> N \<and> int (length w) \<le> N"

lemma holds_increment:
  assumes "holds N run T q w out d" "0 \<le> n" "\<And>k. T' k = (if k = c then T k + n else T k)"
  shows "holds N run T' q w out (increment c n d)"
proof -
  have "reads (\<lambda>k. T' k + out_totals N out k) (increment c n d)"
    by (rule reads_increment [of "\<lambda>k. T k + out_totals N out k"]) (use assms in \<open>auto simp: holds_def\<close>)
  with assms(1) show ?thesis by (simp add: holds_def)
qed

lemma holds_cong: "holds N run T q w out d \<Longrightarrow> (\<And>k. T' k = T k) \<Longrightarrow> holds N run T' q w out d"
  by (simp add: holds_def)

lemma out_totals_snoc:
  "out_totals N (out @ [c]) k =
     (if int (length out) < N
      then out_totals N out k + (if k = COMPLETED then 1 else 0) + (if k = ERRORS \<and> cpl_status c \<noteq> OK then 1 else 0)
      else out_totals N out k + (if k = QUEUE_ERRORS then 1 else 0))"
  by (cases k) (auto simp: out_totals_def min_def)

text \<open>An answer: queued while there is room, and otherwise lost with a fatal stop.\<close>

lemma holds_complete:
  assumes d: "holds N run T q w out d"
  shows "holds N run T q w (out @ [c]) (complete_with c d)"
proof -
  obtain r where r: "completion_ring d = Some r" "ring_entries r = N" "ring_items r = take (nat N) out"
    using d by (auto simp: holds_def)
  have T: "reads (\<lambda>k. T k + out_totals N out k) d" using d by (simp add: holds_def)
  show ?thesis
  proof (cases "int (length out) < N")
    case True
    then have room: "int (length (ring_items r)) < ring_entries r" and push: "push c r = (True, snd (push c r))"
      using r push_room(1) [of r c] by (simp_all add: prod_eq_iff min_def)
    define d1 where "d1 = increment COMPLETED 1 (d\<lparr>completion_ring := Some (snd (push c r))\<rparr>)"
    have cw: "complete_with c d = (if cpl_status c \<noteq> OK then increment ERRORS 1 d1 else d1)"
      unfolding complete_with_def Let_def r(1) option.case by (subst push) (simp add: d1_def)
    have T1: "reads (\<lambda>k. T k + out_totals N out k + (if k = COMPLETED then 1 else 0)) d1"
      unfolding d1_def by (rule reads_increment [of "\<lambda>k. T k + out_totals N out k"])
        (use T in \<open>auto simp: reads_def\<close>)
    have T2: "reads (\<lambda>k. T k + out_totals N (out @ [c]) k) (complete_with c d)"
    proof (cases "cpl_status c = OK")
      case True
      with T1 cw show ?thesis
        by (auto simp: out_totals_snoc \<open>int (length out) < N\<close> algebra_simps elim!: reads_cong)
    next
      case False
      have "reads (\<lambda>k. T k + out_totals N (out @ [c]) k) (increment ERRORS 1 d1)"
        by (rule reads_increment [OF T1]) (use False in \<open>auto simp: out_totals_snoc \<open>int (length out) < N\<close>\<close>)
      with cw False show ?thesis by simp
    qed
    from True d r T2 show ?thesis
      unfolding holds_def using complete_with_room [OF r(1) room, of c] push_room(2) [OF room, of c]
      by (auto simp: min_def)
  next
    case False
    then have full: "int (length (ring_items r)) = ring_entries r" using r d by (auto simp: holds_def min_def)
    then have cw: "complete_with c d = (increment QUEUE_ERRORS 1 d)\<lparr>status := FATAL, enabled := False\<rparr>"
      using r(1) push_full [OF full] by (simp add: complete_with_def Let_def)
    have "reads (\<lambda>k. T k + out_totals N (out @ [c]) k) (increment QUEUE_ERRORS 1 d)"
      by (rule reads_increment [OF T]) (use False in \<open>auto simp: out_totals_snoc\<close>)
    then have "reads (\<lambda>k. T k + out_totals N (out @ [c]) k) (complete_with c d)"
      unfolding cw by (rule reads_cong) simp_all
    with False d show ?thesis unfolding holds_def cw by simp
  qed
qed

text \<open>A translation of an unknown page: it waits if there is room for its fault.\<close>

lemma holds_wait:
  assumes d: "holds N run T q w out d" and miss: "kv_pages d page = None" and room: "int (length w) < N"
    and fresh: "rid \<notin> set (map fst w @ map cmd_request_id q)"
    and T': "\<And>k. T' k = (if k = KV_FAULTS then T k + 1 else T k)"
  shows "holds N run T' q (w @ [(rid, page)]) out (translate (kv_cmd rid page) d)"
proof -
  obtain r where r: "fault_ring d = Some r" "ring_entries r = N" "ring_items r = map (\<lambda>(r, p). Fault r p KV_MISS 0) w"
    using d by (auto simp: holds_def)
  define flt where "flt = Fault rid page KV_MISS 0"
  define d1 where "d1 = increment KV_FAULTS 1 d"
  have len: "int (length (ring_items r)) < ring_entries r" using room r by simp
  have push: "push flt r = (True, snd (push flt r))"
    using push_room(1) [OF len] by (metis prod.collapse)
  have new: "rid \<notin> fst ` set (map (\<lambda>(r, p). (r, kv_cmd r p)) w)" using fresh by force
  then have pend: "(map_of (map (\<lambda>(r, p). (r, kv_cmd r p)) w))(rid \<mapsto> kv_cmd rid page)
      = map_of (map (\<lambda>(r, p). (r, kv_cmd r p)) (w @ [(rid, page)]))"
    using map_of_snoc [OF new] by simp
  have "translate (kv_cmd rid page) d
      = d1\<lparr>pending := (pending d)(rid \<mapsto> kv_cmd rid page), fault_ring := Some (snd (push flt r))\<rparr>"
    using miss r(1) push unfolding flt_def
    by (simp add: translate_def Let_def d1_def increment_def split: prod.split) (metis split_pairs)
  moreover have "holds N run T' q w out d1"
    unfolding d1_def by (rule holds_increment [OF d _ T']) simp
  ultimately show ?thesis
    using r room fresh pend push_room(2) [OF len, of flt] d
    by (auto simp: holds_def reads_def flt_def d1_def)
qed

text \<open>With the fault ring full, the translation is answered \<open>KV_MISS\<close>.\<close>

lemma holds_overflow:
  assumes d: "holds N run T q w out d" and miss: "kv_pages d page = None" and full: "\<not> int (length w) < N"
    and fresh: "rid \<notin> set (map fst w @ map cmd_request_id q)"
    and T': "\<And>k. T' k = (if k \<in> {KV_FAULTS, FAULT_OVERFLOWS} then T k + 1 else T k)"
  shows "holds N run T' q w (out @ [Completion rid KV_MISS page]) (translate (kv_cmd rid page) d)"
proof -
  obtain r where r: "fault_ring d = Some r" "ring_entries r = N" "ring_items r = map (\<lambda>(r, p). Fault r p KV_MISS 0) w"
    using d by (auto simp: holds_def)
  define d1 where "d1 = increment FAULT_OVERFLOWS 1 (increment KV_FAULTS 1 d)"
  have push: "push (Fault rid page KV_MISS 0) r = (False, r)"
    using r full d by (intro push_full) (simp add: holds_def)
  have "pending d = map_of (map (\<lambda>(r, p). (r, kv_cmd r p)) w)" using d by (simp add: holds_def)
  moreover have "rid \<notin> fst ` set (map (\<lambda>(r, p). (r, kv_cmd r p)) w)" using fresh by force
  ultimately have "pending d rid = None" by (simp add: map_of_eq_None_iff)
  then have upd: "((pending d)(rid \<mapsto> kv_cmd rid page))(rid := None) = pending d" by (simp add: fun_upd_idem)
  have "d1 = d1\<lparr>pending := pending d\<rparr>" by (simp add: d1_def)
  then have "translate (kv_cmd rid page) d = complete_with (Completion rid KV_MISS page) d1"
    using miss r(1) push upd by (simp add: translate_def Let_def d1_def increment_def)
  moreover have "holds N run (\<lambda>k. if k = KV_FAULTS then T k + 1 else T k) q w out (increment KV_FAULTS 1 d)"
    by (rule holds_increment [OF d]) simp_all
  then have "holds N run T' q w out d1"
    unfolding d1_def by (rule holds_increment) (simp_all add: T')
  ultimately show ?thesis using holds_complete by simp
qed

lemma holds_graph:
  assumes d: "holds N run T q w out d" and g: "list_all encodable g"
    and T': "\<And>k. T' k = (if k = GRAPH_NODES then T k + nodes_run (graph_cmd rid g p) else T k)"
  obtains d' where "execute_graph (graph_cmd rid g p) d = (Inr (), d')" "kv_pages d' = kv_pages d"
    "holds N run T' q w (out @ [graph_verdict (graph_cmd rid g p)]) d'"
proof (cases "g = [] \<or> length g > 8 \<or> \<not> (0 \<le> p \<and> p \<le> 3)")
  case True
  then have "T' = T" using T' by (auto simp: nodes_run_def fun_eq_iff)
  with True holds_complete [OF d] show ?thesis
    by (intro that [of "complete_with (graph_verdict (graph_cmd rid g p)) d"])
      (auto simp: execute_graph_def graph_verdict_def Let_def)
next
  case False
  have "\<exists>c. graph_loop rid g 0 0 = Inr c"
    by (rule graph_loop_returns) (use g in \<open>auto simp: list_all_iff encodable_def\<close>)
  then obtain c where c: "graph_loop rid g 0 0 = Inr c" by blast
  have "nodes_run (graph_cmd rid g p) = int (length g)"
    using False by (simp add: nodes_run_def command_opcode_value_def)
  then have "holds N run T' q w out (increment GRAPH_NODES (int (length g)) d)"
    using T' by (intro holds_increment [OF d]) simp_all
  from holds_complete [OF this] c False show ?thesis
    by (intro that [of "complete_with c (increment GRAPH_NODES (int (length g)) d)"])
      (auto simp: execute_graph_def graph_verdict_def Let_def)
qed

section \<open>Starting the queue\<close>

lemma sv_start_Cons:
  "sv_start N pages (cmd # q) w =
     (case sv_start N pages [cmd] w of (cs, w1) \<Rightarrow> case sv_start N pages q w1 of (cs', w2) \<Rightarrow> (cs @ cs', w2))"
  by (auto simp: Let_def split: option.split prod.split)

lemma start_totals_Cons:
  "start_totals N pages (cmd # q) w k
     = start_totals N pages [cmd] w k + start_totals N pages q (snd (sv_start N pages [cmd] w)) k"
  unfolding start_totals_def
  by (subst sv_start_Cons) (cases k; simp split: prod.split del: sv_start.simps)

declare sv_start.simps(2) [simp del]

lemmas sv_start_one = sv_start.simps(2) [where q = "[]"]

lemma holds_execute:
  assumes d: "holds N run T q w out d" and cmd: "driver_command cmd"
    and fresh: "cmd_request_id cmd \<notin> set (map fst w @ map cmd_request_id q)"
  obtains d' where "execute execute_graph cmd (increment ACCEPTED 1 d) = (Inr (), d')" "kv_pages d' = kv_pages d"
    "holds N run (\<lambda>k. T k + start_totals N (kv_pages d) [cmd] w k) q (snd (sv_start N (kv_pages d) [cmd] w))
       (out @ fst (sv_start N (kv_pages d) [cmd] w)) d'"
proof -
  define d1 where "d1 = increment ACCEPTED 1 d"
  define T1 where "T1 = (\<lambda>k. if k = ACCEPTED then T k + 1 else T k)"
  have d1: "holds N run T1 q w out d1" "kv_pages d1 = kv_pages d"
    unfolding d1_def T1_def by (rule holds_increment [OF d]) simp_all
  from cmd consider (graph) rid g p where "cmd = graph_cmd rid g p" "list_all encodable g"
    | (kv) rid page where "cmd = kv_cmd rid page"
    by (auto simp: driver_command_def)
  then show ?thesis
  proof cases
    case graph
    obtain d' where "execute_graph (graph_cmd rid g p) d1 = (Inr (), d')" "kv_pages d' = kv_pages d1"
      "holds N run (\<lambda>k. T k + start_totals N (kv_pages d) [cmd] w k) q w (out @ [graph_verdict (graph_cmd rid g p)]) d'"
      by (rule holds_graph [OF d1(1) graph(2), of "\<lambda>k. T k + start_totals N (kv_pages d) [cmd] w k" rid p])
        (auto simp: T1_def start_totals_def graph(1) command_opcode_value_def sv_start_one split: counter.split)
    then show ?thesis
      using that graph(1) d1(2) by (simp add: execute_def d1_def sv_start_one command_opcode_value_def Let_def)
  next
    case kv
    then have ex: "execute execute_graph cmd d1 = (Inr (), translate (kv_cmd rid page) d1)"
      by (simp add: execute_def command_opcode_value_def)
    have fresh': "rid \<notin> set (map fst w @ map cmd_request_id q)" using fresh kv by simp
    have T1: "T1 k = T k + (if k = ACCEPTED then 1 else 0)" for k by (simp add: T1_def)
    show ?thesis
    proof (cases "kv_pages d page")
      case (Some phys)
      then have st: "sv_start N (kv_pages d) [cmd] w = ([Completion rid OK phys], w)"
        "\<And>k. start_totals N (kv_pages d) [cmd] w k = (if k = ACCEPTED then 1 else 0)"
        by (auto simp: kv sv_start_one start_totals_def nodes_run_def Let_def split: counter.split)
      have "translate (kv_cmd rid page) d1 = complete_with (Completion rid OK phys) d1"
        using Some d1(2) by (simp add: translate_def)
      with holds_complete [OF d1(1), of "Completion rid OK phys"] ex d1(2) show ?thesis
        by (intro that) (simp_all add: st T1 [abs_def] flip: d1_def)
    next
      case None
      then have miss: "kv_pages d1 page = None" using d1(2) by simp
      have kept: "kv_pages (translate (kv_cmd rid page) d1) = kv_pages d"
        using miss d1(2) by (simp add: translate_def Let_def split: option.split prod.split)
      show ?thesis
      proof (cases "int (length w) < N")
        case True
        then have st: "sv_start N (kv_pages d) [cmd] w = ([], w @ [(rid, page)])"
          using None by (simp add: kv sv_start_one Let_def)
        have "holds N run (\<lambda>k. T k + start_totals N (kv_pages d) [cmd] w k) q (w @ [(rid, page)]) out
            (translate (kv_cmd rid page) d1)"
          by (rule holds_wait [OF d1(1) miss True fresh'])
            (use None in \<open>auto simp: st [unfolded kv] kv T1 start_totals_def nodes_run_def split: counter.split\<close>)
        with ex kept show ?thesis by (intro that) (simp_all add: st flip: d1_def)
      next
        case False
        then have st: "sv_start N (kv_pages d) [cmd] w = ([Completion rid KV_MISS page], w)"
          using None by (simp add: kv sv_start_one Let_def)
        have "holds N run (\<lambda>k. T k + start_totals N (kv_pages d) [cmd] w k) q w
            (out @ [Completion rid KV_MISS page]) (translate (kv_cmd rid page) d1)"
          by (rule holds_overflow [OF d1(1) miss False fresh'])
            (use None in \<open>auto simp: st [unfolded kv] kv T1 start_totals_def nodes_run_def split: counter.split\<close>)
        with ex kept show ?thesis by (intro that) (simp_all add: st flip: d1_def)
      qed
    qed
  qed
qed


lemma holds_pop:
  assumes "holds N run T (cmd # q) w out d"
  obtains r where "command_ring d = Some r" "pop r = (Some cmd, snd (pop r))"
    "holds N run T q w out (d\<lparr>command_ring := Some (snd (pop r))\<rparr>)"
    "driver_command cmd" "cmd_request_id cmd \<notin> set (map fst w @ map cmd_request_id q)"
proof -
  obtain r where r: "command_ring d = Some r" "ring_entries r = N" "ring_items r = cmd # q"
    using assms by (auto simp: holds_def)
  have "holds N run T q w out (d\<lparr>command_ring := Some (snd (pop r))\<rparr>)"
    using assms r pop_first [OF r(3)] by (auto simp: holds_def reads_def)
  moreover have "driver_command cmd" "cmd_request_id cmd \<notin> set (map fst w @ map cmd_request_id q)"
    using assms by (auto simp: holds_def)
  moreover have "pop r = (Some cmd, snd (pop r))" using pop_first(1) [OF r(3)] by (metis prod.collapse)
  ultimately show ?thesis using that r(1) by blast
qed

lemma holds_process_loop:
  assumes "holds N run T q w out d" and "length q < fuel"
  shows "\<exists>d'. process_loop execute_graph fuel None n d = (Inr (n + int (length q)), d') \<and>
    kv_pages d' = kv_pages d \<and>
    holds N run (\<lambda>k. T k + start_totals N (kv_pages d) q w k) [] (snd (sv_start N (kv_pages d) q w))
      (out @ fst (sv_start N (kv_pages d) q w)) d'"
  using assms
proof (induction q arbitrary: T w out d fuel n)
  case Nil
  then obtain r k where r: "command_ring d = Some r" "ring_items r = []" "fuel = Suc k"
    by (cases fuel) (auto simp: holds_def)
  have "start_totals N (kv_pages d) [] w k = 0" for k by (cases k) (simp_all add: start_totals_def)
  moreover have upd: "d\<lparr>command_ring := Some r\<rparr> = d" using r(1) by simp
  ultimately show ?case using Nil r by (simp add: pop_empty upd)
next
  case (Cons cmd q)
  obtain m where m: "fuel = Suc m" "length q < m" using Cons.prems(2) by (cases fuel) auto
  obtain r where r: "command_ring d = Some r" "pop r = (Some cmd, snd (pop r))"
    and d1: "holds N run T q w out (d\<lparr>command_ring := Some (snd (pop r))\<rparr>)" (is "holds _ _ _ _ _ _ ?d1")
    and cmd: "driver_command cmd" "cmd_request_id cmd \<notin> set (map fst w @ map cmd_request_id q)"
    by (rule holds_pop [OF Cons.prems(1)])
  obtain cs w1 where one: "sv_start N (kv_pages d) [cmd] w = (cs, w1)" by fastforce
  obtain d2 where d2: "execute execute_graph cmd (increment ACCEPTED 1 ?d1) = (Inr (), d2)" "kv_pages d2 = kv_pages d"
    "holds N run (\<lambda>k. T k + start_totals N (kv_pages d) [cmd] w k) q w1 (out @ cs) d2"
    by (rule holds_execute [OF d1 cmd]) (use one in auto)
  have step: "process_loop execute_graph fuel None n d = process_loop execute_graph m None (n + 1) d2"
    by (subst m(1), subst process_loop.simps(2), subst r(1)) (simp, subst r(2), simp add: d2(1))
  from Cons.IH [OF d2(3) m(2), of "n + 1"] show ?case
    unfolding step d2(2) sv_start_Cons [of N _ cmd q w] start_totals_Cons [of N _ cmd q w] one
    by (cases "sv_start N (kv_pages d) q w1") (simp add: add.assoc [symmetric])
qed

lemma holds_process:
  assumes d: "holds N run T q w out d" and stop: "\<not> enabled d \<Longrightarrow> q = []"
  shows "\<exists>n d'. process execute_graph None d = (Inr n, d') \<and> kv_pages d' = kv_pages d \<and>
    holds N run (\<lambda>k. T k + start_totals N (kv_pages d) q w k) [] (snd (sv_start N (kv_pages d) q w))
      (out @ fst (sv_start N (kv_pages d) q w)) d'"
proof (cases "enabled d")
  case True
  obtain r where r: "command_ring d = Some r" "ring_items r = q" using d by (auto simp: holds_def)
  with holds_process_loop [OF d lessI, of 0] True show ?thesis
    by (auto simp: process_def simp del: process_loop.simps)
next
  case False
  have "start_totals N (kv_pages d) [] w k = 0" for k by (cases k) (simp_all add: start_totals_def)
  with False stop d show ?thesis by (simp add: process_def)
qed

section \<open>Serving the waiting translations\<close>

lemma holds_serve:
  assumes d: "holds N run T [] ((rid, page) # w) out d"
  obtains r phys fw' d' where "fault_ring d = Some r" "pop r = (Some (Fault rid page KV_MISS 0), snd (pop r))"
    "serve_fault execute_graph (Fault rid page KV_MISS 0) fw (d\<lparr>fault_ring := Some (snd (pop r))\<rparr>) = (Inr True, fw', d')"
    "(kv_pages d', fw_next_physical_page fw') = install_pages [page] (kv_pages d, fw_next_physical_page fw)"
    "kv_pages d' page = Some phys"
    "holds N run (T(KV_RECOVERED := T KV_RECOVERED + 1)) [] w (out @ [Completion rid OK phys]) d'"
proof -
  obtain r where r: "fault_ring d = Some r" "ring_entries r = N"
    "ring_items r = Fault rid page KV_MISS 0 # map (\<lambda>(r, p). Fault r p KV_MISS 0) w"
    using d by (auto simp: holds_def)
  have pop: "pop r = (Some (Fault rid page KV_MISS 0), snd (pop r))"
    using pop_first(1) [OF r(3)] by (metis prod.collapse)
  define fw1 where "fw1 = (if kv_pages d page = None
    then fw\<lparr>fw_next_physical_page := fw_next_physical_page fw + 1\<rparr> else fw)"
  define kv where "kv = (if kv_pages d page = None
    then (kv_pages d)(page \<mapsto> fw_next_physical_page fw) else kv_pages d)"
  obtain phys where phys: "kv page = Some phys" by (cases "kv_pages d page") (auto simp: kv_def)
  define d1 where "d1 = d\<lparr>fault_ring := Some (snd (pop r)), kv_pages := kv, pending := (pending d)(rid := None)\<rparr>"
  define d2 where "d2 = complete_with (Completion rid OK phys) d1"
  have pend: "pending d = map_of (map (\<lambda>(r, p). (r, kv_cmd r p)) ((rid, page) # w))"
    using d by (simp add: holds_def)
  have "rid \<notin> fst ` set (map (\<lambda>(r, p). (r, kv_cmd r p)) w)" using d by (force simp: holds_def)
  then have "map_of (map (\<lambda>(r, p). (r, kv_cmd r p)) w) rid = None" by (rule iffD2 [OF map_of_eq_None_iff])
  then have "(pending d)(rid := None) = map_of (map (\<lambda>(r, p). (r, kv_cmd r p)) w)"
    using pend by (simp add: fun_upd_idem)
  then have "holds N run T [] w out d1"
    using d r pop_first [OF r(3)] by (auto simp: holds_def d1_def reads_def)
  from holds_complete [OF this, of "Completion rid OK phys"]
  have fin: "holds N run (T(KV_RECOVERED := T KV_RECOVERED + 1)) [] w (out @ [Completion rid OK phys]) (increment KV_RECOVERED 1 d2)"
    unfolding d2_def by (rule holds_increment) simp_all
  have "d\<lparr>fault_ring := Some (snd (pop r)), kv_pages := kv_pages d, pending := (pending d)(rid := None)\<rparr>
      = d\<lparr>fault_ring := Some (snd (pop r)), pending := (pending d)(rid := None)\<rparr>" by simp
  then have "serve_fault execute_graph (Fault rid page KV_MISS 0) fw (d\<lparr>fault_ring := Some (snd (pop r))\<rparr>)
      = (Inr True, fw1, increment KV_RECOVERED 1 d2)"
    using pend phys
    by (simp add: serve_fault_def replay_def execute_def translate_def kv_cmd_def fw1_def kv_def d1_def d2_def
        Let_def command_opcode_value_def split: if_splits)
  with that [OF r(1) pop, of fw1 "increment KV_RECOVERED 1 d2" phys] fin phys show ?thesis
    by (simp add: d2_def d1_def fw1_def kv_def)
qed

lemma install_pages_step:
  "install_pages (p # ps) s = install_pages ps (install_pages [p] s)"
  by (cases s) simp

lemma holds_service_loop:
  assumes "holds N run T [] w out d"
  shows "\<exists>fw' d'. service_loop execute_graph n k fw d = (Inr (k + int (length (take n w))), fw', d') \<and>
    (kv_pages d', fw_next_physical_page fw')
      = install_pages (map snd (take n w)) (kv_pages d, fw_next_physical_page fw) \<and>
    holds N run (T(KV_RECOVERED := T KV_RECOVERED + int (length (take n w)))) [] (drop n w)
      (out @ map (\<lambda>(rid, page). Completion rid OK (the (kv_pages d' page))) (take n w)) d'"
  using assms
proof (induction n arbitrary: T w out d fw k)
  case 0
  then show ?case by simp
next
  case (Suc n)
  show ?case
  proof (cases w)
    case Nil
    then obtain r where r: "fault_ring d = Some r" "ring_items r = []" using Suc.prems by (auto simp: holds_def)
    have upd: "d\<lparr>fault_ring := Some r\<rparr> = d" using r(1) by simp
    have "service_loop execute_graph (Suc n) k fw d = (Inr k, fw, d)"
      by (simp only: service_loop.simps r(1) pop_empty [OF r(2)] option.case prod.case upd)
    with Suc.prems Nil show ?thesis by (simp del: service_loop.simps)
  next
    case (Cons f w1)
    obtain rid page where f: "f = (rid, page)" by fastforce
    obtain r phys fw1 d1 where 1: "fault_ring d = Some r" "pop r = (Some (Fault rid page KV_MISS 0), snd (pop r))"
      "serve_fault execute_graph (Fault rid page KV_MISS 0) fw (d\<lparr>fault_ring := Some (snd (pop r))\<rparr>) = (Inr True, fw1, d1)"
      "(kv_pages d1, fw_next_physical_page fw1) = install_pages [page] (kv_pages d, fw_next_physical_page fw)"
      "kv_pages d1 page = Some phys"
      "holds N run (T(KV_RECOVERED := T KV_RECOVERED + 1)) [] w1 (out @ [Completion rid OK phys]) d1"
      by (rule holds_serve [OF Suc.prems [unfolded Cons f], of fw]) blast
    have step: "service_loop execute_graph (Suc n) k fw d = service_loop execute_graph n (k + 1) fw1 d1"
      unfolding service_loop.simps(2) 1(1) option.case by (subst 1(2)) (simp add: 1(3))
    obtain fw' d' where 2: "service_loop execute_graph n (k + 1) fw1 d1 = (Inr (k + 1 + int (length (take n w1))), fw', d')"
      "(kv_pages d', fw_next_physical_page fw') = install_pages (map snd (take n w1)) (kv_pages d1, fw_next_physical_page fw1)"
      "holds N run (T(KV_RECOVERED := T KV_RECOVERED + 1 + int (length (take n w1)))) [] (drop n w1)
        ((out @ [Completion rid OK phys]) @ map (\<lambda>(rid, page). Completion rid OK (the (kv_pages d' page))) (take n w1)) d'"
      using Suc.IH [OF 1(6), of "k + 1" fw1] by (simp only: fun_upd_upd fun_upd_same) blast
    have "kv_pages d' = fst (install_pages (map snd (take n w1)) (kv_pages d1, fw_next_physical_page fw1))"
      using 2(2) by (metis fst_conv)
    then have "kv_pages d' page = Some phys"
      using map_le_defined [OF install_pages_extends, of "(kv_pages d1, fw_next_physical_page fw1)" page] 1(5) by simp
    moreover have "(kv_pages d', fw_next_physical_page fw')
        = install_pages (map snd (take (Suc n) w)) (kv_pages d, fw_next_physical_page fw)"
      unfolding 2(2) Cons f take_Suc_Cons list.map snd_conv by (subst install_pages_step) (simp only: 1(4))
    moreover have "service_loop execute_graph (Suc n) k fw d = (Inr (k + int (length (take (Suc n) w))), fw', d')"
      using step 2(1) by (simp add: Cons del: service_loop.simps)
    moreover have "holds N run (T(KV_RECOVERED := T KV_RECOVERED + int (length (take (Suc n) w)))) [] (drop (Suc n) w)
        (out @ map (\<lambda>(rid, page). Completion rid OK (the (kv_pages d' page))) (take (Suc n) w)) d'"
      using 2(3) calculation(1) by (simp add: Cons f) (erule holds_cong, simp)
    ultimately show ?thesis by blast
  qed
qed


section \<open>The simulation\<close>

text \<open>The code's state, with \<open>n\<close> calls to go, stands for the abstract state \<open>s\<close>.\<close>

definition sim :: "int \<Rightarrow> nat \<Rightarrow> service \<Rightarrow> 'x host \<Rightarrow> bool" where
  "sim N n s h \<longleftrightarrow>
     (case h of (drv, fw, d) \<Rightarrow>
        holds N (sv_running s) (sv_totals s) (sv_queue s) (sv_waiting s) [] d \<and>
        (\<not> sv_running s \<longrightarrow> sv_queue s = []) \<and>
        drv_next_request_id drv = sv_next_id s \<and> 1 \<le> sv_next_id s \<and> sv_next_id s + int n \<le> 2 ^ 64 - 1 \<and>
        (\<forall>i \<in> set (map fst (sv_waiting s) @ map cmd_request_id (sv_queue s)). i < sv_next_id s) \<and>
        drv_completions drv = sv_box s \<and> kv_pages d = sv_pages s \<and>
        fw_next_physical_page fw = sv_next_page s)"

lemma sim_less: "sim N n s h \<Longrightarrow> m \<le> n \<Longrightarrow> sim N m s h"
  by (auto simp: sim_def split: prod.splits)

text \<open>Starting the queue answers a request or lets it wait, and loses none.\<close>

lemma sv_start_ids:
  "mset (map cpl_request_id (fst (sv_start N pages q w))) + mset (map fst (snd (sv_start N pages q w)))
     = mset (map fst w) + mset (map cmd_request_id q)"
  by (induction N pages q w rule: sv_start.induct)
    (auto simp: sv_start.simps(2) Let_def split: option.split prod.split)

lemma out_totals_Nil [simp]: "out_totals N [] k = 0"
  by (cases k) (simp_all add: out_totals_def)

lemma holds_collected:
  assumes d: "holds N run T [] w out d" and r: "ring_items r = []" "ring_entries r = N"
  shows "holds N (run \<and> int (length out) \<le> N) (\<lambda>k. T k + out_totals N out k) [] w []
    (d\<lparr>completion_ring := Some r\<rparr>)"
  using assms by (auto simp: holds_def reads_def)

lemma sim_poll:
  assumes s: "sim N n s h"
  obtains h' where "poll execute_graph serve h = (Inr (fst (sv_poll N serve s)), h')"
    "sim N n (snd (sv_poll N serve s)) h'"
proof -
  obtain drv fw d where h: "h = (drv, fw, d)" by (metis prod_cases3)
  have d: "holds N (sv_running s) (sv_totals s) (sv_queue s) (sv_waiting s) [] d"
    and stop: "\<not> enabled d \<Longrightarrow> sv_queue s = []" and kv: "kv_pages d = sv_pages s"
    and page: "fw_next_physical_page fw = sv_next_page s" and box: "drv_completions drv = sv_box s"
    using s by (auto simp: sim_def h holds_def)
  obtain answers w where st: "sv_start N (sv_pages s) (sv_queue s) (sv_waiting s) = (answers, w)" by fastforce
  define served where "served = (if serve then take 16 w else [])"
  define T1 where "T1 = (\<lambda>k. sv_totals s k + start_totals N (sv_pages s) (sv_queue s) (sv_waiting s) k)"
  obtain m d1 where 1: "process execute_graph None d = (Inr m, d1)" "kv_pages d1 = sv_pages s"
    "holds N (sv_running s) T1 [] w answers d1"
    using holds_process [OF d stop] st kv by (auto simp: T1_def)
  obtain j fw' d2 where 2:
    "(if serve then service_faults execute_graph 16 fw d1 else (Inr 0, fw, d1)) = (Inr j, fw', d2)"
    "(kv_pages d2, fw_next_physical_page fw') = install_pages (map snd served) (sv_pages s, sv_next_page s)"
    "holds N (sv_running s) (T1(KV_RECOVERED := T1 KV_RECOVERED + int (length served))) [] (drop (length served) w)
      (answers @ map (\<lambda>(rid, page). Completion rid OK (the (kv_pages d2 page))) served) d2"
  proof (cases serve)
    case True
    have "fault_ring d1 \<noteq> None" using 1(3) by (auto simp: holds_def)
    then have "service_faults execute_graph 16 fw d1 = service_loop execute_graph 16 0 fw d1"
      by (auto simp: service_faults_def simp del: service_loop.simps)
    moreover have "drop (length (take 16 w)) w = drop 16 w" by (simp add: min_def)
    ultimately show ?thesis
      using holds_service_loop [OF 1(3), of 16 0 fw] that True 1(2) page by (auto simp: served_def)
  next
    case False
    with that [of 0 fw d1] 1 page show ?thesis by (simp add: served_def)
  qed
  define out where "out = answers @ map (\<lambda>(rid, page). Completion rid OK (the (kv_pages d2 page))) served"
  obtain r where r: "completion_ring d2 = Some r" "ring_entries r = N" "ring_items r = take (nat N) out"
    using 2(3) by (auto simp: holds_def out_def)
  obtain r' where r': "drain r (sv_box s) 0
      = (r', file_all (take (nat N) out) (sv_box s), int (length (take (nat N) out)))" "ring_items r' = []" "ring_entries r' = N"
    using drain_all [of r "sv_box s" 0] r by auto
  have abs: "sv_poll N serve s = (int (length (take (nat N) out)),
      s\<lparr>sv_queue := [], sv_waiting := drop (length served) w, sv_box := file_all (take (nat N) out) (sv_box s),
        sv_pages := kv_pages d2, sv_next_page := fw_next_physical_page fw',
        sv_running := (sv_running s \<and> int (length out) \<le> N),
        sv_totals := (\<lambda>k. T1 k + (if k = KV_RECOVERED then int (length served) else 0) + out_totals N out k)\<rparr>)"
    by (simp only: sv_poll_def st prod.case Let_def served_def [symmetric] 2(2) [symmetric] fst_conv snd_conv
        out_def [symmetric]) (simp add: T1_def)
  define h' where "h' = (drv\<lparr>drv_completions := file_all (take (nat N) out) (sv_box s)\<rparr>, fw', d2\<lparr>completion_ring := Some r'\<rparr>)"
  have "poll execute_graph serve h = (Inr (fst (sv_poll N serve s)), h')"
    using 1(1) 2(1) r(1) r'(1) by (simp add: h poll_def abs h'_def box)
  moreover have "sim N n (snd (sv_poll N serve s)) h'"
  proof -
    have "holds N (sv_running s \<and> int (length out) \<le> N)
        (\<lambda>k. T1 k + (if k = KV_RECOVERED then int (length served) else 0) + out_totals N out k) [] (drop (length served) w) []
        (d2\<lparr>completion_ring := Some r'\<rparr>)"
      using holds_collected [OF 2(3) [folded out_def] r'(2,3)] by (rule holds_cong) simp
    moreover have "i < sv_next_id s" if "i \<in> set (map fst (drop (length served) w))" for i
    proof -
      have "i \<in># mset (map fst w)" using that in_set_dropD by fastforce
      then have "i \<in># mset (map fst (sv_waiting s)) + mset (map cmd_request_id (sv_queue s))"
        using sv_start_ids [of N "sv_pages s" "sv_queue s" "sv_waiting s"] unfolding st fst_conv snd_conv
        by (metis union_iff)
      with s show ?thesis by (auto simp: sim_def h)
    qed
    ultimately show ?thesis
      using s unfolding abs h'_def sim_def h by (simp del: set_map)
  qed
  ultimately show ?thesis by (rule that)
qed


lemma sim_take:
  assumes "sim N n s (drv, fw, d)"
  shows "\<exists>drv'. take_completion rid drv = (fst (sv_take rid s), drv') \<and> sim N n (snd (sv_take rid s)) (drv', fw, d)"
  using assms by (simp add: take_completion_def sv_take_def sim_def)

lemma sim_wait:
  assumes "sim N n s h"
  shows "\<exists>h'. wait_loop execute_graph rid polls h = (fst (sv_wait N rid polls s), h') \<and>
    sim N n (snd (sv_wait N rid polls s)) h'"
  using assms
proof (induction polls arbitrary: s h)
  case 0
  then show ?case by simp
next
  case (Suc k)
  obtain m drv fw d where 1: "poll execute_graph True h = (Inr m, drv, fw, d)"
    "sim N n (snd (sv_poll N True s)) (drv, fw, d)"
    by (rule sim_poll [OF Suc.prems, of True]) (metis prod_cases3)
  obtain drv' where 2: "take_completion rid drv = (fst (sv_take rid (snd (sv_poll N True s))), drv')"
    "sim N n (snd (sv_take rid (snd (sv_poll N True s)))) (drv', fw, d)"
    using sim_take [OF 1(2)] by blast
  show ?case
  proof (cases "fst (sv_take rid (snd (sv_poll N True s)))")
    case (Some c)
    with 1 2 show ?thesis by (auto split: prod.split)
  next
    case None
    with 1 2 Suc.IH [OF 2(2)] show ?thesis by (auto split: prod.split)
  qed
qed

lemma holds_submit:
  assumes d: "holds N run T q w [] d" and cmd: "driver_command cmd"
    and fresh: "cmd_request_id cmd \<notin> set (map fst w @ map cmd_request_id q)"
  obtains (accepted) d' where "run" "int (length q) < N" "submit cmd d = (Inr True, d')"
      "holds N run T (q @ [cmd]) w [] d'" "kv_pages d' = kv_pages d"
  | (full) d' where "run" "\<not> int (length q) < N" "submit cmd d = (Inr False, d')"
      "holds N run (T(QUEUE_ERRORS := T QUEUE_ERRORS + 1)) q w [] d'" "kv_pages d' = kv_pages d"
  | (stopped) "\<not> run" "submit cmd d = (Inl RuntimeError, d)"
proof -
  obtain r where r: "command_ring d = Some r" "ring_entries r = N" "ring_items r = q"
    and le: "int (length q) \<le> N" and run: "enabled d = run"
    using d by (auto simp: holds_def)
  show ?thesis
  proof (cases run)
    case False
    with run stopped show ?thesis by (simp add: submit_def)
  next
    case True
    show ?thesis
    proof (cases "int (length q) < N")
      case room: True
      have push: "push cmd r = (True, snd (push cmd r))"
        using push_room(1) [of r cmd] room r by (simp add: prod_eq_iff)
      have "submit cmd d = (Inr True, d\<lparr>command_ring := Some (snd (push cmd r))\<rparr>)"
        unfolding submit_def r(1) option.case by (subst push) (simp add: run True)
      moreover have "holds N run T (q @ [cmd]) w [] (d\<lparr>command_ring := Some (snd (push cmd r))\<rparr>)"
        using d cmd fresh r room push_room(2) [of r cmd] by (auto simp: holds_def reads_def)
      ultimately show ?thesis using accepted True room by simp
    next
      case False
      then have push: "push cmd r = (False, r)" using le r by (intro push_full) simp
      have "submit cmd d = (Inr False, increment QUEUE_ERRORS 1 d)"
        unfolding submit_def r(1) option.case by (subst push) (simp add: run True)
      moreover have "holds N run (T(QUEUE_ERRORS := T QUEUE_ERRORS + 1)) q w [] (increment QUEUE_ERRORS 1 d)"
        by (rule holds_increment [OF d]) simp_all
      ultimately show ?thesis using full True False by simp
    qed
  qed
qed

lemma sim_issue:
  assumes s: "sim N (Suc n) s (drv, fw, d)" and cmd: "driver_command (mk (sv_next_id s))"
    and id: "cmd_request_id (mk (sv_next_id s)) = sv_next_id s"
  obtains r drv' d' s' where "sv_issue N mk s = (r, s')" "sim N n s' (drv', fw, d')"
    "(case allocate_request_id drv of (rid, drv1) \<Rightarrow> issue (mk rid) drv1 d) = (r, drv', d')"
proof -
  define i where "i = sv_next_id s"
  define drv1 where "drv1 = drv\<lparr>drv_next_request_id := i + 1\<rparr>"
  have alloc: "allocate_request_id drv = (i, drv1)"
    using s by (subst allocate_request_id_small) (simp_all add: sim_def drv1_def i_def)
  have d: "holds N (sv_running s) (sv_totals s) (sv_queue s) (sv_waiting s) [] d"
    using s by (simp add: sim_def)
  have fresh: "cmd_request_id (mk i) \<notin> set (map fst (sv_waiting s) @ map cmd_request_id (sv_queue s))"
    using s id by (auto simp: sim_def i_def)
  have old: "\<forall>c \<in> set (sv_queue s). cmd_request_id c \<le> sv_next_id s"
    "\<forall>x \<in> set (sv_waiting s). fst x \<le> sv_next_id s"
    using s by (auto simp: sim_def intro!: less_imp_le)
  show ?thesis
    using d cmd [folded i_def] fresh
  proof (cases rule: holds_submit)
    case (accepted d')
    then have "sv_issue N mk s = (Inr i, s\<lparr>sv_next_id := i + 1, sv_queue := sv_queue s @ [mk i]\<rparr>)"
      by (simp add: sv_issue_def Let_def i_def)
    moreover have "sim N n (s\<lparr>sv_next_id := i + 1, sv_queue := sv_queue s @ [mk i]\<rparr>) (drv1, fw, d')"
      using s accepted id old by (fastforce simp: sim_def drv1_def i_def)
    ultimately show ?thesis using that accepted id by (simp add: alloc issue_def i_def)
  next
    case (full d')
    then have "sv_issue N mk s = (Inl BlockingIOError,
        s\<lparr>sv_next_id := i + 1, sv_totals := (sv_totals s)(QUEUE_ERRORS := sv_totals s QUEUE_ERRORS + 1)\<rparr>)"
      by (simp add: sv_issue_def Let_def i_def)
    moreover have "sim N n (s\<lparr>sv_next_id := i + 1,
        sv_totals := (sv_totals s)(QUEUE_ERRORS := sv_totals s QUEUE_ERRORS + 1)\<rparr>) (drv1, fw, d')"
      using s full old by (fastforce simp: sim_def drv1_def i_def)
    ultimately show ?thesis using that full by (simp add: alloc issue_def)
  next
    case stopped
    then have "sv_issue N mk s = (Inl RuntimeError, s\<lparr>sv_next_id := i + 1\<rparr>)"
      by (simp add: sv_issue_def Let_def i_def)
    moreover have "sim N n (s\<lparr>sv_next_id := i + 1\<rparr>) (drv1, fw, d)"
      using s old by (fastforce simp: sim_def drv1_def i_def)
    ultimately show ?thesis using that stopped by (simp add: alloc issue_def)
  qed
qed

lemma sim_call:
  assumes s: "sim N (Suc n) s h"
  obtains h' where "drv_call execute_graph c h = (fst (sv_call N c s), h')" "sim N n (snd (sv_call N c s)) h'"
proof -
  obtain drv fw d where h: "h = (drv, fw, d)" by (metis prod_cases3)
  have s1: "sim N n s (drv, fw, d)" using sim_less [OF s] h by simp
  show ?thesis
  proof (cases c)
    case (SubmitGraph nodes prio)
    show ?thesis
    proof (cases "list_all encodable nodes")
      case True
      then have "driver_command (graph_cmd (sv_next_id s) nodes prio)"
        unfolding driver_command_def by blast
      then obtain r drv' d' s' where "sv_issue N (\<lambda>rid. graph_cmd rid nodes prio) s = (r, s')"
        "sim N n s' (drv', fw, d')"
        "(case allocate_request_id drv of (rid, drv1) \<Rightarrow> issue (graph_cmd rid nodes prio) drv1 d) = (r, drv', d')"
        by (rule sim_issue [OF s [unfolded h]]) simp
      with True show ?thesis using that SubmitGraph h by (simp add: submit_graph_def map_res_encode)
    next
      case False
      with s1 show ?thesis using that SubmitGraph h by (simp add: submit_graph_def map_res_encode)
    qed
  next
    case (TranslateKv page)
    show ?thesis
    proof (cases "page \<in> {0..<2 ^ 64}")
      case True
      have "driver_command (kv_cmd (sv_next_id s) page)" unfolding driver_command_def by blast
      then obtain r drv' d' s' where "sv_issue N (\<lambda>rid. kv_cmd rid page) s = (r, s')"
        "sim N n s' (drv', fw, d')"
        "(case allocate_request_id drv of (rid, drv1) \<Rightarrow> issue (kv_cmd rid page) drv1 d) = (r, drv', d')"
        by (rule sim_issue [OF s [unfolded h]]) simp
      with True show ?thesis using that TranslateKv h by (simp add: translate_kv_def)
    next
      case False
      with s1 show ?thesis using that TranslateKv h by (auto simp: translate_kv_def)
    qed
  next
    case (Poll serve)
    show ?thesis
      by (rule sim_poll [OF s1, of serve]) (use that Poll h in \<open>auto simp: case_prod_unfold\<close>)
  next
    case (TakeCompletion rid)
    with sim_take [OF s1, of rid] show ?thesis using that h by (auto simp: case_prod_unfold)
  next
    case (Wait rid polls)
    with sim_wait [OF s1, of rid "nat polls"] show ?thesis using that h by (auto simp: wait_def case_prod_unfold)
  next
    case (ReadCounter selector)
    with s1 show ?thesis using that h
      by (simp add: driver_read_counter_def read_counter_def sim_def holds_def reads_def split: sum.split)
  next
    case Probe
    with s1 show ?thesis using that h
      by (simp add: probe_def DEVICE_ID_def DEVICE_VERSION_def sim_def holds_def)
  qed
qed

lemma sim_run:
  assumes "sim N (length cs + n) s h"
  obtains h' where "drv_run execute_graph cs h = (fst (sv_run N cs s), h')" "sim N n (snd (sv_run N cs s)) h'"
proof -
  have "\<exists>h'. drv_run execute_graph cs h = (fst (sv_run N cs s), h') \<and> sim N n (snd (sv_run N cs s)) h'"
    using assms(1)
  proof (induction cs arbitrary: s h)
    case (Cons c cs)
    then have "sim N (Suc (length cs + n)) s h" by simp
    from sim_call [OF this, of c] obtain h1 where "drv_call execute_graph c h = (fst (sv_call N c s), h1)"
      "sim N (length cs + n) (snd (sv_call N c s)) h1" by blast
    with Cons.IH [OF this(2)] show ?case by (auto split: prod.split)
  qed simp
  then show ?thesis using that by blast
qed

text \<open>A device fresh from a successful boot, with its driver, stands for the empty service.\<close>

lemma sim_booted:
  assumes "booted fw img lock (RcifDevice_init otp) d" and "fw_next_physical_page fw = 0x1000"
    and "int n \<le> 2 ^ 64 - 2"
  shows "sim (fw_queue_entries fw) n sv_init (RcifDriver_init, fw, d)"
proof -
  have "counters d k = min MASK64 (sv_totals sv_init k)" for k
    using assms(1) by (simp add: booted_def sv_init_def increment_def MASK64_def)
  then show ?thesis
    using assms by (auto simp: sim_def sv_init_def RcifDriver_init_def booted_def holds_def reads_def
        dest!: Ring_init_fields dest: legal_size_bounds)
qed

declare drv_call.simps [simp del]


section \<open>What a poll does to the abstract service\<close>

text \<open>How many requests wait for an answer, in the abstract service and in the device.\<close>

definition sv_load :: "service \<Rightarrow> int" where
  "sv_load s = int (length (sv_queue s)) + int (length (sv_waiting s))"

definition host_load :: "'x host \<Rightarrow> int" where
  "host_load h = (case h of (drv, fw, d) \<Rightarrow>
     int (length (ring_items (the (command_ring d)))) + int (length (ring_items (the (fault_ring d)))))"

lemma sim_load: "sim N n s h \<Longrightarrow> host_load h = sv_load s"
  by (auto simp: sim_def holds_def host_load_def sv_load_def)

lemma sim_bounds:
  assumes "sim N n s h"
  shows "int (length (sv_queue s)) \<le> N" "int (length (sv_waiting s)) \<le> N"
    "distinct (map fst (sv_waiting s) @ map cmd_request_id (sv_queue s))"
    "\<not> sv_running s \<Longrightarrow> sv_queue s = []"
  using assms by (auto simp: sim_def holds_def)

lemma sv_start_length:
  "length (fst (sv_start N pages q w)) + length (snd (sv_start N pages q w)) = length w + length q"
  using arg_cong [OF sv_start_ids [of N pages q w], of size] by simp

lemma sv_start_fits: "int (length w) \<le> N \<Longrightarrow> int (length (snd (sv_start N pages q w))) \<le> N"
  by (induction N pages q w rule: sv_start.induct)
    (auto simp: sv_start.simps(2) Let_def split: option.split prod.split)

lemma sv_start_keeps: "\<exists>more. snd (sv_start N pages q w) = w @ more"
proof (induction q arbitrary: w)
  case (Cons cmd q)
  from Cons.IH [of w] Cons.IH [of "w @ [(cmd_request_id cmd, cmd_argument cmd)]"] show ?case
    by (auto simp: sv_start.simps(2) Let_def split: option.split prod.split)
qed simp

lemma sv_start_graph:
  "cmd \<in> set q \<Longrightarrow> cmd_opcode cmd \<noteq> command_opcode_value KV_TRANSLATE \<Longrightarrow>
     graph_verdict cmd \<in> set (fst (sv_start N pages q w))"
proof (induction q arbitrary: w)
  case (Cons c q)
  from Cons.prems Cons.IH [of w] Cons.IH [of "w @ [(cmd_request_id c, cmd_argument c)]"] show ?case
    by (auto simp: sv_start.simps(2) Let_def split: option.split prod.split)
qed simp

lemma sv_start_kv:
  assumes "cmd \<in> set q" "cmd_opcode cmd = command_opcode_value KV_TRANSLATE" "int (length w) + int (length q) \<le> N"
  shows "case pages (cmd_argument cmd) of
      Some phys \<Rightarrow> Completion (cmd_request_id cmd) OK phys \<in> set (fst (sv_start N pages q w))
    | None \<Rightarrow> (cmd_request_id cmd, cmd_argument cmd) \<in> set (snd (sv_start N pages q w))"
  using assms
proof (induction q arbitrary: w)
  case (Cons c q)
  show ?case
  proof (cases "cmd = c")
    case True
    moreover obtain more where "snd (sv_start N pages q (w @ [(cmd_request_id c, cmd_argument c)]))
        = (w @ [(cmd_request_id c, cmd_argument c)]) @ more" using sv_start_keeps by blast
    ultimately show ?thesis using Cons.prems
      by (auto simp: sv_start.simps(2) Let_def split: option.split prod.split)
  next
    case False
    with Cons.prems Cons.IH [of w] Cons.IH [of "w @ [(cmd_request_id c, cmd_argument c)]"] show ?thesis
      by (auto simp: sv_start.simps(2) Let_def split: option.splits prod.split)
  qed
qed simp

text \<open>The answers of one poll, delivered or not, and the translations still waiting after it.\<close>

definition poll_out :: "int \<Rightarrow> bool \<Rightarrow> service \<Rightarrow> completion list" where
  "poll_out N serve s =
     (let (answers, waiting) = sv_start N (sv_pages s) (sv_queue s) (sv_waiting s);
          served = (if serve then take 16 waiting else []) in
      answers @ map (\<lambda>(rid, page). Completion rid OK (the (sv_pages (snd (sv_poll N serve s)) page))) served)"

lemma sv_poll_sel:
  "sv_queue (snd (sv_poll N serve s)) = []" "sv_next_id (snd (sv_poll N serve s)) = sv_next_id s"
  "sv_box (snd (sv_poll N serve s)) = file_all (take (nat N) (poll_out N serve s)) (sv_box s)"
  "sv_running (snd (sv_poll N serve s)) = (sv_running s \<and> int (length (poll_out N serve s)) \<le> N)"
  "fst (sv_poll N serve s) = int (length (take (nat N) (poll_out N serve s)))"
  "sv_totals (snd (sv_poll N serve s)) QUEUE_ERRORS =
     sv_totals s QUEUE_ERRORS + int (length (poll_out N serve s)) - int (length (take (nat N) (poll_out N serve s)))"
  by (simp_all add: sv_poll_def poll_out_def Let_def start_totals_def out_totals_def case_prod_unfold)

lemma sv_poll_waiting:
  "sv_waiting (snd (sv_poll N serve s)) =
     (let w = snd (sv_start N (sv_pages s) (sv_queue s) (sv_waiting s)) in if serve then drop 16 w else w)"
  by (simp add: sv_poll_def Let_def case_prod_unfold min_def)

text \<open>No request is answered twice, and none gets the answer of another.\<close>

lemma poll_out_ids:
  assumes "distinct (map fst (sv_waiting s) @ map cmd_request_id (sv_queue s))"
  shows "distinct (map cpl_request_id (poll_out N serve s))"
proof -
  obtain a w where st: "sv_start N (sv_pages s) (sv_queue s) (sv_waiting s) = (a, w)" by fastforce
  have "mset (map cpl_request_id a @ map fst w) = mset (map fst (sv_waiting s) @ map cmd_request_id (sv_queue s))"
    using sv_start_ids [of N "sv_pages s" "sv_queue s" "sv_waiting s"] by (simp add: st)
  from mset_eq_imp_distinct_iff [OF this] assms have dist: "distinct (map cpl_request_id a @ map fst w)" by simp
  define served where "served = (if serve then take 16 w else [])"
  have "map cpl_request_id (poll_out N serve s) = map cpl_request_id a @ map fst served"
    by (auto simp: poll_out_def st Let_def served_def case_prod_unfold)
  moreover have "map fst served = take (length served) (map fst w)"
    by (simp add: served_def take_map [symmetric] min_def)
  ultimately show ?thesis using dist set_take_subset [of "length served" "map fst w"]
    by (auto simp: distinct_take dest: in_set_takeD)
qed

lemma sv_poll_delivers:
  assumes "distinct (map fst (sv_waiting s) @ map cmd_request_id (sv_queue s))"
    and "c \<in> set (take (nat N) (poll_out N serve s))"
  shows "sv_box (snd (sv_poll N serve s)) (cpl_request_id c) = Some c"
proof -
  have "distinct (map cpl_request_id (take (nat N) (poll_out N serve s)))"
    using poll_out_ids [OF assms(1)] by (simp add: distinct_take flip: take_map)
  from file_all_distinct [OF this assms(2)] show ?thesis by (simp add: sv_poll_sel)
qed

lemma poll_out_length:
  assumes "N \<le> 16" "int (length (sv_waiting s)) \<le> N"
  shows "int (length (poll_out N True s)) = sv_load s" "sv_waiting (snd (sv_poll N True s)) = []"
proof -
  obtain a w where st: "sv_start N (sv_pages s) (sv_queue s) (sv_waiting s) = (a, w)" by fastforce
  have "int (length w) \<le> N" using sv_start_fits [OF assms(2), of "sv_pages s" "sv_queue s"] by (simp add: st)
  then have "length w \<le> 16" using assms(1) by simp
  then show "int (length (poll_out N True s)) = sv_load s" "sv_waiting (snd (sv_poll N True s)) = []"
    using sv_start_length [of N "sv_pages s" "sv_queue s" "sv_waiting s"]
    by (simp_all add: st poll_out_def sv_load_def sv_poll_waiting Let_def)
qed

text \<open>A graph is always delivered: the answers to the queue come before the late translations.\<close>

lemma sv_poll_graph:
  assumes "distinct (map fst (sv_waiting s) @ map cmd_request_id (sv_queue s))" "int (length (sv_queue s)) \<le> N"
    and "cmd \<in> set (sv_queue s)" "cmd_opcode cmd \<noteq> command_opcode_value KV_TRANSLATE"
  shows "sv_box (snd (sv_poll N serve s)) (cmd_request_id cmd) = Some (graph_verdict cmd)"
proof -
  obtain a w where st: "sv_start N (sv_pages s) (sv_queue s) (sv_waiting s) = (a, w)" by fastforce
  obtain more where "w = sv_waiting s @ more"
    using sv_start_keeps [of N "sv_pages s" "sv_queue s" "sv_waiting s"] by (auto simp: st)
  then have "length (sv_waiting s) \<le> length w" by simp
  then have "length a \<le> nat N"
    using sv_start_length [of N "sv_pages s" "sv_queue s" "sv_waiting s"] assms(2) by (simp add: st)
  then have "set a \<subseteq> set (take (nat N) (poll_out N serve s))"
    by (auto simp: poll_out_def st Let_def)
  moreover have "graph_verdict cmd \<in> set a"
    using sv_start_graph [OF assms(3,4), of N "sv_pages s" "sv_waiting s"] by (simp add: st)
  ultimately show ?thesis using sv_poll_delivers [OF assms(1), of "graph_verdict cmd" N serve] by auto
qed

text \<open>A translation is served when every request in flight fits the completion ring.\<close>

lemma sv_poll_kv:
  assumes "distinct (map fst (sv_waiting s) @ map cmd_request_id (sv_queue s))" "sv_load s \<le> N" "N \<le> 16"
    and cmd: "cmd \<in> set (sv_queue s)" "cmd_opcode cmd = command_opcode_value KV_TRANSLATE"
  obtains phys where "sv_box (snd (sv_poll N True s)) (cmd_request_id cmd) = Some (Completion (cmd_request_id cmd) OK phys)"
    "sv_pages (snd (sv_poll N True s)) (cmd_argument cmd) = Some phys"
proof -
  obtain a w where st: "sv_start N (sv_pages s) (sv_queue s) (sv_waiting s) = (a, w)" by fastforce
  have wN: "int (length (sv_waiting s)) \<le> N" using assms(2) by (simp add: sv_load_def)
  have "int (length w) \<le> N" using sv_start_fits [OF wN, of "sv_pages s" "sv_queue s"] by (simp add: st)
  then have w16: "take 16 w = w" using assms(3) by simp
  have all: "take (nat N) (poll_out N True s) = poll_out N True s"
    using poll_out_length(1) [OF assms(3) wN] assms(2) by simp
  define pages where "pages = sv_pages (snd (sv_poll N True s))"
  have pages: "pages = fst (install_pages (map snd w) (sv_pages s, sv_next_page s))"
    by (simp add: pages_def sv_poll_def st Let_def w16)
  have out: "poll_out N True s = a @ map (\<lambda>(rid, page). Completion rid OK (the (pages page))) w"
    by (simp add: poll_out_def st Let_def w16 pages_def)
  have start: "case sv_pages s (cmd_argument cmd) of
      Some phys \<Rightarrow> Completion (cmd_request_id cmd) OK phys \<in> set a
    | None \<Rightarrow> (cmd_request_id cmd, cmd_argument cmd) \<in> set w"
    using sv_start_kv [OF cmd, of "sv_waiting s" N "sv_pages s"] assms(2) unfolding st fst_conv snd_conv
    by (simp add: sv_load_def)
  have "\<exists>phys. Completion (cmd_request_id cmd) OK phys \<in> set (poll_out N True s) \<and> pages (cmd_argument cmd) = Some phys"
  proof (cases "sv_pages s (cmd_argument cmd)")
    case (Some phys)
    moreover have "pages (cmd_argument cmd) = sv_pages s (cmd_argument cmd)"
      using map_le_defined [OF install_pages_extends, of "(sv_pages s, sv_next_page s)"] Some by (simp add: pages)
    ultimately show ?thesis using start out by simp
  next
    case None
    then have w: "(cmd_request_id cmd, cmd_argument cmd) \<in> set w" using start by simp
    then have "cmd_argument cmd \<in> set (map snd w)" by force
    from install_pages_covers [OF this] obtain phys where "pages (cmd_argument cmd) = Some phys"
      unfolding pages by blast
    with w out show ?thesis by force
  qed
  then obtain phys where "Completion (cmd_request_id cmd) OK phys \<in> set (take (nat N) (poll_out N True s))"
    "pages (cmd_argument cmd) = Some phys" unfolding all by blast
  with sv_poll_delivers [OF assms(1), of _ N True] that show ?thesis by (force simp: pages_def)
qed


section \<open>Sessions\<close>

text \<open>The state a session of calls on a booted device reached, and that it stands for.\<close>

definition session ::
  "(byte list \<Rightarrow> byte list) \<Rightarrow> (byte list \<Rightarrow> byte list \<Rightarrow> byte list) \<Rightarrow> int \<Rightarrow> driver_call list \<Rightarrow>
   (unit) host \<Rightarrow> bool"
where
  "session sha mac N calls h \<longleftrightarrow> int (length calls) \<le> 2 ^ 64 - 4 \<and>
     (\<exists>key otp img lock d. boot sha mac (fst (fresh key N otp)) img lock (RcifDevice_init otp) = (Inr True, d) \<and>
        snd (drv_run execute_graph calls (RcifDriver_init, fst (fresh key N otp), d)) = h)"

lemma session_sim:
  assumes "session sha mac N calls h"
  shows "sim N 2 (snd (sv_run N calls sv_init)) h"
proof -
  obtain key otp img lock d where b: "int (length calls) \<le> 2 ^ 64 - 4"
    "boot sha mac (fst (fresh key N otp)) img lock (RcifDevice_init otp) = (Inr True, d)"
    "snd (drv_run execute_graph calls (RcifDriver_init, fst (fresh key N otp), d)) = h"
    using assms by (auto simp: session_def)
  have "booted (fst (fresh key N otp)) img lock (RcifDevice_init otp) d"
    using b(2) by (cases rule: boot_cases [of sha mac "fst (fresh key N otp)" img lock "RcifDevice_init otp"]) auto
  from sim_booted [OF this, of "length calls + 2"] b(1)
  have "sim N (length calls + 2) sv_init (RcifDriver_init, fst (fresh key N otp), d)" by simp
  from sim_run [OF this] b(3) show ?thesis by (metis snd_conv)
qed

text \<open>A client that never leaves faults for later: every poll of it serves them.\<close>

fun prompt_call :: "driver_call \<Rightarrow> bool" where
  "prompt_call (Poll service) = service"
| "prompt_call _ = True"

definition prompt :: "int \<Rightarrow> service \<Rightarrow> bool" where
  "prompt N s \<longleftrightarrow> sv_running s \<and> sv_waiting s = [] \<and> int (length (sv_queue s)) \<le> N"

lemma prompt_poll: "prompt N s \<Longrightarrow> N \<le> 16 \<Longrightarrow> 0 \<le> N \<Longrightarrow> prompt N (snd (sv_poll N True s))"
  using poll_out_length [of N s] by (auto simp: prompt_def sv_poll_sel sv_load_def)

lemma prompt_wait: "prompt N s \<Longrightarrow> N \<le> 16 \<Longrightarrow> 0 \<le> N \<Longrightarrow> prompt N (snd (sv_wait N rid polls s))"
proof (induction polls arbitrary: s)
  case (Suc k)
  have "prompt N (snd (sv_take rid (snd (sv_poll N True s))))"
    using prompt_poll [OF Suc.prems] by (simp add: prompt_def sv_take_def)
  with Suc show ?case by (auto split: prod.split option.split)
qed simp

lemma prompt_calls:
  assumes "prompt N s" "N \<le> 16" "0 \<le> N" "list_all prompt_call calls"
  shows "prompt N (snd (sv_run N calls s))"
  using assms(1,4)
proof (induction calls arbitrary: s)
  case (Cons c calls)
  have "prompt N (snd (sv_call N c s))"
  proof (cases c)
    case (Wait rid polls)
    with prompt_wait [OF Cons.prems(1) assms(2,3)] show ?thesis by (simp add: case_prod_unfold)
  next
    case (Poll serve)
    with prompt_poll [OF Cons.prems(1) assms(2,3)] Cons.prems(2) show ?thesis by (simp add: case_prod_unfold)
  qed (use Cons.prems in \<open>auto simp: prompt_def sv_issue_def sv_take_def Let_def\<close>)
  with Cons show ?case by (simp add: case_prod_unfold)
qed simp

lemma session_prompt:
  assumes "session sha mac N calls h" "N \<le> 16" "list_all prompt_call calls"
  shows "prompt N (snd (sv_run N calls sv_init))"
proof -
  have "0 \<le> N" using sim_bounds(1) [OF session_sim [OF assms(1)]] by simp
  with assms(2,3) show ?thesis
    by (intro prompt_calls) (simp_all add: prompt_def sv_init_def)
qed

section \<open>Properties of the control plane\<close>

text \<open>
  C1: the control plane implements the abstract service. Boot a new device with any queue size that
  boots; then for any sequence of driver calls (submissions, translations, polls with and without
  fault service, mailbox reads, waits, counter reads and probes), in any order and with any
  arguments, every reply (ids, counts, completions, counter values, exceptions) is the one the
  abstract service gives, and mailbox, page table and running state agree with it, also after the
  service stopped. Rings, fault records, pending commands and replays are invisible. The bound on
  the number of calls keeps the 64-bit request ids from wrapping around.
\<close>

theorem driver_refines_service:
  assumes "boot sha mac (fst (fresh key entries otp)) img lock (RcifDevice_init otp) = (Inr True, d)"
    and "int (length calls) \<le> 2 ^ 64 - 2"
  shows "\<exists>drv fw' d'. drv_run execute_graph calls (RcifDriver_init, fst (fresh key entries otp), d)
       = (fst (sv_run entries calls sv_init), drv, fw', d') \<and>
     enabled d' = sv_running (snd (sv_run entries calls sv_init)) \<and>
     status d' = (if sv_running (snd (sv_run entries calls sv_init)) then RUNNING else FATAL) \<and>
     drv_completions drv = sv_box (snd (sv_run entries calls sv_init)) \<and>
     kv_pages d' = sv_pages (snd (sv_run entries calls sv_init))"
proof -
  have "booted (fst (fresh key entries otp)) img lock (RcifDevice_init otp) d"
    using assms(1) by (cases rule: boot_cases [of sha mac "fst (fresh key entries otp)" img lock "RcifDevice_init otp"]) auto
  from sim_booted [OF this, of "length calls + 0"] assms(2)
  have "sim entries (length calls + 0) sv_init (RcifDriver_init, fst (fresh key entries otp), d)" by simp
  then obtain h where "drv_run execute_graph calls (RcifDriver_init, fst (fresh key entries otp), d)
      = (fst (sv_run entries calls sv_init), h)" "sim entries 0 (snd (sv_run entries calls sv_init)) h"
    using sim_run by blast
  then show ?thesis by (cases h) (auto simp: sim_def holds_def)
qed

text \<open>
  A client session: two graphs, two translations of one page, a poll that leaves the faults for
  later, and the counter of the pages they got in the end.
\<close>

definition demo_calls :: "driver_call list" where
  "demo_calls = [SubmitGraph sample_graph 0, TranslateKv 7, TranslateKv 7, Poll False, TakeCompletion 3,
     Wait 1 16, TakeCompletion 3, SubmitGraph [] 0, Poll True, ReadCounter 5, ReadCounter 2, ReadCounter 99, Probe]"

lemma demo_replies:
  "fst (sv_run 16 demo_calls sv_init) =
     [RequestId (Inr 1), RequestId (Inr 2), RequestId (Inr 3), Drained (Inr 1), Mail None,
      Waited (Inr (Completion 1 OK 0xB2CB)), Mail (Some (Completion 3 OK 0x1000)),
      RequestId (Inr 4), Drained (Inr 1), Counted (Inr 2), Counted (Inr 1), Counted (Inl ValueError), Probed (Inr ())]"
  by code_simp

theorem driver_refines_service_witness:
  "\<exists>d drv fw' d'. boot toy_sha toy_mac (fst (fresh toy_key 16 1)) (toy_image 3) True (RcifDevice_init 1) = (Inr True, d) \<and>
     drv_run execute_graph demo_calls (RcifDriver_init, fst (fresh toy_key 16 1), d)
       = (fst (sv_run 16 demo_calls sv_init), drv, fw', d')"
proof -
  obtain d where d: "boot toy_sha toy_mac (fst (fresh toy_key 16 1)) (toy_image 3) True (RcifDevice_init 1) = (Inr True, d)"
    by (rule toy_boot [of "RcifDevice_init 1" 3 "fst (fresh toy_key 16 1)" True]) simp_all
  have "int (length demo_calls) \<le> 2 ^ 64 - 2" by (simp add: demo_calls_def)
  from driver_refines_service [OF d this] d show ?thesis by fastforce
qed


text \<open>Submitting and then waiting: the request just accepted is the last one in the queue.\<close>

lemma issued:
  assumes s: "sim N 2 s h" and c: "drv_call execute_graph c h = (RequestId (Inr rid), h1)"
    and mk: "sv_call N c s = (case sv_issue N mk s of (r, s1) \<Rightarrow> (RequestId r, s1))"
  obtains s1 where "sim N 1 s1 h1" "mk rid \<in> set (sv_queue s1)" "sv_running s1" "sv_waiting s1 = sv_waiting s"
proof -
  obtain s1 where s1: "sv_call N c s = (RequestId (Inr rid), s1)" "sim N 1 s1 h1"
    using sim_call [OF s [folded Suc_1], of c] c by (metis One_nat_def fst_conv prod.collapse snd_conv)
  then show ?thesis using mk that by (auto simp: sv_issue_def Let_def split: if_splits)
qed

lemma waited:
  assumes s: "sim N 1 s h" and polls: "0 < polls" and box: "sv_box (snd (sv_poll N True s)) rid = Some c"
  obtains h' where "drv_call execute_graph (Wait rid polls) h = (Waited (Inr c), h')"
    "kv_pages (snd (snd h')) = sv_pages (snd (sv_poll N True s))"
proof -
  obtain k where k: "nat polls = Suc k" using polls by (metis gr0_implies_Suc zero_less_nat_eq)
  have call: "sv_call N (Wait rid polls) s = (Waited (Inr c), snd (sv_take rid (snd (sv_poll N True s))))"
    using box by (simp add: k sv_take_def)
  obtain h' where "drv_call execute_graph (Wait rid polls) h = (fst (sv_call N (Wait rid polls) s), h')"
    "sim N 0 (snd (sv_call N (Wait rid polls) s)) h'"
    by (rule sim_call [OF s [unfolded One_nat_def]])
  then show ?thesis using that unfolding call by (cases h') (simp add: sim_def sv_take_def)
qed

text \<open>
  C3: every accepted graph gets its verdict. At any point of any session (any queue size, polls
  with or without fault service), if \<open>submit_graph\<close> returns an id, then \<open>wait\<close> on that id, with any
  positive number of polls, returns the completion the graph deserves (its XOR result, the reason
  it is invalid, or the deadlock mask): it does not time out, and no other request's completion is
  mistaken for it.
\<close>

theorem submitted_graph_is_answered:
  assumes "session sha mac N calls h"
    and "drv_call execute_graph (SubmitGraph nodes prio) h = (RequestId (Inr rid), h1)" and "0 < polls"
  shows "\<exists>h2. drv_call execute_graph (Wait rid polls) h1
     = (Waited (Inr (graph_verdict (graph_cmd rid nodes prio))), h2)"
proof -
  define s where "s = snd (sv_run N calls sv_init)"
  have s: "sim N 2 s h" unfolding s_def by (rule session_sim [OF assms(1)])
  have "list_all encodable nodes"
    using assms(2) by (cases h) (auto simp: drv_call.simps submit_graph_def map_res_encode split: if_splits)
  then have "sv_call N (SubmitGraph nodes prio) s
      = (case sv_issue N (\<lambda>rid. graph_cmd rid nodes prio) s of (r, s1) \<Rightarrow> (RequestId r, s1))" by simp
  then obtain s1 where s1: "sim N 1 s1 h1" "graph_cmd rid nodes prio \<in> set (sv_queue s1)"
    by (rule issued [OF s assms(2)])
  have "sv_box (snd (sv_poll N True s1)) rid = Some (graph_verdict (graph_cmd rid nodes prio))"
    using sv_poll_graph [OF sim_bounds(3,1) [OF s1(1)] s1(2)] by (simp add: command_opcode_value_def)
  from waited [OF s1(1) assms(3) this] show ?thesis by blast
qed

lemma toy_session:
  assumes "N = 4 \<or> N = 16" and "length calls \<le> 16"
  obtains drv fw d where "session toy_sha toy_mac N calls (drv, fw, d)"
proof -
  have ver: "rom_verify toy_sha toy_mac (fst (fresh toy_key N 1)) (toy_image 3) (RcifDevice_init 1) = Inr True"
    unfolding rom_verify_True using toy_image [of 3] by simp
  obtain b where b: "boot toy_sha toy_mac (fst (fresh toy_key N 1)) (toy_image 3) True (RcifDevice_init 1) = (Inr True, b)"
  proof (rule boot_cases [of toy_sha toy_mac "fst (fresh toy_key N 1)" "toy_image 3" True "RcifDevice_init 1"], goal_cases)
    case (1 d')
    then show ?case using that by blast
  qed (use ver assms(1) in \<open>auto simp: legal_size_iff\<close>)
  obtain drv fw d where "snd (drv_run execute_graph calls (RcifDriver_init, fst (fresh toy_key N 1), b)) = (drv, fw, d)"
    by (metis prod_cases3)
  with b assms(2) have "session toy_sha toy_mac N calls (drv, fw, d)"
    unfolding session_def by (intro conjI) (simp, blast)
  then show ?thesis by (rule that)
qed

lemma demo_session:
  obtains h where "session toy_sha toy_mac 16 [] h" "sim 16 1 sv_init h"
    "fst (drv_call execute_graph (SubmitGraph sample_graph 0) h) = RequestId (Inr 1)"
    "fst (drv_call execute_graph (TranslateKv 7) h) = RequestId (Inr 1)"
proof -
  obtain d where d: "boot toy_sha toy_mac (fst (fresh toy_key 16 1)) (toy_image 3) True (RcifDevice_init 1) = (Inr True, d)"
    "booted (fst (fresh toy_key 16 1)) (toy_image 3) True (RcifDevice_init 1) d"
    by (rule toy_boot [of "RcifDevice_init 1" 3 "fst (fresh toy_key 16 1)" True]) simp_all
  define h where "h = (RcifDriver_init, fst (fresh toy_key 16 1), d)"
  have sim: "sim 16 (Suc 0) sv_init h"
    using sim_booted [OF d(2), of "Suc 0"] by (simp add: h_def)
  moreover have "fst (sv_call 16 (SubmitGraph sample_graph 0) sv_init) = RequestId (Inr 1)"
    "fst (sv_call 16 (TranslateKv 7) sv_init) = RequestId (Inr 1)" by code_simp+
  ultimately have "fst (drv_call execute_graph (SubmitGraph sample_graph 0) h) = RequestId (Inr 1)"
    "fst (drv_call execute_graph (TranslateKv 7) h) = RequestId (Inr 1)"
    using sim_call [of 16 0 sv_init h] by (metis fst_conv)+
  moreover have "session toy_sha toy_mac 16 [] h"
    using d(1) by (auto simp: session_def h_def intro!: exI)
  ultimately show ?thesis using that sim by simp
qed

theorem submitted_graph_is_answered_witness:
  "\<exists>h h1 h2. session toy_sha toy_mac 16 [] h \<and>
     drv_call execute_graph (SubmitGraph sample_graph 0) h = (RequestId (Inr 1), h1) \<and>
     drv_call execute_graph (Wait 1 16) h1 = (Waited (Inr (Completion 1 OK 0xB2CB)), h2)"
proof -
  obtain h where h: "session toy_sha toy_mac 16 [] h"
    "fst (drv_call execute_graph (SubmitGraph sample_graph 0) h) = RequestId (Inr 1)" by (rule demo_session)
  then obtain h1 where h1: "drv_call execute_graph (SubmitGraph sample_graph 0) h = (RequestId (Inr 1), h1)"
    by (metis prod.collapse)
  have "graph_verdict (graph_cmd 1 sample_graph 0) = Completion 1 OK 0xB2CB"
    using sample_graph_run by (simp add: graph_verdict_def Let_def) (simp add: sample_graph_def)
  with submitted_graph_is_answered [OF h(1) h1, of 16] h(1) h1 show ?thesis by (metis zero_less_numeral)
qed

text \<open>
  C4: accepted translations are served. With queues of at most 16 entries (the fault-service
  budget), waiting for a translation the driver accepted returns \<open>OK\<close> with the physical page the
  device maps the virtual page to, mapped by the fault service if it was not mapped before: at any
  point of a session in which every poll served faults, and at any point of any other session at
  which the queued commands and the waiting faults together fit one ring.
\<close>

theorem translation_is_served:
  assumes "session sha mac N calls h" and "N \<le> 16"
    and "drv_call execute_graph (TranslateKv page) h = (RequestId (Inr rid), h1)"
    and "list_all prompt_call calls \<or> host_load h1 \<le> N" and "0 < polls"
  shows "\<exists>h2 phys. drv_call execute_graph (Wait rid polls) h1 = (Waited (Inr (Completion rid OK phys)), h2) \<and>
     kv_pages (snd (snd h2)) page = Some phys"
proof -
  define s where "s = snd (sv_run N calls sv_init)"
  have s: "sim N 2 s h" unfolding s_def by (rule session_sim [OF assms(1)])
  have "page \<in> {0..<2 ^ 64}"
    using assms(3) by (cases h) (auto simp: drv_call.simps translate_kv_def split: if_splits)
  then have "sv_call N (TranslateKv page) s
      = (case sv_issue N (\<lambda>rid. kv_cmd rid page) s of (r, s1) \<Rightarrow> (RequestId r, s1))" by simp
  then obtain s1 where s1: "sim N 1 s1 h1" "kv_cmd rid page \<in> set (sv_queue s1)" "sv_waiting s1 = sv_waiting s"
    by (rule issued [OF s assms(3)])
  have "sv_waiting s = []" if "list_all prompt_call calls"
    using session_prompt [OF assms(1,2) that] by (simp add: prompt_def s_def)
  then have "sv_load s1 \<le> N"
    using assms(4) sim_bounds(1) [OF s1(1)] s1(3) sim_load [OF s1(1)] by (auto simp: sv_load_def)
  from sv_poll_kv [OF sim_bounds(3) [OF s1(1)] this assms(2) s1(2)]
  obtain phys where "sv_box (snd (sv_poll N True s1)) rid = Some (Completion rid OK phys)"
    "sv_pages (snd (sv_poll N True s1)) page = Some phys" by (auto simp: command_opcode_value_def)
  with waited [OF s1(1) assms(5) this(1)] show ?thesis by metis
qed

theorem translation_is_served_witness:
  "\<exists>h h1 h2 phys. session toy_sha toy_mac 16 [] h \<and>
     drv_call execute_graph (TranslateKv 7) h = (RequestId (Inr 1), h1) \<and>
     drv_call execute_graph (Wait 1 1) h1 = (Waited (Inr (Completion 1 OK phys)), h2) \<and>
     kv_pages (snd (snd h2)) 7 = Some phys"
proof -
  obtain h where h: "session toy_sha toy_mac 16 [] h"
    "fst (drv_call execute_graph (TranslateKv 7) h) = RequestId (Inr 1)" by (rule demo_session)
  then obtain h1 where h1: "drv_call execute_graph (TranslateKv 7) h = (RequestId (Inr 1), h1)"
    by (metis prod.collapse)
  from translation_is_served [OF h(1) _ h1, of 1] h(1) h1 show ?thesis
    by (metis list.pred_inject(1) order_refl zero_less_one)
qed

text \<open>
  C11: a client that never leaves faults for later cannot stop the device. In every session on
  queues of at most 16 entries in which every poll serves faults, whatever else is called, the
  device keeps running and no fault is left waiting.
\<close>

theorem prompt_client_never_stops:
  assumes "session sha mac N calls (drv, fw, d)" and "N \<le> 16" and "list_all prompt_call calls"
  shows "enabled d \<and> status d = RUNNING \<and> (\<exists>r. fault_ring d = Some r \<and> ring_items r = [])"
  using session_sim [OF assms(1)] session_prompt [OF assms] by (auto simp: sim_def holds_def prompt_def)

theorem prompt_client_never_stops_witness:
  "\<exists>drv fw d. session toy_sha toy_mac 4 (map TranslateKv [0, 1, 2, 3] @ [Wait 4 1, SubmitGraph sample_graph 0, Poll True]) (drv, fw, d) \<and>
     status d = RUNNING"
proof -
  obtain drv fw d where
    h: "session toy_sha toy_mac 4 (map TranslateKv [0, 1, 2, 3] @ [Wait 4 1, SubmitGraph sample_graph 0, Poll True]) (drv, fw, d)"
    by (rule toy_session [of 4 "map TranslateKv [0, 1, 2, 3] @ [Wait 4 1, SubmitGraph sample_graph 0, Poll True]"]) simp_all
  from prompt_client_never_stops [OF h] h show ?thesis by auto
qed

section \<open>Where the promise ends\<close>

text \<open>
  C12: the capacity of fault service. On queues of \<open>N \<le> 16\<close> entries, at any point of any session, a
  poll answers the queued commands and all waiting faults; but the completion ring takes \<open>N\<close>
  answers. So the device goes on exactly if commands and faults together are at most \<open>N\<close>: otherwise
  the excess answers are lost, counted in \<open>QUEUE_ERRORS\<close>, and the device stops with \<open>FATAL\<close>.
  A poll that skips fault service lets a client come above \<open>N\<close> with accepted calls only.
\<close>

theorem fault_service_capacity:
  assumes "session sha mac N calls (drv, fw, d)" and "N \<le> 16"
  shows "\<exists>drv' fw' d'. poll execute_graph True (drv, fw, d) = (Inr (min N (host_load (drv, fw, d))), drv', fw', d') \<and>
     host_load (drv', fw', d') = 0 \<and> enabled d' = (enabled d \<and> host_load (drv, fw, d) \<le> N) \<and>
     status d' = (if enabled d' then RUNNING else FATAL) \<and>
     counters d' QUEUE_ERRORS = min MASK64 (counters d QUEUE_ERRORS + max 0 (host_load (drv, fw, d) - N))"
proof -
  define s where "s = snd (sv_run N calls sv_init)"
  have s: "sim N 2 s (drv, fw, d)" unfolding s_def by (rule session_sim [OF assms(1)])
  then have load: "host_load (drv, fw, d) = sv_load s" by (rule sim_load)
  obtain drv' fw' d' where p: "poll execute_graph True (drv, fw, d) = (Inr (fst (sv_poll N True s)), drv', fw', d')"
    "sim N 2 (snd (sv_poll N True s)) (drv', fw', d')"
    by (rule sim_poll [OF s, of True]) (metis prod_cases3)
  note out = poll_out_length [OF assms(2) sim_bounds(2) [OF s]]
  have N: "0 \<le> N" using sim_bounds(1) [OF s] by simp
  have len: "int (length (take (nat N) (poll_out N True s))) = min N (sv_load s)"
    unfolding out(1) [symmetric] using N by (simp add: min_def le_nat_iff)
  have "host_load (drv', fw', d') = 0"
    using sim_load [OF p(2)] out(2) by (simp add: sv_load_def sv_poll_sel)
  moreover have "counters d' QUEUE_ERRORS = min MASK64 (counters d QUEUE_ERRORS + max 0 (sv_load s - N))"
    using s p(2) out(1) len by (auto simp: sim_def holds_def reads_def sv_poll_sel MASK64_def)
  ultimately show ?thesis
    using s p out(1) len
    by (intro exI [of _ drv'] exI [of _ fw'] exI [of _ d']) (simp add: load sv_poll_sel sim_def holds_def)
qed

text \<open>Queues of four, and a client that defers fault service for one poll.\<close>

definition deferred_calls :: "driver_call list" where
  "deferred_calls = map TranslateKv [0, 1, 2, 3] @ Poll False # replicate 4 (SubmitGraph sample_graph 0)"

lemma deferred_replies:
  "fst (sv_run 4 (deferred_calls @ [Poll True, Probe, ReadCounter 5, TakeCompletion 1]) sv_init) =
     map (\<lambda>i. RequestId (Inr i)) [1, 2, 3, 4] @ Drained (Inr 0) # map (\<lambda>i. RequestId (Inr i)) [5, 6, 7, 8] @
     [Drained (Inr 4), Probed (Inl RuntimeError), Counted (Inr 4), Mail None]"
  by code_simp

theorem fault_service_capacity_witness:
  "\<exists>drv fw d drv' fw' d'. session toy_sha toy_mac 4 deferred_calls (drv, fw, d) \<and> status d = RUNNING \<and>
     poll execute_graph True (drv, fw, d) = (Inr 4, drv', fw', d') \<and> status d' = FATAL"
proof -
  obtain drv fw d where h: "session toy_sha toy_mac 4 deferred_calls (drv, fw, d)"
    by (rule toy_session [of 4 deferred_calls]) (simp_all add: deferred_calls_def)
  have "sv_load (snd (sv_run 4 deferred_calls sv_init)) = 8" "sv_running (snd (sv_run 4 deferred_calls sv_init))"
    by code_simp+
  then have "host_load (drv, fw, d) = 8" "enabled d" "status d = RUNNING"
    using session_sim [OF h] sim_load [OF session_sim [OF h]] by (auto simp: sim_def holds_def)
  with fault_service_capacity [OF h] h show ?thesis by fastforce
qed

end
