(* ===== verification/TensorRef.thy ===== *)
theory TensorRef
  imports Prelude
begin

text \<open>
  \<open>dv/golden/tensor_ref.py\<close>: the integer reference of the tensor array (packed INT8/INT4
  weights, Q8.8 scaling with rounding, INT16 saturation, integer RMS normalisation) and the
  matrix product.

  All of it but \<open>matmul\<close> and \<open>rms_norm\<close> is exact integer arithmetic in Python. \<open>matmul\<close> is
  stated for any number type, with the additions in the code's order; \<open>rms_norm\<close> is in the theory
  \<open>FloatNorm\<close>.
\<close>

section \<open>Lanes of a packed word\<close>

text \<open>Fields of \<open>b\<close> bits side by side, as the RTL packs weights and results.\<close>

fun pack_lanes :: "nat \<Rightarrow> int list \<Rightarrow> int" where
  "pack_lanes b [] = 0"
| "pack_lanes b (v # vs) = take_bit b v OR push_bit b (pack_lanes b vs)"

lemma bit_pack_lanes:
  assumes "0 < b"
  shows "bit (pack_lanes b vs) k \<longleftrightarrow> k div b < length vs \<and> bit (vs ! (k div b)) (k mod b)"
proof (induction vs arbitrary: k)
  case (Cons v vs)
  show ?case
  proof (cases "k < b")
    case True
    then show ?thesis by (simp add: bit_simps)
  next
    case False
    with assms have "k div b = Suc ((k - b) div b)" "k mod b = (k - b) mod b"
      by (simp_all add: le_div_geq le_mod_geq)
    with False Cons show ?thesis by (simp add: bit_simps)
  qed
qed simp

lemma lane_of_pack_lanes:
  assumes "0 < b" "i < length vs"
  shows "take_bit b (drop_bit (i * b) (pack_lanes b vs)) = take_bit b (vs ! i)"
proof (rule bit_eqI)
  fix k
  show "bit (take_bit b (drop_bit (i * b) (pack_lanes b vs))) k \<longleftrightarrow> bit (take_bit b (vs ! i)) k"
  proof (cases "k < b")
    case True
    then have "(i * b + k) div b = i" "(i * b + k) mod b = k" using assms(1) by simp_all
    then show ?thesis using assms True by (simp add: bit_simps bit_pack_lanes add.commute)
  qed (simp add: bit_simps)
qed

section \<open>Weights\<close>

definition signed_lane :: "nat \<Rightarrow> int \<Rightarrow> nat \<Rightarrow> int" where
  "signed_lane bits packed lane =
     (let raw = drop_bit (lane * bits) packed AND (push_bit bits 1 - 1) in
      if raw AND push_bit (bits - 1) 1 \<noteq> 0 then raw - push_bit bits 1 else raw)"

definition decode_packed_weights :: "int \<Rightarrow> string \<Rightarrow> int \<Rightarrow> nat \<Rightarrow> int list res" where
  "decode_packed_weights packed fmt zero_point lanes =
     (if fmt \<noteq> ''int8'' \<and> fmt \<noteq> ''int4'' then Inl ValueError
      else if \<not> (-128 \<le> zero_point \<and> zero_point \<le> 127) then Inl ValueError
      else let bits = (if fmt = ''int8'' then 8 else 4) in
        Inr (map (\<lambda>lane. signed_lane bits packed lane - zero_point) [0..<lanes]))"

text \<open>Two's complement reading of a lane.\<close>

lemma signed_lane_eq:
  assumes "0 < bits"
  shows "signed_lane bits packed lane = signed_take_bit (bits - 1) (drop_bit (lane * bits) packed)"
proof -
  define x where "x = drop_bit (lane * bits) packed"
  have raw: "x AND (push_bit bits 1 - 1) = take_bit bits x"
    by (simp add: take_bit_eq_mask mask_eq_exp_minus_1)
  have "bit (take_bit bits x) (bits - 1) \<longleftrightarrow> bit x (bits - 1)" using assms by (simp add: bit_simps)
  then have "take_bit bits x AND push_bit (bits - 1) 1 \<noteq> 0 \<longleftrightarrow> bit x (bits - 1)"
    by (simp add: bit_iff_and_push_bit_not_eq_0)
  moreover have "Suc (bits - 1) = bits" using assms by simp
  ultimately show ?thesis
    unfolding signed_lane_def x_def [symmetric] raw Let_def signed_take_bit_eq_take_bit_minus
    by simp
qed

lemma signed_lane_range:
  assumes "0 < bits"
  shows "- (2 ^ (bits - 1)) \<le> signed_lane bits packed lane" "signed_lane bits packed lane < 2 ^ (bits - 1)"
  using assms by (simp_all add: signed_lane_eq)

lemma signed_lane_pack_lanes:
  assumes "0 < b" "i < length vs" "- (2 ^ (b - 1)) \<le> vs ! i" "vs ! i < 2 ^ (b - 1)"
  shows "signed_lane b (pack_lanes b vs) i = vs ! i"
proof -
  have "take_bit (Suc (b - 1)) (drop_bit (i * b) (pack_lanes b vs)) = take_bit (Suc (b - 1)) (vs ! i)"
    using lane_of_pack_lanes assms(1,2) by simp
  then have "signed_take_bit (b - 1) (drop_bit (i * b) (pack_lanes b vs)) = signed_take_bit (b - 1) (vs ! i)"
    by (simp only: signed_take_bit_eq_iff_take_bit_eq)
  then show ?thesis using assms by (simp add: signed_lane_eq signed_take_bit_int_eq_self)
qed

section \<open>Scaling and saturation\<close>

definition round_q8_8 :: "int \<Rightarrow> int" where
  "round_q8_8 product = (product + (if product \<ge> 0 then 128 else 127)) div 256"

definition clamp :: "int \<Rightarrow> int \<Rightarrow> int \<Rightarrow> int" where
  "clamp lo hi v = max lo (min hi v)"

definition saturate_int16 :: "int \<Rightarrow> int \<times> bool" where
  "saturate_int16 value = (let clipped = clamp (-32768) 32767 value in (clipped, clipped \<noteq> value))"

section \<open>The tensor-array reference\<close>

text \<open>Python's \<open>sum(left * right for left, right in zip(...))\<close>.\<close>

definition dot :: "int list \<Rightarrow> int list \<Rightarrow> int" where
  "dot xs ys = sum_list (map (\<lambda>(x, y). x * y) (zip xs ys))"

definition activate :: "string \<Rightarrow> int \<Rightarrow> int" where
  "activate mode value =
     (if mode = ''relu'' then max 0 value
      else if mode = ''clamp_int8'' then clamp (-128) 127 value else value)"

text \<open>One iteration of the row loop.\<close>

definition gemv_row ::
  "string \<Rightarrow> int list \<Rightarrow> int \<times> string \<times> int \<times> int \<times> int \<Rightarrow> (int \<times> bool) res"
where
  "gemv_row mode activation row =
     (case row of (packed, fmt, zero_point, scale, bias) \<Rightarrow>
        (case decode_packed_weights packed fmt zero_point (length activation) of Inl e \<Rightarrow> Inl e
         | Inr weights \<Rightarrow>
           (case saturate_int16 (round_q8_8 (dot activation weights * scale) + bias) of
              (value, did_saturate) \<Rightarrow> Inr (activate mode value, did_saturate))))"

definition quantized_gemv ::
  "int list \<Rightarrow> int list \<Rightarrow> string list \<Rightarrow> int list \<Rightarrow> int list \<Rightarrow> int list \<Rightarrow> string \<Rightarrow>
   (int list \<times> bool list) res"
where
  "quantized_gemv activation packed_rows formats zero_points scales biases mode =
     (let rows = length packed_rows in
      if \<not> (length formats = rows \<and> length zero_points = rows \<and> length scales = rows \<and> length biases = rows)
      then Inl ValueError
      else if list_ex (\<lambda>item. \<not> (-128 \<le> item \<and> item \<le> 127)) activation then Inl ValueError
      else if mode \<notin> set [''bypass'', ''relu'', ''clamp_int8''] then Inl ValueError
      else (case map_res (gemv_row mode activation)
                   (zip packed_rows (zip formats (zip zero_points (zip scales biases)))) of
              Inl e \<Rightarrow> Inl e
            | Inr outs \<Rightarrow> Inr (map fst outs, map snd outs)))"

section \<open>Integer RMS normalisation\<close>

text \<open>\<open>math.isqrt\<close>: the floor of the square root.\<close>

fun nat_sqrt :: "nat \<Rightarrow> nat" where
  "nat_sqrt n =
     (if n = 0 then 0
      else let r = 2 * nat_sqrt (n div 4) in if (r + 1) * (r + 1) \<le> n then r + 1 else r)"

declare nat_sqrt.simps [simp del]

definition isqrt :: "int \<Rightarrow> int res" where
  "isqrt n = (if n < 0 then Inl ValueError else Inr (int (nat_sqrt (nat n))))"

definition rms_item :: "int \<Rightarrow> int \<times> int \<Rightarrow> int \<times> bool" where
  "rms_item rms vg =
     (let numerator = fst vg * snd vg; magnitude = abs numerator div rms;
          normalized = (if numerator < 0 then - magnitude else magnitude) in
      saturate_int16 normalized)"

definition integer_rms_norm :: "int list \<Rightarrow> int list \<Rightarrow> int \<Rightarrow> (int list \<times> bool list) res" where
  "integer_rms_norm values gains epsilon =
     (if values = [] \<or> length values \<noteq> length gains then Inl ValueError
      else case isqrt (sum_list (map (\<lambda>item. item * item) values) div int (length values) + epsilon) of
        Inl e \<Rightarrow> Inl e
      | Inr rms \<Rightarrow>
        if rms = 0 then Inr (map (\<lambda>_. 0) values, map (\<lambda>_. False) values)
        else let outs = map (rms_item rms) (zip values gains) in Inr (map fst outs, map snd outs))"

section \<open>Matrix product\<close>

text \<open>
  On any type with \<open>+\<close>, \<open>*\<close> and \<open>0\<close>: Python's \<open>sum\<close> starts at \<open>0\<close> and adds from the left. The
  code calls it on floats, whose addition is not associative, so the order is part of the model.
\<close>

definition py_sum :: "'a::{zero,plus} list \<Rightarrow> 'a" where
  "py_sum xs = foldl (+) 0 xs"

definition matmul :: "'a::{zero,plus,times} list list \<Rightarrow> 'a list list \<Rightarrow> 'a list list res" where
  "matmul a b =
     (case (a, b) of
        ([], _) \<Rightarrow> Inr [] | (_, []) \<Rightarrow> Inr []
      | (a0 # _, b0 # _) \<Rightarrow>
        (let inner = length a0 in
         if list_ex (\<lambda>row. length row \<noteq> inner) a then Inl ValueError
         else if list_ex (\<lambda>row. length row \<noteq> length b0) b then Inl ValueError
         else if length b \<noteq> inner then Inl ValueError
         else Inr (map (\<lambda>row. map (\<lambda>col. py_sum (map (\<lambda>k. row ! k * (b ! k) ! col) [0..<inner]))
                                 [0..<length b0]) a)))"

section \<open>Facts\<close>

lemma clamp_range: "lo \<le> hi \<Longrightarrow> lo \<le> clamp lo hi v \<and> clamp lo hi v \<le> hi"
  by (auto simp: clamp_def)

lemma clamp_id: "lo \<le> v \<Longrightarrow> v \<le> hi \<Longrightarrow> clamp lo hi v = v"
  by (simp add: clamp_def)

lemma saturate_int16_eq: "saturate_int16 v = (clamp (-32768) 32767 v, v < -32768 \<or> v > 32767)"
  by (auto simp: saturate_int16_def clamp_def Let_def)

text \<open>The quotient is the integer nearest to \<open>p / 256\<close>, both for \<open>p\<close> and for \<open>- p\<close>.\<close>

lemma round_q8_8_cases:
  assumes "0 \<le> p"
  obtains q m where "p + 128 = 256 * q + m" "0 \<le> q" "0 \<le> m" "m < 256"
    "round_q8_8 p = q" "round_q8_8 (- p) = - q"
proof -
  define q where "q = (p + 128) div 256"
  define m where "m = (p + 128) mod 256"
  have p: "p + 128 = 256 * q + m" "0 \<le> m" "m < 256" by (simp_all add: q_def m_def)
  have "0 \<le> q" using assms by (simp add: q_def pos_imp_zdiv_nonneg_iff)
  moreover have "round_q8_8 p = q" using assms by (simp add: round_q8_8_def q_def)
  moreover have "round_q8_8 (- p) = - q"
  proof (cases "p = 0")
    case True
    then show ?thesis by (simp add: round_q8_8_def q_def)
  next
    case False
    have "(- p + 127) div 256 = - q"
      by (rule int_div_pos_eq [of _ _ _ "255 - m"]) (use p in simp_all)
    with False assms show ?thesis by (simp add: round_q8_8_def)
  qed
  ultimately show ?thesis using that p by blast
qed

lemma decode_packed_weights_ok:
  assumes "fmt = ''int8'' \<or> fmt = ''int4''" "-128 \<le> zp" "zp \<le> 127"
  shows "decode_packed_weights packed fmt zp n
    = Inr (map (\<lambda>lane. signed_lane (if fmt = ''int8'' then 8 else 4) packed lane - zp) [0..<n])"
  using assms by (auto simp: decode_packed_weights_def)

lemma isqrt_spec:
  "nat_sqrt n * nat_sqrt n \<le> n \<and> n < (nat_sqrt n + 1) * (nat_sqrt n + 1)"
proof (induction n rule: nat_sqrt.induct)
  case (1 n)
  show ?case
  proof (cases "n = 0")
    case True
    then show ?thesis by (simp add: nat_sqrt.simps)
  next
    case False
    define q where "q = nat_sqrt (n div 4)"
    have IH: "q * q \<le> n div 4" "n div 4 < (q + 1) * (q + 1)" using 1 [OF False] by (simp_all add: q_def)
    have "(2 * q) * (2 * q) \<le> n"
    proof -
      have "4 * (q * q) \<le> 4 * (n div 4)" using IH(1) by simp
      also have "\<dots> \<le> n" by simp
      finally show ?thesis by (simp add: algebra_simps)
    qed
    moreover have "n < (2 * q + 2) * (2 * q + 2)"
    proof -
      have "n < 4 * (n div 4 + 1)" by simp
      also have "\<dots> \<le> 4 * ((q + 1) * (q + 1))" using IH(2) by simp
      finally show ?thesis by (simp add: algebra_simps)
    qed
    ultimately show ?thesis
      using False by (subst (1 2 3 4) nat_sqrt.simps) (simp add: q_def [symmetric] Let_def algebra_simps)
  qed
qed

lemma map_res_zip5:
  "zip (map f1 rows) (zip (map f2 rows) (zip (map f3 rows) (zip (map f4 rows) (map f5 rows))))
     = map (\<lambda>r. (f1 r, f2 r, f3 r, f4 r, f5 r)) rows"
  by (induction rows) auto

lemma dot_nth: "length ws = length xs \<Longrightarrow> dot xs ws = (\<Sum>i<length xs. xs ! i * ws ! i)"
  by (simp add: dot_def sum_list_sum_nth atLeast0LessThan)

lemma dot_le:
  assumes "\<And>x. x \<in> set xs \<Longrightarrow> \<bar>x\<bar> \<le> a" "\<And>y. y \<in> set ys \<Longrightarrow> \<bar>y\<bar> \<le> b" and "0 \<le> a" "0 \<le> b"
  shows "\<bar>dot xs ys\<bar> \<le> int (length xs) * (a * b)"
  using assms(1,2)
proof (induction xs arbitrary: ys)
  case (Cons x xs)
  show ?case
  proof (cases ys)
    case Nil
    then show ?thesis using assms(3,4) by (simp add: dot_def)
  next
    case (Cons y ys')
    have "\<bar>x * y\<bar> \<le> a * b"
      using Cons.prems Cons assms(3) by (auto simp: abs_mult intro!: mult_mono)
    moreover have "\<bar>dot xs ys'\<bar> \<le> int (length xs) * (a * b)"
      using Cons.prems Cons by (intro Cons.IH) auto
    moreover have "dot (x # xs) ys = x * y + dot xs ys'" by (simp add: dot_def Cons)
    ultimately show ?thesis by (simp add: distrib_right)
  qed
qed (simp add: dot_def)

lemma gemv_row_ok:
  assumes "fmt = ''int8'' \<or> fmt = ''int4''" "-128 \<le> zp" "zp \<le> 127"
  shows "gemv_row mode act (packed, fmt, zp, scale, bias) =
    (let v = round_q8_8 (dot act (map (\<lambda>lane. signed_lane (if fmt = ''int8'' then 8 else 4) packed lane - zp)
               [0..<length act]) * scale) + bias in
     Inr (activate mode (clamp (-32768) 32767 v), v < -32768 \<or> v > 32767))"
  by (simp add: gemv_row_def decode_packed_weights_ok [OF assms] saturate_int16_eq Let_def)

lemma activate_range:
  assumes "-32768 \<le> v" "v \<le> 32767"
  shows "-32768 \<le> activate mode v \<and> activate mode v \<le> 32767"
    "mode = ''relu'' \<Longrightarrow> 0 \<le> activate mode v" 
    "mode = ''clamp_int8'' \<Longrightarrow> -128 \<le> activate mode v \<and> activate mode v \<le> 127"
  using assms by (auto simp: activate_def clamp_def)

section \<open>Properties\<close>

text \<open>
  rounding is to nearest with ties away from zero, symmetrically in the sign: \<open>256 * r\<close> is
  within 128 of the product, on the outer side when exactly half way.
\<close>

theorem round_q8_8_nearest:
  "\<bar>256 * round_q8_8 p - p\<bar> \<le> 128 \<and> \<bar>p\<bar> < \<bar>256 * round_q8_8 p\<bar> + 128 \<and>
   round_q8_8 (- p) = - round_q8_8 p"
proof (cases "0 \<le> p")
  case True
  then obtain q m where "p + 128 = 256 * q + m" "0 \<le> q" "0 \<le> m" "m < 256"
    "round_q8_8 p = q" "round_q8_8 (- p) = - q" by (rule round_q8_8_cases)
  with True show ?thesis by (simp add: abs_if)
next
  case False
  then have "0 \<le> - p" by simp
  then obtain q m where "- p + 128 = 256 * q + m" "0 \<le> q" "0 \<le> m" "m < 256"
    "round_q8_8 (- p) = q" "round_q8_8 (- (- p)) = - q" by (rule round_q8_8_cases)
  with False show ?thesis by (simp add: abs_if)
qed

definition lane_bits :: "string \<Rightarrow> nat" where
  "lane_bits fmt = (if fmt = ''int8'' then 8 else 4)"

definition row_value :: "int list \<Rightarrow> int list \<times> string \<times> int \<times> int \<times> int \<Rightarrow> int" where
  "row_value act row =
     (case row of (ws, fmt, zp, scale, bias) \<Rightarrow>
        round_q8_8 ((\<Sum>i<length act. act ! i * (ws ! i - zp)) * scale) + bias)"

definition legal_row :: "int list \<Rightarrow> int list \<times> string \<times> int \<times> int \<times> int \<Rightarrow> bool" where
  "legal_row act row \<longleftrightarrow>
     (case row of (ws, fmt, zp, scale, bias) \<Rightarrow>
        (fmt = ''int8'' \<or> fmt = ''int4'') \<and> -128 \<le> zp \<and> zp \<le> 127 \<and> length ws = length act \<and>
        list_all (\<lambda>w. - (2 ^ (lane_bits fmt - 1)) \<le> w \<and> w < 2 ^ (lane_bits fmt - 1)) ws)"

lemma gemv_row_legal:
  assumes "legal_row act (ws, fmt, zp, scale, bias)"
  shows "gemv_row mode act (pack_lanes (lane_bits fmt) ws, fmt, zp, scale, bias) =
    (let v = row_value act (ws, fmt, zp, scale, bias) in
     Inr (activate mode (clamp (-32768) 32767 v), v < -32768 \<or> v > 32767))"
proof -
  note legal = assms [unfolded legal_row_def prod.case]
  have pos: "0 < lane_bits fmt" by (simp add: lane_bits_def)
  have "signed_lane (lane_bits fmt) (pack_lanes (lane_bits fmt) ws) i = ws ! i" if "i < length act" for i
    using legal that by (intro signed_lane_pack_lanes pos) (auto simp: list_all_iff)
  then have "dot act (map (\<lambda>lane. signed_lane (lane_bits fmt) (pack_lanes (lane_bits fmt) ws) lane - zp)
      [0..<length act]) = (\<Sum>i<length act. act ! i * (ws ! i - zp))"
    by (subst dot_nth) auto
  then show ?thesis
    using legal by (subst gemv_row_ok) (auto simp: row_value_def lane_bits_def Let_def)
qed

text \<open>
  C28: the tensor reference computes what it is meant to. Pack any legal rows of signed INT8 or INT4
  weights into words, one lane per activation; then \<open>quantized_gemv\<close> returns for each row the
  exact dot product of the activations with the zero-point corrected weights, scaled, rounded,
  biased, saturated to INT16 and passed through the activation mode, and reports exactly the rows
  that saturated.
\<close>

theorem gemv_computes_rows:
  assumes "list_all (\<lambda>a. -128 \<le> a \<and> a \<le> 127) act" and "mode \<in> {''bypass'', ''relu'', ''clamp_int8''}"
    and "list_all (legal_row act) rows"
  shows "quantized_gemv act (map (\<lambda>(ws, fmt, _). pack_lanes (lane_bits fmt) ws) rows)
      (map (\<lambda>(_, fmt, _). fmt) rows) (map (\<lambda>(_, _, zp, _). zp) rows)
      (map (\<lambda>(_, _, _, scale, _). scale) rows) (map (\<lambda>(_, _, _, _, bias). bias) rows) mode
    = Inr (map (\<lambda>r. activate mode (clamp (-32768) 32767 (row_value act r))) rows,
           map (\<lambda>r. row_value act r < -32768 \<or> row_value act r > 32767) rows)"
proof -
  define row where "row r = (case r of (ws, fmt, zp, scale, bias) \<Rightarrow> (pack_lanes (lane_bits fmt) ws, fmt, zp, scale, bias))"
    for r :: "int list \<times> string \<times> int \<times> int \<times> int"
  define out where "out r = (activate mode (clamp (-32768) 32767 (row_value act r)),
      row_value act r < -32768 \<or> row_value act r > 32767)" for r
  have "gemv_row mode act (row r) = Inr (out r)" if "r \<in> set rows" for r
    using assms(3) that gemv_row_legal [of act _ _ _ _ _ mode]
    by (cases r) (fastforce simp: list_all_iff row_def out_def Let_def)
  then have "map_res (gemv_row mode act) (map row rows) = Inr (map out rows)"
    by (simp add: map_res_Inr list_all2_conv_all_nth)
  moreover have "zip (map (\<lambda>(ws, fmt, _). pack_lanes (lane_bits fmt) ws) rows) (zip (map (\<lambda>(_, fmt, _). fmt) rows)
      (zip (map (\<lambda>(_, _, zp, _). zp) rows) (zip (map (\<lambda>(_, _, _, scale, _). scale) rows)
        (map (\<lambda>(_, _, _, _, bias). bias) rows)))) = map row rows"
    by (induction rows) (auto simp: row_def)
  ultimately show ?thesis
    using assms(1,2) by (auto simp: quantized_gemv_def list_all_iff list_ex_iff out_def Let_def)
qed

definition demo_rows :: "(int list \<times> string \<times> int \<times> int \<times> int) list" where
  "demo_rows = [([1, -2, 127, -128], ''int8'', 3, 256, 10), ([7, -8, 0, 1], ''int4'', 0, -128, -5)]"

theorem gemv_computes_rows_witness:
  "quantized_gemv [10, -128, 127, 4]
      (map (\<lambda>(ws, fmt, _). pack_lanes (lane_bits fmt) ws) demo_rows)
      [''int8'', ''int4''] [3, 0] [256, -128] [10, -5] ''relu''
    = Inr (map (\<lambda>r. activate ''relu'' (clamp (-32768) 32767 (row_value [10, -128, 127, 4] r))) demo_rows,
           map (\<lambda>r. row_value [10, -128, 127, 4] r < -32768 \<or> row_value [10, -128, 127, 4] r > 32767) demo_rows)"
  using gemv_computes_rows [of "[10, -128, 127, 4]" "''relu''" demo_rows]
  by (simp add: demo_rows_def legal_row_def lane_bits_def)

lemma gemv_row_is_ok:
  "is_ok (gemv_row mode act (packed, fmt, zp, scale, bias)) \<longleftrightarrow>
     (fmt = ''int8'' \<or> fmt = ''int4'') \<and> -128 \<le> zp \<and> zp \<le> 127"
  by (auto simp: gemv_row_def decode_packed_weights_def saturate_int16_eq Let_def)

lemma gemv_row_error: "gemv_row mode act r = Inl e \<Longrightarrow> e = ValueError"
  by (auto simp: gemv_row_def decode_packed_weights_def saturate_int16_eq Let_def split: prod.splits if_splits)

lemma map_res_is_ok: "is_ok (map_res f xs) \<longleftrightarrow> list_all (\<lambda>x. is_ok (f x)) xs"
  by (induction xs) (auto split: sum.split)

lemma map_res_error: "(\<And>x e. f x = Inl e \<Longrightarrow> P e) \<Longrightarrow> map_res f xs = Inl e \<Longrightarrow> P e"
  by (induction xs) (auto split: sum.splits)

definition shapes_legal ::
  "int list \<Rightarrow> int list \<Rightarrow> string list \<Rightarrow> int list \<Rightarrow> int list \<Rightarrow> int list \<Rightarrow> string \<Rightarrow> bool"
where
  "shapes_legal act packed formats zps scales biases mode \<longleftrightarrow>
     length formats = length packed \<and> length zps = length packed \<and> length scales = length packed \<and>
     length biases = length packed \<and> list_all (\<lambda>a. -128 \<le> a \<and> a \<le> 127) act \<and>
     (mode = ''bypass'' \<or> mode = ''relu'' \<or> mode = ''clamp_int8'')"

definition gemv_legal ::
  "int list \<Rightarrow> int list \<Rightarrow> string list \<Rightarrow> int list \<Rightarrow> int list \<Rightarrow> int list \<Rightarrow> string \<Rightarrow> bool"
where
  "gemv_legal act packed formats zps scales biases mode \<longleftrightarrow>
     shapes_legal act packed formats zps scales biases mode \<and>
     list_all (\<lambda>fmt. fmt = ''int8'' \<or> fmt = ''int4'') formats \<and> list_all (\<lambda>zp. -128 \<le> zp \<and> zp \<le> 127) zps"

lemma list_ex_not: "list_ex (\<lambda>x. \<not> P x) xs \<longleftrightarrow> \<not> list_all P xs"
  by (induction xs) auto

lemma quantized_gemv_illegal:
  "\<not> shapes_legal act packed formats zps scales biases mode \<Longrightarrow>
   quantized_gemv act packed formats zps scales biases mode = Inl ValueError"
  unfolding quantized_gemv_def Let_def list_ex_not shapes_legal_def by simp

lemma quantized_gemv_shapes:
  "shapes_legal act packed formats zps scales biases mode \<Longrightarrow>
   quantized_gemv act packed formats zps scales biases mode =
     (case map_res (gemv_row mode act) (zip packed (zip formats (zip zps (zip scales biases)))) of
        Inl e \<Rightarrow> Inl e | Inr outs \<Rightarrow> Inr (map fst outs, map snd outs))"
  unfolding quantized_gemv_def Let_def list_ex_not shapes_legal_def by (elim conjE disjE) simp_all

lemma rows_legal:
  assumes "length formats = length packed" "length zps = length packed" "length scales = length packed"
    "length biases = length packed"
  shows "is_ok (map_res (gemv_row mode act) (zip packed (zip formats (zip zps (zip scales biases))))) \<longleftrightarrow>
    list_all (\<lambda>fmt. fmt = ''int8'' \<or> fmt = ''int4'') formats \<and> list_all (\<lambda>zp. -128 \<le> zp \<and> zp \<le> 127) zps"
proof -
  let ?rows = "zip packed (zip formats (zip zps (zip scales biases)))"
  have "is_ok (map_res (gemv_row mode act) ?rows) \<longleftrightarrow>
      (\<forall>i < length packed. (formats ! i = ''int8'' \<or> formats ! i = ''int4'') \<and> -128 \<le> zps ! i \<and> zps ! i \<le> 127)"
    using assms by (simp add: map_res_is_ok list_all_length gemv_row_is_ok)
  also have "\<dots> \<longleftrightarrow> list_all (\<lambda>fmt. fmt = ''int8'' \<or> fmt = ''int4'') formats \<and>
      list_all (\<lambda>zp. -128 \<le> zp \<and> zp \<le> 127) zps"
    using assms by (simp add: list_all_length) blast
  finally show ?thesis .
qed

lemma gemv_row_value:
  "gemv_row mode act r = Inr out \<Longrightarrow> \<exists>x. fst out = activate mode (clamp (-32768) 32767 x)"
  by (auto simp: gemv_row_def saturate_int16_eq split: prod.splits sum.splits)

lemma gemv_error: "quantized_gemv act packed formats zps scales biases mode = Inl e \<Longrightarrow> e = ValueError"
proof (cases "shapes_legal act packed formats zps scales biases mode")
  case True
  define rows where "rows = zip packed (zip formats (zip zps (zip scales biases)))"
  assume "quantized_gemv act packed formats zps scales biases mode = Inl e"
  then have "map_res (gemv_row mode act) rows = Inl e"
    unfolding rows_def using quantized_gemv_shapes [OF True] by (simp split: sum.splits)
  from map_res_error [where P = "\<lambda>e. e = ValueError", OF gemv_row_error this] show ?thesis .
qed (simp add: quantized_gemv_illegal)

text \<open>
  what \<open>quantized_gemv\<close> rejects. It returns normally exactly when the metadata lists have one
  entry per row, the activations fit signed INT8, the mode is known and every row's format and
  zero point are legal; otherwise the exception is \<open>ValueError\<close>. No packed word, scale or bias is ever
  rejected.
\<close>

theorem gemv_accepts:
  "case quantized_gemv act packed formats zps scales biases mode of
     Inr _ \<Rightarrow> gemv_legal act packed formats zps scales biases mode
   | Inl e \<Rightarrow> e = ValueError \<and> \<not> gemv_legal act packed formats zps scales biases mode"
proof -
  define rows where "rows = zip packed (zip formats (zip zps (zip scales biases)))"
  have err: "e = ValueError" if "quantized_gemv act packed formats zps scales biases mode = Inl e" for e
    using that by (rule gemv_error)
  show ?thesis
  proof (cases "shapes_legal act packed formats zps scales biases mode")
    case False
    then have "quantized_gemv act packed formats zps scales biases mode = Inl ValueError"
      by (intro quantized_gemv_illegal)
    with False show ?thesis by (simp add: gemv_legal_def)
  next
    case True
    then have run: "quantized_gemv act packed formats zps scales biases mode =
        (case map_res (gemv_row mode act) rows of Inl e \<Rightarrow> Inl e | Inr outs \<Rightarrow> Inr (map fst outs, map snd outs))"
      unfolding rows_def by (intro quantized_gemv_shapes)
    have "is_ok (map_res (gemv_row mode act) rows) \<longleftrightarrow> gemv_legal act packed formats zps scales biases mode"
      unfolding rows_def using True
      by (subst rows_legal) (simp_all add: gemv_legal_def shapes_legal_def)
    with run err show ?thesis by (cases "map_res (gemv_row mode act) rows") auto
  qed
qed

text \<open>
  ranges of the tensor datapath. For activations and metadata the reference accepts, the
  accumulator of a row of up to 65,536 lanes fits a signed 32-bit register, and every output is
  within INT16, non-negative after \<open>relu\<close> and within INT8 after \<open>clamp_int8\<close>.
\<close>

theorem gemv_ranges:
  assumes "quantized_gemv act packed formats zps scales biases mode = Inr (outs, sats)"
    and "length act \<le> 65536"
  shows "length outs = length packed \<and> length sats = length packed \<and>
     (\<forall>i < length packed. \<exists>ws. decode_packed_weights (packed ! i) (formats ! i) (zps ! i) (length act) = Inr ws \<and>
        \<bar>dot act ws\<bar> < 2 ^ 31) \<and>
     (\<forall>v \<in> set outs. -32768 \<le> v \<and> v \<le> 32767 \<and> (mode = ''relu'' \<longrightarrow> 0 \<le> v) \<and>
        (mode = ''clamp_int8'' \<longrightarrow> -128 \<le> v \<and> v \<le> 127))"
proof -
  define rows where "rows = zip packed (zip formats (zip zps (zip scales biases)))"
  obtain os where lens: "length formats = length packed" "length zps = length packed"
      "length scales = length packed" "length biases = length packed"
    and act: "\<forall>a \<in> set act. -128 \<le> a \<and> a \<le> 127"
    and os: "map_res (gemv_row mode act) rows = Inr os" "outs = map fst os" "sats = map snd os"
    using assms(1) by (auto simp: quantized_gemv_def rows_def [symmetric] Let_def list_ex_iff
        split: if_splits sum.splits)
  have len: "length os = length packed" using map_res_length [OF os(1)] lens by (simp add: rows_def)
  have row: "gemv_row mode act (packed ! i, formats ! i, zps ! i, scales ! i, biases ! i) = Inr (os ! i)"
    if "i < length packed" for i
    using os(1) that lens by (auto simp: map_res_Inr list_all2_conv_all_nth rows_def)
  have legal: "(formats ! i = ''int8'' \<or> formats ! i = ''int4'') \<and> -128 \<le> zps ! i \<and> zps ! i \<le> 127"
    if "i < length packed" for i
    using row [OF that] gemv_row_is_ok by (metis is_ok_simps(1))
  have "\<exists>ws. decode_packed_weights (packed ! i) (formats ! i) (zps ! i) (length act) = Inr ws \<and>
      \<bar>dot act ws\<bar> < 2 ^ 31" if i: "i < length packed" for i
  proof -
    define bits :: nat where "bits = (if formats ! i = ''int8'' then 8 else 4)"
    define ws where "ws = map (\<lambda>lane. signed_lane bits (packed ! i) lane - zps ! i) [0..<length act]"
    have dec: "decode_packed_weights (packed ! i) (formats ! i) (zps ! i) (length act) = Inr ws"
      using legal [OF i] by (subst decode_packed_weights_ok) (auto simp: ws_def bits_def)
    have w: "\<bar>y\<bar> \<le> 255" if y: "y \<in> set ws" for y
    proof -
      obtain lane where "y = signed_lane bits (packed ! i) lane - zps ! i" using y by (auto simp: ws_def)
      moreover have "-128 \<le> signed_lane bits (packed ! i) lane \<and> signed_lane bits (packed ! i) lane < 128"
        using signed_lane_range [of bits "packed ! i" lane] by (auto simp: bits_def split: if_splits)
      ultimately show ?thesis using legal [OF i] by auto
    qed
    have "\<bar>dot act ws\<bar> \<le> int (length act) * (128 * 255)"
      using act w by (intro dot_le) auto
    also have "\<dots> < 2 ^ 31" using assms(2) by simp
    finally show ?thesis using dec by blast
  qed
  moreover have "-32768 \<le> v \<and> v \<le> 32767 \<and> (mode = ''relu'' \<longrightarrow> 0 \<le> v) \<and>
      (mode = ''clamp_int8'' \<longrightarrow> -128 \<le> v \<and> v \<le> 127)" if v: "v \<in> set outs" for v
  proof -
    obtain i where i: "i < length packed" "v = fst (os ! i)"
      using v len by (auto simp: os in_set_conv_nth)
    obtain x where "v = activate mode (clamp (-32768) 32767 x)"
      using gemv_row_value [OF row [OF i(1)]] i(2) by auto
    then show ?thesis
      using activate_range [of "clamp (-32768) 32767 x" mode] clamp_range [of "-32768" 32767 x] by auto
  qed
  ultimately show ?thesis using len os by auto
qed

theorem gemv_ranges_witness:
  "\<exists>outs sats. quantized_gemv [10, -128, 127, 4] [0x807FFE01] [''int8''] [3] [256] [10] ''clamp_int8'' = Inr (outs, sats) \<and>
     length outs = 1 \<and> (\<forall>v \<in> set outs. -128 \<le> v \<and> v \<le> 127)"
proof -
  obtain outs sats where g: "quantized_gemv [10, -128, 127, 4] [0x807FFE01] [''int8''] [3] [256] [10] ''clamp_int8'' = Inr (outs, sats)"
    by (simp add: quantized_gemv_def gemv_row_ok Let_def)
  from gemv_ranges [OF g] g show ?thesis by auto
qed

lemma sum_list_squares_ge: "v \<in> set vs \<Longrightarrow> v * v \<le> sum_list (map (\<lambda>x. x * x) vs)" for v :: int
proof (induction vs)
  case (Cons w vs)
  have "0 \<le> sum_list (map (\<lambda>x. x * x) vs)" by (rule sum_list_nonneg) auto
  with Cons show ?case by (auto simp: add_increasing)
qed simp

lemma div_times_le: "0 < r \<Longrightarrow> a div r * r \<le> a" for a r :: int
  using pos_mod_sign [of r a] div_mult_mod_eq [of a r] by linarith

lemma rms_magnitude:
  fixes r v g n s :: int
  assumes r: "1 \<le> r" and s: "s < n * ((r + 1) * (r + 1))" "v * v \<le> s" and n: "1 \<le> n"
  shows "(\<bar>v * g\<bar> div r) ^ 2 \<le> 4 * n * g ^ 2"
proof -
  define q where "q = \<bar>v * g\<bar> div r"
  have q: "0 \<le> q" "q * r \<le> \<bar>v * g\<bar>"
    using r by (simp_all add: q_def pos_imp_zdiv_nonneg_iff div_times_le)
  have "(q * r) ^ 2 \<le> \<bar>v * g\<bar> ^ 2" using q r by (intro power_mono) auto
  also have "\<dots> = v * v * g ^ 2" by (simp add: power2_eq_square algebra_simps)
  also have "\<dots> \<le> (n * ((2 * r) * (2 * r))) * g ^ 2"
  proof (rule mult_right_mono)
    have "(r + 1) * (r + 1) \<le> (2 * r) * (2 * r)" using r by (intro mult_mono) auto
    then have "n * ((r + 1) * (r + 1)) \<le> n * ((2 * r) * (2 * r))" using n by (intro mult_left_mono) auto
    then show "v * v \<le> n * ((2 * r) * (2 * r))" using s by linarith
  qed simp
  finally have "q ^ 2 * r ^ 2 \<le> (4 * n * g ^ 2) * r ^ 2" by (simp add: power2_eq_square algebra_simps)
  moreover have "0 < r ^ 2" using r by simp
  ultimately show ?thesis unfolding q_def [symmetric] by (rule mult_right_le_imp_le)
qed

lemma clamp_square_le: "0 \<le> hi \<Longrightarrow> lo \<le> 0 \<Longrightarrow> (clamp lo hi v) ^ 2 \<le> v ^ 2" for v :: int
  unfolding abs_le_square_iff [symmetric] by (auto simp: clamp_def)

lemma rms_item_value:
  "fst (rms_item r (v, g)) ^ 2 \<le> (\<bar>v * g\<bar> div r) ^ 2"
  "(\<bar>v * g\<bar> div r) ^ 2 \<le> 32767 ^ 2 \<Longrightarrow> 0 < r \<Longrightarrow> snd (rms_item r (v, g)) = False"
proof -
  define m where "m = \<bar>v * g\<bar> div r"
  define x where "x = (if v * g < 0 then - m else m)"
  have item: "rms_item r (v, g) = saturate_int16 x" by (simp add: rms_item_def Let_def x_def m_def)
  have sq: "x ^ 2 = m ^ 2" by (simp add: x_def)
  show "fst (rms_item r (v, g)) ^ 2 \<le> (\<bar>v * g\<bar> div r) ^ 2"
    using clamp_square_le [of 32767 "-32768" x] by (simp add: item saturate_int16_eq sq m_def)
  assume le: "(\<bar>v * g\<bar> div r) ^ 2 \<le> 32767 ^ 2" and "0 < r"
  then have "\<bar>x\<bar> \<le> 32767" using abs_le_square_iff [of x 32767] sq by (simp add: m_def)
  then show "snd (rms_item r (v, g)) = False" by (auto simp: item saturate_int16_eq)
qed

text \<open>
  C32: integer RMS normalisation is bounded. Whatever the values, with a non-negative \<open>epsilon\<close> the
  call returns, the square of an output is at most four times the vector length times the square
  of its gain, and the saturation flag is off whenever that bound is within INT16.
\<close>

theorem integer_rms_norm_bounded:
  assumes "values \<noteq> []" and "length gains = length values" and "0 \<le> epsilon"
  shows "\<exists>outs sats. integer_rms_norm values gains epsilon = Inr (outs, sats) \<and>
     length outs = length values \<and> length sats = length values \<and>
     (\<forall>i < length values. (outs ! i) ^ 2 \<le> 4 * int (length values) * (gains ! i) ^ 2 \<and>
        (4 * int (length values) * (gains ! i) ^ 2 \<le> 32767 ^ 2 \<longrightarrow> \<not> sats ! i))"
proof -
  define n where "n = int (length values)"
  define s where "s = sum_list (map (\<lambda>x. x * x) values)"
  define m where "m = s div n + epsilon"
  define r where "r = int (nat_sqrt (nat m))"
  have n: "1 \<le> n" using assms(1) by (cases "values") (simp_all add: n_def)
  have "0 \<le> s" unfolding s_def by (rule sum_list_nonneg) auto
  then have m: "0 \<le> m" using n assms(3) by (simp add: m_def pos_imp_zdiv_nonneg_iff)
  have sq: "isqrt m = Inr r" using m by (simp add: isqrt_def r_def)
  have run: "integer_rms_norm values gains epsilon =
      (if r = 0 then Inr (map (\<lambda>_. 0) values, map (\<lambda>_. False) values)
       else Inr (map fst (map (rms_item r) (zip values gains)), map snd (map (rms_item r) (zip values gains))))"
    using assms(1,2) by (simp add: integer_rms_norm_def sq s_def [symmetric] n_def [symmetric] m_def [symmetric])
  show ?thesis
  proof (cases "r = 0")
    case True
    with run show ?thesis by (intro exI [of _ "map (\<lambda>_. 0) values"] exI [of _ "map (\<lambda>_. False) values"]) simp
  next
    case False
    then have r: "1 \<le> r" by (simp add: r_def)
    have "m < (r + 1) * (r + 1)"
    proof -
      have "nat m < (nat_sqrt (nat m) + 1) * (nat_sqrt (nat m) + 1)" using isqrt_spec by blast
      then have "int (nat m) < int ((nat_sqrt (nat m) + 1) * (nat_sqrt (nat m) + 1))" by linarith
      then show ?thesis using m by (simp add: r_def algebra_simps)
    qed
    moreover have "s < n * (m + 1)"
    proof -
      have "n * (s div n) + s mod n = s" "s mod n < n" using n by simp_all
      then have "s < n * (s div n + 1)" unfolding distrib_left by linarith
      also have "\<dots> \<le> n * (m + 1)" using n assms(3) by (simp add: m_def)
      finally show ?thesis .
    qed
    moreover have "n * (m + 1) \<le> n * ((r + 1) * (r + 1))"
      using calculation(1) n by (intro mult_left_mono) auto
    ultimately have s: "s < n * ((r + 1) * (r + 1))" by linarith
    have bound: "(\<bar>values ! i * gains ! i\<bar> div r) ^ 2 \<le> 4 * n * (gains ! i) ^ 2" if "i < length values" for i
      using that by (intro rms_magnitude [OF r s _ n]) (auto simp: s_def intro: sum_list_squares_ge)
    have "fst (rms_item r (values ! i, gains ! i)) ^ 2 \<le> 4 * n * (gains ! i) ^ 2 \<and>
        (4 * n * (gains ! i) ^ 2 \<le> 32767 ^ 2 \<longrightarrow> \<not> snd (rms_item r (values ! i, gains ! i)))"
      if "i < length values" for i
      using rms_item_value(1) [of r "values ! i" "gains ! i"] rms_item_value(2) [of "values ! i" "gains ! i" r]
        bound [OF that] r by (auto intro: order_trans)
    with False run assms(2) show ?thesis by (simp add: n_def)
  qed
qed

theorem integer_rms_norm_bounded_witness:
  "\<exists>outs sats. integer_rms_norm [3, -4, 12000, 5] [256, 256, 256, -256] 1 = Inr (outs, sats) \<and>
     list_all (\<lambda>x. x ^ 2 \<le> 4 * 4 * 256 ^ 2) outs \<and> list_all Not sats"
proof -
  have g: "([256, 256, 256, -256 :: int] ! i) ^ 2 = 65536" if "i < 4" for i
    using that by (simp add: numeral_eq_Suc less_Suc_eq) auto
  show ?thesis
    using integer_rms_norm_bounded [of "[3, -4, 12000, 5]" "[256, 256, 256, -256]" 1] g
    by (auto simp: list_all_length)
qed

section \<open>The matrix product over exact numbers\<close>

lemma foldl_plus: "foldl (+) a xs = a + sum_list xs" for a :: "'a::monoid_add"
  by (induction xs arbitrary: a) (simp_all add: add.assoc)

lemma py_sum_sum: "py_sum (map f [0..<n]) = (\<Sum>i<n. f i)" for f :: "nat \<Rightarrow> 'a::comm_monoid_add"
  by (simp add: py_sum_def foldl_plus sum_list_sum_nth atLeast0LessThan)

lemma matmul_unfold:
  assumes "a \<noteq> []" "b \<noteq> []"
  shows "matmul a b =
    (if list_all (\<lambda>row. length row = length (hd a)) a \<and> list_all (\<lambda>row. length row = length (hd b)) b \<and>
        length b = length (hd a)
     then Inr (map (\<lambda>row. map (\<lambda>col. py_sum (map (\<lambda>k. row ! k * (b ! k) ! col) [0..<length (hd a)]))
                         [0..<length (hd b)]) a)
     else Inl ValueError)"
  using assms unfolding matmul_def list_ex_not [of "\<lambda>row. length row = n" for n]
  by (cases a; cases b) (simp_all add: Let_def)

text \<open>What a successful product of non-empty matrices is.\<close>

lemma matmul_Inr:
  fixes a b :: "'a::semiring_0 list list"
  assumes "matmul a b = Inr c" and "a \<noteq> []" "b \<noteq> []"
  shows "length c = length a" "\<And>row. row \<in> set a \<Longrightarrow> length row = length b"
    "\<And>row. row \<in> set b \<Longrightarrow> length row = length (hd b)" "\<And>row. row \<in> set c \<Longrightarrow> length row = length (hd b)"
    "\<And>i j. i < length a \<Longrightarrow> j < length (hd b) \<Longrightarrow> c ! i ! j = (\<Sum>k<length b. a ! i ! k * b ! k ! j)"
proof -
  have len: "length b = length (hd a)" and rows: "\<forall>row \<in> set a. length row = length (hd a)"
      "\<forall>row \<in> set b. length row = length (hd b)"
    and c: "c = map (\<lambda>row. map (\<lambda>col. py_sum (map (\<lambda>k. row ! k * (b ! k) ! col) [0..<length (hd a)]))
      [0..<length (hd b)]) a"
    using assms(1) unfolding matmul_unfold [OF assms(2,3)] list_all_iff by (simp_all split: if_splits)
  show "length c = length a" "\<And>row. row \<in> set a \<Longrightarrow> length row = length b"
    "\<And>row. row \<in> set b \<Longrightarrow> length row = length (hd b)"
    using c rows len by simp_all
  show "length row = length (hd b)" if "row \<in> set c" for row using that c by auto
  show "c ! i ! j = (\<Sum>k<length b. a ! i ! k * b ! k ! j)" if "i < length a" "j < length (hd b)" for i j
    using that c len by (simp add: py_sum_sum)
qed

lemma matmul_ok:
  fixes a b :: "'a::semiring_0 list list"
  assumes "a \<noteq> []" "b \<noteq> []" and "\<And>row. row \<in> set a \<Longrightarrow> length row = length b"
    and "\<And>row. row \<in> set b \<Longrightarrow> length row = length (hd b)"
  obtains c where "matmul a b = Inr c"
proof -
  have "length (hd a) = length b" using assms(1,3) by simp
  then have "list_all (\<lambda>row. length row = length (hd a)) a" "list_all (\<lambda>row. length row = length (hd b)) b"
    "length b = length (hd a)"
    using assms(3,4) by (simp_all add: list_all_iff)
  with that show ?thesis unfolding matmul_unfold [OF assms(1,2)] by simp
qed

text \<open>
  Over exact numbers \<open>matmul\<close> is the matrix product: when both groupings of a triple product
  of non-empty matrices are computed, the second grouping succeeds whenever the first one does
  and gives the same matrix.
\<close>

theorem matmul_assoc:
  fixes a b c :: "'a::semiring_0 list list"
  assumes "matmul a b = Inr ab" and "matmul ab c = Inr abc" and "a \<noteq> []" "b \<noteq> []" "c \<noteq> []"
  shows "\<exists>bc. matmul b c = Inr bc \<and> matmul a bc = Inr abc"
proof -
  note AB = matmul_Inr [OF assms(1,3,4)]
  have ne: "ab \<noteq> []" using AB(1) assms(3) by auto
  note ABC = matmul_Inr [OF assms(2) ne assms(5)]
  have cols: "length (hd b) = length c"
    using AB(4) [of "hd ab"] ABC(2) [of "hd ab"] ne by simp
  obtain bc where bc: "matmul b c = Inr bc"
    by (rule matmul_ok [OF assms(4,5)]) (use AB(3) ABC(3) cols in auto)
  note BC = matmul_Inr [OF bc assms(4,5)]
  have ne2: "bc \<noteq> []" using BC(1) assms(4) by auto
  have hd: "length (hd bc) = length (hd c)" using BC(4) [of "hd bc"] ne2 by simp
  obtain abc' where abc': "matmul a bc = Inr abc'"
    by (rule matmul_ok [OF assms(3) ne2]) (use AB(2) BC(1,4) hd in auto)
  note ABC' = matmul_Inr [OF abc' assms(3) ne2]
  have entry: "abc ! i ! j = abc' ! i ! j" if i: "i < length a" and j: "j < length (hd c)" for i j
  proof -
    have "abc ! i ! j = (\<Sum>k<length c. (\<Sum>l<length b. a ! i ! l * b ! l ! k) * c ! k ! j)"
      using ABC(5) [of i j] AB(1,5) i j cols by simp
    also have "\<dots> = (\<Sum>l<length b. a ! i ! l * (\<Sum>k<length c. b ! l ! k * c ! k ! j))"
      unfolding sum_distrib_left sum_distrib_right mult.assoc by (rule sum.swap)
    also have "\<dots> = abc' ! i ! j"
      using ABC'(5) [of i j] BC(1,5) i j hd by simp
    finally show ?thesis .
  qed
  have "abc = abc'"
  proof (rule nth_equalityI)
    show "length abc = length abc'" using ABC(1) ABC'(1) AB(1) by simp
    fix i assume i: "i < length abc"
    then have i': "i < length a" "i < length abc'" using ABC(1) ABC'(1) AB(1) by simp_all
    then have "length (abc ! i) = length (hd c)" "length (abc' ! i) = length (hd c)"
      using ABC(4) ABC'(4) hd i nth_mem by metis+
    then show "abc ! i = abc' ! i" using entry i' by (intro nth_equalityI) auto
  qed
  with bc abc' show ?thesis by blast
qed

theorem matmul_assoc_witness:
  "matmul [[1, 2], [3, 4 :: int]] [[0, 1], [1, 1]] = Inr [[2, 3], [4, 7]] \<and>
   (\<exists>bc. matmul [[0, 1], [1, 1]] [[5], [6]] = Inr bc \<and> matmul [[1, 2], [3, 4]] bc = Inr [[28], [62 :: int]])"
proof -
  have "matmul [[1, 2], [3, 4 :: int]] [[0, 1], [1, 1]] = Inr [[2, 3], [4, 7]]"
    "matmul [[2, 3], [4, 7 :: int]] [[5], [6]] = Inr [[28], [62]]"
    by (simp_all add: matmul_def py_sum_def upt_rec)
  with matmul_assoc [OF this] show ?thesis by simp
qed

end
