(* ===== verification/PyFloat.thy ===== *)
theory PyFloat
  imports Prelude
begin

text \<open>
  The one floating-point idiom the integer references use, \<open>int(total / denominator)\<close>: Python
  divides two integers with a correctly rounded result (53 bits, ties to even) and \<open>int\<close> cuts the
  fraction off. The model is exact: the rounded quotient is a mantissa of 53 bits and an exponent.

  A quotient below \<open>2 ^ -1022\<close> has fewer bits in IEEE arithmetic; it is below 1, so cutting the
  fraction gives 0 either way and the model does not distinguish it.
\<close>

section \<open>The quotient as a binary64 number\<close>

fun bit_length :: "nat \<Rightarrow> nat" where
  "bit_length n = (if n = 0 then 0 else Suc (bit_length (n div 2)))"

declare bit_length.simps [simp del]

definition round_half_even :: "nat \<Rightarrow> nat \<Rightarrow> nat" where
  "round_half_even n d =
     (let q = n div d; r = n mod d in if d < 2 * r \<or> 2 * r = d \<and> odd q then q + 1 else q)"

text \<open>The exponent \<open>E\<close> with \<open>2 ^ E \<le> n / d < 2 ^ (E + 1)\<close>.\<close>

definition ratio_exponent :: "nat \<Rightarrow> nat \<Rightarrow> int" where
  "ratio_exponent n d =
     (let e = int (bit_length n) - int (bit_length d) in
      if n * 2 ^ nat (- e) < d * 2 ^ nat e then e - 1 else e)"

text \<open>\<open>n / d\<close> as \<open>m * 2 ^ e\<close>.\<close>

definition float_ratio :: "nat \<Rightarrow> nat \<Rightarrow> nat \<times> int" where
  "float_ratio n d =
     (let e = ratio_exponent n d - 52 in (round_half_even (n * 2 ^ nat (- e)) (d * 2 ^ nat e), e))"

definition int_of_true_division :: "int \<Rightarrow> int \<Rightarrow> int res" where
  "int_of_true_division a b =
     (if b = 0 then Inl ZeroDivisionError
      else if a = 0 then Inr 0
      else case float_ratio (nat \<bar>a\<bar>) (nat \<bar>b\<bar>) of (m, e) \<Rightarrow>
        let t = (if e \<ge> 0 then m * 2 ^ nat e else m div 2 ^ nat (- e)) in
        if t \<ge> 2 ^ 1024 then Inl OverflowError else Inr (sgn a * sgn b * int t))"

section \<open>Exactness below 2 to the 53\<close>

lemma bit_length_bounds:
  assumes "0 < n"
  shows "2 ^ (bit_length n - 1) \<le> n" "n < 2 ^ bit_length n" "0 < bit_length n"
proof -
  have "2 ^ (bit_length n - 1) \<le> n \<and> n < 2 ^ bit_length n \<and> 0 < bit_length n"
    using assms
  proof (induction n rule: bit_length.induct)
    case (1 n)
    show ?case
    proof (cases "n = 1")
      case True
      then show ?thesis by (simp add: bit_length.simps)
    next
      case False
      then have "0 < n div 2" using 1 by simp
      with 1 have IH: "2 ^ (bit_length (n div 2) - 1) \<le> n div 2" "n div 2 < 2 ^ bit_length (n div 2)"
        "0 < bit_length (n div 2)" by auto
      then obtain k where "bit_length (n div 2) = Suc k" by (cases "bit_length (n div 2)") auto
      with IH 1 show ?thesis by (subst (1 2 3) bit_length.simps) auto
    qed
  qed
  then show "2 ^ (bit_length n - 1) \<le> n" "n < 2 ^ bit_length n" "0 < bit_length n" by simp_all
qed

lemma ratio_exponent_le:
  assumes "0 < n" "0 < d"
  shows "d * 2 ^ nat (ratio_exponent n d) \<le> n * 2 ^ nat (- ratio_exponent n d)"
proof -
  define e where "e = int (bit_length n) - int (bit_length d)"
  obtain a where a: "bit_length n = Suc a" using bit_length_bounds(3) [OF assms(1)] by (cases "bit_length n") auto
  have n: "2 ^ a \<le> n" using bit_length_bounds(1) [OF assms(1)] a by simp
  have d: "d < 2 ^ bit_length d" using bit_length_bounds(2) [OF assms(2)] .
  show ?thesis
  proof (cases "n * 2 ^ nat (- e) < d * 2 ^ nat e")
    case False
    then have "ratio_exponent n d = e" by (simp add: ratio_exponent_def e_def Let_def)
    with False show ?thesis by simp
  next
    case True
    then have E: "ratio_exponent n d = e - 1" by (simp add: ratio_exponent_def e_def Let_def)
    show ?thesis
    proof (cases "1 \<le> e")
      case True
      then have "a = bit_length d + nat (e - 1)" using a by (simp add: e_def)
      then have "d * 2 ^ nat (e - 1) \<le> 2 ^ a" using d by (simp add: power_add mult_le_mono1)
      with n True show ?thesis unfolding E by simp
    next
      case False
      then have "bit_length d = a + nat (- (e - 1))" using a by (simp add: e_def)
      then have "d \<le> 2 ^ a * 2 ^ nat (- (e - 1))" using d by (simp add: power_add)
      also have "\<dots> \<le> n * 2 ^ nat (- (e - 1))" using n by simp
      finally show ?thesis using False unfolding E by simp
    qed
  qed
qed

lemma round_half_even_floor: "n div d \<le> round_half_even n d"
  by (simp add: round_half_even_def Let_def)

text \<open>Rounding \<open>n * 2 ^ k / d\<close> does not reach the next multiple of \<open>2 ^ k\<close> unless \<open>d\<close> is large.\<close>

lemma round_half_even_below:
  assumes d: "0 < d" and small: "d < 2 ^ (k + 1)"
  shows "round_half_even (n * 2 ^ k) d div 2 ^ k = n div d"
proof -
  define q where "q = n div d"
  define m where "m = round_half_even (n * 2 ^ k) d"
  have n: "n < d * (q + 1)" using d by (simp add: q_def dividend_less_times_div)
  have "q * d \<le> n" by (simp add: q_def)
  then have "q * 2 ^ k * d \<le> n * 2 ^ k"
    using mult_le_mono1 [of "q * d" n "2 ^ k"] by (simp add: mult.assoc mult.left_commute)
  then have "q * 2 ^ k \<le> (n * 2 ^ k) div d" using d by (simp add: less_eq_div_iff_mult_less_eq)
  then have lower: "q * 2 ^ k \<le> m" using round_half_even_floor le_trans m_def by blast
  have "m < (q + 1) * 2 ^ k"
  proof (rule ccontr)
    assume no: "\<not> m < (q + 1) * 2 ^ k"
    have "n * 2 ^ k < (d * (q + 1)) * 2 ^ k" using n by simp
    then have "n * 2 ^ k < (q + 1) * 2 ^ k * d" by (simp only: ac_simps)
    then have "(n * 2 ^ k) div d < (q + 1) * 2 ^ k" using d by (simp add: div_less_iff_less_mult)
    with no have up: "m = (n * 2 ^ k) div d + 1" "(n * 2 ^ k) div d + 1 = (q + 1) * 2 ^ k"
      by (auto simp: m_def round_half_even_def Let_def split: if_splits)
    then have "d \<le> 2 * ((n * 2 ^ k) mod d)"
      by (auto simp: m_def round_half_even_def Let_def split: if_splits)
    moreover have "(n * 2 ^ k) div d * d + (n * 2 ^ k) mod d = n * 2 ^ k" by simp
    ultimately have "2 * ((n * 2 ^ k) div d * d) + d \<le> 2 * (n * 2 ^ k)" by linarith
    then have "2 * (((n * 2 ^ k) div d + 1) * d) \<le> 2 * (n * 2 ^ k) + d" by (simp add: algebra_simps)
    then have "2 * ((q + 1) * 2 ^ k * d) \<le> 2 * (n * 2 ^ k) + d" by (simp only: up(2))
    moreover have "(n + 1) * 2 ^ k \<le> (d * (q + 1)) * 2 ^ k" using n by (intro mult_le_mono1) simp
    ultimately have "2 * 2 ^ k \<le> d" by (simp add: algebra_simps)
    with small show False by simp
  qed
  with lower show ?thesis
    unfolding q_def [symmetric] m_def [symmetric] by (intro div_nat_eqI) (simp_all add: mult.commute)
qed

lemma int_of_true_division_exact:
  assumes "\<bar>a\<bar> < 2 ^ 53" and "b \<noteq> 0"
  shows "int_of_true_division a b = Inr (sgn a * sgn b * (\<bar>a\<bar> div \<bar>b\<bar>))"
proof (cases "a = 0")
  case True
  then show ?thesis using assms(2) by (simp add: int_of_true_division_def)
next
  case False
  define n where "n = nat \<bar>a\<bar>"
  define d where "d = nat \<bar>b\<bar>"
  have n: "0 < n" "n < 2 ^ 53" and d: "0 < d" using False assms by (simp_all add: n_def d_def nat_less_iff)
  define E where "E = ratio_exponent n d"
  have le: "d * 2 ^ nat E \<le> n * 2 ^ nat (- E)" using ratio_exponent_le [OF n(1) d] by (simp add: E_def)
  have E: "E \<le> 52"
  proof (rule ccontr)
    assume "\<not> E \<le> 52"
    then have "(2::nat) ^ 53 \<le> 2 ^ nat E" "nat (- E) = 0"
      using power_increasing [of 53 "nat E" "2::nat"] by simp_all
    moreover have "2 ^ nat E \<le> d * 2 ^ nat E" using d by simp
    moreover have "d * 2 ^ nat E \<le> n" using le calculation(2) by simp
    ultimately show False using n(2) by linarith
  qed
  define k where "k = nat (52 - E)"
  have small: "d < 2 ^ (k + 1)"
  proof (cases "0 \<le> E")
    case True
    then have "k + 1 + nat E = 53" using E by (simp add: k_def)
    then have "(2::nat) ^ (k + 1) * 2 ^ nat E = 2 ^ 53" by (metis power_add)
    moreover have "d * 2 ^ nat E < 2 ^ 53" using le n(2) True by simp
    ultimately show ?thesis by (metis mult_less_cancel2)
  next
    case False
    then have "k + 1 = 53 + nat (- E)" by (simp add: k_def)
    then have "(2::nat) ^ (k + 1) = 2 ^ 53 * 2 ^ nat (- E)" by (metis power_add)
    moreover have "n * 2 ^ nat (- E) < 2 ^ 53 * 2 ^ nat (- E)" using n(2) by simp
    moreover have "d \<le> n * 2 ^ nat (- E)" using le False by simp
    ultimately show ?thesis by linarith
  qed
  have ratio: "float_ratio n d = (round_half_even (n * 2 ^ k) d, - int k)"
    using E by (simp add: float_ratio_def Let_def k_def E_def)
  have trunc: "round_half_even (n * 2 ^ k) d div 2 ^ k = n div d"
    using round_half_even_below [OF d small] .
  have "n div d < 2 ^ 1024"
  proof -
    have "n div d \<le> n" by simp
    also have "n < 2 ^ 53" by (rule n)
    also have "(2::nat) ^ 53 \<le> 2 ^ 1024" by (rule power_increasing) simp_all
    finally show ?thesis .
  qed
  moreover have "(if 0 \<le> - int k then round_half_even (n * 2 ^ k) d * 2 ^ nat (- int k)
      else round_half_even (n * 2 ^ k) d div 2 ^ nat (- (- int k))) = n div d"
    using trunc by (cases "k = 0") simp_all
  moreover have "int (n div d) = \<bar>a\<bar> div \<bar>b\<bar>" by (simp add: n_def d_def zdiv_int)
  ultimately show ?thesis
    unfolding int_of_true_division_def n_def [symmetric] d_def [symmetric] ratio prod.case Let_def
    using False assms(2) by (simp del: of_nat_power)
qed

section \<open>Evaluation\<close>

text \<open>
  The same computation on binary integers, for the code generator: natural numbers are unary
  there, and the mantissas have 53 bits.
\<close>

fun int_bit_length :: "int \<Rightarrow> nat" where
  "int_bit_length n = (if n \<le> 0 then 0 else Suc (int_bit_length (n div 2)))"

declare int_bit_length.simps [simp del]

definition int_round_half_even :: "int \<Rightarrow> int \<Rightarrow> int" where
  "int_round_half_even n d =
     (let q = n div d; r = n mod d in if d < 2 * r \<or> 2 * r = d \<and> q mod 2 = 1 then q + 1 else q)"

lemma int_bit_length: "int_bit_length (int n) = bit_length n"
proof (induction n rule: bit_length.induct)
  case (1 n)
  show ?case
  proof (cases "n = 0")
    case False
    then show ?thesis
      using 1 by (subst bit_length.simps, subst int_bit_length.simps) (simp add: zdiv_int)
  qed (simp add: bit_length.simps int_bit_length.simps)
qed

lemma int_round_half_even: "int_round_half_even (int n) (int d) = int (round_half_even n d)"
proof -
  have "(d < 2 * (n mod d)) = (int d < 2 * (int n mod int d))"
    "(2 * (n mod d) = d) = (2 * (int n mod int d) = int d)"
    unfolding zmod_int [symmetric] by linarith+
  moreover have "odd (n div d) = (int n div int d mod 2 = 1)"
    by (simp flip: zdiv_int add: odd_iff_mod_2_eq_one) presburger
  ultimately show ?thesis
    by (simp add: int_round_half_even_def round_half_even_def Let_def zdiv_int)
qed

lemma int_of_true_division_code [code]:
  "int_of_true_division a b =
     (if b = 0 then Inl ZeroDivisionError
      else if a = 0 then Inr 0
      else let n = \<bar>a\<bar>; d = \<bar>b\<bar>;
          e0 = int (int_bit_length n) - int (int_bit_length d);
          e = (if n * 2 ^ nat (- e0) < d * 2 ^ nat e0 then e0 - 1 else e0) - 52;
          m = int_round_half_even (n * 2 ^ nat (- e)) (d * 2 ^ nat e);
          t = (if e \<ge> 0 then m * 2 ^ nat e else m div 2 ^ nat (- e)) in
        if t \<ge> 2 ^ 1024 then Inl OverflowError else Inr (sgn a * sgn b * t))"
proof (cases "a = 0 \<or> b = 0")
  case False
  define n where "n = nat \<bar>a\<bar>"
  define d where "d = nat \<bar>b\<bar>"
  have abs: "\<bar>a\<bar> = int n" "\<bar>b\<bar> = int d" by (simp_all add: n_def d_def)
  define e where "e = ratio_exponent n d - 52"
  define m where "m = round_half_even (n * 2 ^ nat (- e)) (d * 2 ^ nat e)"
  have less: "(int n * 2 ^ i < int d * 2 ^ j) = (n * 2 ^ i < d * 2 ^ j)" for i j
    unfolding of_nat_less_iff [symmetric, where 'a = int] by simp
  have e: "(let e0 = int (int_bit_length (int n)) - int (int_bit_length (int d)) in
      (if int n * 2 ^ nat (- e0) < int d * 2 ^ nat e0 then e0 - 1 else e0) - 52) = e"
    by (simp add: e_def ratio_exponent_def Let_def int_bit_length less)
  have m: "int_round_half_even (int n * 2 ^ nat (- e)) (int d * 2 ^ nat e) = int m"
    unfolding m_def int_round_half_even [symmetric] by simp
  have "float_ratio n d = (m, e)" by (simp add: float_ratio_def m_def e_def Let_def)
  define t where "t = (if e \<ge> 0 then m * 2 ^ nat e else m div 2 ^ nat (- e))"
  have t: "(if e \<ge> 0 then int m * 2 ^ nat e else int m div 2 ^ nat (- e)) = int t"
    by (simp add: t_def zdiv_int)
  have big: "(int t \<ge> 2 ^ k) = (t \<ge> 2 ^ k)" for k
    unfolding of_nat_le_iff [symmetric, where 'a = int] by simp
  show ?thesis
    using False \<open>float_ratio n d = (m, e)\<close>
    unfolding int_of_true_division_def n_def [symmetric] d_def [symmetric] abs
    by (simp only: nat_int prod.case if_False e [unfolded Let_def] m t Let_def t_def [symmetric] big de_Morgan_disj simp_thms)
next
  case True
  then show ?thesis unfolding int_of_true_division_def by (elim disjE) (simp_all only: if_True if_False refl if_cancel simp_thms split: if_split)
qed

lemma int_of_true_division_demo: "int_of_true_division 7 2 = Inr 3 \<and> int_of_true_division (- 7) 2 = Inr (- 3) \<and>
    int_of_true_division (3 * 2 ^ 53 - 1) 3 = Inr (2 ^ 53)"
  by code_simp

end
