(* ===== verification/AttentionRef.thy ===== *)
theory AttentionRef
  imports TensorRef PyFloat
begin

text \<open>
  \<open>dv/golden/attention_ref.py\<close>: the exact QK dot product and the online-softmax reference of the
  RTL. The running state of the loop is the triple of \<open>maximum\<close> (\<open>None\<close> before the first kept
  token), \<open>denominator\<close> and \<open>accumulator\<close>.
\<close>

section \<open>Definitions\<close>

definition quantized_qk_dot :: "int list \<Rightarrow> int list \<Rightarrow> int res" where
  "quantized_qk_dot query key =
     (if length query \<noteq> length key then Inl ValueError
      else if list_ex (\<lambda>value. value < -128 \<or> value > 127) (query @ key) then Inl ValueError
      else Inr (dot query key))"

type_synonym softmax_state = "int option \<times> int \<times> int list"

text \<open>\<open>wb\<close> is \<open>weight_bits - 1\<close>, so \<open>one = 1 << (weight_bits - 1)\<close>.\<close>

definition weight :: "nat \<Rightarrow> int \<Rightarrow> int" where
  "weight wb distance = drop_bit (nat (min distance (int wb))) (push_bit wb 1)"

definition attention_update :: "nat \<Rightarrow> int \<Rightarrow> int list \<Rightarrow> softmax_state \<Rightarrow> softmax_state" where
  "attention_update wb score value st =
     (let one = push_bit wb 1 in
      case st of (None, _, _) \<Rightarrow> (Some score, one, map (\<lambda>item. item * one) value)
      | (Some maximum, denominator, accumulator) \<Rightarrow>
        if score > maximum then
          let w = weight wb (score - maximum) in
          (Some score, drop_bit wb (denominator * w) + one,
           map (\<lambda>(total, item). drop_bit wb (total * w) + item * one) (zip accumulator value))
        else
          let w = weight wb (maximum - score) in
          (Some maximum, denominator + w,
           map (\<lambda>(total, item). total + item * w) (zip accumulator value)))"

fun attention_loop ::
  "nat \<Rightarrow> int list \<Rightarrow> (int list \<times> int list \<times> bool) list \<Rightarrow> softmax_state \<Rightarrow> softmax_state res"
where
  "attention_loop wb query [] st = Inr st"
| "attention_loop wb query ((key, value, include) # tokens) st =
     (if \<not> include then attention_loop wb query tokens st
      else case quantized_qk_dot query key of Inl e \<Rightarrow> Inl e
      | Inr score \<Rightarrow> attention_loop wb query tokens (attention_update wb score value st))"

definition rtl_online_attention ::
  "int list \<Rightarrow> int list list \<Rightarrow> int list list \<Rightarrow> bool list option \<Rightarrow> int \<Rightarrow> int list res"
where
  "rtl_online_attention query keys vals keep weight_bits =
     (if length keys \<noteq> length vals then Inl ValueError
      else if vals = [] then Inr (map (\<lambda>_. 0) query)
      else if list_ex (\<lambda>item. length item \<noteq> length query) (keys @ vals) then Inl ValueError
      else let mask = (case keep of None \<Rightarrow> replicate (length keys) True | Some k \<Rightarrow> k) in
        if length mask \<noteq> length keys then Inl ValueError
        else case shift_left 1 (weight_bits - 1) of Inl e \<Rightarrow> Inl e
        | Inr _ \<Rightarrow>
          (case attention_loop (nat (weight_bits - 1)) query (zip keys (zip vals mask))
                  (None, 0, map (\<lambda>_. 0) query) of
             Inl e \<Rightarrow> Inl e
           | Inr (None, _, _) \<Rightarrow> Inr (map (\<lambda>_. 0) query)
           | Inr (Some _, denominator, accumulator) \<Rightarrow>
               map_res (\<lambda>total. int_of_true_division total denominator) accumulator))"

section \<open>One lane of the accumulator\<close>

text \<open>
  \<open>hi\<close> and \<open>lo\<close> bound the values kept so far in one lane. Rescaling rounds down twice, so the
  quotient may leave the interval by a few units of the accumulator, which halve at every
  rescaling and never reach a unit of the output.
\<close>

definition lane_ok :: "int \<Rightarrow> int \<Rightarrow> int \<Rightarrow> int \<Rightarrow> bool" where
  "lane_ok lo hi den a \<longleftrightarrow>
     a \<le> hi * den + 2 * max hi 0 \<and> lo * den - (if lo \<le> 0 then 2 * (\<bar>lo\<bar> + 1) else 0) \<le> a"

lemma lane_ok_start: "lo \<le> v \<Longrightarrow> v \<le> hi \<Longrightarrow> 0 \<le> one \<Longrightarrow> lane_ok lo hi one (v * one)"
  using mult_right_mono [of v hi one] mult_right_mono [of lo v one] by (auto simp: lane_ok_def)

lemma lane_ok_add:
  "lane_ok lo hi den a \<Longrightarrow> lo \<le> v \<Longrightarrow> v \<le> hi \<Longrightarrow> 0 \<le> w \<Longrightarrow> lane_ok lo hi (den + w) (a + v * w)"
  using mult_right_mono [of v hi w] mult_right_mono [of lo v w]
  by (auto simp: lane_ok_def distrib_left)

lemma div_bounds:
  fixes one :: int
  assumes "0 < one"
  shows "one * (z div one) \<le> z" "z < one * (z div one) + one"
proof -
  have "one * (z div one) + z mod one = z" "0 \<le> z mod one" "z mod one < one" using assms by simp_all
  then show "one * (z div one) \<le> z" "z < one * (z div one) + one" by linarith+
qed

text \<open>Rescaling: \<open>w \<le> one / 2\<close> because the score grew by at least one.\<close>

lemma rescale_upper:
  fixes one :: int
  assumes one: "0 < one" and w: "0 \<le> w" "2 * w \<le> one" and a: "a \<le> hi * den + 2 * max hi 0"
  shows "a * w div one \<le> hi * (den * w div one) + 2 * max hi 0"
proof -
  define x where "x = den * w div one"
  note x = div_bounds [OF one, of "den * w", folded x_def]
  have aw: "a * w \<le> hi * (den * w) + 2 * max hi 0 * w"
    using mult_right_mono [OF a w(1)] by (simp add: distrib_right mult.assoc)
  have "a * w \<le> one * (hi * x + 2 * max hi 0)"
  proof (cases "0 \<le> hi")
    case True
    have "hi * (den * w) \<le> hi * (one * x + one)" using True x(2) by (intro mult_left_mono) auto
    moreover have "hi * (2 * w) \<le> hi * one" using True w(2) by (rule mult_left_mono [rotated])
    ultimately show ?thesis using aw True by (simp add: algebra_simps)
  next
    case False
    then have "a * w \<le> hi * (den * w)" using aw by simp
    also have "\<dots> \<le> hi * (one * x)" using x(1) False by (intro mult_left_mono_neg) auto
    finally show ?thesis using False by (simp add: mult.left_commute)
  qed
  moreover have "one * (a * w div one) \<le> a * w" by (rule div_bounds [OF one])
  ultimately have "one * (a * w div one) \<le> one * (hi * x + 2 * max hi 0)" by linarith
  then show ?thesis using one by (simp add: x_def)
qed

lemma rescale_lower:
  fixes one :: int
  assumes one: "0 < one" and w: "0 \<le> w" "2 * w \<le> one"
    and a: "lo * den - (if lo \<le> 0 then 2 * (\<bar>lo\<bar> + 1) else 0) \<le> a"
  shows "lo * (den * w div one) - (if lo \<le> 0 then 2 * (\<bar>lo\<bar> + 1) else 0) \<le> a * w div one"
proof -
  define x where "x = den * w div one"
  note x = div_bounds [OF one, of "den * w", folded x_def]
  define y where "y = a * w div one"
  note y = div_bounds [OF one, of "a * w", folded y_def]
  have aw: "lo * (den * w) - (if lo \<le> 0 then 2 * (\<bar>lo\<bar> + 1) else 0) * w \<le> a * w"
    using mult_right_mono [OF a w(1)] by (simp add: left_diff_distrib mult.assoc)
  have "lo * x - (if lo \<le> 0 then 2 * (\<bar>lo\<bar> + 1) else 0) \<le> y"
  proof (cases "lo \<le> 0")
    case True
    have "lo * (one * x + one) \<le> lo * (den * w)" using True x(2) by (intro mult_left_mono_neg) auto
    moreover have "(\<bar>lo\<bar> + 1) * (2 * w) \<le> (\<bar>lo\<bar> + 1) * one" using w(2) by (intro mult_left_mono) auto
    ultimately have "one * (lo * x - 2 * \<bar>lo\<bar> - 1) \<le> a * w" using aw True by (simp add: algebra_simps)
    then have "one * (lo * x - 2 * \<bar>lo\<bar> - 1) < one * (y + 1)" using y(2) by (simp add: distrib_left)
    then have "lo * x - 2 * \<bar>lo\<bar> - 1 < y + 1" using one by simp
    with True show ?thesis by simp
  next
    case False
    then have "lo * (one * x) \<le> lo * (den * w)" using x(1) by (intro mult_left_mono) auto
    also have "\<dots> \<le> a * w" using aw False by simp
    finally have "one * (lo * x) \<le> a * w" by (simp add: mult.left_commute)
    then have "one * (lo * x) < one * (y + 1)" using y(2) by (simp add: distrib_left)
    then have "lo * x < y + 1" using one by simp
    with False show ?thesis by simp
  qed
  then show ?thesis by (simp add: x_def y_def)
qed

lemma lane_ok_rescale:
  fixes one :: int
  assumes "lane_ok lo hi den a" and v: "lo \<le> v" "v \<le> hi" and w: "0 \<le> w" "2 * w \<le> one" and one: "0 < one"
  shows "lane_ok lo hi (den * w div one + one) (a * w div one + v * one)"
proof -
  have "v * one \<le> hi * one" "lo * one \<le> v * one" using v one by simp_all
  with rescale_upper [OF one w, of a hi den] rescale_lower [OF one w, of lo den a] assms(1)
  show ?thesis by (simp add: lane_ok_def distrib_left)
qed

text \<open>The final division: a lane within bounds divides into the interval.\<close>

lemma lane_ok_sign:
  assumes "lane_ok lo hi den a" and "0 < den"
  shows "0 \<le> a \<Longrightarrow> 0 \<le> hi" "a \<le> 0 \<Longrightarrow> lo \<le> 0"
proof -
  show "0 \<le> hi" if "0 \<le> a"
  proof (rule ccontr)
    assume "\<not> 0 \<le> hi"
    with assms(2) have "hi * den < 0" by (intro mult_neg_pos) auto
    with assms(1) that \<open>\<not> 0 \<le> hi\<close> show False by (simp add: lane_ok_def)
  qed
  show "lo \<le> 0" if "a \<le> 0"
  proof (rule ccontr)
    assume "\<not> lo \<le> 0"
    with assms(2) have "0 < lo * den" by simp
    with assms(1) that \<open>\<not> lo \<le> 0\<close> show False by (simp add: lane_ok_def)
  qed
qed

lemma trunc_div_within:
  fixes a den :: int
  assumes ok: "lane_ok lo hi den a" and den: "2 * max hi 0 < den" "2 * (\<bar>lo\<bar> + 1) < den"
  shows "lo \<le> sgn a * (\<bar>a\<bar> div den) \<and> sgn a * (\<bar>a\<bar> div den) \<le> hi"
proof -
  have pos: "0 < den" using den by simp
  have ub: "a \<le> hi * den + 2 * max hi 0" and lb: "lo * den - (if lo \<le> 0 then 2 * (\<bar>lo\<bar> + 1) else 0) \<le> a"
    using ok by (simp_all add: lane_ok_def)
  define q where "q = \<bar>a\<bar> div den"
  note q = div_bounds [OF pos, of "\<bar>a\<bar>", folded q_def]
  have q0: "0 \<le> q" using pos by (simp add: q_def pos_imp_zdiv_nonneg_iff)
  consider "0 < a" | "a = 0" | "a < 0" by linarith
  then show ?thesis
  proof cases
    case 1
    have hi: "0 \<le> hi" using lane_ok_sign(1) [OF ok pos] 1 by simp
    then have "den * q < den * (hi + 1)" using q(1) 1 ub den(1) by (simp add: distrib_left mult.commute)
    then have "q \<le> hi" using pos by simp
    moreover have "lo \<le> q"
    proof (cases "lo \<le> 0")
      case False
      then have "den * lo < den * (q + 1)" using lb q(2) 1 by (simp add: distrib_left mult.commute)
      then show ?thesis using pos by simp
    qed (use q0 in simp)
    ultimately show ?thesis using 1 by (simp add: q_def)
  next
    case 2
    then show ?thesis using lane_ok_sign [OF ok pos] by simp
  next
    case 3
    have lo: "lo \<le> 0" using lane_ok_sign(2) [OF ok pos] 3 by simp
    then have "den * q < den * (1 - lo)" using lb q(1) 3 den(2) by (simp add: right_diff_distrib mult.commute)
    then have "q \<le> - lo" using pos by simp
    moreover have "- hi \<le> q"
    proof (cases "0 \<le> hi")
      case False
      then have "den * (- hi) < den * (q + 1)" using ub q(2) 3 by (simp add: distrib_left mult.commute)
      then have "- hi < q + 1" using mult_less_cancel_left_pos [OF pos] by blast
      then show ?thesis by simp
    qed (use q0 in simp)
    ultimately show ?thesis using 3 by (simp add: q_def)
  qed
qed

section \<open>The loop\<close>

lemma weight_range:
  assumes "0 \<le> d"
  shows "0 \<le> weight wb d" "weight wb d \<le> 2 ^ wb" "1 \<le> d \<Longrightarrow> 1 \<le> wb \<Longrightarrow> 2 * weight wb d \<le> 2 ^ wb"
proof -
  define k where "k = nat (min d (int wb))"
  have k: "k \<le> wb" using assms by (simp add: k_def)
  then have w: "weight wb d = 2 ^ (wb - k)"
    unfolding weight_def k_def [symmetric] by (simp add: drop_bit_eq_div push_bit_eq_mult power_diff)
  show "0 \<le> weight wb d" by (simp add: w)
  show "weight wb d \<le> 2 ^ wb" by (simp add: w power_increasing)
  assume "1 \<le> d" "1 \<le> wb"
  then have "Suc (wb - k) \<le> wb" using k by (simp add: k_def)
  then have "(2::int) ^ Suc (wb - k) \<le> 2 ^ wb" by (intro power_increasing) auto
  then show "2 * weight wb d \<le> 2 ^ wb" by (simp add: w)
qed

text \<open>What holds after the kept values \<open>kept\<close>, all of \<open>n\<close> lanes.\<close>

definition softmax_inv :: "nat \<Rightarrow> nat \<Rightarrow> int list list \<Rightarrow> softmax_state \<Rightarrow> bool" where
  "softmax_inv wb n kept st \<longleftrightarrow>
     (case st of (None, _, acc) \<Rightarrow> kept = []
      | (Some m, den, acc) \<Rightarrow>
        kept \<noteq> [] \<and> length acc = n \<and> 2 ^ wb \<le> den \<and> den \<le> int (length kept) * 2 ^ wb \<and>
        (\<forall>i < n. \<forall>lo hi. (\<forall>v \<in> set kept. lo \<le> v ! i \<and> v ! i \<le> hi) \<longrightarrow> lane_ok lo hi den (acc ! i)))"

lemma softmax_inv_step:
  assumes inv: "softmax_inv wb n kept st" and len: "length v = n" and wb: "1 \<le> wb"
  shows "softmax_inv wb n (kept @ [v]) (attention_update wb score v st)"
proof -
  obtain mx den acc where st: "st = (mx, den, acc)" by (metis prod_cases3)
  have one: "push_bit wb 1 = (2::int) ^ wb" by (simp add: push_bit_eq_mult)
  show ?thesis
  proof (cases mx)
    case None
    with inv len show ?thesis
      by (auto simp: st softmax_inv_def attention_update_def one Let_def intro!: lane_ok_start)
  next
    case (Some m)
    with inv have acc: "length acc = n" and den: "2 ^ wb \<le> den" "den \<le> int (length kept) * 2 ^ wb"
      and lanes: "\<And>i lo hi. i < n \<Longrightarrow> \<forall>v \<in> set kept. lo \<le> v ! i \<and> v ! i \<le> hi \<Longrightarrow> lane_ok lo hi den (acc ! i)"
      by (auto simp: st softmax_inv_def)
    show ?thesis
    proof (cases "m < score")
      case True
      define w where "w = weight wb (score - m)"
      have w: "0 \<le> w" "w \<le> 2 ^ wb" "2 * w \<le> 2 ^ wb"
        using weight_range [of "score - m" wb] True wb by (simp_all add: w_def)
      have "0 \<le> den * w" "den * w \<le> den * 2 ^ wb"
        using den(1) w by (auto intro!: mult_nonneg_nonneg mult_left_mono intro: order_trans [OF _ den(1)])
      then have "0 \<le> den * w div 2 ^ wb" "den * w div 2 ^ wb \<le> den"
        using zdiv_mono1 [of "den * w" "den * 2 ^ wb" "2 ^ wb"] by (simp_all add: pos_imp_zdiv_nonneg_iff)
      then have "2 ^ wb \<le> den * w div 2 ^ wb + 2 ^ wb"
        "den * w div 2 ^ wb + 2 ^ wb \<le> int (length (kept @ [v])) * 2 ^ wb"
        using den(2) by (simp_all add: distrib_right)
      moreover have "lane_ok lo hi (den * w div 2 ^ wb + 2 ^ wb) (acc ! i * w div 2 ^ wb + v ! i * 2 ^ wb)"
        if "i < n" "\<forall>v \<in> set (kept @ [v]). lo \<le> v ! i \<and> v ! i \<le> hi" for i lo hi
        using that lanes [OF that(1), of lo hi] w by (intro lane_ok_rescale) auto
      ultimately show ?thesis
        using True Some acc len
        by (auto simp: st softmax_inv_def attention_update_def one Let_def w_def [symmetric] drop_bit_eq_div)
    next
      case False
      define w where "w = weight wb (m - score)"
      have w: "0 \<le> w" "w \<le> 2 ^ wb" using weight_range [of "m - score" wb] False by (simp_all add: w_def)
      then have "2 ^ wb \<le> den + w" "den + w \<le> int (length (kept @ [v])) * 2 ^ wb"
        using den by (simp_all add: distrib_right)
      moreover have "lane_ok lo hi (den + w) (acc ! i + v ! i * w)"
        if "i < n" "\<forall>v \<in> set (kept @ [v]). lo \<le> v ! i \<and> v ! i \<le> hi" for i lo hi
        using that lanes [OF that(1), of lo hi] w by (intro lane_ok_add) auto
      ultimately show ?thesis
        using False Some acc len
        by (auto simp: st softmax_inv_def attention_update_def one Let_def w_def [symmetric])
    qed
  qed
qed

text \<open>The tokens the mask keeps, and inputs the reference accepts.\<close>

definition mask_of :: "'a list \<Rightarrow> bool list option \<Rightarrow> bool list" where
  "mask_of keys keep = (case keep of None \<Rightarrow> replicate (length keys) True | Some k \<Rightarrow> k)"

definition kept_tokens :: "int list list \<Rightarrow> int list list \<Rightarrow> bool list option \<Rightarrow> (int list \<times> int list) list" where
  "kept_tokens keys vals keep =
     map (\<lambda>(k, v, _). (k, v)) (filter (\<lambda>(_, _, include). include) (zip keys (zip vals (mask_of keys keep))))"

definition int8_list :: "int list \<Rightarrow> bool" where
  "int8_list xs \<longleftrightarrow> list_all (\<lambda>x. -128 \<le> x \<and> x \<le> 127) xs"

definition attention_input ::
  "int list \<Rightarrow> int list list \<Rightarrow> int list list \<Rightarrow> bool list option \<Rightarrow> bool"
where
  "attention_input query keys vals keep \<longleftrightarrow>
     length keys = length vals \<and> length (mask_of keys keep) = length keys \<and>
     list_all (\<lambda>item. length item = length query) (keys @ vals) \<and>
     (kept_tokens keys vals keep = [] \<or> int8_list query) \<and>
     list_all (\<lambda>(k, v). int8_list k) (kept_tokens keys vals keep)"

lemma quantized_qk_dot_ok:
  "length query = length key \<Longrightarrow> int8_list query \<Longrightarrow> int8_list key \<Longrightarrow>
     quantized_qk_dot query key = Inr (dot query key)"
  by (auto simp: quantized_qk_dot_def int8_list_def list_all_iff list_ex_iff)

text \<open>On accepted tokens the loop folds the update over the kept ones.\<close>

definition attention_fold ::
  "nat \<Rightarrow> int list \<Rightarrow> (int list \<times> int list) list \<Rightarrow> softmax_state \<Rightarrow> softmax_state"
where
  "attention_fold wb query kvs st = fold (\<lambda>(k, v). attention_update wb (dot query k) v) kvs st"

lemma attention_loop_fold:
  assumes "\<forall>(k, v, include) \<in> set ts. include \<longrightarrow> quantized_qk_dot query k = Inr (dot query k)"
  shows "attention_loop wb query ts st
    = Inr (attention_fold wb query (map (\<lambda>(k, v, _). (k, v)) (filter (\<lambda>(_, _, include). include) ts)) st)"
  using assms
  by (induction wb query ts st rule: attention_loop.induct) (auto simp: attention_fold_def)

lemma attention_fold_inv:
  assumes "\<forall>(k, v) \<in> set kvs. length v = n" and "1 \<le> wb"
  shows "softmax_inv wb n (map snd kvs) (attention_fold wb query kvs (None, 0, acc))"
  using assms(1)
proof (induction kvs rule: rev_induct)
  case Nil
  then show ?case by (simp add: softmax_inv_def attention_fold_def)
next
  case (snoc kv kvs)
  then show ?case
    using softmax_inv_step [OF _ _ assms(2), of n "map snd kvs" _ "snd kv"]
    by (cases kv) (simp add: attention_fold_def)
qed

lemma kept_tokens_set:
  "(k, v) \<in> set (kept_tokens keys vals keep) \<Longrightarrow> k \<in> set keys \<and> v \<in> set vals"
  by (auto simp: kept_tokens_def dest: set_zip_leftD set_zip_rightD)

text \<open>The reference on accepted input: fold, then divide.\<close>

definition attention_finish :: "int list \<Rightarrow> softmax_state \<Rightarrow> int list res" where
  "attention_finish query st =
     (case st of (None, _, _) \<Rightarrow> Inr (map (\<lambda>_. 0) query)
      | (Some _, den, acc) \<Rightarrow> map_res (\<lambda>total. int_of_true_division total den) acc)"

lemma rtl_online_attention_fold:
  assumes inp: "attention_input query keys vals keep" and wb: "1 \<le> weight_bits"
  shows "rtl_online_attention query keys vals keep weight_bits =
    attention_finish query
      (attention_fold (nat (weight_bits - 1)) query (kept_tokens keys vals keep) (None, 0, map (\<lambda>_. 0) query))"
proof (cases "vals = []")
  case True
  then show ?thesis using inp
    by (simp add: rtl_online_attention_def attention_finish_def kept_tokens_def attention_fold_def attention_input_def)
next
  case False
  define ts where "ts = zip keys (zip vals (mask_of keys keep))"
  have kept: "kept_tokens keys vals keep = map (\<lambda>(k, v, _). (k, v)) (filter (\<lambda>(_, _, include). include) ts)"
    by (simp add: kept_tokens_def ts_def)
  have "quantized_qk_dot query k = Inr (dot query k)" if t: "(k, v, True) \<in> set ts" for k v
  proof (rule quantized_qk_dot_ok)
    have kv: "(k, v) \<in> set (kept_tokens keys vals keep)" using t by (force simp: kept)
    then show "length query = length k" using kept_tokens_set inp by (fastforce simp: attention_input_def list_all_iff)
    show "int8_list query" "int8_list k" using kv inp by (auto simp: attention_input_def list_all_iff)
  qed
  then have loop: "attention_loop wb' query ts st = Inr (attention_fold wb' query (kept_tokens keys vals keep) st)" for wb' st
    unfolding kept by (intro attention_loop_fold) auto
  have shapes: "\<not> list_ex (\<lambda>item. length item \<noteq> length query) (keys @ vals)"
    using inp unfolding list_ex_not by (simp add: attention_input_def)
  show ?thesis
    using inp False shapes wb loop
    by (simp add: rtl_online_attention_def attention_input_def mask_of_def [symmetric] ts_def [symmetric]
        attention_finish_def shift_left_def Let_def split: prod.split option.split)
qed

section \<open>Properties\<close>

lemma division_in_range:
  assumes ok: "lane_ok lo hi den a" and big: "2 * (B + 1) < den" and B: "0 \<le> B" "\<bar>lo\<bar> \<le> B" "\<bar>hi\<bar> \<le> B" "lo \<le> hi"
    and fits: "(B + 1) * den < 2 ^ 53"
  obtains t where "int_of_true_division a den = Inr t" "lo \<le> t" "t \<le> hi"
proof -
  have den: "0 < den" using big B(1) by simp
  have "hi * den \<le> B * den" "(- B) * den \<le> lo * den" using B(2,3) den mult_right_mono [of hi B den] mult_right_mono [of "- B" lo den] by (simp_all add: abs_le_iff)
  moreover have "2 * max hi 0 < den" "2 * (\<bar>lo\<bar> + 1) < den" using big B by auto
  moreover have "a \<le> hi * den + 2 * max hi 0" "lo * den - 2 * (\<bar>lo\<bar> + 1) \<le> a"
    using ok by (auto simp: lane_ok_def split: if_splits)
  moreover have "(- B) * den = - (B * den)" by simp
  ultimately have "\<bar>a\<bar> < B * den + den" by linarith
  then have "\<bar>a\<bar> < (B + 1) * den" by (simp add: distrib_right)
  then have small: "\<bar>a\<bar> < 2 ^ 53" using fits by linarith
  have "int_of_true_division a den = Inr (sgn a * (\<bar>a\<bar> div den))"
    using int_of_true_division_exact [OF small, of den] den by simp
  with trunc_div_within [OF ok \<open>2 * max hi 0 < den\<close> \<open>2 * (\<bar>lo\<bar> + 1) < den\<close>] that show ?thesis by blast
qed

lemma attention_state:
  assumes "attention_input query keys vals keep" and "kept_tokens keys vals keep \<noteq> []"
    and "1 \<le> weight_bits" and wb: "1 \<le> nat (weight_bits - 1)"
  obtains den acc where
    "rtl_online_attention query keys vals keep weight_bits = map_res (\<lambda>total. int_of_true_division total den) acc"
    "length acc = length query" "2 ^ nat (weight_bits - 1) \<le> den"
    "den \<le> int (length (kept_tokens keys vals keep)) * 2 ^ nat (weight_bits - 1)"
    "\<And>i lo hi. i < length query \<Longrightarrow> \<forall>v \<in> snd ` set (kept_tokens keys vals keep). lo \<le> v ! i \<and> v ! i \<le> hi \<Longrightarrow>
       lane_ok lo hi den (acc ! i)"
proof -
  define kvs where "kvs = kept_tokens keys vals keep"
  have lens: "\<forall>(k, v) \<in> set kvs. length v = length query"
    using assms(1) kept_tokens_set by (fastforce simp: kvs_def attention_input_def list_all_iff)
  obtain mx den acc where st: "attention_fold (nat (weight_bits - 1)) query kvs (None, 0, map (\<lambda>_. 0) query) = (mx, den, acc)"
    by (metis prod_cases3)
  note inv = attention_fold_inv [OF lens wb, of query "map (\<lambda>_. 0) query", unfolded st]
  show ?thesis
  proof (cases mx)
    case None
    with inv assms(2) show ?thesis by (simp add: softmax_inv_def kvs_def)
  next
    case (Some m)
    show ?thesis
    proof (rule that)
      show "rtl_online_attention query keys vals keep weight_bits = map_res (\<lambda>total. int_of_true_division total den) acc"
        using rtl_online_attention_fold [OF assms(1,3)] st Some by (simp add: attention_finish_def kvs_def)
    qed (use inv Some in \<open>simp_all add: softmax_inv_def kvs_def\<close>)
  qed
qed

lemma attention_lane:
  assumes lanes: "\<And>lo hi. \<forall>v \<in> vs. lo \<le> v ! i \<and> v ! i \<le> hi \<Longrightarrow> lane_ok lo hi den a"
    and vs: "finite vs" "vs \<noteq> {}" and size: "\<And>v. v \<in> vs \<Longrightarrow> \<bar>v ! i\<bar> \<le> B" and B: "0 \<le> B"
    and big: "2 * (B + 1) < den" and fits: "(B + 1) * den < 2 ^ 53"
  obtains t u w where "int_of_true_division a den = Inr t" "u \<in> vs" "u ! i \<le> t" "w \<in> vs" "t \<le> w ! i"
proof -
  define xs where "xs = (\<lambda>v. v ! i) ` vs"
  have xs: "finite xs" "xs \<noteq> {}" using vs by (auto simp: xs_def)
  have "\<forall>v \<in> vs. Min xs \<le> v ! i \<and> v ! i \<le> Max xs" using xs(1) by (auto simp: xs_def)
  from lanes [OF this] have ok: "lane_ok (Min xs) (Max xs) den a" .
  have "Min xs \<in> xs" "Max xs \<in> xs" using xs by simp_all
  then obtain u w where u: "u \<in> vs" "Min xs = u ! i" and w: "w \<in> vs" "Max xs = w ! i"
    by (auto simp: xs_def)
  have le: "Min xs \<le> Max xs" using xs by simp
  obtain t where "int_of_true_division a den = Inr t" "Min xs \<le> t" "t \<le> Max xs"
    by (rule division_in_range [OF ok big B _ _ le fits]) (use size u w in auto)
  with u w that show ?thesis by metis
qed

text \<open>
  C29: the online softmax is a weighted average in spite of its truncating rescales. On every
  accepted input, with values up to \<open>B\<close> in size where \<open>2 * (B + 1) < 2 ^ (weight_bits - 1)\<close> and
  the accumulators within 53 bits, it returns one number per lane, and in each lane that number
  lies between two of the values the mask keeps: no rounding of the scale-downs, of the
  denominator or of the final floating-point division leaves their range.
\<close>

theorem attention_within_kept_values:
  assumes "attention_input query keys vals keep" and "kept_tokens keys vals keep \<noteq> []"
    and "\<forall>(k, v) \<in> set (kept_tokens keys vals keep). \<forall>x \<in> set v. \<bar>x\<bar> \<le> B" and "0 \<le> B"
    and "1 \<le> weight_bits" and "2 * (B + 1) < 2 ^ nat (weight_bits - 1)"
    and "(B + 1) * (int (length (kept_tokens keys vals keep)) * 2 ^ nat (weight_bits - 1)) < 2 ^ 53"
  shows "\<exists>out. rtl_online_attention query keys vals keep weight_bits = Inr out \<and> length out = length query \<and>
     (\<forall>i < length query. (\<exists>(k, v) \<in> set (kept_tokens keys vals keep). v ! i \<le> out ! i) \<and>
        (\<exists>(k, v) \<in> set (kept_tokens keys vals keep). out ! i \<le> v ! i))"
proof -
  define kvs where "kvs = kept_tokens keys vals keep"
  have wb: "1 \<le> nat (weight_bits - 1)"
  proof (rule ccontr)
    assume "\<not> 1 \<le> nat (weight_bits - 1)"
    then have "nat (weight_bits - 1) = 0" by simp
    with assms(4,6) show False by simp
  qed
  obtain den acc where run: "rtl_online_attention query keys vals keep weight_bits
      = map_res (\<lambda>total. int_of_true_division total den) acc"
    and acc: "length acc = length query" and den: "2 ^ nat (weight_bits - 1) \<le> den"
      "den \<le> int (length kvs) * 2 ^ nat (weight_bits - 1)"
    and lanes: "\<And>i lo hi. i < length query \<Longrightarrow> \<forall>v \<in> snd ` set kvs. lo \<le> v ! i \<and> v ! i \<le> hi \<Longrightarrow>
       lane_ok lo hi den (acc ! i)"
    by (rule attention_state [OF assms(1,2,5) wb, folded kvs_def]) (rule that)
  have "(B + 1) * den \<le> (B + 1) * (int (length kvs) * 2 ^ nat (weight_bits - 1))"
    using den(2) assms(4) by (intro mult_left_mono) auto
  with assms(7) have fits: "(B + 1) * den < 2 ^ 53" by (simp add: kvs_def)
  have big: "2 * (B + 1) < den" using assms(6) den(1) by linarith
  have size: "\<bar>v ! i\<bar> \<le> B" if i: "i < length query" and v: "v \<in> snd ` set kvs" for i v
  proof -
    obtain k where k: "(k, v) \<in> set kvs" using v by auto
    then have "length v = length query"
      using assms(1) kept_tokens_set by (fastforce simp: kvs_def attention_input_def list_all_iff)
    then have "v ! i \<in> set v" using i by simp
    with k assms(3) show ?thesis by (auto simp: kvs_def)
  qed
  have lane: "\<exists>t. int_of_true_division (acc ! i) den = Inr t \<and>
      (\<exists>(k, v) \<in> set kvs. v ! i \<le> t) \<and> (\<exists>(k, v) \<in> set kvs. t \<le> v ! i)" if i: "i < length query" for i
  proof (rule attention_lane [of "snd ` set kvs" i den "acc ! i" B], goal_cases)
    case (1 lo hi)
    then show ?case by (rule lanes [OF i])
  next
    case (8 t u w)
    then show ?case by (intro exI [of _ t]) (auto intro!: bexI)
  qed (use assms(2,4) size [OF i] big fits in \<open>auto simp: kvs_def\<close>)
  then obtain f where f: "\<And>i. i < length query \<Longrightarrow> int_of_true_division (acc ! i) den = Inr (f i)"
    "\<And>i. i < length query \<Longrightarrow> (\<exists>(k, v) \<in> set kvs. v ! i \<le> f i) \<and> (\<exists>(k, v) \<in> set kvs. f i \<le> v ! i)"
    by metis
  have "map_res (\<lambda>total. int_of_true_division total den) acc = Inr (map f [0..<length query])"
    using f(1) acc by (simp add: map_res_Inr list_all2_conv_all_nth)
  with run f(2) show ?thesis by (intro exI [of _ "map f [0..<length query]"]) (simp add: kvs_def)
qed

theorem attention_within_kept_values_witness:
  "\<exists>out. rtl_online_attention [2, -1] [[1, 0], [2, -1], [100, 3]] [[4, 1], [6, -2], [99, 99]]
       (Some [True, True, False]) 16 = Inr out \<and>
     length out = 2 \<and> 4 \<le> out ! 0 \<and> out ! 0 \<le> 6 \<and> -2 \<le> out ! 1 \<and> out ! 1 \<le> 1"
proof -
  have kept: "kept_tokens [[1, 0], [2, -1], [100, 3]] [[4, 1], [6, -2], [99, 99]] (Some [True, True, False])
      = [([1, 0], [4, 1]), ([2, -1], [6, -2])]" by (simp add: kept_tokens_def mask_of_def)
  have "attention_input [2, -1] [[1, 0], [2, -1], [100, 3]] [[4, 1], [6, -2], [99, 99]] (Some [True, True, False])"
    by (simp add: attention_input_def kept mask_of_def int8_list_def)
  from attention_within_kept_values [OF this, of 6 16, unfolded kept]
  obtain out where out: "rtl_online_attention [2, -1] [[1, 0], [2, -1], [100, 3]] [[4, 1], [6, -2], [99, 99]]
      (Some [True, True, False]) 16 = Inr out" "length out = 2"
    and b: "\<forall>i<2. (\<exists>(k, v) \<in> set [([1, 0 :: int], [4, 1]), ([2, -1], [6, -2])]. v ! i \<le> out ! i) \<and>
      (\<exists>(k, v) \<in> set [([1, 0 :: int], [4, 1]), ([2, -1], [6, -2])]. out ! i \<le> v ! i)"
    by auto
  have "4 \<le> out ! 0 \<and> out ! 0 \<le> 6" using b [rule_format, of 0] by auto
  moreover have "-2 \<le> out ! 1 \<and> out ! 1 \<le> 1" using b [rule_format, of 1] by auto
  ultimately show ?thesis using out by blast
qed

text \<open>
  C30: a masked token has no effect at all. Running the reference with a mask is the same as
  dropping the masked keys and values and running it without one, also when nothing is left.
\<close>

theorem attention_mask_is_filter:
  assumes "attention_input query keys vals keep" and "1 \<le> weight_bits"
  shows "rtl_online_attention query keys vals keep weight_bits =
    rtl_online_attention query (map fst (kept_tokens keys vals keep)) (map snd (kept_tokens keys vals keep)) None weight_bits"
proof -
  define kvs where "kvs = kept_tokens keys vals keep"
  have all: "kept_tokens (map fst kvs) (map snd kvs) None = kvs"
  proof -
    have "filter (\<lambda>(_, _, i). i) (zip (map fst xs) (zip (map snd xs) (replicate (length xs) True)))
        = zip (map fst xs) (zip (map snd xs) (replicate (length xs) True))" for xs :: "(int list \<times> int list) list"
      by (induction xs) auto
    moreover have "map (\<lambda>(k, v, _). (k, v)) (zip (map fst xs) (zip (map snd xs) (replicate (length xs) True))) = xs"
      for xs :: "(int list \<times> int list) list" by (induction xs) auto
    ultimately show ?thesis by (simp add: kept_tokens_def mask_of_def)
  qed
  have "length item = length query" if "item \<in> set (map fst kvs @ map snd kvs)" for item
    using that assms(1) kept_tokens_set by (fastforce simp: kvs_def attention_input_def list_all_iff)
  then have "attention_input query (map fst kvs) (map snd kvs) None"
    using assms(1) unfolding attention_input_def all kvs_def [symmetric] by (simp add: mask_of_def list_all_iff)
  from rtl_online_attention_fold [OF this assms(2)] rtl_online_attention_fold [OF assms] show ?thesis
    by (simp add: all kvs_def [symmetric])
qed

theorem attention_mask_is_filter_witness:
  "rtl_online_attention [2, -1] [[1, 0], [900, -1], [3, 3]] [[4, 1], [6, -2], [9, 9]] (Some [True, False, True]) 16
     = rtl_online_attention [2, -1] [[1, 0], [3, 3]] [[4, 1], [9, 9]] None 16"
proof -
  have kept: "kept_tokens [[1, 0], [900, -1], [3, 3]] [[4, 1], [6, -2], [9, 9]] (Some [True, False, True])
      = [([1, 0], [4, 1]), ([3, 3], [9, 9])]" by (simp add: kept_tokens_def mask_of_def)
  have "attention_input [2, -1] [[1, 0], [900, -1], [3, 3]] [[4, 1], [6, -2], [9, 9]] (Some [True, False, True])"
    by (simp add: attention_input_def kept mask_of_def int8_list_def)
  from attention_mask_is_filter [OF this, of 16] show ?thesis by (simp add: kept)
qed

text \<open>The two-pass softmax with the same weights, relative to the score \<open>best\<close>.\<close>

definition two_pass_denominator :: "nat \<Rightarrow> int list \<Rightarrow> int \<Rightarrow> (int list \<times> int list) list \<Rightarrow> int" where
  "two_pass_denominator wb query best kvs = (\<Sum>(k, v) \<leftarrow> kvs. weight wb (best - dot query k))"

definition two_pass_total :: "nat \<Rightarrow> int list \<Rightarrow> int \<Rightarrow> (int list \<times> int list) list \<Rightarrow> nat \<Rightarrow> int" where
  "two_pass_total wb query best kvs i = (\<Sum>(k, v) \<leftarrow> kvs. v ! i * weight wb (best - dot query k))"

lemma attention_fold_two_pass:
  assumes "\<forall>(k, v) \<in> set kvs. length v = length acc \<and> dot query k \<le> m"
  shows "attention_fold wb query kvs (Some m, den, acc) =
    (Some m, den + two_pass_denominator wb query m kvs,
     map (\<lambda>i. acc ! i + two_pass_total wb query m kvs i) [0..<length acc])"
  using assms
proof (induction kvs arbitrary: den acc)
  case Nil
  then show ?case
    by (simp add: attention_fold_def two_pass_denominator_def two_pass_total_def map_nth)
next
  case (Cons kv kvs)
  obtain k v where kv: "kv = (k, v)" by fastforce
  define w where "w = weight wb (m - dot query k)"
  define acc1 where "acc1 = map (\<lambda>(total, item). total + item * w) (zip acc v)"
  have len: "length v = length acc" "length acc1 = length acc" using Cons.prems kv by (simp_all add: acc1_def)
  have "attention_update wb (dot query k) v (Some m, den, acc) = (Some m, den + w, acc1)"
    using Cons.prems by (simp add: attention_update_def kv w_def acc1_def Let_def)
  then have "attention_fold wb query (kv # kvs) (Some m, den, acc) = attention_fold wb query kvs (Some m, den + w, acc1)"
    by (simp add: attention_fold_def kv)
  also have "\<dots> = (Some m, den + w + two_pass_denominator wb query m kvs,
      map (\<lambda>i. acc1 ! i + two_pass_total wb query m kvs i) [0..<length acc1])"
    using Cons.prems len by (intro Cons.IH) auto
  also have "\<dots> = (Some m, den + two_pass_denominator wb query m (kv # kvs),
      map (\<lambda>i. acc ! i + two_pass_total wb query m (kv # kvs) i) [0..<length acc])"
    using len by (simp add: two_pass_denominator_def two_pass_total_def kv w_def acc1_def)
  finally show ?case .
qed

text \<open>
  C31: with the best key first, online equals two-pass. If no kept score exceeds that of the first
  kept token, the single pass computes exactly the two-pass softmax: each lane is the sum of the
  values times their weights over the sum of the weights, every weight taken at the distance
  from the maximum.
\<close>

theorem attention_two_pass:
  assumes "attention_input query keys vals keep" and "1 \<le> weight_bits"
    and "kept_tokens keys vals keep = (k0, v0) # rest"
    and "\<forall>(k, v) \<in> set rest. dot query k \<le> dot query k0"
  shows "rtl_online_attention query keys vals keep weight_bits =
    map_res (\<lambda>i. int_of_true_division
        (two_pass_total (nat (weight_bits - 1)) query (dot query k0) ((k0, v0) # rest) i)
        (two_pass_denominator (nat (weight_bits - 1)) query (dot query k0) ((k0, v0) # rest)))
      [0..<length query]"
proof -
  define wb where "wb = nat (weight_bits - 1)"
  have len: "\<forall>(k, v) \<in> set ((k0, v0) # rest). length v = length query"
    using assms(1) kept_tokens_set [of _ _ keys vals keep] unfolding assms(3) 
    by (fastforce simp: attention_input_def list_all_iff)
  have w0: "weight wb 0 = push_bit wb 1" by (simp add: weight_def)
  define acc0 where "acc0 = map (\<lambda>item. item * push_bit wb 1) v0"
  have acc0: "length acc0 = length query" using len by (simp add: acc0_def)
  have "attention_fold wb query ((k0, v0) # rest) (None, 0, map (\<lambda>_. 0) query)
      = attention_fold wb query rest (Some (dot query k0), push_bit wb 1, acc0)"
    by (simp add: attention_fold_def attention_update_def acc0_def Let_def)
  also have "\<dots> = (Some (dot query k0), push_bit wb 1 + two_pass_denominator wb query (dot query k0) rest,
      map (\<lambda>i. acc0 ! i + two_pass_total wb query (dot query k0) rest i) [0..<length acc0])"
    using len acc0 assms(4) by (intro attention_fold_two_pass) auto
  also have "\<dots> = (Some (dot query k0), two_pass_denominator wb query (dot query k0) ((k0, v0) # rest),
      map (two_pass_total wb query (dot query k0) ((k0, v0) # rest)) [0..<length query])"
    using len acc0 by (simp add: two_pass_denominator_def two_pass_total_def w0 acc0_def)
  finally have "rtl_online_attention query keys vals keep weight_bits =
      map_res (\<lambda>total. int_of_true_division total (two_pass_denominator wb query (dot query k0) ((k0, v0) # rest)))
        (map (two_pass_total wb query (dot query k0) ((k0, v0) # rest)) [0..<length query])"
    using rtl_online_attention_fold [OF assms(1,2)] assms(3) by (simp add: attention_finish_def wb_def)
  moreover have "map_res f (map g xs) = map_res (\<lambda>x. f (g x)) xs"
    for f :: "int \<Rightarrow> int res" and g and xs :: "nat list" by (induction xs) (simp_all split: sum.split)
  ultimately show ?thesis by (simp add: wb_def)
qed

theorem attention_two_pass_witness:
  "rtl_online_attention [2, -1] [[3, 3], [1, 0]] [[4, 1], [9, 9]] None 16 =
    map_res (\<lambda>i. int_of_true_division
        (two_pass_total 15 [2, -1] 3 [([3, 3], [4, 1]), ([1, 0], [9, 9])] i)
        (two_pass_denominator 15 [2, -1] 3 [([3, 3], [4, 1]), ([1, 0], [9, 9])])) [0, 1]"
proof -
  have kept: "kept_tokens [[3, 3], [1, 0]] [[4, 1], [9, 9]] None = ([3, 3], [4, 1]) # [([1, 0], [9, 9])]"
    by (simp add: kept_tokens_def mask_of_def)
  have "attention_input [2, -1] [[3, 3], [1, 0]] [[4, 1], [9, 9]] None"
    by (simp add: attention_input_def kept mask_of_def int8_list_def)
  from attention_two_pass [OF this _ kept, of 16] show ?thesis by (simp add: dot_def upt_rec)
qed

end
