(* ===== verification/Memory.thy ===== *)
theory Memory
  imports Prelude "HOL-Library.AList"
begin

text \<open>
  \<open>fpga/memory.py\<close>: the external-memory proxy with its host tier, migration and eviction.

  A \<open>dict\<close> keeps insertion order and updates in place, which is what an association list with
  \<open>AList.update\<close> does. The payload of a page has any type. \<open>Page\<close> objects are only reachable
  through the dictionary, so the fields the code assigns are fields of the entry.
\<close>

section \<open>State\<close>

record memory_timing =
  mt_clock_hz :: int
  mt_local_read_cycles :: int
  mt_host_read_cycles :: int
  mt_migration_setup_cycles :: int
  mt_bytes_per_cycle :: int

definition default_timing :: memory_timing where
  "default_timing =
     \<lparr>mt_clock_hz = 100000000, mt_local_read_cycles = 12, mt_host_read_cycles = 80,
      mt_migration_setup_cycles = 24, mt_bytes_per_cycle = 16\<rparr>"

record 'p page =
  pg_virtual_page :: int
  pg_payload :: 'p
  pg_size_bytes :: int
  pg_tier :: string
  pg_physical_page :: int

record 'p memory =
  mem_local_pages :: int
  mem_timing :: memory_timing
  mem_pages :: "(int \<times> 'p page) list"
  mem_next_physical :: int
  mem_page_faults :: int
  mem_migrations :: int
  mem_bytes_migrated :: int

section \<open>Operations\<close>

definition migration_cycles :: "memory_timing \<Rightarrow> int \<Rightarrow> int res" where
  "migration_cycles t size_bytes =
     (if mt_bytes_per_cycle t = 0 then Inl ZeroDivisionError
      else let beats = (size_bytes + mt_bytes_per_cycle t - 1) div mt_bytes_per_cycle t in
        Inr (mt_migration_setup_cycles t + mt_host_read_cycles t + beats))"

definition ExternalMemory_init :: "int \<Rightarrow> memory_timing option \<Rightarrow> 'p memory res" where
  "ExternalMemory_init local_pages timing =
     (if local_pages \<le> 0 then Inl ValueError
      else Inr \<lparr>mem_local_pages = local_pages,
                mem_timing = (case timing of None \<Rightarrow> default_timing | Some t \<Rightarrow> t),
                mem_pages = [], mem_next_physical = 0, mem_page_faults = 0, mem_migrations = 0,
                mem_bytes_migrated = 0\<rparr>)"

definition is_local :: "'p page \<Rightarrow> bool" where
  "is_local pg \<longleftrightarrow> pg_tier pg = ''local''"

definition local_resident :: "'p memory \<Rightarrow> int" where
  "local_resident m = sum_list (map (\<lambda>(_, pg). if is_local pg then 1 else 0) (mem_pages m))"

definition allocate_physical :: "'p memory \<Rightarrow> int \<times> 'p memory" where
  "allocate_physical m = (mem_next_physical m, m\<lparr>mem_next_physical := mem_next_physical m + 1\<rparr>)"

definition map_page :: "int \<Rightarrow> 'p \<Rightarrow> int \<Rightarrow> string \<Rightarrow> 'p memory \<Rightarrow> unit res \<times> 'p memory" where
  "map_page virtual_page payload size_bytes tier m =
     (if virtual_page < 0 \<or> size_bytes \<le> 0 then (Inl ValueError, m)
      else if tier \<notin> set [''local'', ''host''] then (Inl ValueError, m)
      else if tier = ''local'' \<and> local_resident m \<ge> mem_local_pages m then (Inl MemoryError, m)
      else case (if tier = ''local'' then allocate_physical m else (-1, m)) of (physical, m1) \<Rightarrow>
        (Inr (), m1\<lparr>mem_pages := AList.update virtual_page
           \<lparr>pg_virtual_page = virtual_page, pg_payload = payload, pg_size_bytes = size_bytes,
            pg_tier = tier, pg_physical_page = physical\<rparr> (mem_pages m1)\<rparr>))"

definition to_host :: "'p page \<Rightarrow> 'p page" where
  "to_host pg = pg\<lparr>pg_tier := ''host'', pg_physical_page := -1\<rparr>"

text \<open>The victim of an eviction: \<open>min\<close> raises \<open>ValueError\<close> on an empty sequence.\<close>

definition victim_of :: "'p memory \<Rightarrow> int res" where
  "victim_of m =
     (case map (\<lambda>(_, pg). pg_virtual_page pg) (filter (\<lambda>(_, pg). is_local pg) (mem_pages m)) of
        [] \<Rightarrow> Inl ValueError | v # vs \<Rightarrow> Inr (fold min vs v))"

definition evict :: "'p memory \<Rightarrow> unit res \<times> 'p memory" where
  "evict m =
     (case victim_of m of Inl e \<Rightarrow> (Inl e, m)
      | Inr victim \<Rightarrow>
        (case map_of (mem_pages m) victim of None \<Rightarrow> (Inl KeyError, m)
         | Some pg \<Rightarrow> (Inr (), m\<lparr>mem_pages := AList.update victim (to_host pg) (mem_pages m)\<rparr>)))"

text \<open>\<open>if self.local_resident >= self.local_pages\<close>: evict a page.\<close>

definition make_room :: "'p memory \<Rightarrow> unit res \<times> 'p memory" where
  "make_room m = (if local_resident m \<ge> mem_local_pages m then evict m else (Inr (), m))"

definition ensure_local :: "int \<Rightarrow> 'p memory \<Rightarrow> ('p page \<times> int \<times> bool) res \<times> 'p memory" where
  "ensure_local virtual_page m =
     (let m1 = m\<lparr>mem_page_faults := mem_page_faults m + 1\<rparr> in
      case map_of (mem_pages m) virtual_page of None \<Rightarrow> (Inl KeyError, m1)
      | Some pg \<Rightarrow>
        if is_local pg then (Inr (pg, mt_local_read_cycles (mem_timing m), False), m)
        else
          (case make_room m1 of
             (Inl e, m2) \<Rightarrow> (Inl e, m2)
           | (Inr _, m2) \<Rightarrow>
             (case allocate_physical m2 of (physical, m3) \<Rightarrow>
                let pg' = pg\<lparr>pg_tier := ''local'', pg_physical_page := physical\<rparr>;
                    m4 = m3\<lparr>mem_pages := AList.update virtual_page pg' (mem_pages m3),
                            mem_migrations := mem_migrations m3 + 1,
                            mem_bytes_migrated := mem_bytes_migrated m3 + pg_size_bytes pg\<rparr> in
                (case migration_cycles (mem_timing m4) (pg_size_bytes pg) of
                   Inl e \<Rightarrow> (Inl e, m4) | Inr cycles \<Rightarrow> (Inr (pg', cycles, True), m4)))))"

text \<open>\<open>FpgaPrototypeDevice.migrate_to_host\<close>, which acts on the memory only.\<close>

definition migrate_to_host :: "int \<Rightarrow> 'p memory \<Rightarrow> unit res \<times> 'p memory" where
  "migrate_to_host virtual_page m =
     (case map_of (mem_pages m) virtual_page of None \<Rightarrow> (Inl KeyError, m)
      | Some pg \<Rightarrow> (Inr (), m\<lparr>mem_pages := AList.update virtual_page (to_host pg) (mem_pages m)\<rparr>))"

section \<open>Well-formed memories\<close>

definition residents :: "'p memory \<Rightarrow> int set" where
  "residents m = {v. \<exists>pg. map_of (mem_pages m) v = Some pg \<and> is_local pg}"

text \<open>
  Every page is filed under its own number; resident pages have physical pages of their own, handed
  out before \<open>mem_next_physical\<close>, host pages have none; and no more pages are resident than the
  local memory holds.
\<close>

definition memory_wf :: "'p memory \<Rightarrow> bool" where
  "memory_wf m \<longleftrightarrow>
     0 < mem_local_pages m \<and> 0 \<le> mem_next_physical m \<and> distinct (map fst (mem_pages m)) \<and>
     (\<forall>v pg. map_of (mem_pages m) v = Some pg \<longrightarrow> pg_virtual_page pg = v \<and>
        (if is_local pg then 0 \<le> pg_physical_page pg \<and> pg_physical_page pg < mem_next_physical m
         else pg_tier pg = ''host'' \<and> pg_physical_page pg = -1)) \<and>
     (\<forall>v w pg pg'. map_of (mem_pages m) v = Some pg \<longrightarrow> map_of (mem_pages m) w = Some pg' \<longrightarrow>
        is_local pg \<longrightarrow> is_local pg' \<longrightarrow> pg_physical_page pg = pg_physical_page pg' \<longrightarrow> v = w) \<and>
     int (card (residents m)) \<le> mem_local_pages m"

lemma finite_residents [simp, intro]: "finite (residents m)"
proof (rule finite_subset)
  show "residents m \<subseteq> dom (map_of (mem_pages m))" by (auto simp: residents_def)
qed (rule finite_dom_map_of)

lemma local_resident_card:
  assumes "distinct (map fst (mem_pages m))"
  shows "local_resident m = int (card (residents m))"
proof -
  have "sum_list (map (\<lambda>(_, pg). if is_local pg then 1 else 0) ps)
      = int (card {v. \<exists>pg. map_of ps v = Some pg \<and> is_local pg})"
    if "distinct (map fst ps)" for ps :: "(int \<times> 'a page) list"
    using that
  proof (induction ps)
    case (Cons p ps)
    obtain v pg where p: "p = (v, pg)" by fastforce
    have fresh: "map_of ps v = None" using Cons.prems p by (simp add: map_of_eq_None_iff)
    define A where "A = {w. \<exists>q. map_of ps w = Some q \<and> is_local q}"
    have A: "finite A" "v \<notin> A"
      using fresh by (auto simp: A_def intro: finite_subset [OF _ finite_dom_map_of [of ps]])
    have "{w. \<exists>q. map_of (p # ps) w = Some q \<and> is_local q} = (if is_local pg then insert v A else A)"
      using fresh by (auto simp: p A_def)
    moreover have "sum_list (map (\<lambda>(_, pg). if is_local pg then 1 else 0) ps) = int (card A)"
      using Cons by (simp add: A_def del: map_of_eq_Some_iff)
    ultimately show ?case using A by (simp add: p del: map_of_eq_Some_iff)
  qed simp
  from this [OF assms] show ?thesis by (simp add: local_resident_def residents_def)
qed

text \<open>Storing a page.\<close>

definition put :: "int \<Rightarrow> 'p page \<Rightarrow> 'p memory \<Rightarrow> 'p memory" where
  "put v pg m = m\<lparr>mem_pages := AList.update v pg (mem_pages m)\<rparr>"

lemma put_sel [simp]:
  "map_of (mem_pages (put v pg m)) = (map_of (mem_pages m))(v \<mapsto> pg)"
  "mem_local_pages (put v pg m) = mem_local_pages m" "mem_timing (put v pg m) = mem_timing m"
  "mem_next_physical (put v pg m) = mem_next_physical m" "mem_page_faults (put v pg m) = mem_page_faults m"
  "mem_migrations (put v pg m) = mem_migrations m" "mem_bytes_migrated (put v pg m) = mem_bytes_migrated m"
  by (simp_all add: put_def AList.update_conv')

lemma distinct_put: "distinct (map fst (mem_pages m)) \<Longrightarrow> distinct (map fst (mem_pages (put v pg m)))"
  by (simp add: put_def AList.distinct_update)

lemma residents_put:
  "residents (put v pg m) = (if is_local pg then insert v (residents m) else residents m - {v})"
  by (auto simp: residents_def)

lemma to_host_sel [simp]:
  "\<not> is_local (to_host pg)" "pg_virtual_page (to_host pg) = pg_virtual_page pg"
  "pg_tier (to_host pg) = ''host''" "pg_physical_page (to_host pg) = -1"
  "pg_payload (to_host pg) = pg_payload pg" "pg_size_bytes (to_host pg) = pg_size_bytes pg"
  by (simp_all add: to_host_def is_local_def)

text \<open>The parts of \<open>memory_wf\<close>, to take apart and put together.\<close>

lemma memory_wfD:
  assumes "memory_wf m"
  shows "0 < mem_local_pages m" "0 \<le> mem_next_physical m" "distinct (map fst (mem_pages m))"
    "\<And>v pg. map_of (mem_pages m) v = Some pg \<Longrightarrow> pg_virtual_page pg = v"
    "\<And>v pg. map_of (mem_pages m) v = Some pg \<Longrightarrow> is_local pg \<Longrightarrow>
       0 \<le> pg_physical_page pg \<and> pg_physical_page pg < mem_next_physical m"
    "\<And>v pg. map_of (mem_pages m) v = Some pg \<Longrightarrow> \<not> is_local pg \<Longrightarrow> pg_tier pg = ''host'' \<and> pg_physical_page pg = -1"
    "\<And>v w pg pg'. map_of (mem_pages m) v = Some pg \<Longrightarrow> map_of (mem_pages m) w = Some pg' \<Longrightarrow>
       is_local pg \<Longrightarrow> is_local pg' \<Longrightarrow> pg_physical_page pg = pg_physical_page pg' \<Longrightarrow> v = w"
    "int (card (residents m)) \<le> mem_local_pages m"
proof -
  have rest: "pg_virtual_page pg = v \<and> (if is_local pg
      then 0 \<le> pg_physical_page pg \<and> pg_physical_page pg < mem_next_physical m
      else pg_tier pg = ''host'' \<and> pg_physical_page pg = -1)" if "map_of (mem_pages m) v = Some pg" for v pg
    using assms that unfolding memory_wf_def by blast
  show "pg_virtual_page pg = v" if "map_of (mem_pages m) v = Some pg" for v pg using rest [OF that] by blast
  show "0 \<le> pg_physical_page pg \<and> pg_physical_page pg < mem_next_physical m"
    if "map_of (mem_pages m) v = Some pg" "is_local pg" for v pg using rest [OF that(1)] that(2) by simp
  show "pg_tier pg = ''host'' \<and> pg_physical_page pg = -1"
    if "map_of (mem_pages m) v = Some pg" "\<not> is_local pg" for v pg using rest [OF that(1)] that(2) by simp
qed (use assms in \<open>unfold memory_wf_def, blast+\<close>)

lemma memory_wfI:
  assumes "0 < mem_local_pages m" "0 \<le> mem_next_physical m" "distinct (map fst (mem_pages m))"
    and "\<And>v pg. map_of (mem_pages m) v = Some pg \<Longrightarrow> pg_virtual_page pg = v"
    and "\<And>v pg. map_of (mem_pages m) v = Some pg \<Longrightarrow> is_local pg \<Longrightarrow>
       0 \<le> pg_physical_page pg \<and> pg_physical_page pg < mem_next_physical m"
    and "\<And>v pg. map_of (mem_pages m) v = Some pg \<Longrightarrow> \<not> is_local pg \<Longrightarrow> pg_tier pg = ''host'' \<and> pg_physical_page pg = -1"
    and "\<And>v w pg pg'. map_of (mem_pages m) v = Some pg \<Longrightarrow> map_of (mem_pages m) w = Some pg' \<Longrightarrow>
       is_local pg \<Longrightarrow> is_local pg' \<Longrightarrow> pg_physical_page pg = pg_physical_page pg' \<Longrightarrow> v = w"
    and "int (card (residents m)) \<le> mem_local_pages m"
  shows "memory_wf m"
  unfolding memory_wf_def
proof (intro conjI allI impI)
  fix v pg assume pg: "map_of (mem_pages m) v = Some pg"
  show "if is_local pg then 0 \<le> pg_physical_page pg \<and> pg_physical_page pg < mem_next_physical m
      else pg_tier pg = ''host'' \<and> pg_physical_page pg = -1"
  proof (cases "is_local pg")
    case True
    with assms(5) [OF pg True] show ?thesis by simp
  next
    case False
    with assms(6) [OF pg False] show ?thesis by simp
  qed
qed (rule assms; assumption?)+

lemma memory_wf_host:
  assumes wf: "memory_wf m" and pg: "\<not> is_local pg" "pg_tier pg = ''host''" "pg_physical_page pg = -1" "pg_virtual_page pg = v"
  shows "memory_wf (put v pg m)"
proof (rule memory_wfI)
  have "card (residents m - {v}) \<le> card (residents m)" by (simp add: card_mono)
  then show "int (card (residents (put v pg m))) \<le> mem_local_pages (put v pg m)"
    using memory_wfD(8) [OF wf] pg(1) by (simp add: residents_put)
  show "distinct (map fst (mem_pages (put v pg m)))" by (rule distinct_put [OF memory_wfD(3) [OF wf]])
  show "x = w" if "map_of (mem_pages (put v pg m)) x = Some q" "map_of (mem_pages (put v pg m)) w = Some q'"
      "is_local q" "is_local q'" "pg_physical_page q = pg_physical_page q'" for x w q q'
    using that pg(1) memory_wfD(7) [OF wf, of x q w q'] by (simp split: if_splits)
next
  fix x q assume q: "map_of (mem_pages (put v pg m)) x = Some q"
  show "pg_virtual_page q = x" using q pg memory_wfD(4) [OF wf, of x q] by (simp split: if_splits)
  show "0 \<le> pg_physical_page q \<and> pg_physical_page q < mem_next_physical (put v pg m)" if "is_local q"
    using q that pg memory_wfD(5) [OF wf, of x q] by (simp split: if_splits)
  show "pg_tier q = ''host'' \<and> pg_physical_page q = -1" if "\<not> is_local q"
    using q that pg memory_wfD(6) [OF wf, of x q] by (simp split: if_splits)
qed (use memory_wfD(1,2) [OF wf] in simp_all)

lemma memory_wf_local:
  assumes wf: "memory_wf m" and room: "int (card (residents m)) < mem_local_pages m"
    and pg: "is_local pg" "pg_physical_page pg = mem_next_physical m" "pg_virtual_page pg = v"
  shows "memory_wf (put v pg m\<lparr>mem_next_physical := mem_next_physical m + 1\<rparr>)" (is "memory_wf ?m")
proof (rule memory_wfI)
  have "residents ?m = insert v (residents m)"
    using residents_put [of v pg m] pg(1) by (simp add: residents_def)
  moreover have "card (insert v (residents m)) \<le> Suc (card (residents m))" by (rule card_insert_le_m1) simp_all
  ultimately show "int (card (residents ?m)) \<le> mem_local_pages ?m" using room by simp
  show "distinct (map fst (mem_pages ?m))" using distinct_put [OF memory_wfD(3) [OF wf]] by simp
  have split: "x = v \<and> q = pg \<or> x \<noteq> v \<and> map_of (mem_pages m) x = Some q"
    if "map_of (mem_pages ?m) x = Some q" for x q
    using that by (cases "x = v") simp_all
  show "x = w" if x: "map_of (mem_pages ?m) x = Some q" and w: "map_of (mem_pages ?m) w = Some q'"
      and l: "is_local q" "is_local q'" and phys: "pg_physical_page q = pg_physical_page q'" for x w q q'
    using split [OF x] split [OF w]
  proof (elim disjE conjE)
    assume *: "x \<noteq> v" "map_of (mem_pages m) x = Some q" "w \<noteq> v" "map_of (mem_pages m) w = Some q'"
    show ?thesis using memory_wfD(7) [OF wf *(2,4) l phys] .
  next
    assume *: "x \<noteq> v" "map_of (mem_pages m) x = Some q" "w = v" "q' = pg"
    show ?thesis using memory_wfD(5) [OF wf *(2) l(1)] phys pg(2) *(4) by simp
  next
    assume *: "x = v" "q = pg" "w \<noteq> v" "map_of (mem_pages m) w = Some q'"
    show ?thesis using memory_wfD(5) [OF wf *(4) l(2)] phys pg(2) *(2) by simp
  qed simp
  show "0 \<le> pg_physical_page q \<and> pg_physical_page q < mem_next_physical ?m"
    if x: "map_of (mem_pages ?m) x = Some q" and l: "is_local q" for x q
    using split [OF x]
  proof (elim disjE conjE)
    assume "map_of (mem_pages m) x = Some q"
    with memory_wfD(5) [OF wf this l] show ?thesis by simp
  qed (use pg(2) memory_wfD(2) [OF wf] in simp)
  show "pg_virtual_page q = x" if x: "map_of (mem_pages ?m) x = Some q" for x q
    using split [OF x] memory_wfD(4) [OF wf, of x q] pg(3) by (elim disjE conjE) simp_all
  show "pg_tier q = ''host'' \<and> pg_physical_page q = -1"
    if x: "map_of (mem_pages ?m) x = Some q" and l: "\<not> is_local q" for x q
    using split [OF x]
  proof (elim disjE conjE)
    assume "map_of (mem_pages m) x = Some q"
    then show ?thesis using memory_wfD(6) [OF wf _ l] by blast
  qed (use pg(1) l in simp)
qed (use memory_wfD(1,2) [OF wf] in simp_all)

text \<open>Counters are no part of it.\<close>

definition same_pages :: "'p memory \<Rightarrow> 'p memory \<Rightarrow> bool" where
  "same_pages m m' \<longleftrightarrow> mem_pages m' = mem_pages m \<and> mem_local_pages m' = mem_local_pages m \<and>
     mem_next_physical m' = mem_next_physical m"

lemma memory_wf_same: "same_pages m m' \<Longrightarrow> memory_wf m' = memory_wf m"
  "same_pages m m' \<Longrightarrow> residents m' = residents m"
  by (simp_all add: memory_wf_def residents_def same_pages_def)

section \<open>Eviction\<close>

lemma resident_pages:
  assumes "memory_wf m"
  shows "set (map (\<lambda>(_, pg). pg_virtual_page pg) (filter (\<lambda>(_, pg). is_local pg) (mem_pages m))) = residents m"
proof -
  have "(v, pg) \<in> set (mem_pages m) \<longleftrightarrow> map_of (mem_pages m) v = Some pg" for v pg
    using memory_wfD(3) [OF assms] by simp
  then show ?thesis
    using memory_wfD(4) [OF assms] by (force simp: residents_def image_iff)
qed

lemma victim_of_wf:
  assumes "memory_wf m" and "residents m \<noteq> {}"
  shows "victim_of m = Inr (Min (residents m))"
proof -
  obtain v vs where vs: "map (\<lambda>(_, pg). pg_virtual_page pg) (filter (\<lambda>(_, pg). is_local pg) (mem_pages m)) = v # vs"
    using resident_pages [OF assms(1)] assms(2) by (metis list.exhaust list.set(1))
  then have "residents m = set (v # vs)" using resident_pages [OF assms(1)] by simp
  then have "Min (residents m) = fold min vs v" by (simp only: Min.set_eq_fold)
  then show ?thesis using vs by (simp add: victim_of_def)
qed

lemma evict_wf:
  assumes wf: "memory_wf m" and ne: "residents m \<noteq> {}"
  obtains pg where "map_of (mem_pages m) (Min (residents m)) = Some pg" "is_local pg"
    "evict m = (Inr (), put (Min (residents m)) (to_host pg) m)"
    "memory_wf (put (Min (residents m)) (to_host pg) m)"
proof -
  have "Min (residents m) \<in> residents m" using ne by simp
  then obtain pg where pg: "map_of (mem_pages m) (Min (residents m)) = Some pg" "is_local pg"
    by (auto simp: residents_def)
  show ?thesis
  proof (rule that [OF pg])
    show "evict m = (Inr (), put (Min (residents m)) (to_host pg) m)"
      using victim_of_wf [OF assms] pg by (simp add: evict_def put_def)
    show "memory_wf (put (Min (residents m)) (to_host pg) m)"
      using memory_wfD(4) [OF wf pg(1)] by (intro memory_wf_host [OF wf]) simp_all
  qed
qed

section \<open>Making a page resident\<close>

text \<open>The set of resident pages after \<open>ensure_local v\<close>.\<close>

definition residents_after :: "int \<Rightarrow> 'p memory \<Rightarrow> int set" where
  "residents_after v m =
     (if v \<in> residents m then residents m
      else if int (card (residents m)) < mem_local_pages m then insert v (residents m)
      else insert v (residents m - {Min (residents m)}))"

text \<open>Nothing happened to the pages but that those of \<open>S\<close> went to the host tier.\<close>

definition demoted :: "int set \<Rightarrow> 'p memory \<Rightarrow> 'p memory \<Rightarrow> bool" where
  "demoted S m m' \<longleftrightarrow>
     (\<forall>w. map_of (mem_pages m') w = (if w \<in> S then map_option to_host else id) (map_of (mem_pages m) w))"

lemma make_room_wf:
  assumes wf: "memory_wf m"
  obtains m' where "make_room m = (Inr (), m')" "memory_wf m'"
    "int (card (residents m')) < mem_local_pages m'" "residents m' \<subseteq> residents m"
    "residents m' = (if int (card (residents m)) < mem_local_pages m then residents m
       else residents m - {Min (residents m)})"
    "demoted (residents m - residents m') m m'"
    "m' = m\<lparr>mem_pages := mem_pages m'\<rparr>"
proof (cases "int (card (residents m)) < mem_local_pages m")
  case True
  then show ?thesis
    using wf local_resident_card [OF memory_wfD(3) [OF wf]]
    by (intro that [of m]) (simp_all add: make_room_def demoted_def)
next
  case False
  then have ne: "residents m \<noteq> {}" using memory_wfD(1) [OF wf] by auto
  have "Min (residents m) \<in> residents m" using ne by simp
  then have less: "card (residents m - {Min (residents m)}) < card (residents m)"
    by (intro psubset_card_mono) auto
  obtain pg where pg: "map_of (mem_pages m) (Min (residents m)) = Some pg"
    "evict m = (Inr (), put (Min (residents m)) (to_host pg) m)"
    "memory_wf (put (Min (residents m)) (to_host pg) m)"
    by (rule evict_wf [OF wf ne])
  show ?thesis
  proof (rule that [of "put (Min (residents m)) (to_host pg) m"])
    show "make_room m = (Inr (), put (Min (residents m)) (to_host pg) m)"
      using False pg(2) local_resident_card [OF memory_wfD(3) [OF wf]] by (simp add: make_room_def)
    show "demoted (residents m - residents (put (Min (residents m)) (to_host pg) m)) m
        (put (Min (residents m)) (to_host pg) m)"
      using pg(1) \<open>Min (residents m) \<in> residents m\<close> by (auto simp: demoted_def residents_put)
    show "put (Min (residents m)) (to_host pg) m
        = m\<lparr>mem_pages := mem_pages (put (Min (residents m)) (to_host pg) m)\<rparr>" by (simp add: put_def)
  qed (use pg(3) False less memory_wfD(8) [OF wf] in \<open>auto simp: residents_put\<close>)
qed

text \<open>A host page: what the state is just before the cycle count.\<close>

lemma ensure_local_host:
  assumes wf: "memory_wf m" and v: "map_of (mem_pages m) v = Some pg" and host: "\<not> is_local pg"
  obtains m' pg' where
    "ensure_local v m = (case migration_cycles (mem_timing m) (pg_size_bytes pg) of
       Inl e \<Rightarrow> (Inl e, m') | Inr cycles \<Rightarrow> (Inr (pg', cycles, True), m'))"
    "memory_wf m'" "residents m' = residents_after v m" "map_of (mem_pages m') v = Some pg'"
    "pg_payload pg' = pg_payload pg" "pg_size_bytes pg' = pg_size_bytes pg" "is_local pg'"
    "\<And>w. w \<noteq> v \<Longrightarrow> map_of (mem_pages m') w =
       (if w \<in> residents m - residents_after v m then map_option to_host else id) (map_of (mem_pages m) w)"
    "mem_timing m' = mem_timing m" "mem_local_pages m' = mem_local_pages m"
    "mem_page_faults m' = mem_page_faults m + 1" "mem_migrations m' = mem_migrations m + 1"
    "mem_bytes_migrated m' = mem_bytes_migrated m + pg_size_bytes pg"
proof -
  define m1 where "m1 = m\<lparr>mem_page_faults := mem_page_faults m + 1\<rparr>"
  have same1: "same_pages m m1" by (simp add: same_pages_def m1_def)
  have wf1: "memory_wf m1" and res1: "residents m1 = residents m" using memory_wf_same [OF same1] wf by simp_all
  have cap1: "mem_local_pages m1 = mem_local_pages m" by (simp add: m1_def)
  have notin: "v \<notin> residents m" using v host by (simp add: residents_def)
  obtain m2 where m2: "make_room m1 = (Inr (), m2)" "memory_wf m2"
    "int (card (residents m2)) < mem_local_pages m2" "residents m2 \<subseteq> residents m"
    "residents m2 = (if int (card (residents m)) < mem_local_pages m then residents m
       else residents m - {Min (residents m)})"
    "demoted (residents m - residents m2) m1 m2" "m2 = m1\<lparr>mem_pages := mem_pages m2\<rparr>"
    by (rule make_room_wf [OF wf1, unfolded res1 cap1]) (rule that)
  define pg' where "pg' = pg\<lparr>pg_tier := ''local'', pg_physical_page := mem_next_physical m2\<rparr>"
  define m3 where "m3 = put v pg' m2\<lparr>mem_next_physical := mem_next_physical m2 + 1\<rparr>"
  define m4 where "m4 = m3\<lparr>mem_migrations := mem_migrations m2 + 1, mem_bytes_migrated := mem_bytes_migrated m2 + pg_size_bytes pg\<rparr>"
  have timing: "mem_timing m2 = mem_timing m" "mem_local_pages m2 = mem_local_pages m"
    "mem_page_faults m2 = mem_page_faults m + 1" "mem_migrations m2 = mem_migrations m"
    "mem_bytes_migrated m2 = mem_bytes_migrated m"
    by (subst m2(7), simp add: m1_def)+
  have run: "ensure_local v m = (case migration_cycles (mem_timing m) (pg_size_bytes pg) of
       Inl e \<Rightarrow> (Inl e, m4) | Inr cycles \<Rightarrow> (Inr (pg', cycles, True), m4))"
    using m2(1) v host timing
    by (cases "migration_cycles (mem_timing m) (pg_size_bytes pg)")
      (simp_all add: ensure_local_def m1_def [symmetric] Let_def allocate_physical_def m4_def m3_def pg'_def put_def)
  have vp: "pg_virtual_page pg' = v" using memory_wfD(4) [OF wf v] by (simp add: pg'_def)
  have loc: "is_local pg'" by (simp add: pg'_def is_local_def)
  have "memory_wf m3"
    unfolding m3_def using m2(2,3) loc vp by (intro memory_wf_local) (simp_all add: pg'_def)
  moreover have same4: "same_pages m3 m4" by (simp add: same_pages_def m4_def)
  ultimately have wf4: "memory_wf m4" using memory_wf_same by blast
  have "residents m3 = insert v (residents m2)"
    using residents_put [of v pg' m2] loc by (simp add: m3_def residents_def)
  then have res4: "residents m4 = residents_after v m"
    using memory_wf_same(2) [OF same4] m2(5) notin by (simp add: residents_after_def)
  have other: "map_of (mem_pages m4) w =
      (if w \<in> residents m - residents_after v m then map_option to_host else id) (map_of (mem_pages m) w)"
    if "w \<noteq> v" for w
  proof -
    have "w \<in> residents m - residents m2 \<longleftrightarrow> w \<in> residents m - residents_after v m"
      using that m2(5) notin by (auto simp: residents_after_def)
    moreover have "map_of (mem_pages m4) w = map_of (mem_pages m2) w" using that by (simp add: m4_def m3_def)
    ultimately show ?thesis using m2(6) by (simp add: demoted_def m1_def)
  qed
  show ?thesis
    by (rule that [OF run wf4 res4 _ _ _ loc other])
      (simp_all add: m4_def m3_def timing pg'_def)
qed

section \<open>What the memory promises\<close>

text \<open>Calls of a client, with the exceptions it catches left out.\<close>

datatype 'p mem_op = Map_Page int 'p int string | Ensure_Local int | Migrate_To_Host int

definition mem_step :: "'p mem_op \<Rightarrow> 'p memory \<Rightarrow> 'p memory" where
  "mem_step op m =
     (case op of
        Map_Page v payload sz tier \<Rightarrow> snd (map_page v payload sz tier m)
      | Ensure_Local v \<Rightarrow> snd (ensure_local v m)
      | Migrate_To_Host v \<Rightarrow> snd (migrate_to_host v m))"

definition mem_run :: "'p mem_op list \<Rightarrow> 'p memory \<Rightarrow> 'p memory" where
  "mem_run ops m = fold mem_step ops m"

lemma ensure_local_miss: "map_of (mem_pages m) v = None \<Longrightarrow>
    ensure_local v m = (Inl KeyError, m\<lparr>mem_page_faults := mem_page_faults m + 1\<rparr>)"
  by (simp add: ensure_local_def)

lemma ensure_local_hit: "map_of (mem_pages m) v = Some pg \<Longrightarrow> is_local pg \<Longrightarrow>
    ensure_local v m = (Inr (pg, mt_local_read_cycles (mem_timing m), False), m)"
  by (simp add: ensure_local_def)

lemma memory_wf_init: "ExternalMemory_init n t = Inr m \<Longrightarrow> memory_wf m"
proof -
  assume "ExternalMemory_init n t = Inr m"
  then have "0 < mem_local_pages m" "mem_pages m = []" "mem_next_physical m = 0"
    by (cases "n \<le> 0"; force simp: ExternalMemory_init_def)+
  then show ?thesis by (simp add: memory_wf_def residents_def)
qed

lemma memory_wf_map_page:
  assumes wf: "memory_wf m"
  shows "memory_wf (snd (map_page v payload sz tier m))"
proof (cases "v < 0 \<or> sz \<le> 0 \<or> tier \<notin> set [''local'', ''host''] \<or>
    tier = ''local'' \<and> local_resident m \<ge> mem_local_pages m")
  case True
  then show ?thesis using wf by (auto simp: map_page_def)
next
  case False
  define pg where "pg physical = \<lparr>pg_virtual_page = v, pg_payload = payload, pg_size_bytes = sz,
      pg_tier = tier, pg_physical_page = physical\<rparr>" for physical
  show ?thesis
  proof (cases "tier = ''local''")
    case True
    with False have "snd (map_page v payload sz tier m)
        = put v (pg (mem_next_physical m)) m\<lparr>mem_next_physical := mem_next_physical m + 1\<rparr>"
      by (simp add: map_page_def allocate_physical_def put_def pg_def)
    moreover have "memory_wf \<dots>"
      using True False local_resident_card [OF memory_wfD(3) [OF wf]]
      by (intro memory_wf_local [OF wf]) (simp_all add: pg_def is_local_def)
    ultimately show ?thesis by simp
  next
    case host: False
    with False have tier: "tier = ''host''" by simp
    with False have "snd (map_page v payload sz tier m) = put v (pg (-1)) m"
      by (simp add: map_page_def put_def pg_def)
    moreover have "memory_wf \<dots>"
      using tier by (intro memory_wf_host [OF wf]) (simp_all add: pg_def is_local_def)
    ultimately show ?thesis by simp
  qed
qed

lemma memory_wf_ensure_local:
  assumes wf: "memory_wf m"
  shows "memory_wf (snd (ensure_local v m))"
proof (cases "map_of (mem_pages m) v")
  case None
  moreover have "memory_wf (m\<lparr>mem_page_faults := mem_page_faults m + 1\<rparr>)"
    using wf by (subst memory_wf_same(1) [of m]) (simp_all add: same_pages_def)
  ultimately show ?thesis by (simp add: ensure_local_miss)
next
  case (Some pg)
  show ?thesis
  proof (cases "is_local pg")
    case True
    then show ?thesis using wf Some by (simp add: ensure_local_hit)
  next
    case False
    obtain m' pg' where m': "ensure_local v m = (case migration_cycles (mem_timing m) (pg_size_bytes pg) of
       Inl e \<Rightarrow> (Inl e, m') | Inr cycles \<Rightarrow> (Inr (pg', cycles, True), m'))" "memory_wf m'"
      by (rule ensure_local_host [OF wf Some False])
    then show ?thesis by (simp split: sum.split)
  qed
qed

lemma memory_wf_migrate_to_host:
  assumes wf: "memory_wf m"
  shows "memory_wf (snd (migrate_to_host v m))"
proof (cases "map_of (mem_pages m) v")
  case (Some pg)
  then have "snd (migrate_to_host v m) = put v (to_host pg) m" by (simp add: migrate_to_host_def put_def)
  moreover have "memory_wf \<dots>" using memory_wfD(4) [OF wf Some] by (intro memory_wf_host [OF wf]) simp_all
  ultimately show ?thesis by simp
qed (simp add: migrate_to_host_def wf)

lemma memory_wf_run: "memory_wf m \<Longrightarrow> memory_wf (mem_run ops m)"
  unfolding mem_run_def
proof (induction ops arbitrary: m)
  case (Cons op ops)
  have "memory_wf (mem_step op m)"
    using Cons.prems
    by (cases op) (simp_all add: mem_step_def memory_wf_map_page memory_wf_ensure_local memory_wf_migrate_to_host)
  then show ?case using Cons.IH by simp
qed simp

text \<open>
  C26: the memory stays within its capacity. After any sequence of calls on a new
  memory, failed ones included, no more than \<open>local_pages\<close> pages are resident, every page is filed
  under its own number, two resident pages never share a physical page, and a page in the host
  tier has none.
\<close>

theorem residency_invariant:
  assumes "ExternalMemory_init n timing = Inr m0" and "m = mem_run ops m0"
  shows "local_resident m \<le> mem_local_pages m \<and>
    (\<forall>v pg. map_of (mem_pages m) v = Some pg \<longrightarrow> pg_virtual_page pg = v \<and>
       (if is_local pg then 0 \<le> pg_physical_page pg \<and> pg_physical_page pg < mem_next_physical m
        else pg_tier pg = ''host'' \<and> pg_physical_page pg = -1)) \<and>
    (\<forall>v w pg pg'. map_of (mem_pages m) v = Some pg \<longrightarrow> map_of (mem_pages m) w = Some pg' \<longrightarrow>
       is_local pg \<longrightarrow> is_local pg' \<longrightarrow> pg_physical_page pg = pg_physical_page pg' \<longrightarrow> v = w)"
proof -
  have wf: "memory_wf m" unfolding assms(2) by (intro memory_wf_run memory_wf_init [OF assms(1)])
  then show ?thesis
    using local_resident_card [of m] unfolding memory_wf_def by (intro conjI) (elim conjE; assumption | simp)+
qed

definition demo_memory :: "string memory" where
  "demo_memory = mem_run [Map_Page 1 ''a'' 32 ''local'', Map_Page 2 ''b'' 4096 ''host'', Map_Page 3 ''c'' 17 ''host'']
     \<lparr>mem_local_pages = 2, mem_timing = default_timing, mem_pages = [], mem_next_physical = 0,
      mem_page_faults = 0, mem_migrations = 0, mem_bytes_migrated = 0\<rparr>"

theorem residency_invariant_witness:
  "local_resident (mem_run [Map_Page 7 ''x'' 16 ''host'', Ensure_Local 7]
     \<lparr>mem_local_pages = 1, mem_timing = default_timing, mem_pages = [], mem_next_physical = 0,
      mem_page_faults = 0, mem_migrations = 0, mem_bytes_migrated = 0\<rparr>) \<le> 1"
proof -
  have "ExternalMemory_init 1 None = Inr \<lparr>mem_local_pages = 1, mem_timing = default_timing, mem_pages = [],
      mem_next_physical = 0, mem_page_faults = 0, mem_migrations = 0, mem_bytes_migrated = 0\<rparr>"
    by (simp add: ExternalMemory_init_def)
  from residency_invariant [OF this refl, of "[Map_Page 7 ''x'' 16 ''host'', Ensure_Local 7]", THEN conjunct1]
  show ?thesis by (rule order.trans) code_simp
qed

text \<open>What a call of \<open>ensure_local\<close> on a mapped page answers.\<close>

definition fetched :: "int \<Rightarrow> 'p page \<Rightarrow> 'p memory \<Rightarrow> 'p page \<Rightarrow> int \<Rightarrow> bool \<Rightarrow> 'p memory \<Rightarrow> bool" where
  "fetched v pg m pg' cycles migrated m' \<longleftrightarrow>
     migrated = (\<not> is_local pg) \<and> is_local pg' \<and> map_of (mem_pages m') v = Some pg' \<and>
     pg_payload pg' = pg_payload pg \<and> pg_size_bytes pg' = pg_size_bytes pg \<and>
     cycles = (if is_local pg then mt_local_read_cycles (mem_timing m)
       else mt_migration_setup_cycles (mem_timing m) + mt_host_read_cycles (mem_timing m) +
         (pg_size_bytes pg + mt_bytes_per_cycle (mem_timing m) - 1) div mt_bytes_per_cycle (mem_timing m)) \<and>
     residents m' = residents_after v m \<and>
     (\<forall>w. w = v \<or> map_of (mem_pages m') w =
        (if w \<in> residents m - residents_after v m then map_option to_host else id) (map_of (mem_pages m) w)) \<and>
     mem_page_faults m' = mem_page_faults m + of_bool migrated \<and>
     mem_migrations m' = mem_migrations m + of_bool migrated \<and>
     mem_bytes_migrated m' = mem_bytes_migrated m + (if migrated then pg_size_bytes pg else 0)"

text \<open>
  C27: what \<open>ensure_local\<close> does, in every reachable memory whose timing has a positive
  bandwidth. An unmapped page raises \<open>KeyError\<close> and counts one fault. A mapped page comes back
  resident with its payload and size; a resident one costs a local read and nothing changes, a
  host page costs setup, host read and \<open>\<lceil>size / bytes_per_cycle\<rceil>\<close> beats and counts one fault, one migration
  and its bytes. The only other page that may change is the lowest-numbered resident one, which
  goes to the host exactly when the local memory was full.
\<close>

theorem ensure_local_outcome:
  assumes "ExternalMemory_init n timing = Inr m0" and "m = mem_run ops m0"
    and "0 < mt_bytes_per_cycle (mem_timing m)"
  shows "case map_of (mem_pages m) v of
      None \<Rightarrow> ensure_local v m = (Inl KeyError, m\<lparr>mem_page_faults := mem_page_faults m + 1\<rparr>)
    | Some pg \<Rightarrow> (case ensure_local v m of (Inl _, _) \<Rightarrow> False
        | (Inr (pg', cycles, migrated), m') \<Rightarrow> fetched v pg m pg' cycles migrated m')"
proof (cases "map_of (mem_pages m) v")
  case (Some pg)
  have wf: "memory_wf m" unfolding assms(2) by (intro memory_wf_run memory_wf_init [OF assms(1)])
  show ?thesis
  proof (cases "is_local pg")
    case True
    then have "v \<in> residents m" using Some by (simp add: residents_def)
    then show ?thesis using True Some by (simp add: ensure_local_hit fetched_def residents_after_def)
  next
    case False
    obtain m' pg' where run: "ensure_local v m = (case migration_cycles (mem_timing m) (pg_size_bytes pg) of
         Inl e \<Rightarrow> (Inl e, m') | Inr cycles \<Rightarrow> (Inr (pg', cycles, True), m'))"
      and post: "residents m' = residents_after v m" "map_of (mem_pages m') v = Some pg'"
        "pg_payload pg' = pg_payload pg" "pg_size_bytes pg' = pg_size_bytes pg" "is_local pg'"
        "mem_page_faults m' = mem_page_faults m + 1" "mem_migrations m' = mem_migrations m + 1"
        "mem_bytes_migrated m' = mem_bytes_migrated m + pg_size_bytes pg"
      and other: "\<And>w. w \<noteq> v \<Longrightarrow> map_of (mem_pages m') w =
         (if w \<in> residents m - residents_after v m then map_option to_host else id) (map_of (mem_pages m) w)"
      by (rule ensure_local_host [OF wf Some False]) blast
    have "fetched v pg m pg' cycles True m'" if "migration_cycles (mem_timing m) (pg_size_bytes pg) = Inr cycles" for cycles
    proof -
      have "w = v \<or> map_of (mem_pages m') w =
         (if w \<in> residents m - residents_after v m then map_option to_host else id) (map_of (mem_pages m) w)" for w
        using other by blast
      then show ?thesis using that post False unfolding fetched_def
        by (simp add: migration_cycles_def Let_def split: if_splits)
    qed
    then show ?thesis using run Some assms(3) by (simp add: migration_cycles_def Let_def)
  qed
qed (simp add: ensure_local_miss)

theorem ensure_local_outcome_witness:
  "case ensure_local 3 (mem_run [Ensure_Local 2] demo_memory) of (Inl _, _) \<Rightarrow> False
     | (Inr (pg', cycles, migrated), m') \<Rightarrow> pg_payload pg' = ''c'' \<and> cycles = 24 + 80 + 2 \<and> migrated \<and>
         residents m' = {2, 3}"
proof -
  have init: "ExternalMemory_init 2 None = Inr (\<lparr>mem_local_pages = 2, mem_timing = default_timing, mem_pages = [],
      mem_next_physical = 0, mem_page_faults = 0, mem_migrations = 0, mem_bytes_migrated = 0\<rparr> :: string memory)"
    by (simp add: ExternalMemory_init_def)
  define m where "m = mem_run [Ensure_Local 2] demo_memory"
  have m: "m = mem_run [Map_Page 1 ''a'' 32 ''local'', Map_Page 2 ''b'' 4096 ''host'', Map_Page 3 ''c'' 17 ''host'',
      Ensure_Local 2] \<lparr>mem_local_pages = 2, mem_timing = default_timing, mem_pages = [],
      mem_next_physical = 0, mem_page_faults = 0, mem_migrations = 0, mem_bytes_migrated = 0\<rparr>"
    by (simp add: m_def demo_memory_def mem_run_def)
  have cyc: "0 < mt_bytes_per_cycle (mem_timing m)" unfolding m by code_simp
  have ev: "m = \<lparr>mem_local_pages = 2, mem_timing = default_timing, mem_pages =
      [(1, \<lparr>pg_virtual_page = 1, pg_payload = ''a'', pg_size_bytes = 32, pg_tier = ''local'', pg_physical_page = 0\<rparr>),
       (2, \<lparr>pg_virtual_page = 2, pg_payload = ''b'', pg_size_bytes = 4096, pg_tier = ''local'', pg_physical_page = 1\<rparr>),
       (3, \<lparr>pg_virtual_page = 3, pg_payload = ''c'', pg_size_bytes = 17, pg_tier = ''host'', pg_physical_page = -1\<rparr>)],
      mem_next_physical = 2, mem_page_faults = 1, mem_migrations = 1, mem_bytes_migrated = 4096\<rparr>"
    unfolding m by code_simp
  have res: "residents m = {1, 2}" unfolding residents_def by (auto simp: ev is_local_def split: if_splits)
  have facts: "map_of (mem_pages m) 3 = Some \<lparr>pg_virtual_page = 3, pg_payload = ''c'', pg_size_bytes = 17,
      pg_tier = ''host'', pg_physical_page = -1\<rparr>" "mem_timing m = default_timing" "mem_local_pages m = 2"
    by (simp_all add: ev default_timing_def)
  show ?thesis
    using ensure_local_outcome [OF init m cyc, of 3]
    unfolding m_def [symmetric]
    by (cases "ensure_local 3 m"; cases "fst (ensure_local 3 m)")
      (auto simp: facts is_local_def fetched_def residents_after_def res default_timing_def)
qed

text \<open>
  a working set that fits migrates once. In every reachable memory, a sequence of
  \<open>ensure_local\<close> calls on mapped pages that fit into the local memory together with what is
  resident migrates each page at most once, at its first use, and evicts nothing: the
  migration count grows by the number of distinct pages that were not resident.
\<close>

theorem working_set_migrates_once:
  assumes "ExternalMemory_init n timing = Inr m0" and "m = mem_run ops m0"
    and "set vs \<subseteq> dom (map_of (mem_pages m))"
    and "int (card (residents m \<union> set vs)) \<le> mem_local_pages m"
  shows "mem_migrations (mem_run (map Ensure_Local vs) m) = mem_migrations m + int (card (set vs - residents m))
    \<and> residents (mem_run (map Ensure_Local vs) m) = residents m \<union> set vs"
proof -
  have "mem_migrations (mem_run (map Ensure_Local vs) m) = mem_migrations m + int (card (set vs - residents m))
      \<and> residents (mem_run (map Ensure_Local vs) m) = residents m \<union> set vs"
    if "memory_wf m" "set vs \<subseteq> dom (map_of (mem_pages m))" "int (card (residents m \<union> set vs)) \<le> mem_local_pages m"
    for m :: "'a memory"
    using that
  proof (induction vs arbitrary: m)
    case (Cons v vs)
    define m' where "m' = mem_step (Ensure_Local v) m"
    have run: "mem_run (map Ensure_Local (v # vs)) m = mem_run (map Ensure_Local vs) m'"
      by (simp add: mem_run_def m'_def)
    obtain pg where pg: "map_of (mem_pages m) v = Some pg" using Cons.prems(2) by auto
    show ?case
    proof (cases "is_local pg")
      case True
      then have "m' = m" "v \<in> residents m"
        using pg by (simp_all add: m'_def mem_step_def ensure_local_hit residents_def)
      with Cons show ?thesis unfolding run by (simp add: insert_absorb insert_Diff_if)
    next
      case False
      then have notin: "v \<notin> residents m" using pg by (simp add: residents_def)
      have "card (insert v (residents m)) \<le> card (residents m \<union> set (v # vs))"
        by (intro card_mono) auto
      then have room: "int (card (residents m)) < mem_local_pages m" using notin Cons.prems(3) by simp
      then have after: "residents_after v m = insert v (residents m)" using notin by (simp add: residents_after_def)
      obtain m1 pg' where m1: "ensure_local v m = (case migration_cycles (mem_timing m) (pg_size_bytes pg) of
         Inl e \<Rightarrow> (Inl e, m1) | Inr cycles \<Rightarrow> (Inr (pg', cycles, True), m1))" "memory_wf m1"
        "residents m1 = residents_after v m" "map_of (mem_pages m1) v = Some pg'"
        "\<And>w. w \<noteq> v \<Longrightarrow> map_of (mem_pages m1) w =
           (if w \<in> residents m - residents_after v m then map_option to_host else id) (map_of (mem_pages m) w)"
        "mem_local_pages m1 = mem_local_pages m" "mem_migrations m1 = mem_migrations m + 1"
        by (rule ensure_local_host [OF Cons.prems(1) pg False]) (rule that)
      have "m' = m1" using m1(1) by (simp add: m'_def mem_step_def split: sum.split)
      moreover have "set vs \<subseteq> dom (map_of (mem_pages m1))"
      proof
        fix t assume "t \<in> set vs"
        then show "t \<in> dom (map_of (mem_pages m1))"
          using Cons.prems(2) m1(4) m1(5) [of t] by (cases "t = v") (auto simp: subset_iff)
      qed
      moreover have union: "residents m1 \<union> set vs = residents m \<union> set (v # vs)" using m1(3) after by auto
      ultimately have IH: "mem_migrations (mem_run (map Ensure_Local vs) m') = mem_migrations m1 + int (card (set vs - residents m1))"
        "residents (mem_run (map Ensure_Local vs) m') = residents m1 \<union> set vs"
        using Cons.IH [of m1] m1(2,6) Cons.prems(3) by simp_all
      have "set (v # vs) - residents m = insert v (set vs - residents m1)" using m1(3) after notin by auto
      then have "card (set (v # vs) - residents m) = Suc (card (set vs - residents m1))"
        using m1(3) after by simp
      with IH m1(7) union run show ?thesis by simp
    qed
  qed (simp add: mem_run_def)
  moreover have "memory_wf m" unfolding assms(2) by (intro memory_wf_run memory_wf_init [OF assms(1)])
  ultimately show ?thesis using assms(3,4) by blast
qed

theorem working_set_migrates_once_witness:
  "mem_migrations (mem_run (map Ensure_Local [2, 1, 2, 2, 1, 2]) demo_memory) = 1"
proof -
  have init: "ExternalMemory_init 2 None = Inr (\<lparr>mem_local_pages = 2, mem_timing = default_timing, mem_pages = [],
      mem_next_physical = 0, mem_page_faults = 0, mem_migrations = 0, mem_bytes_migrated = 0\<rparr> :: string memory)"
    by (simp add: ExternalMemory_init_def)
  have ev: "demo_memory = \<lparr>mem_local_pages = 2, mem_timing = default_timing, mem_pages =
      [(1, \<lparr>pg_virtual_page = 1, pg_payload = ''a'', pg_size_bytes = 32, pg_tier = ''local'', pg_physical_page = 0\<rparr>),
       (2, \<lparr>pg_virtual_page = 2, pg_payload = ''b'', pg_size_bytes = 4096, pg_tier = ''host'', pg_physical_page = -1\<rparr>),
       (3, \<lparr>pg_virtual_page = 3, pg_payload = ''c'', pg_size_bytes = 17, pg_tier = ''host'', pg_physical_page = -1\<rparr>)],
      mem_next_physical = 1, mem_page_faults = 0, mem_migrations = 0, mem_bytes_migrated = 0\<rparr>"
    by code_simp
  have res: "residents demo_memory = {1}" unfolding residents_def by (auto simp: ev is_local_def split: if_splits)
  have set: "set [2, 1, 2, 2, 1, 2] = {1, 2 :: int}" by auto
  have pages: "set [2, 1, 2, 2, 1, 2] \<subseteq> dom (map_of (mem_pages demo_memory))" unfolding set by (simp add: ev)
  have fits: "int (card (residents demo_memory \<union> set [2, 1, 2, 2, 1, 2])) \<le> mem_local_pages demo_memory"
    unfolding res set by (simp add: ev insert_commute)
  show ?thesis
    using working_set_migrates_once [OF init demo_memory_def pages fits] unfolding res set
    by (simp add: ev insert_Diff_if insert_commute)
qed

end
