(* ===== verification/Prototype.thy ===== *)
theory Prototype
  imports Service TensorRef AttentionRef Memory
begin

text \<open>
  \<open>fpga/prototype.py\<close>: the FPGA backend, a subclass of \<open>RcifDevice\<close> whose \<open>_execute_graph\<close> runs
  DMA, attention and tensor nodes on the external memory and accounts their cycles.

  The record \<open>fpga\<close> extends \<open>device\<close> by the subclass's attributes. The payload of a page is the
  pair \<open>(keys, values)\<close> of \<open>ToyModel\<close>; \<open>records\<close> and \<open>outputs\<close> are maps from request ids.
\<close>

section \<open>Data\<close>

definition GRAPH_FLAG_TENSOR_USE_PREVIOUS :: int where "GRAPH_FLAG_TENSOR_USE_PREVIOUS = 0x8"

record toy_model =
  tm_query :: "int list"
  tm_keys :: "int list list"
  tm_values :: "int list list"
  tm_packed_rows :: "int list"
  tm_scales_q8_8 :: "int list"
  tm_biases :: "int list"

definition DEFAULT_TOY_MODEL :: toy_model where
  "DEFAULT_TOY_MODEL =
     \<lparr>tm_query = [2, -1, 3, 1],
      tm_keys = [[1, 0, 1, 0], [2, -1, 2, 1], [-1, 1, 0, 2], [3, 0, 2, -1]],
      tm_values = [[4, 1, -2, 3], [6, 2, 0, 4], [-2, 5, 1, 0], [8, -1, 3, 2]],
      tm_packed_rows = [0x01010101, 0x01FF0100, 0x000101FF, 0xFF010001],
      tm_scales_q8_8 = [256, 256, 256, 256], tm_biases = [0, 0, 0, 0]\<rparr>"

record exec_record =
  er_request_id :: int
  er_cycles :: int
  er_predicted_cycles :: int
  er_output :: "int list"
  er_page_faults :: int
  er_migrations :: int

type_synonym kv_payload = "int list list \<times> int list list"

record fpga = device +
  fp_memory :: "kv_payload memory"
  fp_model :: toy_model
  fp_records :: "int \<rightharpoonup> exec_record"
  fp_outputs :: "int \<rightharpoonup> int list"

definition build_toy_graph :: "int \<Rightarrow> graph_node list" where
  "build_toy_graph kv_virtual_page =
     (let attention_config = 1 OR push_bit 3 1 OR push_bit 7 1 OR push_bit 10 4 in
      [mk_node (graph_opcode_value DMA) 0 0 kv_virtual_page,
       mk_node (graph_opcode_value ATTENTION) 1 1 attention_config,
       (mk_node (graph_opcode_value TENSOR) 2 2 0)\<lparr>gn_flags := GRAPH_FLAG_TENSOR_USE_PREVIOUS\<rparr>,
       mk_node (graph_opcode_value COMPLETE) 3 4 0])"

definition DMA_BASE_CYCLES :: int where "DMA_BASE_CYCLES = 6"
definition ATTENTION_BASE_CYCLES :: int where "ATTENTION_BASE_CYCLES = 9"
definition ATTENTION_TOKEN_CYCLES :: int where "ATTENTION_TOKEN_CYCLES = 3"
definition TENSOR_CYCLES :: int where "TENSOR_CYCLES = 12"
definition NODE_SCHEDULER_CYCLES :: int where "NODE_SCHEDULER_CYCLES = 2"

lemmas cycle_constants = DMA_BASE_CYCLES_def ATTENTION_BASE_CYCLES_def ATTENTION_TOKEN_CYCLES_def
  TENSOR_CYCLES_def NODE_SCHEDULER_CYCLES_def

text \<open>\<open>super().__init__()\<close>, the memory, and the page of the model's keys and values.\<close>

definition FpgaPrototypeDevice_init :: "int \<Rightarrow> memory_timing option \<Rightarrow> toy_model \<Rightarrow> fpga res" where
  "FpgaPrototypeDevice_init local_pages timing model =
     (case ExternalMemory_init local_pages timing of Inl e \<Rightarrow> Inl e
      | Inr m \<Rightarrow>
        (case map_page 1 (tm_keys model, tm_values model) 32 ''host'' m of
           (Inl e, _) \<Rightarrow> Inl e
         | (Inr _, m1) \<Rightarrow>
             Inr (device.extend (RcifDevice_init 1)
                    (fpga.fields m1 model Map.empty Map.empty))))"

text \<open>\<open>for index, value in enumerate(values): packed |= (value & 0xFFFF) << (index * 16)\<close>\<close>

definition pack_int16 :: "int list \<Rightarrow> int" where
  "pack_int16 vals =
     fold (\<lambda>(index, v) packed. packed OR push_bit (index * 16) (v AND 0xFFFF)) (enumerate 0 vals) 0"

section \<open>The graph engine\<close>

text \<open>The local variables of \<open>_execute_graph\<close> that change from node to node, and the device.\<close>

record fp_run =
  fr_device :: fpga
  fr_result :: int
  fr_cycles :: int
  fr_predicted :: int
  fr_output :: "int list"
  fr_attention :: "int list option"

definition charge :: "int \<Rightarrow> int \<Rightarrow> fp_run \<Rightarrow> fp_run" where
  "charge c p s = s\<lparr>fr_cycles := fr_cycles s + c, fr_predicted := fr_predicted s + p\<rparr>"

definition mix :: "int \<Rightarrow> fp_run \<Rightarrow> fp_run" where
  "mix x s = s\<lparr>fr_result := fr_result s XOR x\<rparr>"

text \<open>
  What \<open>DMA\<close> and \<open>ATTENTION\<close> share: read the tier and the size of the page, make it local, count a
  migration as a recovered fault, and look up what the timing model predicts.
\<close>

definition fetch_page :: "int \<Rightarrow> fpga \<Rightarrow> (kv_payload page \<times> int \<times> int) res \<times> fpga" where
  "fetch_page v d =
     (case map_of (mem_pages (fp_memory d)) v of None \<Rightarrow> (Inl KeyError, d)
      | Some pg0 \<Rightarrow>
        let was_local = is_local pg0; size_bytes = pg_size_bytes pg0 in
        (case ensure_local v (fp_memory d) of
           (Inl e, m) \<Rightarrow> (Inl e, d\<lparr>fp_memory := m\<rparr>)
         | (Inr (pg, memory_cycles, migrated), m) \<Rightarrow>
             let d1 = d\<lparr>fp_memory := m\<rparr>;
                 d2 = (if migrated then increment KV_RECOVERED 1 (increment KV_FAULTS 1 d1) else d1) in
             (case (if was_local then Inr (mt_local_read_cycles (mem_timing m))
                    else migration_cycles (mem_timing m) size_bytes) of
                Inl e \<Rightarrow> (Inl e, d2)
              | Inr predicted \<Rightarrow> (Inr (pg, memory_cycles, predicted), d2))))"

definition run_dma :: "graph_node \<Rightarrow> fp_run \<Rightarrow> unit res \<times> fp_run" where
  "run_dma node s =
     (case fetch_page (gn_operand0 node) (fr_device s) of
        (Inl e, d) \<Rightarrow> (Inl e, s\<lparr>fr_device := d\<rparr>)
      | (Inr (_, memory_cycles, predicted), d) \<Rightarrow>
          (Inr (), charge (DMA_BASE_CYCLES + memory_cycles) (DMA_BASE_CYCLES + predicted)
                     (s\<lparr>fr_device := d\<rparr>)))"

definition run_attention :: "fp_run \<Rightarrow> unit res \<times> fp_run" where
  "run_attention s =
     (case fetch_page 1 (fr_device s) of
        (Inl e, d) \<Rightarrow> (Inl e, s\<lparr>fr_device := d\<rparr>)
      | (Inr (pg, memory_cycles, predicted), d) \<Rightarrow>
          (case pg_payload pg of (keys, vals) \<Rightarrow>
             (case rtl_online_attention (tm_query (fp_model d)) keys vals None 16 of
                Inl e \<Rightarrow> (Inl e, s\<lparr>fr_device := d\<rparr>)
              | Inr attention \<Rightarrow>
                  let base = ATTENTION_BASE_CYCLES + int (length keys) * ATTENTION_TOKEN_CYCLES in
                  (Inr (), mix (pack_int16 attention)
                     (charge (base + memory_cycles) (base + predicted)
                        (s\<lparr>fr_device := d, fr_attention := Some attention\<rparr>))))))"

definition run_tensor :: "graph_node \<Rightarrow> fp_run \<Rightarrow> unit res \<times> fp_run" where
  "run_tensor node s =
     (case fr_attention s of None \<Rightarrow> (Inl ValueError, s)
      | Some attention \<Rightarrow>
        if gn_flags node \<noteq> GRAPH_FLAG_TENSOR_USE_PREVIOUS then (Inl ValueError, s)
        else
          let model = fp_model (fr_device s) in
          (case quantized_gemv (map (\<lambda>item. max (-128) (min 127 item)) attention)
                  (tm_packed_rows model) (replicate 4 ''int8'') (replicate 4 0)
                  (tm_scales_q8_8 model) (tm_biases model) ''bypass'' of
             Inl e \<Rightarrow> (Inl e, s)
           | Inr (vals, _) \<Rightarrow>
               (Inr (), mix (pack_int16 vals)
                  (charge TENSOR_CYCLES TENSOR_CYCLES (s\<lparr>fr_output := vals\<rparr>)))))"

text \<open>The branches of the \<open>try\<close> block that go on to the next node; \<open>COMPLETE\<close> returns.\<close>

definition run_node :: "graph_node \<Rightarrow> fp_run \<Rightarrow> unit res \<times> fp_run" where
  "run_node node s =
     (if gn_opcode node = graph_opcode_value NOP then (Inr (), mix (gn_operand0 node) s)
      else if gn_opcode node = graph_opcode_value DMA then run_dma node s
      else if gn_opcode node = graph_opcode_value ATTENTION then run_attention s
      else if gn_opcode node = graph_opcode_value TENSOR then run_tensor node s
      else (Inl ValueError, s))"

definition finish :: "int \<Rightarrow> int \<Rightarrow> int \<Rightarrow> fp_run \<Rightarrow> fpga" where
  "finish rid start_faults start_migrations s =
     (let d = fr_device s in
      complete_with (Completion rid OK (fr_result s AND MASK64))
        (d\<lparr>fp_outputs := (fp_outputs d)(rid \<mapsto> fr_output s),
           fp_records := (fp_records d)(rid \<mapsto>
             \<lparr>er_request_id = rid, er_cycles = fr_cycles s, er_predicted_cycles = fr_predicted s,
              er_output = fr_output s,
              er_page_faults = mem_page_faults (fp_memory d) - start_faults,
              er_migrations = mem_migrations (fp_memory d) - start_migrations\<rparr>)\<rparr>))"

fun fpga_loop :: "int \<Rightarrow> int \<Rightarrow> int \<Rightarrow> graph_node list \<Rightarrow> int \<Rightarrow> fp_run \<Rightarrow> unit res \<times> fpga" where
  "fpga_loop rid sf sm remaining complete_mask s =
     (if remaining = []
      then (Inr (), complete_with (Completion rid GRAPH_INVALID complete_mask) (fr_device s))
      else case find (ready complete_mask) remaining of
        None \<Rightarrow> (Inr (), complete_with (Completion rid GRAPH_DEADLOCK complete_mask) (fr_device s))
      | Some node \<Rightarrow>
        let s1 = charge NODE_SCHEDULER_CYCLES NODE_SCHEDULER_CYCLES s in
        if gn_opcode node = graph_opcode_value COMPLETE then (Inr (), finish rid sf sm s1)
        else (case run_node node s1 of
            (Inl e, s2) \<Rightarrow>
              if e \<in> set [KeyError, ValueError]
              then (Inr (), complete_with (Completion rid GRAPH_INVALID (gn_opcode node)) (fr_device s2))
              else (Inl e, fr_device s2)
          | (Inr _, s2) \<Rightarrow>
              (case shift_left 1 (gn_node_id node) of Inl e \<Rightarrow> (Inl e, fr_device s2)
               | Inr b \<Rightarrow> fpga_loop rid sf sm (remove1 node remaining) (complete_mask OR b) s2)))"

declare fpga_loop.simps [simp del]

definition increment_graph_nodes :: "int \<Rightarrow> fpga \<Rightarrow> fpga" where
  [simp]: "increment_graph_nodes amount d = increment GRAPH_NODES amount d"

definition fpga_execute_graph :: "command \<Rightarrow> fpga \<Rightarrow> unit res \<times> fpga" where
  "fpga_execute_graph cmd d =
     (let graph = cmd_graph cmd; rid = cmd_request_id cmd in
      if graph = [] \<or> length graph > 8 \<or> \<not> (0 \<le> cmd_priority cmd \<and> cmd_priority cmd \<le> 3)
      then (Inr (), complete_with (Completion rid GRAPH_INVALID 0) d)
      else let d1 = increment_graph_nodes (int (length graph)) d in
        fpga_loop rid (mem_page_faults (fp_memory d1)) (mem_migrations (fp_memory d1)) graph 0
          \<lparr>fr_device = d1, fr_result = 0, fr_cycles = 0, fr_predicted = 0, fr_output = [],
           fr_attention = None\<rparr>)"

text \<open>\<open>FpgaPrototypeDevice.migrate_to_host\<close> acts on the memory only.\<close>

definition fpga_migrate_to_host :: "int \<Rightarrow> fpga \<Rightarrow> unit res \<times> fpga" where
  "fpga_migrate_to_host v d =
     (case migrate_to_host v (fp_memory d) of (r, m) \<Rightarrow> (r, d\<lparr>fp_memory := m\<rparr>))"

text \<open>The loop as an instance of the shared scheduling contract: what one node does.\<close>

definition fpga_exec :: "int \<Rightarrow> int \<Rightarrow> int \<Rightarrow> graph_node \<Rightarrow> fp_run \<Rightarrow> fp_run + unit res \<times> fpga" where
  "fpga_exec rid sf sm node s =
     (let s1 = charge NODE_SCHEDULER_CYCLES NODE_SCHEDULER_CYCLES s in
      if gn_opcode node = graph_opcode_value COMPLETE then Inr (Inr (), finish rid sf sm s1)
      else (case run_node node s1 of
          (Inl e, s2) \<Rightarrow>
            Inr (if e \<in> set [KeyError, ValueError]
                 then (Inr (), complete_with (Completion rid GRAPH_INVALID (gn_opcode node)) (fr_device s2))
                 else (Inl e, fr_device s2))
        | (Inr _, s2) \<Rightarrow> if gn_node_id node < 0 then Inr (Inl ValueError, fr_device s2) else Inl s2))"

interpretation fpga_engine:
  graph_engine "fpga_loop rid sf sm" "fpga_exec rid sf sm"
    "\<lambda>m s. (Inr (), complete_with (Completion rid GRAPH_DEADLOCK m) (fr_device s))"
    "\<lambda>m s. (Inr (), complete_with (Completion rid GRAPH_INVALID m) (fr_device s))"
  for rid sf sm :: int
proof unfold_locales
  fix rem m s n s' r
  show "fpga_loop rid sf sm [] m s = (Inr (), complete_with (Completion rid GRAPH_INVALID m) (fr_device s))"
    by (simp add: fpga_loop.simps)
  show "fpga_loop rid sf sm rem m s = (Inr (), complete_with (Completion rid GRAPH_DEADLOCK m) (fr_device s))"
    if "rem \<noteq> []" "find (ready m) rem = None"
    using that by (simp add: fpga_loop.simps [of rid sf sm rem m s])
  show "fpga_loop rid sf sm rem m s = fpga_loop rid sf sm (remove1 n rem) (mark_done m n) s'"
    if "find (ready m) rem = Some n" "fpga_exec rid sf sm n s = Inl s'"
    using that by (auto simp: fpga_loop.simps [of rid sf sm rem m s] fpga_exec_def shift_left_def Let_def
        mark_done_def split: if_splits prod.splits sum.splits)
  show "fpga_loop rid sf sm rem m s = r"
    if "find (ready m) rem = Some n" "fpga_exec rid sf sm n s = Inr r"
    using that by (auto simp: fpga_loop.simps [of rid sf sm rem m s] fpga_exec_def shift_left_def Let_def
        split: if_splits prod.splits sum.splits)
qed

section \<open>What a node keeps\<close>

definition same_payloads :: "'p memory \<Rightarrow> 'p memory \<Rightarrow> bool" where
  "same_payloads m m' \<longleftrightarrow> mem_timing m' = mem_timing m \<and>
     (\<forall>w. map_option pg_payload (map_of (mem_pages m') w) = map_option pg_payload (map_of (mem_pages m) w))"

lemma same_payloads_refl [simp]: "same_payloads m m"
  by (simp add: same_payloads_def)

lemma same_payloads_trans [trans]: "same_payloads m m1 \<Longrightarrow> same_payloads m1 m2 \<Longrightarrow> same_payloads m m2"
  by (simp add: same_payloads_def)

lemma same_payloads_put:
  "map_option pg_payload (map_of (mem_pages m) v) = Some (pg_payload pg) \<Longrightarrow> same_payloads m (put v pg m)"
  by (auto simp: same_payloads_def)

lemma same_payloads_fields:
  "mem_pages m' = mem_pages m \<Longrightarrow> mem_timing m' = mem_timing m \<Longrightarrow> same_payloads m m'"
  by (simp add: same_payloads_def)

lemma make_room_payloads: "make_room m = (r, m') \<Longrightarrow> same_payloads m m' \<and> (\<forall>e. r = Inl e \<longrightarrow> e \<in> {KeyError, ValueError})"
proof -
  have "same_payloads m (m\<lparr>mem_pages := AList.update v (to_host pg) (mem_pages m)\<rparr>)"
    if "map_of (mem_pages m) v = Some pg" for v pg
    using same_payloads_put [of m v "to_host pg"] that by (simp add: put_def)
  then show "make_room m = (r, m') \<Longrightarrow> same_payloads m m' \<and> (\<forall>e. r = Inl e \<longrightarrow> e \<in> {KeyError, ValueError})"
    by (auto simp: make_room_def evict_def victim_of_def split: if_splits sum.splits option.splits list.splits)
qed

text \<open>Any call of \<open>ensure_local\<close>, in any memory: what it keeps and how it can fail.\<close>

definition page_cycles :: "memory_timing \<Rightarrow> 'p page \<Rightarrow> int res" where
  "page_cycles t pg = (if is_local pg then Inr (mt_local_read_cycles t) else migration_cycles t (pg_size_bytes pg))"

lemma ensure_local_frame:
  assumes "ensure_local v m = (r, m')"
  shows "same_payloads m m'"
    and "r = Inl e \<Longrightarrow> e \<in> {KeyError, ValueError} \<or> e = ZeroDivisionError \<and> mt_bytes_per_cycle (mem_timing m) = 0"
    and "r = Inr (pg, cycles, migrated) \<Longrightarrow> map_of (mem_pages m) v = Some pg0 \<Longrightarrow>
      pg_payload pg = pg_payload pg0 \<and> page_cycles (mem_timing m) pg0 = Inr cycles \<and> migrated = (\<not> is_local pg0)"
proof -
  have "same_payloads m m' \<and>
    (\<forall>e. r = Inl e \<longrightarrow> e \<in> {KeyError, ValueError} \<or> e = ZeroDivisionError \<and> mt_bytes_per_cycle (mem_timing m) = 0) \<and>
    (\<forall>pg cycles migrated pg0. r = Inr (pg, cycles, migrated) \<longrightarrow> map_of (mem_pages m) v = Some pg0 \<longrightarrow>
      pg_payload pg = pg_payload pg0 \<and> page_cycles (mem_timing m) pg0 = Inr cycles \<and> migrated = (\<not> is_local pg0))"
  proof (cases "map_of (mem_pages m) v")
    case None
    then show ?thesis using assms by (auto simp: ensure_local_miss intro: same_payloads_fields)
  next
    case (Some pg)
    show ?thesis
    proof (cases "is_local pg")
      case True
      then show ?thesis using assms Some by (auto simp: ensure_local_hit page_cycles_def)
    next
      case False
      define m1 where "m1 = m\<lparr>mem_page_faults := mem_page_faults m + 1\<rparr>"
      obtain x m2 where room: "make_room m1 = (x, m2)" by fastforce
      have "same_payloads m m1" by (simp add: m1_def same_payloads_fields)
      also have "same_payloads m1 m2" using make_room_payloads [OF room] by blast
      finally have keep2: "same_payloads m m2" .
      show ?thesis
      proof (cases x)
        case (Inl e)
        then have "r = Inl e" "m' = m2" using assms Some False room
          by (simp_all add: ensure_local_def m1_def [symmetric] Let_def)
        then show ?thesis using keep2 make_room_payloads [OF room] Inl by auto
      next
        case (Inr u)
        define pg' where "pg' = pg\<lparr>pg_tier := ''local'', pg_physical_page := mem_next_physical m2\<rparr>"
        define m4 where "m4 = (put v pg' m2)\<lparr>mem_next_physical := mem_next_physical m2 + 1,
          mem_migrations := mem_migrations m2 + 1, mem_bytes_migrated := mem_bytes_migrated m2 + pg_size_bytes pg\<rparr>"
        have timing: "mem_timing m2 = mem_timing m" using keep2 by (simp add: same_payloads_def)
        have run: "ensure_local v m = (case migration_cycles (mem_timing m) (pg_size_bytes pg) of
            Inl e \<Rightarrow> (Inl e, m4) | Inr cycles \<Rightarrow> (Inr (pg', cycles, True), m4))"
          using room Inr Some False timing
          by (cases "migration_cycles (mem_timing m) (pg_size_bytes pg)")
            (simp_all add: ensure_local_def m1_def [symmetric] Let_def allocate_physical_def m4_def pg'_def put_def)
        have "map_option pg_payload (map_of (mem_pages m2) v) = Some (pg_payload pg')"
          using keep2 Some by (simp add: same_payloads_def pg'_def)
        then have "same_payloads m2 (put v pg' m2)" by (rule same_payloads_put)
        also have "same_payloads (put v pg' m2) m4" by (rule same_payloads_fields) (simp_all add: m4_def)
        finally have "same_payloads m m4" using keep2 same_payloads_trans by blast
        then show ?thesis
          using run assms False Some
          by (cases "migration_cycles (mem_timing m) (pg_size_bytes pg)")
            (auto simp: page_cycles_def pg'_def migration_cycles_def Let_def split: if_splits)
      qed
    qed
  qed
  then show "same_payloads m m'"
    and "r = Inl e \<Longrightarrow> e \<in> {KeyError, ValueError} \<or> e = ZeroDivisionError \<and> mt_bytes_per_cycle (mem_timing m) = 0"
    and "r = Inr (pg, cycles, migrated) \<Longrightarrow> map_of (mem_pages m) v = Some pg0 \<Longrightarrow>
      pg_payload pg = pg_payload pg0 \<and> page_cycles (mem_timing m) pg0 = Inr cycles \<and> migrated = (\<not> is_local pg0)"
    by blast+
qed

text \<open>
  Nodes other than \<open>COMPLETE\<close> touch counters and the memory: nothing of the control state, no record
  or output, no page contents.
\<close>

definition node_frame :: "fpga \<Rightarrow> fpga \<Rightarrow> bool" where
  "node_frame d d' \<longleftrightarrow> same_control d d' \<and> same_payloads (fp_memory d) (fp_memory d') \<and>
     fp_model d' = fp_model d \<and> fp_records d' = fp_records d \<and> fp_outputs d' = fp_outputs d"

lemma node_frame_refl [simp]: "node_frame d d"
  by (simp add: node_frame_def)

lemma node_frame_trans [trans]: "node_frame d d1 \<Longrightarrow> node_frame d1 d2 \<Longrightarrow> node_frame d d2"
  unfolding node_frame_def
  using same_control_trans [of d d1 d2] same_payloads_trans [of "fp_memory d" "fp_memory d1" "fp_memory d2"] by simp

lemma fp_increment_sel [simp]:
  "fp_memory (increment c n d) = fp_memory d" "fp_model (increment c n d) = fp_model d"
  "fp_records (increment c n d) = fp_records d" "fp_outputs (increment c n d) = fp_outputs d"
  by (simp_all add: increment_def)

lemma fp_complete_with_sel [simp]:
  "fp_memory (complete_with c d) = fp_memory d" "fp_model (complete_with c d) = fp_model d"
  "fp_records (complete_with c d) = fp_records d" "fp_outputs (complete_with c d) = fp_outputs d"
  by (simp_all add: complete_with_def Let_def increment_def split: option.split prod.split)

lemma node_frame_increment: "0 \<le> n \<Longrightarrow> node_frame d (increment c n d)"
  by (simp add: node_frame_def same_control_increment)

lemma node_frame_memory: "same_payloads (fp_memory d) m \<Longrightarrow> node_frame d (d\<lparr>fp_memory := m\<rparr>)"
  by (simp add: node_frame_def same_control_def)

text \<open>The accounting of a device: what a fetch of a page costs now.\<close>

lemma fetch_page_frame:
  assumes "fetch_page v d = (r, d')"
  shows "node_frame d d'"
    and "r = Inr (pg, cycles, predicted) \<Longrightarrow> predicted = cycles \<and>
       (\<exists>pg0. map_of (mem_pages (fp_memory d)) v = Some pg0 \<and> pg_payload pg = pg_payload pg0 \<and>
          page_cycles (mem_timing (fp_memory d)) pg0 = Inr cycles)"
    and "r = Inl e \<Longrightarrow> e \<in> {KeyError, ValueError} \<or>
       e = ZeroDivisionError \<and> mt_bytes_per_cycle (mem_timing (fp_memory d)) = 0"
proof -
  let ?P = "node_frame d d' \<and> (\<forall>pg cycles predicted. r = Inr (pg, cycles, predicted) \<longrightarrow> predicted = cycles \<and>
       (\<exists>pg0. map_of (mem_pages (fp_memory d)) v = Some pg0 \<and> pg_payload pg = pg_payload pg0 \<and>
          page_cycles (mem_timing (fp_memory d)) pg0 = Inr cycles)) \<and>
     (\<forall>e. r = Inl e \<longrightarrow> e \<in> {KeyError, ValueError} \<or>
       e = ZeroDivisionError \<and> mt_bytes_per_cycle (mem_timing (fp_memory d)) = 0)"
  have ?P
  proof (cases "map_of (mem_pages (fp_memory d)) v")
    case None
    then show ?thesis using assms by (auto simp: fetch_page_def)
  next
    case (Some pg0)
    obtain x m where em: "ensure_local v (fp_memory d) = (x, m)" by fastforce
    note frame = ensure_local_frame [OF em]
    have keep: "node_frame d (d\<lparr>fp_memory := m\<rparr>)" by (rule node_frame_memory [OF frame(1)])
    show ?thesis
    proof (cases x)
      case (Inl e)
      then show ?thesis using assms Some em keep frame(2) by (auto simp: fetch_page_def Let_def)
    next
      case (Inr y)
      obtain pg cycles migrated where y: "y = (pg, cycles, migrated)" by (cases y)
      define d2 where "d2 = (if migrated then increment KV_RECOVERED 1 (increment KV_FAULTS 1 (d\<lparr>fp_memory := m\<rparr>))
        else d\<lparr>fp_memory := m\<rparr>)"
      have "node_frame (d\<lparr>fp_memory := m\<rparr>) d2"
        using node_frame_trans [OF node_frame_increment node_frame_increment] by (simp add: d2_def)
      with keep have d2: "node_frame d d2" by (rule node_frame_trans)
      have post: "pg_payload pg = pg_payload pg0" "page_cycles (mem_timing (fp_memory d)) pg0 = Inr cycles"
        using frame(3) Inr y Some by blast+
      have "mem_timing m = mem_timing (fp_memory d)" using frame(1) by (simp add: same_payloads_def)
      then have "(r, d') = (Inr (pg, cycles, cycles), d2)"
        using assms Some em Inr y post(2) by (simp add: fetch_page_def Let_def d2_def page_cycles_def split: if_splits)
      then show ?thesis using d2 post Some by auto
    qed
  qed
  then show "node_frame d d'"
    and "r = Inr (pg, cycles, predicted) \<Longrightarrow> predicted = cycles \<and>
       (\<exists>pg0. map_of (mem_pages (fp_memory d)) v = Some pg0 \<and> pg_payload pg = pg_payload pg0 \<and>
          page_cycles (mem_timing (fp_memory d)) pg0 = Inr cycles)"
    and "r = Inl e \<Longrightarrow> e \<in> {KeyError, ValueError} \<or>
       e = ZeroDivisionError \<and> mt_bytes_per_cycle (mem_timing (fp_memory d)) = 0" by blast+
qed

text \<open>
  A device whose timing has a bandwidth and whose attention page, if it is mapped, makes the online
  softmax answer or raise \<open>ValueError\<close>; then \<open>_execute_graph\<close> catches whatever a node raises.
\<close>

definition fp_sane :: "fpga \<Rightarrow> bool" where
  "fp_sane d \<longleftrightarrow> mt_bytes_per_cycle (mem_timing (fp_memory d)) \<noteq> 0 \<and>
     (case map_of (mem_pages (fp_memory d)) 1 of None \<Rightarrow> True
      | Some pg \<Rightarrow> (case rtl_online_attention (tm_query (fp_model d)) (fst (pg_payload pg)) (snd (pg_payload pg)) None 16 of
          Inl e \<Rightarrow> e = ValueError | Inr _ \<Rightarrow> True))"

lemma fp_sane_cong: "fp_memory d' = fp_memory d \<Longrightarrow> fp_model d' = fp_model d \<Longrightarrow> fp_sane d' = fp_sane d"
  by (simp only: fp_sane_def)

lemma fp_sane_frame: "node_frame d d' \<Longrightarrow> fp_sane d' = fp_sane d"
proof -
  assume fr: "node_frame d d'"
  then have "map_option pg_payload (map_of (mem_pages (fp_memory d')) 1) = map_option pg_payload (map_of (mem_pages (fp_memory d)) 1)"
    "mem_timing (fp_memory d') = mem_timing (fp_memory d)" "fp_model d' = fp_model d"
    by (simp_all add: node_frame_def same_payloads_def)
  then show ?thesis
    by (cases "map_of (mem_pages (fp_memory d)) 1"; cases "map_of (mem_pages (fp_memory d')) 1")
      (simp_all add: fp_sane_def)
qed

lemma charge_mix_sel [simp]:
  "fr_device (charge a b s) = fr_device s" "fr_device (mix x s) = fr_device s"
  "fr_cycles (charge a b s) = fr_cycles s + a" "fr_predicted (charge a b s) = fr_predicted s + b"
  "fr_cycles (mix x s) = fr_cycles s" "fr_predicted (mix x s) = fr_predicted s"
  "fr_result (charge a b s) = fr_result s" "fr_result (mix x s) = fr_result s XOR x"
  "fr_output (charge a b s) = fr_output s" "fr_output (mix x s) = fr_output s"
  "fr_attention (charge a b s) = fr_attention s" "fr_attention (mix x s) = fr_attention s"
  by (simp_all add: charge_def mix_def)

lemma run_node_frame:
  assumes "run_node node s = (r, s')"
  shows "node_frame (fr_device s) (fr_device s') \<and>
    (fr_cycles s = fr_predicted s \<longrightarrow> fr_cycles s' = fr_predicted s') \<and>
    (fp_sane (fr_device s) \<longrightarrow> (case r of Inl e \<Rightarrow> e \<in> {KeyError, ValueError} | Inr _ \<Rightarrow> True))"
proof -
  consider (nop) "gn_opcode node = graph_opcode_value NOP" | (dma) "gn_opcode node = graph_opcode_value DMA"
    | (att) "gn_opcode node = graph_opcode_value ATTENTION" | (tensor) "gn_opcode node = graph_opcode_value TENSOR"
    | (other) "gn_opcode node \<notin> {graph_opcode_value NOP, graph_opcode_value DMA, graph_opcode_value ATTENTION,
        graph_opcode_value TENSOR}" by blast
  then show ?thesis
  proof cases
    case dma
    obtain x d where f: "fetch_page (gn_operand0 node) (fr_device s) = (x, d)" by fastforce
    note frame = fetch_page_frame [OF f]
    have "run_dma node s = (r, s')" using assms dma by (simp add: run_node_def)
    then show ?thesis using f frame(1) frame(2) frame(3)
      by (cases x) (auto simp: run_dma_def fp_sane_def)
  next
    case att
    obtain x d where f: "fetch_page 1 (fr_device s) = (x, d)" by fastforce
    note frame = fetch_page_frame [OF f]
    have run: "run_attention s = (r, s')" using assms att by (simp add: run_node_def)
    show ?thesis
    proof (cases x)
      case (Inl e)
      then show ?thesis using f frame(1,3) run by (auto simp: run_attention_def fp_sane_def)
    next
      case (Inr y)
      obtain pg cycles predicted where y: "y = (pg, cycles, predicted)" by (cases y)
      have pred: "predicted = cycles" using frame(2) Inr y by blast
      obtain pg0 where pg0: "map_of (mem_pages (fp_memory (fr_device s))) 1 = Some pg0" "pg_payload pg = pg_payload pg0"
        using frame(2) Inr y by blast
      have "fp_model d = fp_model (fr_device s)" using frame(1) by (simp add: node_frame_def)
      then have "case rtl_online_attention (tm_query (fp_model d)) (fst (pg_payload pg)) (snd (pg_payload pg)) None 16 of
          Inl e \<Rightarrow> e = ValueError | Inr _ \<Rightarrow> True" if "fp_sane (fr_device s)"
        using that pg0 by (simp add: fp_sane_def)
      then show ?thesis using f frame(1) run Inr y pred
        by (auto simp: run_attention_def Let_def split: prod.splits sum.splits)
    qed
  next
    case tensor
    have "run_tensor node s = (r, s')" using assms tensor by (simp add: run_node_def)
    moreover have "quantized_gemv act packed formats zps scales biases mode = Inl e \<Longrightarrow> e = ValueError"
      for act packed formats zps scales biases mode e
      using gemv_error by simp
    ultimately show ?thesis
      by (auto simp: run_tensor_def Let_def split: option.splits sum.splits if_splits prod.splits)
  qed (use assms in \<open>auto simp: run_node_def\<close>)
qed

section \<open>How a graph ends\<close>

lemma fpga_path_frame:
  "sched_path (fpga_exec rid sf sm) rem m s tr rem' m' s' \<Longrightarrow>
     node_frame (fr_device s) (fr_device s') \<and> (fr_cycles s = fr_predicted s \<longrightarrow> fr_cycles s' = fr_predicted s')"
proof (induction rule: sched_path.induct)
  case (path_snoc rem m s tr rem1 m1 s1 n s2)
  define t where "t = charge NODE_SCHEDULER_CYCLES NODE_SCHEDULER_CYCLES s1"
  have "\<exists>u. run_node n t = (Inr u, s2)"
    using path_snoc.hyps(4) by (auto simp: fpga_exec_def t_def Let_def split: if_splits prod.splits sum.splits)
  then obtain u where "run_node n t = (Inr u, s2)" by blast
  from run_node_frame [OF this] have "node_frame (fr_device s1) (fr_device s2)"
    "fr_cycles s1 = fr_predicted s1 \<longrightarrow> fr_cycles s2 = fr_predicted s2"
    by (simp_all add: t_def)
  with path_snoc.IH show ?case using node_frame_trans by blast
qed simp

lemma fpga_loop_cases:
  assumes bal: "fr_cycles s = fr_predicted s"
  obtains
    (raised) e d where "fpga_loop rid sf sm rem m s = (Inl e, d)" "node_frame (fr_device s) d"
      "fp_sane (fr_device s) \<Longrightarrow> e = ValueError \<and> (\<exists>n \<in> set rem. gn_node_id n < 0)"
  | (refused) c d where "fpga_loop rid sf sm rem m s = (Inr (), complete_with c d)" "node_frame (fr_device s) d"
      "cpl_request_id c = rid" "cpl_status c = GRAPH_INVALID \<or> cpl_status c = GRAPH_DEADLOCK"
  | (finished) s' where "fpga_loop rid sf sm rem m s = (Inr (), finish rid sf sm s')"
      "node_frame (fr_device s) (fr_device s')" "fr_cycles s' = fr_predicted s'"
proof -
  obtain tr rem' m' s' where p: "sched_path (fpga_exec rid sf sm) rem m s tr rem' m' s'"
    and out: "find (ready m') rem' = None \<and> fpga_loop rid sf sm rem m s = (if rem' = []
        then (Inr (), complete_with (Completion rid GRAPH_INVALID m') (fr_device s'))
        else (Inr (), complete_with (Completion rid GRAPH_DEADLOCK m') (fr_device s')))
      \<or> (\<exists>n r. find (ready m') rem' = Some n \<and> fpga_exec rid sf sm n s' = Inr r \<and> fpga_loop rid sf sm rem m s = r)"
    by (rule fpga_engine.loop_follows_path)
  have fr: "node_frame (fr_device s) (fr_device s')" and bal': "fr_cycles s' = fr_predicted s'"
    using fpga_path_frame [OF p] bal by blast+
  show ?thesis
  proof (cases "find (ready m') rem'")
    case None
    with out show ?thesis using fr by (cases "rem' = []") (auto intro: refused)
  next
    case (Some n)
    with out have ex: "fpga_exec rid sf sm n s' = Inr (fpga_loop rid sf sm rem m s)" by auto
    define t where "t = charge NODE_SCHEDULER_CYCLES NODE_SCHEDULER_CYCLES s'"
    have t: "fr_device t = fr_device s'" "fr_cycles t = fr_predicted t" using bal' by (simp_all add: t_def)
    show ?thesis
    proof (cases "gn_opcode n = graph_opcode_value COMPLETE")
      case True
      with ex have "fpga_loop rid sf sm rem m s = (Inr (), finish rid sf sm t)" by (simp add: fpga_exec_def t_def)
      then show ?thesis using fr t by (intro finished [of t]) simp_all
    next
      case False
      obtain x s2 where run: "run_node n t = (x, s2)" by fastforce
      note step = run_node_frame [OF run]
      have fr2: "node_frame (fr_device s) (fr_device s2)"
        using fr step t(1) node_frame_trans [of "fr_device s" "fr_device s'" "fr_device s2"] by simp
      show ?thesis
      proof (cases x)
        case (Inl e)
        show ?thesis
        proof (cases "e \<in> {KeyError, ValueError}")
          case True
          with ex False run Inl
          have "fpga_loop rid sf sm rem m s
              = (Inr (), complete_with (Completion rid GRAPH_INVALID (gn_opcode n)) (fr_device s2))"
            by (auto simp: fpga_exec_def t_def)
          then show ?thesis by (rule refused [OF _ fr2]) simp_all
        next
          case caught: False
          with ex False run Inl have "fpga_loop rid sf sm rem m s = (Inl e, fr_device s2)"
            by (auto simp: fpga_exec_def t_def)
          moreover have "\<not> fp_sane (fr_device s)"
            using step Inl caught fp_sane_frame [OF fr] t(1) by simp
          ultimately show ?thesis using fr2 by (intro raised) simp_all
        qed
      next
        case (Inr u)
        have neg: "gn_node_id n < 0"
          using ex False run Inr by (simp add: fpga_exec_def t_def split: if_splits)
        with ex False run Inr have "fpga_loop rid sf sm rem m s = (Inl ValueError, fr_device s2)"
          by (simp add: fpga_exec_def t_def)
        moreover have "n \<in> set rem"
          using find_SomeD [OF Some] path_mset [OF p] by (metis set_mset_mset union_iff)
        ultimately show ?thesis using fr2 neg by (intro raised) auto
      qed
    qed
  qed
qed

text \<open>The same for a whole command.\<close>

lemma fpga_execute_cases:
  obtains
    (raised) e d1 where "fpga_execute_graph cmd d = (Inl e, d1)" "node_frame d d1"
      "fp_sane d \<Longrightarrow> e = ValueError \<and> (\<exists>n \<in> set (cmd_graph cmd). gn_node_id n < 0)"
  | (refused) c d1 where "fpga_execute_graph cmd d = (Inr (), complete_with c d1)" "node_frame d d1"
      "cpl_request_id c = cmd_request_id cmd" "cpl_status c = GRAPH_INVALID \<or> cpl_status c = GRAPH_DEADLOCK"
  | (finished) sf sm s' where "fpga_execute_graph cmd d = (Inr (), finish (cmd_request_id cmd) sf sm s')"
      "node_frame d (fr_device s')" "fr_cycles s' = fr_predicted s'"
proof (cases "cmd_graph cmd = [] \<or> length (cmd_graph cmd) > 8 \<or> \<not> (0 \<le> cmd_priority cmd \<and> cmd_priority cmd \<le> 3)")
  case True
  then have "fpga_execute_graph cmd d = (Inr (), complete_with (Completion (cmd_request_id cmd) GRAPH_INVALID 0) d)"
    by (auto simp: fpga_execute_graph_def Let_def)
  then show ?thesis by (rule refused) simp_all
next
  case False
  define s where "s = \<lparr>fr_device = increment GRAPH_NODES (int (length (cmd_graph cmd))) d, fr_result = 0, fr_cycles = 0,
    fr_predicted = 0, fr_output = [], fr_attention = None\<rparr>"
  have run: "fpga_execute_graph cmd d = fpga_loop (cmd_request_id cmd) (mem_page_faults (fp_memory d))
      (mem_migrations (fp_memory d)) (cmd_graph cmd) 0 s"
    using False by (simp add: fpga_execute_graph_def Let_def s_def)
  have fr: "node_frame d (fr_device s)" by (simp add: s_def node_frame_increment)
  have "fr_cycles s = fr_predicted s" by (simp add: s_def)
  then show ?thesis
  proof (cases rule: fpga_loop_cases [of s "cmd_request_id cmd" "mem_page_faults (fp_memory d)"
      "mem_migrations (fp_memory d)" "cmd_graph cmd" 0])
    case (raised e d1)
    then show ?thesis using run fp_sane_frame [OF fr] node_frame_trans [OF fr] by (intro that(1) [of e d1]) auto
  next
    case (refused c d1)
    then show ?thesis using run node_frame_trans [OF fr] by (intro that(2) [of c d1]) auto
  next
    case (finished s')
    then show ?thesis using run node_frame_trans [OF fr] by (intro that(3) [OF _ _ finished(3)]) auto
  qed
qed

section \<open>The contract of the control plane\<close>

definition fp_sane_ext :: "unit fpga_ext \<Rightarrow> bool" where
  "fp_sane_ext x \<longleftrightarrow> fp_sane (device.extend (RcifDevice_init 1) x)"

lemma fp_ext_sel [simp]:
  "fp_memory (device.extend d0 (device.more d)) = fp_memory d"
  "fp_model (device.extend d0 (device.more d)) = fp_model d"
  "fp_records (device.extend d0 (device.more d)) = fp_records d"
  "fp_outputs (device.extend d0 (device.more d)) = fp_outputs d"
  by (cases d; simp add: device.defs)+

lemma fp_sane_more: "fp_sane_ext (device.more d) = fp_sane d"
  unfolding fp_sane_ext_def by (rule fp_sane_cong) simp_all

text \<open>The device \<open>finish\<close> reports from: the records and outputs are written first.\<close>

definition recorded :: "int \<Rightarrow> int \<Rightarrow> int \<Rightarrow> fp_run \<Rightarrow> fpga" where
  "recorded rid sf sm s =
     (let d = fr_device s in
      d\<lparr>fp_outputs := (fp_outputs d)(rid \<mapsto> fr_output s),
        fp_records := (fp_records d)(rid \<mapsto>
          \<lparr>er_request_id = rid, er_cycles = fr_cycles s, er_predicted_cycles = fr_predicted s,
           er_output = fr_output s, er_page_faults = mem_page_faults (fp_memory d) - sf,
           er_migrations = mem_migrations (fp_memory d) - sm\<rparr>)\<rparr>)"

lemma finish_recorded:
  "finish rid sf sm s = complete_with (Completion rid OK (fr_result s AND MASK64)) (recorded rid sf sm s)"
  by (simp add: finish_def recorded_def Let_def)

lemma recorded_frame:
  "same_control (fr_device s) (recorded rid sf sm s)" "fp_sane (recorded rid sf sm s) = fp_sane (fr_device s)"
  by (simp add: recorded_def Let_def same_control_def, rule fp_sane_cong, simp_all add: recorded_def Let_def)

definition fpga_answers :: "command \<Rightarrow> completion \<Rightarrow> bool" where
  "fpga_answers cmd c \<longleftrightarrow> cpl_request_id c = cmd_request_id cmd \<and>
     cpl_status c \<in> {OK, GRAPH_INVALID, GRAPH_DEADLOCK}"

interpretation fpga_contract: engine_contract fpga_execute_graph fp_sane_ext fpga_answers
proof unfold_locales
  fix d :: fpga and cmd c rid g prio
  show "\<exists>d0. same_control d d0 \<and>
      (snd (fpga_execute_graph cmd d) = d0 \<or> (\<exists>c. snd (fpga_execute_graph cmd d) = complete_with c d0))"
  proof (cases rule: fpga_execute_cases [of cmd d])
    case (finished sf sm s')
    have "same_control d (recorded (cmd_request_id cmd) sf sm s')"
      using finished(2) recorded_frame(1) same_control_trans unfolding node_frame_def by blast
    with finished(1) show ?thesis by (auto simp: finish_recorded)
  qed (auto simp: node_frame_def)
  show "\<exists>c d0. fpga_execute_graph (graph_cmd rid g prio) d = (Inr (), complete_with c d0) \<and> same_control d d0 \<and>
      fp_sane_ext (device.more d0) \<and> fpga_answers (graph_cmd rid g prio) c"
    if sane: "fp_sane_ext (device.more d)" and enc: "list_all encodable g"
  proof (cases rule: fpga_execute_cases [of "graph_cmd rid g prio" d])
    case (raised e d1)
    then show ?thesis using sane enc by (auto simp: fp_sane_more list_all_iff encodable_def)
  next
    case (refused c d1)
    then show ?thesis using sane fp_sane_frame [OF refused(2)]
      by (intro exI [of _ c] exI [of _ d1]) (auto simp: fp_sane_more fpga_answers_def node_frame_def)
  next
    case (finished sf sm s')
    have "same_control d (recorded rid sf sm s')"
      using finished(2) recorded_frame(1) same_control_trans unfolding node_frame_def by blast
    then show ?thesis using finished(1) sane fp_sane_frame [OF finished(2)]
      by (intro exI [of _ "Completion rid OK (fr_result s' AND MASK64)"] exI [of _ "recorded rid sf sm s'"])
        (auto simp: finish_recorded fp_sane_more recorded_frame(2) fpga_answers_def)
  qed
  show "cpl_request_id c = cmd_request_id cmd" if "fpga_answers cmd c"
    using that by (simp add: fpga_answers_def)
qed

section \<open>Properties of the cycle account\<close>

text \<open>
  C17: measured and predicted cycles are always equal. Whatever the command, the device and its
  memory, executing a graph changes no record but that of its own request, and a record it writes
  has \<open>cycles = predicted_cycles\<close> and the output filed under \<open>outputs\<close>. So the relative error of
  a report is zero and its tolerance is never used: the prediction repeats the measurement.
\<close>

theorem cycles_equal_prediction:
  "fp_records (snd (fpga_execute_graph cmd d)) rid = fp_records d rid \<or>
   rid = cmd_request_id cmd \<and>
   (case fp_records (snd (fpga_execute_graph cmd d)) rid of None \<Rightarrow> False
    | Some rec \<Rightarrow> er_request_id rec = rid \<and> er_cycles rec = er_predicted_cycles rec \<and>
        fp_outputs (snd (fpga_execute_graph cmd d)) rid = Some (er_output rec))"
proof (cases rule: fpga_execute_cases [of cmd d])
  case (finished sf sm s')
  then show ?thesis by (auto simp: finish_def Let_def node_frame_def)
qed (auto simp: node_frame_def)

end
