(* ===== verification/FloatOps.thy ===== *)
theory FloatOps
  imports Complex_Main Prelude
begin

text \<open>
  Floating-point arithmetic as the golden models and the event model use it.

  Python floats are a type \<open>'f\<close> with the operations the code uses as a record, in the order the code
  applies them, so what is proved for every record holds for binary64 as for any other arithmetic;
  \<open>real_ops\<close> is the instance with exact numbers.
\<close>

section \<open>Operations\<close>

record 'f float_ops =
  fl_of_int :: "int \<Rightarrow> 'f"
  fl_add :: "'f \<Rightarrow> 'f \<Rightarrow> 'f"
  fl_sub :: "'f \<Rightarrow> 'f \<Rightarrow> 'f"
  fl_mul :: "'f \<Rightarrow> 'f \<Rightarrow> 'f"
  fl_quot :: "'f \<Rightarrow> 'f \<Rightarrow> 'f"
  fl_less :: "'f \<Rightarrow> 'f \<Rightarrow> bool"
  fl_eq :: "'f \<Rightarrow> 'f \<Rightarrow> bool"
  fl_exp :: "'f \<Rightarrow> 'f"
  fl_sqrt :: "'f \<Rightarrow> 'f"
  fl_sum :: "'f list \<Rightarrow> 'f"

definition fl_zero :: "('f, 'x) float_ops_scheme \<Rightarrow> 'f" where
  "fl_zero F = fl_of_int F 0"

text \<open>\<open>/\<close> raises on a zero divisor.\<close>

definition fl_div :: "('f, 'x) float_ops_scheme \<Rightarrow> 'f \<Rightarrow> 'f \<Rightarrow> 'f res" where
  "fl_div F a b =
     (if fl_eq F b (fl_zero F) then Inl ZeroDivisionError
      else Inr (fl_quot F a b))"

section \<open>Exact arithmetic\<close>

definition real_ops :: "real float_ops" where
  "real_ops = \<lparr>fl_of_int = of_int, fl_add = (+), fl_sub = (-), fl_mul = (*), fl_quot = (/), fl_less = (<), fl_eq = (=),
     fl_exp = exp, fl_sqrt = sqrt, fl_sum = sum_list\<rparr>"

lemma real_ops_sel [simp]:
  "fl_of_int real_ops = of_int" "fl_add real_ops = (+)" "fl_sub real_ops = (-)" "fl_mul real_ops = (*)"
  "fl_quot real_ops = (/)" "fl_less real_ops = (<)" "fl_eq real_ops = (=)" "fl_exp real_ops = exp" "fl_sqrt real_ops = sqrt"
  "fl_sum real_ops = sum_list" "fl_zero real_ops = 0"
  by (simp_all add: real_ops_def fl_zero_def)

lemma fl_div_real: "fl_div real_ops a b = (if b = 0 then Inl ZeroDivisionError else Inr (a / b))"
  by (simp add: fl_div_def)

end
