(* ===== verification/PyText.thy ===== *)
theory PyText
  imports FloatOps
begin

text \<open>
  What the tools under \<open>sim/\<close> and \<open>scripts/\<close> use of Python's text and number conversions: the values
  \<open>json.load\<close> returns, \<open>int(x)\<close> and \<open>float(x)\<close> of such a value, \<open>int\<close> of a decimal string and the
  format \<open>{n:04d}\<close>.

  Characters are code points below 256. \<open>float\<close> of a string and \<open>str\<close> of anything that is no string are operations of the
  float record, because their results are binary64 texts.
\<close>

section \<open>Numbers and their conversions\<close>

text \<open>
  \<open>fl_conv\<close> is \<open>float(i)\<close> of an integer, which raises \<open>OverflowError\<close> beyond the largest float;
  \<open>fl_trunc\<close> is \<open>int(x)\<close> of a float, which raises on infinities and NaN; \<open>fl_true_div\<close> is \<open>i / j\<close> of two
  integers, which Python rounds once instead of converting both sides.
\<close>

record 'f sim_float = "'f float_ops" +
  fl_conv :: "int \<Rightarrow> 'f res"
  fl_trunc :: "'f \<Rightarrow> int res"
  fl_parse :: "string \<Rightarrow> 'f res"
  fl_true_div :: "int \<Rightarrow> int \<Rightarrow> 'f res"

datatype 'f json =
    J_null
  | J_bool bool
  | J_int int
  | J_float 'f
  | J_str string
  | J_list "'f json list"
  | J_obj "(string \<times> 'f json) list"

type_synonym 'f dict = "(string \<times> 'f json) list"

record 'f sim_ops = "'f sim_float" +
  fl_repr :: "'f json \<Rightarrow> string"

section \<open>Decimal integers\<close>

definition digit_of :: "char \<Rightarrow> int option" where
  "digit_of c = (let n = of_char c in if 48 \<le> n \<and> n \<le> 57 then Some (n - 48) else None)"

definition is_space :: "char \<Rightarrow> bool" where
  "is_space c = (let n = (of_char c :: int) in 9 \<le> n \<and> n \<le> 13 \<or> n = 32 \<or> n = 133 \<or> n = 160)"

definition strip :: "string \<Rightarrow> string" where
  "strip s = rev (dropWhile is_space (rev (dropWhile is_space s)))"

text \<open>Digits with single underscores between them; the flag says that the last character was a digit.\<close>

fun scan_digits :: "int \<Rightarrow> bool \<Rightarrow> string \<Rightarrow> int option" where
  "scan_digits acc prev [] = (if prev then Some acc else None)"
| "scan_digits acc prev (c # cs) =
     (case digit_of c of Some d \<Rightarrow> scan_digits (10 * acc + d) True cs
      | None \<Rightarrow> if c = CHR ''_'' \<and> prev then scan_digits acc False cs else None)"

text \<open>\<open>int(s)\<close> in base 10; more than 4300 digits are refused.\<close>

definition parse_int :: "string \<Rightarrow> int res" where
  "parse_int s =
     (let t = strip s;
          negative = (t \<noteq> [] \<and> hd t = CHR ''-'');
          body = (if t \<noteq> [] \<and> (hd t = CHR ''-'' \<or> hd t = CHR ''+'') then tl t else t) in
      if length (filter (\<lambda>c. digit_of c \<noteq> None) body) > 4300 then Inl ValueError
      else case scan_digits 0 False body of None \<Rightarrow> Inl ValueError
        | Some n \<Rightarrow> Inr (if negative then - n else n))"

fun decimal :: "nat \<Rightarrow> string" where
  "decimal n = (if n < 10 then [char_of (48 + n)] else decimal (n div 10) @ [char_of (48 + n mod 10)])"

declare decimal.simps [simp del]

text \<open>\<open>{n:04d}\<close> of a number that is not negative.\<close>

definition pad4 :: "nat \<Rightarrow> string" where
  "pad4 n = replicate (4 - length (decimal n)) (CHR ''0'') @ decimal n"

section \<open>Conversions of JSON values\<close>

definition py_int :: "('f, 'x) sim_float_scheme \<Rightarrow> 'f json \<Rightarrow> int res" where
  "py_int F v =
     (case v of J_bool b \<Rightarrow> Inr (of_bool b) | J_int i \<Rightarrow> Inr i | J_float x \<Rightarrow> fl_trunc F x
      | J_str s \<Rightarrow> parse_int s | _ \<Rightarrow> Inl TypeError)"

definition py_float :: "('f, 'x) sim_float_scheme \<Rightarrow> 'f json \<Rightarrow> 'f res" where
  "py_float F v =
     (case v of J_bool b \<Rightarrow> fl_conv F (of_bool b) | J_int i \<Rightarrow> fl_conv F i | J_float x \<Rightarrow> Inr x
      | J_str s \<Rightarrow> fl_parse F s | _ \<Rightarrow> Inl TypeError)"

definition py_str :: "('f, 'x) sim_ops_scheme \<Rightarrow> 'f json \<Rightarrow> string" where
  "py_str F v = (case v of J_str s \<Rightarrow> s | _ \<Rightarrow> fl_repr F v)"

text \<open>\<open>data[key]\<close>\<close>

definition getitem :: "string \<Rightarrow> 'f json \<Rightarrow> 'f json res" where
  "getitem key data =
     (case data of J_obj d \<Rightarrow> (case map_of d key of None \<Rightarrow> Inl KeyError | Some v \<Rightarrow> Inr v)
      | _ \<Rightarrow> Inl TypeError)"

text \<open>\<open>data.get(key, default)\<close>\<close>

definition dict_get :: "string \<Rightarrow> 'f json \<Rightarrow> 'f json \<Rightarrow> 'f json res" where
  "dict_get key dflt data =
     (case data of J_obj d \<Rightarrow> Inr (case map_of d key of None \<Rightarrow> dflt | Some v \<Rightarrow> v)
      | _ \<Rightarrow> Inl AttributeError)"

text \<open>\<open>for x in v\<close>: a dictionary yields its keys, a string its characters.\<close>

definition json_iter :: "'f json \<Rightarrow> 'f json list res" where
  "json_iter v =
     (case v of J_list xs \<Rightarrow> Inr xs | J_obj d \<Rightarrow> Inr (map (\<lambda>(k, _). J_str k) d)
      | J_str s \<Rightarrow> Inr (map (\<lambda>c. J_str [c]) s) | _ \<Rightarrow> Inl TypeError)"

lemma getitem_obj [simp]:
  "getitem key (J_obj d) = (case map_of d key of None \<Rightarrow> Inl KeyError | Some v \<Rightarrow> Inr v)"
  by (simp add: getitem_def)

lemma dict_get_obj [simp]:
  "dict_get key dflt (J_obj d) = Inr (case map_of d key of None \<Rightarrow> dflt | Some v \<Rightarrow> v)"
  by (simp add: dict_get_def)

lemma py_simps [simp]:
  "py_int F (J_int i) = Inr i" "py_float F (J_int i) = fl_conv F i" "py_float F (J_float x) = Inr x"
  "py_str G (J_str s) = s"
  by (simp_all add: py_int_def py_float_def py_str_def)

section \<open>Decimal numbers read back\<close>

lemma digit_of_char: "d < 10 \<Longrightarrow> digit_of (char_of (48 + d :: nat)) = Some (int d)"
proof -
  assume d: "d < 10"
  have "(of_char (char_of (48 + d) :: char) :: int) = int (of_char (char_of (48 + d) :: char))"
    by (simp only: of_nat_of_char)
  also have "\<dots> = int (48 + d)" using d by (subst of_char_of) simp
  finally have "(of_char (char_of (48 + d) :: char) :: int) = 48 + int d" by simp
  then show ?thesis using d by (simp only: digit_of_def Let_def) simp
qed

lemma scan_decimal:
  "scan_digits acc prev (decimal n @ ys) = scan_digits (acc * 10 ^ length (decimal n) + int n) True ys"
proof (induction n arbitrary: acc prev ys rule: decimal.induct)
  case (1 n)
  show ?case
  proof (cases "n < 10")
    case True
    then show ?thesis by (simp add: decimal.simps [of n] digit_of_char mult.commute)
  next
    case False
    have "scan_digits acc prev (decimal n @ ys) =
        scan_digits acc prev (decimal (n div 10) @ (char_of (48 + n mod 10) # ys))"
      using False by (simp add: decimal.simps [of n])
    also have "\<dots> = scan_digits (10 * (acc * 10 ^ length (decimal (n div 10)) + int (n div 10)) + int (n mod 10)) True ys"
      by (simp only: "1.IH" [OF False]) (simp add: digit_of_char)
    also have "10 * (acc * 10 ^ length (decimal (n div 10)) + int (n div 10)) + int (n mod 10) =
        acc * 10 ^ length (decimal n) + int n"
      using False by (simp add: decimal.simps [of n] algebra_simps zmod_int zdiv_int)
    finally show ?thesis .
  qed
qed

lemma scan_zeros: "scan_digits 0 True (replicate k (CHR ''0'') @ ys) = scan_digits 0 True ys"
  by (induction k) (simp_all add: digit_of_def)

lemma scan_pad4: "scan_digits 0 False (pad4 n) = Some (int n)"
proof (cases "4 - length (decimal n)")
  case 0
  then show ?thesis using scan_decimal [of 0 False n "[]"] by (simp add: pad4_def)
next
  case (Suc k)
  then have "scan_digits 0 False (pad4 n) = scan_digits 0 True (replicate k (CHR ''0'') @ decimal n)"
    by (simp add: pad4_def digit_of_def)
  then show ?thesis using scan_decimal [of 0 True n "[]"] by (simp add: scan_zeros)
qed

lemma pad4_inj: "pad4 m = pad4 n \<Longrightarrow> m = n"
  by (metis scan_pad4 option.inject of_nat_eq_iff)

lemma parse_int_demo:
  "parse_int '' 42 '' = Inr 42 \<and> parse_int ''-1_000'' = Inr (- 1000) \<and> parse_int ''4_'' = Inl ValueError \<and>
   parse_int [] = Inl ValueError \<and> pad4 7 = ''0007''"
  by code_simp

end
