(* ===== verification/AgenticTrace.thy ===== *)
theory AgenticTrace
  imports Prototype PyText
begin

text \<open>
  The real token graph of \<open>fpga/prototype.py\<close> on the FPGA backend, and \<open>run_agentic_trace\<close>, which
  submits it through the driver once per output token: what one graph answers and costs, and the
  report of a whole trace.
\<close>

section \<open>One token graph\<close>

lemma ensure_local_ok:
  assumes wf: "memory_wf m" and v: "map_of (mem_pages m) v = Some pg" and bw: "mt_bytes_per_cycle (mem_timing m) \<noteq> 0"
  obtains m' pg' cyc where "ensure_local v m = (Inr (pg', cyc, \<not> is_local pg), m')"
    "page_cycles (mem_timing m) pg = Inr cyc" "memory_wf m'" "map_of (mem_pages m') v = Some pg'" "is_local pg'"
    "pg_payload pg' = pg_payload pg" "pg_size_bytes pg' = pg_size_bytes pg" "mem_timing m' = mem_timing m"
    "mem_page_faults m' = mem_page_faults m + of_bool (\<not> is_local pg)"
    "mem_migrations m' = mem_migrations m + of_bool (\<not> is_local pg)"
    "mem_bytes_migrated m' = mem_bytes_migrated m + (if is_local pg then 0 else pg_size_bytes pg)"
proof (cases "is_local pg")
  case True
  show ?thesis by (rule that [of pg "mt_local_read_cycles (mem_timing m)" m])
      (simp_all add: True ensure_local_hit [OF v True] wf v page_cycles_def)
next
  case False
  obtain m' pg' where m': "ensure_local v m = (case migration_cycles (mem_timing m) (pg_size_bytes pg) of
       Inl e \<Rightarrow> (Inl e, m') | Inr cycles \<Rightarrow> (Inr (pg', cycles, True), m'))"
    "memory_wf m'" "map_of (mem_pages m') v = Some pg'" "pg_payload pg' = pg_payload pg"
    "pg_size_bytes pg' = pg_size_bytes pg" "is_local pg'" "mem_timing m' = mem_timing m"
    "mem_page_faults m' = mem_page_faults m + 1" "mem_migrations m' = mem_migrations m + 1"
    "mem_bytes_migrated m' = mem_bytes_migrated m + pg_size_bytes pg"
    by (rule ensure_local_host [OF wf v False]) (rule that)
  obtain cyc where "migration_cycles (mem_timing m) (pg_size_bytes pg) = Inr cyc"
    using bw by (simp add: migration_cycles_def Let_def)
  with m' False show ?thesis by (intro that [of pg' cyc m']) (simp_all add: page_cycles_def)
qed

text \<open>What a model answers: the attention vector and the tensor output of its page.\<close>

definition tensor_of :: "toy_model \<Rightarrow> int list \<Rightarrow> (int list \<times> bool list) res" where
  "tensor_of model att = quantized_gemv (map (\<lambda>item. max (-128) (min 127 item)) att) (tm_packed_rows model)
     (replicate 4 ''int8'') (replicate 4 0) (tm_scales_q8_8 model) (tm_biases model) ''bypass''"

text \<open>
  A device that can run the graph: its memory is in order, page 1 holds \<open>(keys, values)\<close> in
  \<open>sz\<close> bytes, and the model computes \<open>att\<close> and \<open>out\<close> from them.
\<close>

definition toy_ready :: "toy_model \<Rightarrow> memory_timing \<Rightarrow> kv_payload \<Rightarrow> int \<Rightarrow> fpga \<Rightarrow> bool" where
  "toy_ready model timing kv sz d \<longleftrightarrow>
     memory_wf (fp_memory d) \<and> mem_timing (fp_memory d) = timing \<and> mt_bytes_per_cycle timing \<noteq> 0 \<and>
     fp_model d = model \<and>
     (case map_of (mem_pages (fp_memory d)) 1 of None \<Rightarrow> False
      | Some pg \<Rightarrow> pg_payload pg = kv \<and> pg_size_bytes pg = sz)"

definition page_local :: "fpga \<Rightarrow> bool" where
  "page_local d \<longleftrightarrow> (case map_of (mem_pages (fp_memory d)) 1 of None \<Rightarrow> False | Some pg \<Rightarrow> is_local pg)"

text \<open>The cycles of the graph on \<open>k\<close> keys, on a resident page and with a migration.\<close>

definition warm_cycles :: "memory_timing \<Rightarrow> nat \<Rightarrow> int" where
  "warm_cycles t k = 35 + 3 * int k + 2 * mt_local_read_cycles t"

definition cold_cycles :: "memory_timing \<Rightarrow> nat \<Rightarrow> int \<Rightarrow> int" where
  "cold_cycles t k sz = 35 + 3 * int k + mt_local_read_cycles t +
     (mt_migration_setup_cycles t + mt_host_read_cycles t + (sz + mt_bytes_per_cycle t - 1) div mt_bytes_per_cycle t)"

lemma fetch_page_ok:
  assumes "memory_wf (fp_memory d)" "map_of (mem_pages (fp_memory d)) v = Some pg"
    and "mt_bytes_per_cycle (mem_timing (fp_memory d)) \<noteq> 0"
  obtains d' m' pg' cyc where "fetch_page v d = (Inr (pg', cyc, cyc), d')" "fp_memory d' = m'"
    "page_cycles (mem_timing (fp_memory d)) pg = Inr cyc" "memory_wf m'" "map_of (mem_pages m') v = Some pg'" "is_local pg'"
    "pg_payload pg' = pg_payload pg" "pg_size_bytes pg' = pg_size_bytes pg"
    "mem_page_faults m' = mem_page_faults (fp_memory d) + of_bool (\<not> is_local pg)"
    "mem_migrations m' = mem_migrations (fp_memory d) + of_bool (\<not> is_local pg)"
    "mem_bytes_migrated m' = mem_bytes_migrated (fp_memory d) + (if is_local pg then 0 else pg_size_bytes pg)"
    "node_frame d d'"
proof -
  obtain m' pg' cyc where m': "ensure_local v (fp_memory d) = (Inr (pg', cyc, \<not> is_local pg), m')"
    "page_cycles (mem_timing (fp_memory d)) pg = Inr cyc" "memory_wf m'" "map_of (mem_pages m') v = Some pg'" "is_local pg'"
    "pg_payload pg' = pg_payload pg" "pg_size_bytes pg' = pg_size_bytes pg" "mem_timing m' = mem_timing (fp_memory d)"
    "mem_page_faults m' = mem_page_faults (fp_memory d) + of_bool (\<not> is_local pg)"
    "mem_migrations m' = mem_migrations (fp_memory d) + of_bool (\<not> is_local pg)"
    "mem_bytes_migrated m' = mem_bytes_migrated (fp_memory d) + (if is_local pg then 0 else pg_size_bytes pg)"
    by (rule ensure_local_ok [OF assms])
  define d' where "d' = (if is_local pg then d\<lparr>fp_memory := m'\<rparr>
    else increment KV_RECOVERED 1 (increment KV_FAULTS 1 (d\<lparr>fp_memory := m'\<rparr>)))"
  have run: "fetch_page v d = (Inr (pg', cyc, cyc), d')"
    using m'(1,2,8) assms(2) by (simp add: fetch_page_def Let_def d'_def page_cycles_def split: if_splits)
  show ?thesis
    by (rule that [OF run _ m'(2-7,9-11) fetch_page_frame(1) [OF run]]) (simp add: d'_def)
qed

lemma toy_graph_nodes:
  "build_toy_graph 1 =
     [mk_node 1 0 0 1, mk_node 2 1 1 4233, (mk_node 3 2 2 0)\<lparr>gn_flags := 8\<rparr>, mk_node 15 3 4 0]"
  by (simp add: build_toy_graph_def GRAPH_FLAG_TENSOR_USE_PREVIOUS_def)

text \<open>The record a graph leaves, and what it does to the device.\<close>

definition toy_done ::
  "int \<Rightarrow> int list \<Rightarrow> int list \<Rightarrow> int \<Rightarrow> fpga \<Rightarrow> fpga \<Rightarrow> bool"
where
  "toy_done rid att out cycles d d' \<longleftrightarrow>
     same_control d d' \<and>
     fp_records d' = (fp_records d)(rid \<mapsto>
       \<lparr>er_request_id = rid, er_cycles = cycles, er_predicted_cycles = cycles, er_output = out,
        er_page_faults = of_bool (\<not> page_local d), er_migrations = of_bool (\<not> page_local d)\<rparr>) \<and>
     fp_outputs d' = (fp_outputs d)(rid \<mapsto> out) \<and> page_local d' \<and>
     mem_page_faults (fp_memory d') = mem_page_faults (fp_memory d) + of_bool (\<not> page_local d) \<and>
     mem_migrations (fp_memory d') = mem_migrations (fp_memory d) + of_bool (\<not> page_local d)"

lemma toy_graph_run:
  assumes ready: "toy_ready model timing (keys, vals) sz d"
    and att: "rtl_online_attention (tm_query model) keys vals None 16 = Inr att"
    and out: "tensor_of model att = Inr (out, sats)" and prio: "0 \<le> prio" "prio \<le> 3"
  obtains d' where "fpga_execute_graph (graph_cmd rid (build_toy_graph 1) prio) d =
      (Inr (), complete_with (Completion rid OK ((pack_int16 att XOR pack_int16 out) AND MASK64)) d')"
    "toy_done rid att out (if page_local d then warm_cycles timing (length keys) else cold_cycles timing (length keys) sz) d d'"
    "toy_ready model timing (keys, vals) sz d'"
    "mem_bytes_migrated (fp_memory d') = mem_bytes_migrated (fp_memory d) + (if page_local d then 0 else sz)"
proof -
  define d0 where "d0 = increment GRAPH_NODES 4 d"
  have d0: "fp_memory d0 = fp_memory d" "fp_model d0 = model" using ready by (simp_all add: d0_def toy_ready_def)
  have fr0: "node_frame d d0" unfolding d0_def by (rule node_frame_increment) simp
  obtain pg where pg: "map_of (mem_pages (fp_memory d0)) 1 = Some pg" "pg_payload pg = (keys, vals)" "pg_size_bytes pg = sz"
    using ready d0 by (auto simp: toy_ready_def split: option.splits)
  have pl: "page_local d = is_local pg" using pg(1) d0(1) by (simp add: page_local_def)
  have wf: "memory_wf (fp_memory d0)" "mt_bytes_per_cycle (mem_timing (fp_memory d0)) \<noteq> 0" "mem_timing (fp_memory d0) = timing"
    using ready d0 by (simp_all add: toy_ready_def)
  obtain d1 m1 pg1 c1 where 1: "fetch_page 1 d0 = (Inr (pg1, c1, c1), d1)" "fp_memory d1 = m1"
    "page_cycles timing pg = Inr c1" "memory_wf m1" "map_of (mem_pages m1) 1 = Some pg1" "is_local pg1"
    "pg_payload pg1 = (keys, vals)" "pg_size_bytes pg1 = sz"
    "mem_page_faults m1 = mem_page_faults (fp_memory d) + of_bool (\<not> is_local pg)"
    "mem_migrations m1 = mem_migrations (fp_memory d) + of_bool (\<not> is_local pg)"
    "mem_bytes_migrated m1 = mem_bytes_migrated (fp_memory d) + (if is_local pg then 0 else sz)" "node_frame d0 d1"
    by (rule fetch_page_ok [OF wf(1) pg(1) wf(2), unfolded pg(2,3) d0(1) wf(3) [unfolded d0(1)]]) (rule that)
  have timing1: "mem_timing m1 = timing" using 1(12) wf(3) 1(2) by (simp add: node_frame_def same_payloads_def)
  have model1: "fp_model d1 = model" using 1(12) d0(2) by (simp add: node_frame_def)
  have upd: "d1\<lparr>fp_memory := m1\<rparr> = d1" using 1(2) by simp
  have 2: "fetch_page 1 d1 = (Inr (pg1, mt_local_read_cycles timing, mt_local_read_cycles timing), d1)"
    using 1(2,5,6) timing1 upd by (simp add: fetch_page_def ensure_local_hit Let_def)
  define att_c where "att_c = 9 + int (length keys) * 3 + mt_local_read_cycles timing"
  define cyc where "cyc = 2 + (6 + c1) + 2 + att_c + 2 + 12 + 2"
  define s0 where "s0 = \<lparr>fr_device = d0, fr_result = 0, fr_cycles = 0, fr_predicted = 0, fr_output = [], fr_attention = None\<rparr>"
  define s1 where "s1 = \<lparr>fr_device = d1, fr_result = 0, fr_cycles = 2 + (6 + c1), fr_predicted = 2 + (6 + c1),
    fr_output = [], fr_attention = None\<rparr>"
  define s2 where "s2 = \<lparr>fr_device = d1, fr_result = pack_int16 att, fr_cycles = 2 + (6 + c1) + 2 + att_c,
    fr_predicted = 2 + (6 + c1) + 2 + att_c, fr_output = [], fr_attention = Some att\<rparr>"
  define s3 where "s3 = \<lparr>fr_device = d1, fr_result = pack_int16 att XOR pack_int16 out, fr_cycles = 2 + (6 + c1) + 2 + att_c + 2 + 12,
    fr_predicted = 2 + (6 + c1) + 2 + att_c + 2 + 12, fr_output = out, fr_attention = Some att\<rparr>"
  define s4 where "s4 = s3\<lparr>fr_cycles := cyc, fr_predicted := cyc\<rparr>"
  define n0 where "n0 = mk_node 1 0 0 1"
  define n1 where "n1 = mk_node 2 1 1 4233"
  define n2 where "n2 = (mk_node 3 2 2 0)\<lparr>gn_flags := 8\<rparr>"
  define n3 where "n3 = mk_node 15 3 4 0"
  note nodes = n0_def n1_def n2_def n3_def mk_node_def
  let ?sf = "mem_page_faults (fp_memory d)" and ?sm = "mem_migrations (fp_memory d)"
  have e0: "fpga_exec rid ?sf ?sm n0 s0 = Inl s1"
    using 1(1) by (simp add: fpga_exec_def nodes run_node_def run_dma_def s0_def s1_def charge_def cycle_constants)
  have e1: "fpga_exec rid ?sf ?sm n1 s1 = Inl s2"
    using 2 1(7) att model1
    by (simp add: fpga_exec_def nodes run_node_def run_attention_def s1_def s2_def charge_def mix_def cycle_constants
        Let_def att_c_def)
  have e2: "fpga_exec rid ?sf ?sm n2 s2 = Inl s3"
    using out model1
    by (simp add: fpga_exec_def nodes run_node_def run_tensor_def tensor_of_def s2_def s3_def charge_def mix_def cycle_constants
        Let_def GRAPH_FLAG_TENSOR_USE_PREVIOUS_def)
  have e3: "fpga_exec rid ?sf ?sm n3 s3 = Inr (Inr (), finish rid ?sf ?sm s4)"
    by (simp add: fpga_exec_def nodes s3_def s4_def charge_def cycle_constants cyc_def)
  have "fpga_loop rid ?sf ?sm [n0, n1, n2, n3] 0 s0 = fpga_loop rid ?sf ?sm [n1, n2, n3] 1 s1"
    by (subst fpga_engine.loop_step [OF _ e0]) (simp_all add: ready_def mark_done_def nodes)
  also have "\<dots> = fpga_loop rid ?sf ?sm [n2, n3] 3 s2"
    by (subst fpga_engine.loop_step [OF _ e1]) (simp_all add: ready_def mark_done_def nodes)
  also have "\<dots> = fpga_loop rid ?sf ?sm [n3] 7 s3"
    by (subst fpga_engine.loop_step [OF _ e2]) (simp_all add: ready_def mark_done_def nodes)
  also have "\<dots> = (Inr (), finish rid ?sf ?sm s4)"
    by (rule fpga_engine.loop_end [OF _ e3]) (simp add: ready_def nodes)
  finally have run: "fpga_execute_graph (graph_cmd rid (build_toy_graph 1) prio) d = (Inr (), finish rid ?sf ?sm s4)"
    using prio d0(1) unfolding toy_graph_nodes n0_def [symmetric] n1_def [symmetric] n2_def [symmetric] n3_def [symmetric]
    by (simp add: fpga_execute_graph_def Let_def d0_def [symmetric] s0_def)
  have cyc: "cyc = (if page_local d then warm_cycles timing (length keys) else cold_cycles timing (length keys) sz)"
    using 1(3) wf(2,3) pg(3)
    by (auto simp: cyc_def att_c_def pl warm_cycles_def cold_cycles_def page_cycles_def migration_cycles_def Let_def
        split: if_splits)
  have fr: "node_frame d d1" using fr0 1(12) by (rule node_frame_trans)
  have control: "same_control d (recorded rid ?sf ?sm s4)"
    using fr recorded_frame(1) [of s4] same_control_trans by (fastforce simp: node_frame_def s4_def s3_def)
  show ?thesis
  proof (rule that [of "recorded rid ?sf ?sm s4"])
    show "fpga_execute_graph (graph_cmd rid (build_toy_graph 1) prio) d =
      (Inr (), complete_with (Completion rid OK ((pack_int16 att XOR pack_int16 out) AND MASK64)) (recorded rid ?sf ?sm s4))"
      unfolding run finish_recorded by (simp add: s4_def s3_def)
    show "toy_done rid att out (if page_local d then warm_cycles timing (length keys) else cold_cycles timing (length keys) sz)
        d (recorded rid ?sf ?sm s4)"
      using control fr 1(2,5,6,9,10) pl unfolding cyc [symmetric] toy_done_def
      by (simp add: recorded_def Let_def s4_def s3_def node_frame_def page_local_def)
    show "toy_ready model timing (keys, vals) sz (recorded rid ?sf ?sm s4)"
      using 1(2,4,5,7,8) timing1 model1 wf(2,3) by (simp add: toy_ready_def recorded_def Let_def s4_def s3_def)
    show "mem_bytes_migrated (fp_memory (recorded rid ?sf ?sm s4)) = mem_bytes_migrated (fp_memory d) + (if page_local d then 0 else sz)"
      using 1(2,11) pl by (simp add: recorded_def Let_def s4_def s3_def)
  qed
qed

section \<open>One graph through the driver\<close>

lemma service_loop_empty:
  "fault_ring d = Some r \<Longrightarrow> ring_items r = [] \<Longrightarrow> service_loop eg n k fw d = (Inr k, fw, d)"
proof -
  assume r: "fault_ring d = Some r" "ring_items r = []"
  have upd: "d\<lparr>fault_ring := Some r\<rparr> = d" using r(1) by simp
  show ?thesis
    by (cases n) (simp_all only: service_loop.simps r(1) pop_empty [OF r(2)] option.case prod.case upd)
qed

text \<open>The completion can be read off the device it was queued on.\<close>

lemma complete_with_inject:
  assumes "completion_ring d = Some r" "completion_ring d' = Some r" "int (length (ring_items r)) < ring_entries r"
    and "complete_with c d = complete_with c' d'"
  shows "c = c'"
proof -
  have "snd (push c r) = snd (push c' r)"
    using complete_with_room(3) [OF assms(1,3), of c] complete_with_room(3) [OF assms(2,3), of c'] assms(4) by simp
  from arg_cong [OF this, of ring_items] show ?thesis using assms(3) by (simp add: push_room)
qed

lemma serving_submit:
  assumes d: "serving sane answers N [] [] q d" and cmd: "driver_command cmd"
    and fresh: "cmd_request_id cmd \<notin> cmd_request_id ` set q"
  obtains (accepted) d' where "int (length q) < N" "submit cmd d = (Inr True, d')"
      "serving sane answers N [] [] (q @ [cmd]) d'" "kv_pages d' = kv_pages d" "device.more d' = device.more d"
  | (full) d' where "\<not> int (length q) < N" "submit cmd d = (Inr False, d')"
      "serving sane answers N [] [] q d'" "kv_pages d' = kv_pages d" "device.more d' = device.more d"
proof -
  obtain r where r: "enabled d" "command_ring d = Some r" "ring_entries r = N" "ring_items r = q"
    using d by (auto simp: serving_def)
  have le: "int (length q) \<le> N" using d by (simp add: serving_def in_flight_def)
  show ?thesis
  proof (cases "int (length q) < N")
    case True
    then have room: "int (length (ring_items r)) < ring_entries r" using r by simp
    have push: "push cmd r = (True, snd (push cmd r))" using push_room(1) [OF room] by (metis prod.collapse)
    have "submit cmd d = (Inr True, d\<lparr>command_ring := Some (snd (push cmd r))\<rparr>)"
      unfolding submit_def r(2) option.case by (subst push) (simp add: r(1))
    moreover have "serving sane answers N [] [] (q @ [cmd]) (d\<lparr>command_ring := Some (snd (push cmd r))\<rparr>)"
      using d cmd fresh r True push_room [OF room] by (auto simp: serving_def in_flight_def)
    ultimately show ?thesis using accepted True by simp
  next
    case False
    then have "push cmd r = (False, r)" using le r by (intro push_full) simp
    then have "submit cmd d = (Inr False, increment QUEUE_ERRORS 1 d)"
      using r by (simp add: submit_def)
    moreover have "serving sane answers N [] [] q (increment QUEUE_ERRORS 1 d)"
      using d servingI_control [OF d same_control_increment] by (simp add: serving_def)
    ultimately show ?thesis using full False by simp
  qed
qed

context engine_contract
begin

text \<open>
  On an idle device, submitting a graph and waiting for it runs the engine once, on a device that
  differs from the given one in its rings and counters only.
\<close>

lemma graph_round_trip:
  assumes d: "serving sane answers N [] [] [] d" and N: "0 < N"
    and enc: "list_all encodable g"
    and id: "0 \<le> drv_next_request_id drv" "drv_next_request_id drv < 2 ^ 64 - 1"
    and rid: "rid = drv_next_request_id drv" and polls: "0 < polls"
  obtains d1 d2 c d3 d4 box where
    "submit_graph g prio drv d = (Inr rid, drv\<lparr>drv_next_request_id := rid + 1\<rparr>, d1)"
    "eg (graph_cmd rid g prio) d2 = (Inr (), complete_with c d3)" "device.more d2 = device.more d"
    "wait eg rid polls (drv\<lparr>drv_next_request_id := rid + 1\<rparr>, fw, d1) =
       (Inr c, drv\<lparr>drv_next_request_id := rid + 1, drv_completions := box\<rparr>, fw, d4)"
    "serving sane answers N [] [] [] d4" "device.more d4 = device.more d3"
    "serving sane answers N [] [] [] d2" "same_control d2 d3"
proof -
  define cmd where "cmd = graph_cmd rid g prio"
  define drv1 where "drv1 = drv\<lparr>drv_next_request_id := rid + 1\<rparr>"
  have cmd: "driver_command cmd" using enc by (auto simp: driver_command_def cmd_def)
  obtain d1 where d1: "submit cmd d = (Inr True, d1)" "serving sane answers N [] [] [cmd] d1" "device.more d1 = device.more d"
    by (rule serving_submit [OF d cmd]) (use N in auto)
  have submit: "submit_graph g prio drv d = (Inr rid, drv1, d1)"
    using enc id d1(1) allocate_request_id_small [of drv]
    by (simp add: submit_graph_def map_res_encode rid issue_def cmd_def drv1_def)
  obtain r where r: "command_ring d1 = Some r" "fst (pop r) = Some cmd" "enabled d1" "ring_items r = [cmd]"
    using d1(2) pop_first by (fastforce simp: serving_def)
  define d2 where "d2 = increment ACCEPTED 1 (d1\<lparr>command_ring := Some (snd (pop r))\<rparr>)"
  have serve2: "serving sane answers N [] [] [] d2"
    using serving_pop_command [OF d1(2)] r unfolding d2_def by (metis option.inject)
  have more2: "device.more d2 = device.more d" using d1(3) by (simp add: d2_def)
  have sane2: "sane (device.more d2)" using serve2 by (simp add: serving_def)
  obtain c d3 where c: "eg cmd d2 = (Inr (), complete_with c d3)" "same_control d2 d3" "sane (device.more d3)"
    "answers cmd c"
    using eg_answers [OF sane2 enc] unfolding cmd_def by blast
  have serve3: "serving sane answers N ([] @ [(cmd, c)]) [] [] (complete_with c d3)" (is "serving _ _ _ _ _ _ ?d3")
  proof (rule serving_complete [OF servingI_control [OF serve2 c(2,3)]])
    show "answered answers (kv_pages d3) (cmd, c)"
      using c(4) by (simp add: answered_def cmd_def command_opcode_value_def)
  qed (use N in \<open>simp_all add: in_flight_def\<close>)
  obtain q where q: "command_ring ?d3 = Some q" "ring_items q = []" using serve3 by (auto simp: serving_def)
  obtain f where f: "fault_ring ?d3 = Some f" "ring_items f = []" using serve3 by (auto simp: serving_def)
  obtain o' where o: "completion_ring ?d3 = Some o'" "ring_entries o' = N" "ring_items o' = [c]"
    using serve3 by (auto simp: serving_def)
  have pop1: "pop r = (Some cmd, snd (pop r))" using r(2) by (metis prod.collapse)
  have step: "execute eg cmd d2 = (Inr (), ?d3)" using c(1) by (simp add: execute_def cmd_def)
  have upd: "?d3\<lparr>command_ring := Some q\<rparr> = ?d3" using q(1) by simp
  have stop: "process_loop eg (Suc 0) None 1 ?d3 = (Inr 1, ?d3)"
    by (simp only: process_loop.simps option.case q(1) pop_empty [OF q(2)] prod.case if_True upd)
  have "process eg None d1 = process_loop eg (Suc (Suc 0)) None 0 d1"
    using r by (simp add: process_def del: process_loop.simps)
  also have "\<dots> = process_loop eg (Suc 0) None 1 ?d3"
    by (subst process_loop.simps(2), subst r(1), subst option.case, subst option.case, subst pop1)
      (simp only: prod.case option.case d2_def [symmetric] step sum.case if_True, simp del: process_loop.simps)
  finally have process: "process eg None d1 = (Inr 1, ?d3)" using stop by (simp only:)
  have faults: "service_faults eg 16 fw ?d3 = (Inr 0, fw, ?d3)"
    using f service_loop_empty [OF f] by (simp add: service_faults_def del: service_loop.simps)
  obtain o2 where o2: "drain o' (drv_completions drv1) 0 = (o2, file_all [c] (drv_completions drv1), 1)"
    "ring_items o2 = []" "ring_entries o2 = N"
    using drain_all [of o' "drv_completions drv1" 0] o by auto
  define d4 where "d4 = ?d3\<lparr>completion_ring := Some o2\<rparr>"
  have poll: "poll eg True (drv1, fw, d1) = (Inr 1, drv1\<lparr>drv_completions := (drv_completions drv1)(rid \<mapsto> c)\<rparr>, fw, d4)"
    using process faults o(1) o2(1) answers_id [OF c(4)] by (simp add: poll_def d4_def file_all_def cmd_def)
  obtain k where k: "nat polls = Suc k" using polls by (metis Suc_pred zero_less_nat_eq)
  have "wait eg rid polls (drv1, fw, d1) =
      (Inr c, drv1\<lparr>drv_completions := ((drv_completions drv1)(rid \<mapsto> c))(rid := None)\<rparr>, fw, d4)"
    by (simp add: wait_def k poll take_completion_def)
  moreover have "serving sane answers N [] [] [] d4"
    unfolding d4_def using serving_drained [OF serve3 [simplified] o2(2,3)] serve3 o2(2,3)
    by (simp add: serving_def in_flight_def)
  moreover have "device.more d4 = device.more d3" by (simp add: d4_def)
  ultimately show ?thesis
    using that [OF submit [unfolded drv1_def] c(1) [unfolded cmd_def] more2] serve2 c(2)
    by (fastforce simp: drv1_def cmd_def)
qed

end

section \<open>\<open>run_agentic_trace\<close>\<close>

text \<open>
  A trace is the dictionary read from JSON; a request may lack its priority but not its number of
  tokens. Requests are read one after the other, so those before a malformed one have run.
\<close>

record 'f phase10_report =
  pr_graphs :: int
  pr_measured_cycles :: int
  pr_predicted_cycles :: int
  pr_tolerance :: 'f
  pr_page_faults :: int
  pr_migrations :: int
  pr_bytes_migrated :: int

type_synonym fpga_host = "driver \<times> firmware \<times> fpga"

text \<open>\<open>for _ in range(int(request["output_tokens"]))\<close>; the accumulator is \<open>(graphs, measured, predicted)\<close>.\<close>

fun run_tokens ::
  "int \<Rightarrow> nat \<Rightarrow> int \<times> int \<times> int \<Rightarrow> fpga_host \<Rightarrow> (int \<times> int \<times> int) res \<times> fpga_host"
where
  "run_tokens prio 0 acc h = (Inr acc, h)"
| "run_tokens prio (Suc n) (graphs, measured, predicted) (drv, fw, d) =
     (case submit_graph (build_toy_graph 1) prio drv d of
        (Inl e, drv1, d1) \<Rightarrow> (Inl e, drv1, fw, d1)
      | (Inr rid, drv1, d1) \<Rightarrow>
        (case wait fpga_execute_graph rid 16 (drv1, fw, d1) of
           (Inl e, h) \<Rightarrow> (Inl e, h)
         | (Inr c, drv2, fw2, d2) \<Rightarrow>
           if cpl_status c \<noteq> OK then (Inl RuntimeError, drv2, fw2, d2)
           else (case fp_records d2 rid of None \<Rightarrow> (Inl KeyError, drv2, fw2, d2)
             | Some rec \<Rightarrow>
               run_tokens prio n (graphs + 1, measured + er_cycles rec, predicted + er_predicted_cycles rec)
                 (drv2, fw2, d2))))"

definition trace_request :: "('f, 'x) sim_float_scheme \<Rightarrow> 'f json \<Rightarrow> (int \<times> int) res" where
  "trace_request F request =
     bind_res (bind_res (dict_get ''priority'' (J_int 0) request) (py_int F)) (\<lambda>prio.
     bind_res (bind_res (getitem ''output_tokens'' request) (py_int F)) (\<lambda>tokens.
     Inr (min 3 (max 0 prio), tokens)))"

fun run_requests ::
  "('f, 'x) sim_float_scheme \<Rightarrow> 'f json list \<Rightarrow> int \<times> int \<times> int \<Rightarrow> fpga_host \<Rightarrow> (int \<times> int \<times> int) res \<times> fpga_host"
where
  "run_requests F [] acc h = (Inr acc, h)"
| "run_requests F (request # requests) acc h =
     (case trace_request F request of Inl e \<Rightarrow> (Inl e, h)
      | Inr (prio, tokens) \<Rightarrow>
        (case run_tokens prio (nat tokens) acc h of
           (Inl e, h1) \<Rightarrow> (Inl e, h1)
         | (Inr acc1, h1) \<Rightarrow> run_requests F requests acc1 h1))"

definition cycle_tolerance :: "('f, 'x) sim_float_scheme \<Rightarrow> 'f dict \<Rightarrow> 'f res" where
  "cycle_tolerance F trace =
     bind_res (dict_get ''cycle_tolerance'' (J_float (fl_quot F (fl_of_int F 5) (fl_of_int F 100))) (J_obj trace)) (py_float F)"

definition run_agentic_trace ::
  "('f, 'x) sim_float_scheme \<Rightarrow> 'f dict \<Rightarrow> fpga_host \<Rightarrow> 'f phase10_report res \<times> fpga_host"
where
  "run_agentic_trace F trace h =
     (case cycle_tolerance F trace of Inl e \<Rightarrow> (Inl e, h)
      | Inr tolerance \<Rightarrow>
        (case bind_res (getitem ''requests'' (J_obj trace)) json_iter of Inl e \<Rightarrow> (Inl e, h)
         | Inr requests \<Rightarrow>
           (case run_requests F requests (0, 0, 0) h of
              (Inl e, h1) \<Rightarrow> (Inl e, h1)
            | (Inr (graphs, measured, predicted), drv, fw, d) \<Rightarrow>
                (Inr \<lparr>pr_graphs = graphs, pr_measured_cycles = measured, pr_predicted_cycles = predicted,
                      pr_tolerance = tolerance, pr_page_faults = mem_page_faults (fp_memory d),
                      pr_migrations = mem_migrations (fp_memory d),
                      pr_bytes_migrated = mem_bytes_migrated (fp_memory d)\<rparr>, drv, fw, d))))"

definition relative_error :: "('f, 'x) sim_float_scheme \<Rightarrow> 'f phase10_report \<Rightarrow> 'f res" where
  "relative_error F r =
     (if pr_predicted_cycles r = 0 then Inr (fl_zero F)
      else fl_true_div F \<bar>pr_measured_cycles r - pr_predicted_cycles r\<bar> (pr_predicted_cycles r))"

text \<open>The state between two tokens.\<close>

definition trace_state ::
  "int \<Rightarrow> nat \<Rightarrow> toy_model \<Rightarrow> memory_timing \<Rightarrow> kv_payload \<Rightarrow> int \<Rightarrow> fpga_host \<Rightarrow> bool"
where
  "trace_state N budget model timing kv sz h \<longleftrightarrow>
     (case h of (drv, fw, d) \<Rightarrow>
        serving fp_sane_ext fpga_answers N [] [] [] d \<and> 0 < N \<and> toy_ready model timing kv sz d \<and>
        0 \<le> drv_next_request_id drv \<and> drv_next_request_id drv + int budget \<le> 2 ^ 64 - 1)"

lemma toy_done_more:
  assumes "device.more d' = device.more d"
  shows "fp_memory d' = fp_memory d" "fp_model d' = fp_model d" "fp_records d' = fp_records d" "fp_outputs d' = fp_outputs d"
  using assms fp_ext_sel [of "RcifDevice_init 1" d] fp_ext_sel [of "RcifDevice_init 1" d'] by simp_all

lemma toy_graph_encodable: "list_all encodable (build_toy_graph 1)"
  unfolding toy_graph_nodes by (simp add: mk_node_def encodable_def)

text \<open>The cycles of the next \<open>n\<close> graphs: only the first one may migrate the page.\<close>

definition trace_cycles :: "memory_timing \<Rightarrow> nat \<Rightarrow> int \<Rightarrow> bool \<Rightarrow> nat \<Rightarrow> int" where
  "trace_cycles t k sz resident n =
     (if n = 0 then 0 else (if resident then warm_cycles t k else cold_cycles t k sz) + int (n - 1) * warm_cycles t k)"

lemma trace_cycles_Suc:
  "trace_cycles t k sz l (Suc n) = (if l then warm_cycles t k else cold_cycles t k sz) + trace_cycles t k sz True n"
  by (cases n) (simp_all add: trace_cycles_def algebra_simps)

text \<open>The record of one graph, which found the page resident or had to fetch it.\<close>

definition toy_record :: "memory_timing \<Rightarrow> nat \<Rightarrow> int \<Rightarrow> int list \<Rightarrow> bool \<Rightarrow> int \<Rightarrow> exec_record" where
  "toy_record t k sz out resident rid =
     (let cyc = (if resident then warm_cycles t k else cold_cycles t k sz) in
      \<lparr>er_request_id = rid, er_cycles = cyc, er_predicted_cycles = cyc, er_output = out,
       er_page_faults = of_bool (\<not> resident), er_migrations = of_bool (\<not> resident)\<rparr>)"

text \<open>
  What exactly \<open>n\<close> graphs do to the driver and the device: the next \<open>n\<close> request ids are spent, each
  of them has the record and the output of one graph and no other record changes, and the memory
  has counted the one fetch of the page, if it was not resident.
\<close>

definition tokens_done :: "memory_timing \<Rightarrow> nat \<Rightarrow> int \<Rightarrow> int list \<Rightarrow> nat \<Rightarrow> driver \<times> fpga \<Rightarrow> driver \<times> fpga \<Rightarrow> bool" where
  "tokens_done t k sz out n h h' \<longleftrightarrow>
     (case (h, h') of ((drv, d), (drv', d')) \<Rightarrow>
      let first = drv_next_request_id drv; fetched = of_bool (\<not> page_local d \<and> 0 < n) in
      drv_next_request_id drv' = first + int n \<and>
      fp_records d' = (\<lambda>rid. if rid \<in> {first..<first + int n}
        then Some (toy_record t k sz out (page_local d \<or> first < rid) rid) else fp_records d rid) \<and>
      fp_outputs d' = (\<lambda>rid. if rid \<in> {first..<first + int n} then Some out else fp_outputs d rid) \<and>
      mem_page_faults (fp_memory d') = mem_page_faults (fp_memory d) + fetched \<and>
      mem_migrations (fp_memory d') = mem_migrations (fp_memory d) + fetched \<and>
      mem_bytes_migrated (fp_memory d') = mem_bytes_migrated (fp_memory d) + fetched * sz \<and>
      page_local d' = (page_local d \<or> 0 < n))"

lemma tokens_done_0: "tokens_done t k sz out 0 (drv, d) (drv, d)"
  by (auto simp: tokens_done_def Let_def)

lemma tokens_done_trans:
  "tokens_done t k sz out n (drv, d) (drv1, d1) \<Longrightarrow> tokens_done t k sz out n' (drv1, d1) (drv', d') \<Longrightarrow>
     tokens_done t k sz out (n + n') (drv, d) (drv', d')"
  by (cases "n = 0"; cases "n' = 0") (auto simp: tokens_done_def Let_def fun_eq_iff)

lemma run_tokens_ok:
  assumes att: "rtl_online_attention (tm_query model) keys vals None 16 = Inr att"
    and out: "tensor_of model att = Inr (out, sats)" and prio: "0 \<le> prio" "prio \<le> 3"
  shows "trace_state N (n + m) model timing (keys, vals) sz (drv, fw, d) \<Longrightarrow>
    \<exists>drv' d'. run_tokens prio n (g, ms, pr) (drv, fw, d) =
       (Inr (g + int n, ms + trace_cycles timing (length keys) sz (page_local d) n,
             pr + trace_cycles timing (length keys) sz (page_local d) n), drv', fw, d') \<and>
     trace_state N m model timing (keys, vals) sz (drv', fw, d') \<and>
     tokens_done timing (length keys) sz out n (drv, d) (drv', d')"
proof (induction n arbitrary: g ms pr drv d)
  case 0
  then show ?case by (simp add: trace_cycles_def tokens_done_0)
next
  case (Suc n)
  define rid where "rid = drv_next_request_id drv"
  have st: "serving fp_sane_ext fpga_answers N [] [] [] d" "0 < N" "toy_ready model timing (keys, vals) sz d"
    "0 \<le> drv_next_request_id drv" "drv_next_request_id drv + int (Suc n + m) \<le> 2 ^ 64 - 1"
    using Suc.prems by (simp_all add: trace_state_def)
  have id: "drv_next_request_id drv < 2 ^ 64 - 1" using st(5) by simp
  obtain d1 d2 c d3 d4 box where 1:
    "submit_graph (build_toy_graph 1) prio drv d = (Inr rid, drv\<lparr>drv_next_request_id := rid + 1\<rparr>, d1)"
    "fpga_execute_graph (graph_cmd rid (build_toy_graph 1) prio) d2 = (Inr (), complete_with c d3)" "device.more d2 = device.more d"
    "wait fpga_execute_graph rid 16 (drv\<lparr>drv_next_request_id := rid + 1\<rparr>, fw, d1) =
       (Inr c, drv\<lparr>drv_next_request_id := rid + 1, drv_completions := box\<rparr>, fw, d4)"
    "serving fp_sane_ext fpga_answers N [] [] [] d4" "device.more d4 = device.more d3"
    "serving fp_sane_ext fpga_answers N [] [] [] d2" "same_control d2 d3"
    by (rule fpga_contract.graph_round_trip [OF st(1,2) toy_graph_encodable st(4) id rid_def, of 16 prio fw]) simp
  note eq2 = toy_done_more [OF 1(3)]
  have ready2: "toy_ready model timing (keys, vals) sz d2" using st(3) eq2 by (simp add: toy_ready_def)
  have local2: "page_local d2 = page_local d" using eq2 by (simp add: page_local_def)
  define cyc where "cyc = (if page_local d then warm_cycles timing (length keys) else cold_cycles timing (length keys) sz)"
  obtain d3' where 2: "fpga_execute_graph (graph_cmd rid (build_toy_graph 1) prio) d2 =
      (Inr (), complete_with (Completion rid OK ((pack_int16 att XOR pack_int16 out) AND MASK64)) d3')"
    "toy_done rid att out cyc d2 d3'" "toy_ready model timing (keys, vals) sz d3'"
    "mem_bytes_migrated (fp_memory d3') = mem_bytes_migrated (fp_memory d2) + (if page_local d2 then 0 else sz)"
    by (rule toy_graph_run [OF ready2 att out prio, of rid, unfolded local2, folded cyc_def, folded local2])
  have same: "complete_with c d3 = complete_with (Completion rid OK ((pack_int16 att XOR pack_int16 out) AND MASK64)) d3'"
    using 1(2) 2(1) by simp
  have "device.more d3 = device.more d3'" using arg_cong [OF same, of device.more] by simp
  then have more4: "device.more d4 = device.more d3'" using 1(6) by simp
  note eq4 = toy_done_more [OF more4]
  obtain r where r: "completion_ring d2 = Some r" "ring_entries r = N" "ring_items r = []"
    using 1(7) by (auto simp: serving_def)
  have c: "c = Completion rid OK ((pack_int16 att XOR pack_int16 out) AND MASK64)"
    by (rule complete_with_inject [OF _ _ _ same, of r])
      (use r st(2) 1(8) 2(2) in \<open>simp_all add: same_control_def toy_done_def\<close>)
  have rec: "fp_records d4 rid = Some \<lparr>er_request_id = rid, er_cycles = cyc, er_predicted_cycles = cyc, er_output = out,
      er_page_faults = of_bool (\<not> page_local d2), er_migrations = of_bool (\<not> page_local d2)\<rparr>"
    using 2(2) eq4 by (simp add: toy_done_def)
  have step: "run_tokens prio (Suc n) (g, ms, pr) (drv, fw, d) = run_tokens prio n (g + 1, ms + cyc, pr + cyc)
      (drv\<lparr>drv_next_request_id := rid + 1, drv_completions := box\<rparr>, fw, d4)"
    by (simp add: 1(1,4) c rec)
  have "toy_ready model timing (keys, vals) sz d4" using 2(3) eq4 by (simp add: toy_ready_def)
  then have st4: "trace_state N (n + m) model timing (keys, vals) sz
      (drv\<lparr>drv_next_request_id := rid + 1, drv_completions := box\<rparr>, fw, d4)"
    using 1(5) st(2,4,5) by (simp add: trace_state_def rid_def)
  have local4: "page_local d4" using 2(2) eq4 by (simp add: toy_done_def page_local_def)
  have "tokens_done timing (length keys) sz out 1 (drv, d) (drv\<lparr>drv_next_request_id := rid + 1, drv_completions := box\<rparr>, d4)"
    using 2(2,4) eq2 eq4 local2 local4
    by (auto simp: tokens_done_def toy_done_def toy_record_def cyc_def rid_def Let_def fun_eq_iff)
  moreover obtain drv' d' where ih: "run_tokens prio n (g + 1, ms + cyc, pr + cyc)
      (drv\<lparr>drv_next_request_id := rid + 1, drv_completions := box\<rparr>, fw, d4) =
       (Inr (g + 1 + int n, ms + cyc + trace_cycles timing (length keys) sz (page_local d4) n,
             pr + cyc + trace_cycles timing (length keys) sz (page_local d4) n), drv', fw, d')"
    "trace_state N m model timing (keys, vals) sz (drv', fw, d')"
    "tokens_done timing (length keys) sz out n (drv\<lparr>drv_next_request_id := rid + 1, drv_completions := box\<rparr>, d4) (drv', d')"
    using Suc.IH [OF st4] by blast
  ultimately have "tokens_done timing (length keys) sz out (Suc n) (drv, d) (drv', d')"
    using tokens_done_trans [of timing "length keys" sz out 1] by fastforce
  with ih show ?case
    unfolding step using local4 by (simp add: trace_cycles_Suc cyc_def)
qed

definition total_tokens :: "(int \<times> int) list \<Rightarrow> nat" where
  "total_tokens reqs = sum_list (map (\<lambda>(_, tokens). nat tokens) reqs)"

lemma trace_cycles_add:
  "trace_cycles t k sz l (n + n') = trace_cycles t k sz l n + trace_cycles t k sz (l \<or> 0 < n) n'"
  by (cases n; cases n') (simp_all add: trace_cycles_def algebra_simps)

lemma run_requests_ok:
  assumes att: "rtl_online_attention (tm_query model) keys vals None 16 = Inr att"
    and out: "tensor_of model att = Inr (out, sats)"
  shows "map_res (trace_request F) items = Inr reqs \<Longrightarrow>
    trace_state N (total_tokens reqs + k) model timing (keys, vals) sz (drv, fw, d) \<Longrightarrow>
    \<exists>drv' d'. run_requests F items (g, ms, pr) (drv, fw, d) =
       (Inr (g + int (total_tokens reqs), ms + trace_cycles timing (length keys) sz (page_local d) (total_tokens reqs),
             pr + trace_cycles timing (length keys) sz (page_local d) (total_tokens reqs)), drv', fw, d') \<and>
     trace_state N k model timing (keys, vals) sz (drv', fw, d') \<and>
     tokens_done timing (length keys) sz out (total_tokens reqs) (drv, d) (drv', d')"
proof (induction items arbitrary: g ms pr drv d reqs)
  case Nil
  then show ?case by (simp add: total_tokens_def trace_cycles_def tokens_done_0)
next
  case (Cons request items)
  obtain prio tokens reqs' where req: "trace_request F request = Inr (prio, tokens)"
      "map_res (trace_request F) items = Inr reqs'" "reqs = (prio, tokens) # reqs'"
    using Cons.prems(1) by (auto split: sum.splits)
  define n where "n = nat tokens"
  have total: "total_tokens reqs = n + total_tokens reqs'" by (simp add: total_tokens_def n_def req(3))
  have prio: "0 \<le> prio" "prio \<le> 3" using req(1) by (auto simp: trace_request_def bind_res_Inr)
  obtain drv1 d1 where 1: "run_tokens prio n (g, ms, pr) (drv, fw, d) =
       (Inr (g + int n, ms + trace_cycles timing (length keys) sz (page_local d) n,
             pr + trace_cycles timing (length keys) sz (page_local d) n), drv1, fw, d1)"
    "trace_state N (total_tokens reqs' + k) model timing (keys, vals) sz (drv1, fw, d1)"
    "tokens_done timing (length keys) sz out n (drv, d) (drv1, d1)"
    using run_tokens_ok [OF att out prio Cons.prems(2) [unfolded total add.assoc]] by blast
  obtain drv' d' where 2: "run_requests F items (g + int n, ms + trace_cycles timing (length keys) sz (page_local d) n,
             pr + trace_cycles timing (length keys) sz (page_local d) n) (drv1, fw, d1) =
       (Inr (g + int n + int (total_tokens reqs'),
             ms + trace_cycles timing (length keys) sz (page_local d) n +
               trace_cycles timing (length keys) sz (page_local d1) (total_tokens reqs'),
             pr + trace_cycles timing (length keys) sz (page_local d) n +
               trace_cycles timing (length keys) sz (page_local d1) (total_tokens reqs')), drv', fw, d')"
    "trace_state N k model timing (keys, vals) sz (drv', fw, d')"
    "tokens_done timing (length keys) sz out (total_tokens reqs') (drv1, d1) (drv', d')"
    using Cons.IH [OF req(2) 1(2)] by blast
  have "page_local d1 = (page_local d \<or> 0 < n)" using 1(3) by (simp add: tokens_done_def Let_def)
  moreover have "tokens_done timing (length keys) sz out (n + total_tokens reqs') (drv, d) (drv', d')"
    using 1(3) 2(3) by (rule tokens_done_trans)
  moreover have "run_requests F (request # items) (g, ms, pr) (drv, fw, d) =
      run_requests F items (g + int n, ms + trace_cycles timing (length keys) sz (page_local d) n,
             pr + trace_cycles timing (length keys) sz (page_local d) n) (drv1, fw, d1)"
    using 1(1) req(1) unfolding n_def by (simp del: run_tokens.simps)
  ultimately show ?case using 2(1,2) by (simp add: total trace_cycles_add algebra_simps)
qed

lemma booted_serving:
  assumes "booted fw img lock d0 d" and "sane (device.more d0)" and "pending d0 = Map.empty"
  shows "serving sane answers (fw_queue_entries fw) [] [] [] d"
  using assms
  by (auto simp: booted_def serving_def in_flight_def dest!: Ring_init_fields dest: legal_size_bounds)

lemma fresh_fpga:
  assumes "FpgaPrototypeDevice_init local_pages timing model = Inr d"
    and "rtl_online_attention (tm_query model) (tm_keys model) (tm_values model) None 16 = Inr att"
    and "mt_bytes_per_cycle (case timing of None \<Rightarrow> default_timing | Some t \<Rightarrow> t) \<noteq> 0"
  shows "fp_sane d" "pending d = Map.empty" "\<not> page_local d" "toy_ready model (case timing of None \<Rightarrow> default_timing | Some t \<Rightarrow> t) (tm_keys model, tm_values model) 32 d"
    "mem_page_faults (fp_memory d) = 0" "mem_migrations (fp_memory d) = 0" "mem_bytes_migrated (fp_memory d) = 0"
    "fp_records d = Map.empty"
proof -
  obtain m :: "kv_payload memory" where m: "ExternalMemory_init local_pages timing = Inr m"
    using assms(1) by (auto simp: FpgaPrototypeDevice_init_def split: sum.splits)
  define pg where "pg = \<lparr>pg_virtual_page = 1, pg_payload = (tm_keys model, tm_values model), pg_size_bytes = 32,
    pg_tier = ''host'', pg_physical_page = -1\<rparr>"
  have new: "mem_pages m = []" "mem_timing m = (case timing of None \<Rightarrow> default_timing | Some t \<Rightarrow> t)"
    "mem_page_faults m = 0" "mem_migrations m = 0" "mem_bytes_migrated m = 0"
    using m by (auto simp: ExternalMemory_init_def split: if_splits)
  have mapped: "map_page 1 (tm_keys model, tm_values model) 32 ''host'' m = (Inr (), m\<lparr>mem_pages := [(1, pg)]\<rparr>)"
    by (simp add: map_page_def new(1) pg_def)
  have d: "d = device.extend (RcifDevice_init 1) (fpga.fields (m\<lparr>mem_pages := [(1, pg)]\<rparr>) model Map.empty Map.empty)"
    using assms(1) m mapped by (simp add: FpgaPrototypeDevice_init_def)
  have mem: "fp_memory d = m\<lparr>mem_pages := [(1, pg)]\<rparr>" "fp_model d = model" "fp_records d = Map.empty"
    by (simp_all add: d device.defs fpga.defs)
  show "pending d = Map.empty" by (simp add: d device.defs RcifDevice_init_def power_on_reset_def)
  have "memory_wf (snd (map_page 1 (tm_keys model, tm_values model) 32 ''host'' m))"
    by (rule memory_wf_map_page [OF memory_wf_init [OF m]])
  then show "toy_ready model (case timing of None \<Rightarrow> default_timing | Some t \<Rightarrow> t) (tm_keys model, tm_values model) 32 d"
    using mem mapped new(2) assms(3) by (simp add: toy_ready_def pg_def)
  show "fp_sane d" using mem new(2) assms(2,3) by (simp add: fp_sane_def pg_def)
  show "\<not> page_local d" using mem by (simp add: page_local_def pg_def is_local_def)
  show "mem_page_faults (fp_memory d) = 0" "mem_migrations (fp_memory d) = 0" "mem_bytes_migrated (fp_memory d) = 0"
    "fp_records d = Map.empty"
    using mem new by simp_all
qed

text \<open>The state of driver and device after a boot, ready for \<open>k\<close> tokens.\<close>

lemma booted_trace_state:
  assumes "FpgaPrototypeDevice_init local_pages timing model = Inr d0"
    and "boot sha mac fw img lock d0 = (Inr True, d)"
    and "mt_bytes_per_cycle (case timing of None \<Rightarrow> default_timing | Some t \<Rightarrow> t) \<noteq> 0"
    and "rtl_online_attention (tm_query model) (tm_keys model) (tm_values model) None 16 = Inr att"
    and "int k \<le> 2 ^ 64 - 2"
  shows "trace_state (fw_queue_entries fw) k model (case timing of None \<Rightarrow> default_timing | Some t \<Rightarrow> t)
      (tm_keys model, tm_values model) 32 (RcifDriver_init, fw, d)"
    "\<not> page_local d" "mem_page_faults (fp_memory d) = 0" "mem_migrations (fp_memory d) = 0"
    "mem_bytes_migrated (fp_memory d) = 0" "fp_records d = Map.empty"
proof -
  note new = fresh_fpga [OF assms(1,4,3)]
  have booted: "booted fw img lock d0 d" and legal: "legal_size (fw_queue_entries fw)"
    using assms(2) by (cases rule: boot_cases [of sha mac fw img lock d0]; simp)+
  have more: "device.more d = device.more d0" using booted by (simp add: booted_def)
  note eq = toy_done_more [OF more]
  have "serving fp_sane_ext fpga_answers (fw_queue_entries fw) [] [] [] d"
    using new(1,2) by (intro booted_serving [OF booted]) (simp_all add: fp_sane_more)
  moreover have "toy_ready model (case timing of None \<Rightarrow> default_timing | Some t \<Rightarrow> t) (tm_keys model, tm_values model) 32 d"
    using new(4) eq by (simp add: toy_ready_def)
  ultimately show "trace_state (fw_queue_entries fw) k model (case timing of None \<Rightarrow> default_timing | Some t \<Rightarrow> t)
      (tm_keys model, tm_values model) 32 (RcifDriver_init, fw, d)"
    using legal_size_bounds [OF legal] assms(5) by (simp add: trace_state_def RcifDriver_init_def)
  show "\<not> page_local d" "mem_page_faults (fp_memory d) = 0" "mem_migrations (fp_memory d) = 0"
    "mem_bytes_migrated (fp_memory d) = 0" "fp_records d = Map.empty"
    using new(3,5-8) eq by (simp_all add: page_local_def)
qed

text \<open>
  C15: the report of a trace, end to end. Boot a fresh FPGA device through the firmware and run any
  trace whose requests parse over the driver; if the model computes at all, no call raises, every
  token's graph completes \<open>OK\<close>, and the report is known in advance: one graph per token, one page
  fault and one 32-byte migration altogether (none without tokens), the first graph at the cold
  cost, all later ones at the warm cost, and measured cycles equal to the predicted ones, so the
  relative error is the quotient of 0.
\<close>

theorem agentic_trace_report:
  fixes F :: "('f, 'x) sim_float_scheme"
  assumes "FpgaPrototypeDevice_init local_pages timing model = Inr d0"
    and "boot sha mac fw img lock d0 = (Inr True, d)"
    and "mt_bytes_per_cycle (case timing of None \<Rightarrow> default_timing | Some t \<Rightarrow> t) \<noteq> 0"
    and "rtl_online_attention (tm_query model) (tm_keys model) (tm_values model) None 16 = Inr att"
    and "tensor_of model att = Inr (out, sats)"
    and "map_of trace ''requests'' = Some (J_list items)" and "map_res (trace_request F) items = Inr reqs"
    and "cycle_tolerance F trace = Inr tol" and "int (total_tokens reqs) \<le> 2 ^ 64 - 2"
    and "n = total_tokens reqs"
    and "cycles = trace_cycles (case timing of None \<Rightarrow> default_timing | Some t \<Rightarrow> t) (length (tm_keys model)) 32 False n"
  shows "\<exists>rep. fst (run_agentic_trace F trace (RcifDriver_init, fw, d)) = Inr rep \<and>
    rep = \<lparr>pr_graphs = int n, pr_measured_cycles = cycles, pr_predicted_cycles = cycles, pr_tolerance = tol,
         pr_page_faults = of_bool (0 < n), pr_migrations = of_bool (0 < n), pr_bytes_migrated = of_bool (0 < n) * 32\<rparr> \<and>
    relative_error F rep = (if cycles = 0 then Inr (fl_zero F) else fl_true_div F 0 cycles)"
proof -
  note start = booted_trace_state [OF assms(1-4,9)]
  obtain drv' d' where "run_requests F items (0, 0, 0) (RcifDriver_init, fw, d) =
       (Inr (int n, cycles, cycles), drv', fw, d')"
    "tokens_done (case timing of None \<Rightarrow> default_timing | Some t \<Rightarrow> t) (length (tm_keys model)) 32 out n (RcifDriver_init, d) (drv', d')"
    using run_requests_ok [OF assms(4,5,7), where k = 0, simplified, OF start(1), of 0 0 0] start(2)
    by (auto simp: assms(10,11))
  then have "fst (run_agentic_trace F trace (RcifDriver_init, fw, d)) =
      Inr \<lparr>pr_graphs = int n, pr_measured_cycles = cycles, pr_predicted_cycles = cycles, pr_tolerance = tol,
         pr_page_faults = of_bool (0 < n), pr_migrations = of_bool (0 < n), pr_bytes_migrated = of_bool (0 < n) * 32\<rparr>"
    using start(2-5) by (simp add: run_agentic_trace_def assms(6,8) json_iter_def tokens_done_def Let_def)
  then show ?thesis by (simp add: relative_error_def)
qed

text \<open>
  C16: a malformed request ends the run with its error, after exactly the requests before it have
  run, one graph per token: the driver has spent that many request ids from 1 on, each of these ids
  and no other has a record and an output in the device (the first one cold, the others warm), the
  memory has counted one fetch of the page, and driver and device can serve the next trace.
\<close>

theorem malformed_request_stops_trace:
  fixes F :: "('f, 'x) sim_float_scheme"
  assumes "FpgaPrototypeDevice_init local_pages timing model = Inr d0"
    and "boot sha mac fw img lock d0 = (Inr True, d)"
    and "t = (case timing of None \<Rightarrow> default_timing | Some t \<Rightarrow> t)" and "mt_bytes_per_cycle t \<noteq> 0"
    and "rtl_online_attention (tm_query model) (tm_keys model) (tm_values model) None 16 = Inr att"
    and "tensor_of model att = Inr (out, sats)"
    and "map_of trace ''requests'' = Some (J_list (items @ bad # others))" and "map_res (trace_request F) items = Inr reqs"
    and "trace_request F bad = Inl e" and "cycle_tolerance F trace = Inr tol"
    and "int (total_tokens reqs + k) \<le> 2 ^ 64 - 2" and "n = total_tokens reqs"
  shows "\<exists>drv' d'. run_agentic_trace F trace (RcifDriver_init, fw, d) = (Inl e, drv', fw, d') \<and>
    drv_next_request_id drv' = 1 + int n \<and>
    fp_records d' = (\<lambda>rid. if 1 \<le> rid \<and> rid \<le> int n
      then Some (toy_record t (length (tm_keys model)) 32 out (1 < rid) rid) else None) \<and>
    tokens_done t (length (tm_keys model)) 32 out n (RcifDriver_init, d) (drv', d') \<and>
    trace_state (fw_queue_entries fw) k model t (tm_keys model, tm_values model) 32 (drv', fw, d')"
proof -
  note start = booted_trace_state [OF assms(1,2) assms(4) [unfolded assms(3)] assms(5,11)]
  obtain drv' d' acc where run: "run_requests F items (0, 0, 0) (RcifDriver_init, fw, d) = (Inr acc, drv', fw, d')"
    and done': "tokens_done t (length (tm_keys model)) 32 out n (RcifDriver_init, d) (drv', d')"
      "trace_state (fw_queue_entries fw) k model t (tm_keys model, tm_values model) 32 (drv', fw, d')"
    using run_requests_ok [OF assms(5,6,8) start(1), of 0 0 0] unfolding assms(3,12) by blast
  have "run_requests F (items @ bad # others) acc0 h = (Inl e, h')"
    if "run_requests F items acc0 h = (Inr acc, h')" for acc0 h h'
    using that assms(9) by (induction items arbitrary: acc0 h) (auto split: sum.splits prod.splits)
  from this [OF run] have "run_agentic_trace F trace (RcifDriver_init, fw, d) = (Inl e, drv', fw, d')"
    by (simp add: run_agentic_trace_def assms(7,10) json_iter_def)
  moreover have "drv_next_request_id drv' = 1 + int n" "fp_records d' = (\<lambda>rid. if 1 \<le> rid \<and> rid \<le> int n
      then Some (toy_record t (length (tm_keys model)) 32 out (1 < rid) rid) else None)"
    using done'(1) start(2,6) by (auto simp: tokens_done_def Let_def RcifDriver_init_def fun_eq_iff)
  ultimately show ?thesis using done' by blast
qed

text \<open>The shipped model: 165 cycles for the first graph, 71 for every later one.\<close>

lemma default_model_answers:
  "rtl_online_attention (tm_query DEFAULT_TOY_MODEL) (tm_keys DEFAULT_TOY_MODEL) (tm_values DEFAULT_TOY_MODEL) None 16
     = Inr [6, 1, 0, 3]"
  "tensor_of DEFAULT_TOY_MODEL [6, 1, 0, 3] = Inr ([10, 4, -5, 3], [False, False, False, False])"
  by code_simp+

lemma default_device:
  obtains d where "FpgaPrototypeDevice_init 32 None DEFAULT_TOY_MODEL = Inr d" "otp_minimum_version d = 1"
  by (simp add: FpgaPrototypeDevice_init_def ExternalMemory_init_def map_page_def device.defs RcifDevice_init_def
      power_on_reset_def)

text \<open>Arithmetic on rational numbers, for evaluation.\<close>

definition rat_float :: "rat sim_float" where
  "rat_float = \<lparr>fl_of_int = of_int, fl_add = (+), fl_sub = (-), fl_mul = (*), fl_quot = (/), fl_less = (<),
     fl_eq = (=), fl_exp = id, fl_sqrt = id, fl_sum = sum_list, fl_conv = (\<lambda>i. Inr (of_int i)),
     fl_trunc = (\<lambda>x. Inr \<lfloor>x\<rfloor>), fl_parse = (\<lambda>_. Inl ValueError),
     fl_true_div = (\<lambda>i j. if j = 0 then Inl ZeroDivisionError else Inr (of_int i / of_int j))\<rparr>"

text \<open>The trace \<open>sim/workloads/phase10_fpga_trace.json\<close>.\<close>

definition shipped_requests :: "rat json list" where
  "shipped_requests =
     [J_obj [(''request_id'', J_str ''coding-turn-a''), (''priority'', J_int 3), (''output_tokens'', J_int 3)],
      J_obj [(''request_id'', J_str ''coding-turn-b''), (''priority'', J_int 1), (''output_tokens'', J_int 5)]]"

definition phase10_trace :: "rat json list \<Rightarrow> rat dict" where
  "phase10_trace requests = [(''trace_name'', J_str ''phase10_fpga_agentic_smoke''), (''cycle_tolerance'', J_float (1 / 20)),
     (''requests'', J_list requests)]"

lemma shipped_requests_parse:
  "map_res (trace_request rat_float) shipped_requests = Inr [(3, 3), (1, 5)]"
  "cycle_tolerance rat_float (phase10_trace rs) = Inr (1 / 20)"
  "map_of (phase10_trace rs) ''requests'' = Some (J_list rs)"
  by (simp_all add: shipped_requests_def trace_request_def phase10_trace_def cycle_tolerance_def)

lemma toy_device:
  obtains d0 d where "FpgaPrototypeDevice_init 32 None DEFAULT_TOY_MODEL = Inr d0"
    "boot toy_sha toy_mac (fst (fresh toy_key 16 1)) (toy_image 3) True d0 = (Inr True, d)"
    "mt_bytes_per_cycle (case None of None \<Rightarrow> default_timing | Some t \<Rightarrow> t) \<noteq> 0"
proof -
  obtain d0 where d0: "FpgaPrototypeDevice_init 32 None DEFAULT_TOY_MODEL = Inr d0" "otp_minimum_version d0 = 1"
    by (rule default_device)
  obtain d where d: "boot toy_sha toy_mac (fst (fresh toy_key 16 1)) (toy_image 3) True d0 = (Inr True, d)"
    by (rule toy_boot [of d0 3 "fst (fresh toy_key 16 1)" True]) (simp_all add: d0(2) fresh_def)
  show ?thesis by (rule that [OF d0(1) d]) (simp add: default_timing_def)
qed

theorem agentic_trace_report_witness:
  "\<exists>d0 d. FpgaPrototypeDevice_init 32 None DEFAULT_TOY_MODEL = Inr d0 \<and>
     boot toy_sha toy_mac (fst (fresh toy_key 16 1)) (toy_image 3) True d0 = (Inr True, d) \<and>
     fst (run_agentic_trace rat_float (phase10_trace shipped_requests) (RcifDriver_init, fst (fresh toy_key 16 1), d)) =
     Inr \<lparr>pr_graphs = 8, pr_measured_cycles = 165 + 7 * 71, pr_predicted_cycles = 165 + 7 * 71,
          pr_tolerance = 1 / 20, pr_page_faults = 1, pr_migrations = 1, pr_bytes_migrated = 32\<rparr>"
proof -
  obtain d0 d where d: "FpgaPrototypeDevice_init 32 None DEFAULT_TOY_MODEL = Inr d0"
    "boot toy_sha toy_mac (fst (fresh toy_key 16 1)) (toy_image 3) True d0 = (Inr True, d)"
    "mt_bytes_per_cycle (case None of None \<Rightarrow> default_timing | Some t \<Rightarrow> t) \<noteq> 0" by (rule toy_device)
  have small: "int (total_tokens [(3, 3), (1, 5)]) \<le> 2 ^ 64 - 2" by (simp add: total_tokens_def)
  have n: "8 = total_tokens [(3, 3), (1, 5)]" by (simp add: total_tokens_def)
  have cycles: "trace_cycles (case None of None \<Rightarrow> default_timing | Some t \<Rightarrow> t) (length (tm_keys DEFAULT_TOY_MODEL)) 32 False 8
      = 165 + 7 * 71"
    by (simp add: trace_cycles_def warm_cycles_def cold_cycles_def default_timing_def DEFAULT_TOY_MODEL_def)
  from agentic_trace_report [OF d default_model_answers shipped_requests_parse(3,1,2) small n refl, unfolded cycles] d(1,2)
  show ?thesis by auto
qed

theorem malformed_request_stops_trace_witness:
  "\<exists>d drv' fw' d'. run_agentic_trace rat_float (phase10_trace (shipped_requests @ [J_obj [(''priority'', J_int 1)]]))
     (RcifDriver_init, fst (fresh toy_key 16 1), d) = (Inl KeyError, drv', fw', d') \<and>
     drv_next_request_id drv' = 9 \<and> fp_records d' 9 = None \<and> map_option er_cycles (fp_records d' 8) = Some 71"
proof -
  obtain d0 d where d: "FpgaPrototypeDevice_init 32 None DEFAULT_TOY_MODEL = Inr d0"
    "boot toy_sha toy_mac (fst (fresh toy_key 16 1)) (toy_image 3) True d0 = (Inr True, d)"
    "mt_bytes_per_cycle (case None of None \<Rightarrow> default_timing | Some t \<Rightarrow> t) \<noteq> 0" by (rule toy_device)
  have bad: "trace_request rat_float (J_obj [(''priority'', J_int 1)]) = Inl KeyError" by (simp add: trace_request_def)
  have small: "int (total_tokens [(3, 3), (1, 5)] + 0) \<le> 2 ^ 64 - 2" by (simp add: total_tokens_def)
  have n: "8 = total_tokens [(3, 3), (1, 5)]" by (simp add: total_tokens_def)
  have cycles: "er_cycles (toy_record (case None of None \<Rightarrow> default_timing | Some t \<Rightarrow> t) (length (tm_keys DEFAULT_TOY_MODEL)) 32 out True 8) = 71" for out
    by (simp add: toy_record_def warm_cycles_def default_timing_def DEFAULT_TOY_MODEL_def)
  from malformed_request_stops_trace [OF d(1,2) refl d(3) default_model_answers shipped_requests_parse(3,1) bad
      shipped_requests_parse(2) small n, of "[]"] cycles
  show ?thesis by fastforce
qed

text \<open>
  one token graph on any usable device. It completes \<open>OK\<close>; the result packs the attention
  vector XORed with the packed tensor output, both functions of the model and the page alone, so
  it is the same whether the page was resident or had to migrate; only the record tells the two
  apart: the warm or the cold cycle count, and no fault or one fault with one migration. The page
  is resident afterwards and the device usable again.
\<close>

theorem toy_graph_outcome:
  assumes "toy_ready model timing (keys, vals) sz d"
    and "rtl_online_attention (tm_query model) keys vals None 16 = Inr att"
    and "tensor_of model att = Inr (out, sats)" and "0 \<le> prio" and "prio \<le> 3"
  shows "\<exists>d'. fpga_execute_graph (graph_cmd rid (build_toy_graph 1) prio) d =
      (Inr (), complete_with (Completion rid OK ((pack_int16 att XOR pack_int16 out) AND MASK64)) d') \<and>
    toy_done rid att out (if page_local d then warm_cycles timing (length keys) else cold_cycles timing (length keys) sz) d d' \<and>
    toy_ready model timing (keys, vals) sz d'"
proof -
  obtain d' where "fpga_execute_graph (graph_cmd rid (build_toy_graph 1) prio) d =
      (Inr (), complete_with (Completion rid OK ((pack_int16 att XOR pack_int16 out) AND MASK64)) d')"
    "toy_done rid att out (if page_local d then warm_cycles timing (length keys) else cold_cycles timing (length keys) sz) d d'"
    "toy_ready model timing (keys, vals) sz d'"
    by (rule toy_graph_run [OF assms])
  then show ?thesis by blast
qed

theorem toy_graph_outcome_witness:
  "\<exists>d d'. FpgaPrototypeDevice_init 32 None DEFAULT_TOY_MODEL = Inr d \<and>
     fpga_execute_graph (graph_cmd 9 (build_toy_graph 1) 2) d = (Inr (),
       complete_with (Completion 9 OK ((pack_int16 [6, 1, 0, 3] XOR pack_int16 [10, 4, -5, 3]) AND MASK64)) d') \<and>
     toy_done 9 [6, 1, 0, 3] [10, 4, -5, 3] 165 d d'"
proof -
  obtain d where d: "FpgaPrototypeDevice_init 32 None DEFAULT_TOY_MODEL = Inr d" by (rule default_device)
  have "mt_bytes_per_cycle (case None of None \<Rightarrow> default_timing | Some t \<Rightarrow> t) \<noteq> 0" by (simp add: default_timing_def)
  note new = fresh_fpga [OF d default_model_answers(1) this]
  from toy_graph_outcome [OF new(4) default_model_answers, of 2 9]
  show ?thesis using d new(3)
    by (auto simp: cold_cycles_def default_timing_def DEFAULT_TOY_MODEL_def)
qed

end
