(* ===== verification/FloatNorm.thy ===== *)
theory FloatNorm
  imports FloatOps
begin

text \<open>
  \<open>rms_norm\<close> of \<open>dv/golden/tensor_ref.py\<close>, the floating-point RMSNorm beside the integer one of
  \<open>TensorRef\<close>. \<open>x ** 0.5\<close> is the square root; a negative \<open>x\<close> (a negative \<open>eps\<close> larger than the mean
  square) makes Python continue with complex numbers, which are outside the model.
\<close>

definition rms_norm :: "('f, 'x) float_ops_scheme \<Rightarrow> 'f list \<Rightarrow> 'f list \<Rightarrow> 'f \<Rightarrow> 'f list res" where
  "rms_norm F values' weights eps =
     (if length values' \<noteq> length weights then Inl ValueError
      else
        bind_res (fl_div F (fl_sum F (map (\<lambda>item. fl_mul F item item) values')) (fl_of_int F (int (length values'))))
          (\<lambda>mean_square.
        bind_res (fl_div F (fl_of_int F 1) (fl_sqrt F (fl_add F mean_square eps))) (\<lambda>scale.
        Inr (map (\<lambda>(item, weight). fl_mul F (fl_mul F item scale) weight) (zip values' weights)))))"

definition mean_square :: "real list \<Rightarrow> real" where
  "mean_square xs = (\<Sum>x\<leftarrow>xs. x * x) / real (length xs)"

lemma mean_square_nonneg: "0 \<le> mean_square xs"
  unfolding mean_square_def by (intro divide_nonneg_nonneg sum_list_nonneg) auto

lemma rms_norm_real:
  "rms_norm real_ops xs ws eps =
     (if length xs \<noteq> length ws then Inl ValueError
      else if xs = [] \<or> mean_square xs + eps = 0 then Inl ZeroDivisionError
      else Inr (map (\<lambda>(x, w). x * (1 / sqrt (mean_square xs + eps)) * w) (zip xs ws)))"
  by (auto simp: rms_norm_def fl_div_real mean_square_def)

lemma sum_list_scaled_squares: "(\<Sum>x\<leftarrow>xs. (x * c) * (x * c)) = (\<Sum>x\<leftarrow>xs. x * x) * (c * c :: real)"
  by (induction xs) (simp_all add: algebra_simps)

text \<open>
  over exact numbers and for \<open>eps\<close> that is not negative, \<open>rms_norm\<close> with unit weights returns a
  vector whose mean square is \<open>ms / (ms + eps)\<close>, where \<open>ms\<close> is the mean square of the input: at most 1,
  and 1 for \<open>eps = 0\<close>. It raises \<open>ZeroDivisionError\<close> exactly for the empty vector and for a zero
  vector with \<open>eps = 0\<close>.
\<close>

theorem rms_norm_unit_mean_square:
  assumes "0 \<le> eps"
  shows "rms_norm real_ops xs (replicate (length xs) 1) eps = Inl ZeroDivisionError \<and>
      (xs = [] \<or> (\<forall>x\<in>set xs. x = 0) \<and> eps = 0) \<or>
    (\<exists>ys. rms_norm real_ops xs (replicate (length xs) 1) eps = Inr ys \<and> length ys = length xs \<and> xs \<noteq> [] \<and>
      mean_square xs + eps \<noteq> 0 \<and> mean_square ys = mean_square xs / (mean_square xs + eps) \<and> mean_square ys \<le> 1)"
proof (cases "xs = [] \<or> mean_square xs + eps = 0")
  case True
  have "\<forall>x\<in>set xs. x = 0" if "xs \<noteq> []" "mean_square xs = 0"
  proof -
    have "(\<Sum>x\<leftarrow>xs. x * x) = 0" using that by (simp add: mean_square_def)
    then have "\<forall>y\<in>set (map (\<lambda>x. x * x) xs). y = 0"
      by (subst (asm) sum_list_nonneg_eq_0_iff) auto
    then show ?thesis by simp
  qed
  moreover have "mean_square xs = 0 \<and> eps = 0" if "xs \<noteq> []"
    using True that assms mean_square_nonneg [of xs] by linarith
  ultimately show ?thesis using True by (auto simp: rms_norm_real)
next
  case False
  define s where "s = 1 / sqrt (mean_square xs + eps)"
  have pos: "0 < mean_square xs + eps" using False assms mean_square_nonneg [of xs] by linarith
  then have s: "s * s = 1 / (mean_square xs + eps)" by (simp add: s_def)
  have ys: "rms_norm real_ops xs (replicate (length xs) 1) eps = Inr (map (\<lambda>x. x * s) xs)"
    using False by (simp add: rms_norm_real s_def zip_replicate2 comp_def)
  have ms: "mean_square (map (\<lambda>x. x * s) xs) = mean_square xs / (mean_square xs + eps)"
    by (simp add: mean_square_def comp_def sum_list_scaled_squares s)
  have "mean_square xs / (mean_square xs + eps) \<le> 1" using pos assms by simp
  then show ?thesis using False ys ms by auto
qed

theorem rms_norm_unit_mean_square_witness:
  "\<exists>ys. rms_norm real_ops [3, 4] [1, 1] 0 = Inr ys \<and> mean_square ys = 1"
proof -
  have "mean_square [3, 4] \<noteq> 0" by (simp add: mean_square_def)
  then show ?thesis using rms_norm_unit_mean_square [of 0 "[3, 4]"] by (auto simp: numeral_2_eq_2)
qed

end
