(* ===== verification/KVCache.thy ===== *)
theory KVCache
  imports FloatOps
begin

text \<open>
  \<open>dv/golden/kv_cache_ref.py\<close>: the paged KV cache and the attention decode over it.

  Floats are the parameter of \<open>FloatOps\<close>, so what is proved of the paging, the masks and the head
  mapping holds for binary64 as for any other arithmetic. \<open>copy_head_values\<close> converts with \<open>float\<close>,
  the identity on floats, and copies, which matters for aliasing only.
\<close>

section \<open>The cache\<close>

type_synonym 'f vec = "'f list"
type_synonym 'f head_values = "'f vec list"

record 'f kv_page =
  kp_page_id :: int
  kp_keys :: "'f head_values list"
  kp_values :: "'f head_values list"

record 'f kv_cache =
  kc_page_tokens :: int
  kc_num_kv_heads :: int
  kc_head_dim :: int
  kc_pages :: "'f kv_page list"

definition page_tokens :: "'f kv_page \<Rightarrow> int" where
  "page_tokens p = int (length (kp_keys p))"

text \<open>The constructor with its default \<open>pages\<close>, then \<open>__post_init__\<close>.\<close>

definition PagedKVCache_init :: "int \<Rightarrow> int \<Rightarrow> int \<Rightarrow> 'f kv_cache res" where
  "PagedKVCache_init pt heads hdim =
     (if pt \<le> 0 then Inl ValueError
      else if heads \<le> 0 then Inl ValueError
      else if hdim \<le> 0 then Inl ValueError
      else Inr \<lparr>kc_page_tokens = pt, kc_num_kv_heads = heads, kc_head_dim = hdim, kc_pages = []\<rparr>)"

definition cache_tokens :: "'f kv_cache \<Rightarrow> int" where
  "cache_tokens c = sum_list (map page_tokens (kc_pages c))"

definition check_head_values :: "'f kv_cache \<Rightarrow> 'f head_values \<Rightarrow> unit res" where
  "check_head_values c vals =
     (if int (length vals) \<noteq> kc_num_kv_heads c then Inl ValueError
      else check_all (\<lambda>head. if int (length head) \<noteq> kc_head_dim c then Inl ValueError else Inr ()) vals)"

definition copy_head_values :: "'f head_values \<Rightarrow> 'f head_values" where
  "copy_head_values vals = map (map (\<lambda>item. item)) vals"

definition append_token :: "'f head_values \<Rightarrow> 'f head_values \<Rightarrow> 'f kv_cache \<Rightarrow> unit res \<times> 'f kv_cache" where
  "append_token key val c =
     (case check_head_values c key of Inl e \<Rightarrow> (Inl e, c)
      | Inr _ \<Rightarrow>
        (case check_head_values c val of Inl e \<Rightarrow> (Inl e, c)
         | Inr _ \<Rightarrow>
           let pages = (if kc_pages c = [] \<or> page_tokens (last (kc_pages c)) \<ge> kc_page_tokens c
                  then kc_pages c @ [\<lparr>kp_page_id = int (length (kc_pages c)), kp_keys = [], kp_values = []\<rparr>]
                  else kc_pages c);
               p = last pages;
               p' = p\<lparr>kp_keys := kp_keys p @ [copy_head_values key], kp_values := kp_values p @ [copy_head_values val]\<rparr> in
           (Inr (), c\<lparr>kc_pages := butlast pages @ [p']\<rparr>)))"

text \<open>The generator, as the list of what it yields: two nested loops over one sequence of pairs.\<close>

fun emit :: "int option \<Rightarrow> int \<Rightarrow> ('f head_values \<times> 'f head_values) list \<Rightarrow> ('f head_values \<times> 'f head_values) list" where
  "emit limit emitted [] = []"
| "emit limit emitted (kv # rest) =
     (if (case limit of None \<Rightarrow> False | Some l \<Rightarrow> emitted \<ge> l) then [] else kv # emit limit (emitted + 1) rest)"

definition iter_tokens :: "int option \<Rightarrow> 'f kv_cache \<Rightarrow> ('f head_values \<times> 'f head_values) list" where
  "iter_tokens limit c = emit limit 0 (concat (map (\<lambda>p. zip (kp_keys p) (kp_values p)) (kc_pages c)))"

text \<open>\<open>xs[i]\<close> for an index that is not negative.\<close>

definition index :: "'a list \<Rightarrow> int \<Rightarrow> 'a res" where
  "index xs i = (if nat i < length xs then Inr (xs ! nat i) else Inl IndexError)"

definition get_token :: "int \<Rightarrow> 'f kv_cache \<Rightarrow> ('f head_values \<times> 'f head_values) res" where
  "get_token i c =
     (if i < 0 \<or> i \<ge> cache_tokens c then Inl IndexError
      else
        (case index (kc_pages c) (i div kc_page_tokens c) of Inl e \<Rightarrow> Inl e
         | Inr p \<Rightarrow>
           (case index (kp_keys p) (i mod kc_page_tokens c) of Inl e \<Rightarrow> Inl e
            | Inr k \<Rightarrow>
              (case index (kp_values p) (i mod kc_page_tokens c) of Inl e \<Rightarrow> Inl e
               | Inr v \<Rightarrow> Inr (k, v)))))"

section \<open>Attention decode\<close>

definition fl_dot :: "'f float_ops \<Rightarrow> 'f vec \<Rightarrow> 'f vec \<Rightarrow> 'f res" where
  "fl_dot F a b =
     (if length a \<noteq> length b then Inl ValueError
      else Inr (fl_sum F (map (\<lambda>(left, right). fl_mul F left right) (zip a b))))"

definition stable_softmax :: "'f float_ops \<Rightarrow> 'f list \<Rightarrow> 'f list res" where
  "stable_softmax F scores =
     (case scores of [] \<Rightarrow> Inr []
      | s # ss \<Rightarrow>
        let max_score = fold (\<lambda>x m. if fl_less F m x then x else m) ss s;
            exps = map (\<lambda>score. fl_exp F (fl_sub F score max_score)) scores;
            denom = fl_sum F exps in
        map_res (\<lambda>item. fl_div F item denom) exps)"

text \<open>The scan over the cached tokens for one query head.\<close>

fun gather ::
  "'f float_ops \<Rightarrow> 'f vec \<Rightarrow> int \<Rightarrow> 'f \<Rightarrow> bool list option \<Rightarrow> int \<Rightarrow>
   ('f head_values \<times> 'f head_values) list \<Rightarrow> ('f list \<times> 'f vec list) res"
where
  "gather F query kv_head scale allow i [] = Inr ([], [])"
| "gather F query kv_head scale allow i ((keys, vals) # rest) =
     (case (case allow of None \<Rightarrow> Inr True | Some m \<Rightarrow> index m i) of Inl e \<Rightarrow> Inl e
      | Inr keep \<Rightarrow>
        if \<not> keep then gather F query kv_head scale allow (i + 1) rest
        else (case index keys kv_head of Inl e \<Rightarrow> Inl e
          | Inr key \<Rightarrow>
            (case fl_dot F query key of Inl e \<Rightarrow> Inl e
             | Inr s \<Rightarrow>
               (case index vals kv_head of Inl e \<Rightarrow> Inl e
                | Inr v \<Rightarrow>
                  (case gather F query kv_head scale allow (i + 1) rest of Inl e \<Rightarrow> Inl e
                   | Inr (scores, vs) \<Rightarrow> Inr (fl_mul F s scale # scores, v # vs))))))"

text \<open>\<open>for dim_index, item in enumerate(value): output[dim_index] += weight * item\<close>\<close>

definition accumulate :: "'f float_ops \<Rightarrow> 'f \<Rightarrow> 'f vec \<Rightarrow> 'f vec \<Rightarrow> 'f vec res" where
  "accumulate F w v out =
     (if length v > length out then Inl IndexError
      else Inr (map (\<lambda>i. if i < length v then fl_add F (out ! i) (fl_mul F w (v ! i)) else out ! i) [0..<length out]))"

fun accumulate_all :: "'f float_ops \<Rightarrow> ('f \<times> 'f vec) list \<Rightarrow> 'f vec \<Rightarrow> 'f vec res" where
  "accumulate_all F [] out = Inr out"
| "accumulate_all F ((w, v) # rest) out =
     (case accumulate F w v out of Inl e \<Rightarrow> Inl e | Inr out' \<Rightarrow> accumulate_all F rest out')"

definition decode_head ::
  "'f float_ops \<Rightarrow> int \<Rightarrow> 'f \<Rightarrow> bool list option \<Rightarrow> ('f head_values \<times> 'f head_values) list \<Rightarrow>
   int \<Rightarrow> 'f vec \<Rightarrow> 'f vec res"
where
  "decode_head F head_dim scale allow cached kv_head query =
     (case gather F query kv_head scale allow 0 cached of Inl e \<Rightarrow> Inl e
      | Inr (scores, vs) \<Rightarrow>
        (case stable_softmax F scores of Inl e \<Rightarrow> Inl e
         | Inr weights \<Rightarrow> accumulate_all F (zip weights vs) (replicate (nat head_dim) (fl_zero F))))"

definition attention_decode ::
  "'f float_ops \<Rightarrow> 'f head_values \<Rightarrow> 'f kv_cache \<Rightarrow> int option \<Rightarrow> bool list option \<Rightarrow> 'f head_values res"
where
  "attention_decode F query_heads c context_tokens allow =
     (if query_heads = [] then Inl ValueError
      else if list_ex (\<lambda>head. int (length head) \<noteq> kc_head_dim c) query_heads then Inl ValueError
      else let total_context = (case context_tokens of None \<Rightarrow> cache_tokens c | Some n \<Rightarrow> n) in
        if total_context < 0 \<or> total_context > cache_tokens c then Inl ValueError
        else if (case allow of None \<Rightarrow> False | Some m \<Rightarrow> int (length m) < total_context) then Inl ValueError
        else (case fl_div F (fl_of_int F 1) (fl_sqrt F (fl_of_int F (kc_head_dim c))) of Inl e \<Rightarrow> Inl e
          | Inr scale \<Rightarrow>
            let cached = iter_tokens (Some total_context) c;
                num_q_heads = int (length query_heads) in
            map_res (\<lambda>(q_index, query).
                decode_head F (kc_head_dim c) scale allow cached
                  ((int q_index * kc_num_kv_heads c) div num_q_heads) query)
              (enumerate 0 query_heads)))"

text \<open>\<open>decode_attention\<close> of \<open>dv/golden/attention_ref.py\<close>.\<close>

definition decode_attention :: "'f float_ops \<Rightarrow> 'f head_values \<Rightarrow> 'f kv_cache \<Rightarrow> 'f head_values res" where
  "decode_attention F query_heads c = attention_decode F query_heads c None None"

text \<open>The test data.\<close>

definition debug_key :: "'f float_ops \<Rightarrow> int \<Rightarrow> int \<Rightarrow> int \<Rightarrow> 'f head_values res" where
  "debug_key F heads hdim token =
     map_res (\<lambda>head. map_res (\<lambda>d. fl_div F (fl_of_int F (token + head + d + 1)) (fl_of_int F 10)) [0..hdim - 1])
       [0..heads - 1]"

definition debug_value :: "'f float_ops \<Rightarrow> int \<Rightarrow> int \<Rightarrow> int \<Rightarrow> 'f head_values res" where
  "debug_value F heads hdim token =
     map_res (\<lambda>head. map_res (\<lambda>d. fl_div F (fl_of_int F ((token + 1) * (head + 1) + d)) (fl_of_int F 10)) [0..hdim - 1])
       [0..heads - 1]"

fun debug_tokens :: "'f float_ops \<Rightarrow> int list \<Rightarrow> 'f kv_cache \<Rightarrow> 'f kv_cache res" where
  "debug_tokens F [] c = Inr c"
| "debug_tokens F (token # ts) c =
     (case debug_key F (kc_num_kv_heads c) (kc_head_dim c) token of Inl e \<Rightarrow> Inl e
      | Inr key \<Rightarrow>
        (case debug_value F (kc_num_kv_heads c) (kc_head_dim c) token of Inl e \<Rightarrow> Inl e
         | Inr val \<Rightarrow>
           (case append_token key val c of (Inl e, _) \<Rightarrow> Inl e | (Inr _, c') \<Rightarrow> debug_tokens F ts c')))"

definition build_debug_cache :: "'f float_ops \<Rightarrow> int \<Rightarrow> int \<Rightarrow> int \<Rightarrow> int \<Rightarrow> 'f kv_cache res" where
  "build_debug_cache F tokens pt heads hdim =
     (case PagedKVCache_init pt heads hdim of Inl e \<Rightarrow> Inl e
      | Inr c \<Rightarrow> debug_tokens F [0..tokens - 1] c)"

section \<open>Pages and the list of tokens they hold\<close>

definition cache_list :: "'f kv_cache \<Rightarrow> ('f head_values \<times> 'f head_values) list" where
  "cache_list c = concat (map (\<lambda>p. zip (kp_keys p) (kp_values p)) (kc_pages c))"

definition token_ok :: "int \<Rightarrow> int \<Rightarrow> 'f head_values \<Rightarrow> bool" where
  "token_ok heads hdim x \<longleftrightarrow> int (length x) = heads \<and> list_all (\<lambda>h. int (length h) = hdim) x"

definition pair_ok :: "int \<Rightarrow> int \<Rightarrow> 'f head_values \<times> 'f head_values \<Rightarrow> bool" where
  "pair_ok heads hdim kv \<longleftrightarrow> token_ok heads hdim (fst kv) \<and> token_ok heads hdim (snd kv)"

text \<open>All pages but the last are full, none is empty, keys and values go together, ids count up.\<close>

definition paged :: "int \<Rightarrow> 'f kv_page list \<Rightarrow> bool" where
  "paged n ps \<longleftrightarrow>
     (\<forall>p \<in> set (butlast ps). page_tokens p = n) \<and>
     (\<forall>p \<in> set ps. length (kp_values p) = length (kp_keys p) \<and> 0 < page_tokens p \<and> page_tokens p \<le> n) \<and>
     map kp_page_id ps = map int [0..<length ps]"

definition cache_wf :: "'f kv_cache \<Rightarrow> bool" where
  "cache_wf c \<longleftrightarrow> 0 < kc_page_tokens c \<and> paged (kc_page_tokens c) (kc_pages c) \<and>
     list_all (pair_ok (kc_num_kv_heads c) (kc_head_dim c)) (cache_list c)"

lemma check_head_values_eq:
  "check_head_values c x = (if token_ok (kc_num_kv_heads c) (kc_head_dim c) x then Inr () else Inl ValueError)"
proof -
  have "check_all (\<lambda>head. if int (length head) \<noteq> n then Inl ValueError else Inr ()) xs =
      (if list_all (\<lambda>h. int (length h) = n) xs then Inr () else Inl ValueError)" for n and xs :: "'a head_values"
    by (induction xs) simp_all
  then show ?thesis by (simp add: check_head_values_def token_ok_def)
qed

lemma copy_head_values_id [simp]: "copy_head_values x = x"
  by (simp add: copy_head_values_def)

lemma page_tokens_zip: "length (kp_values p) = length (kp_keys p) \<Longrightarrow> int (length (zip (kp_keys p) (kp_values p))) = page_tokens p"
  by (simp add: page_tokens_def)

lemma cache_tokens_length:
  assumes "cache_wf c"
  shows "cache_tokens c = int (length (cache_list c))"
proof -
  have "\<forall>p \<in> set ps. length (kp_values p) = length (kp_keys p) \<Longrightarrow>
      sum_list (map page_tokens ps) = int (length (concat (map (\<lambda>p. zip (kp_keys p) (kp_values p)) ps)))"
    for ps :: "'a kv_page list" by (induction ps) (simp_all add: page_tokens_def)
  then show ?thesis using assms by (simp add: cache_tokens_def cache_list_def cache_wf_def paged_def)
qed

lemma append_token_illegal:
  "\<not> pair_ok (kc_num_kv_heads c) (kc_head_dim c) (k, v) \<Longrightarrow> append_token k v c = (Inl ValueError, c)"
  by (auto simp: append_token_def check_head_values_eq pair_ok_def)

lemma butlast_last_eq: "ps \<noteq> [] \<Longrightarrow> \<forall>p \<in> set (butlast ps). P p \<Longrightarrow> P (last ps) \<Longrightarrow> \<forall>p \<in> set ps. P p"
  by (metis append_butlast_last_id Un_iff set_append empty_iff empty_set set_ConsD list.set(2))

lemma append_token_ok:
  assumes wf: "cache_wf c" and kv: "pair_ok (kc_num_kv_heads c) (kc_head_dim c) (k, v)"
  obtains c' where "append_token k v c = (Inr (), c')" "cache_wf c'" "cache_list c' = cache_list c @ [(k, v)]"
    "kc_page_tokens c' = kc_page_tokens c" "kc_num_kv_heads c' = kc_num_kv_heads c" "kc_head_dim c' = kc_head_dim c"
proof -
  let ?n = "kc_page_tokens c" and ?ps = "kc_pages c"
  have pg: "0 < ?n" "paged ?n ?ps" using wf by (simp_all add: cache_wf_def)
  have kvlen: "\<forall>p \<in> set ?ps. length (kp_values p) = length (kp_keys p)" using pg(2) by (simp add: paged_def)
  have legal: "check_head_values c k = Inr ()" "check_head_values c v = Inr ()"
    using kv by (simp_all add: check_head_values_eq pair_ok_def)
  show ?thesis
  proof (cases "?ps = [] \<or> page_tokens (last ?ps) \<ge> ?n")
    case True
    define p' where "p' = \<lparr>kp_page_id = int (length ?ps), kp_keys = [k], kp_values = [v]\<rparr>"
    have run: "append_token k v c = (Inr (), c\<lparr>kc_pages := ?ps @ [p']\<rparr>)"
      using True legal by (simp add: append_token_def p'_def Let_def)
    have full: "page_tokens p = ?n" if "p \<in> set ?ps" for p
    proof -
      have "last ?ps \<in> set ?ps" using that by (intro last_in_set) auto
      then have "page_tokens (last ?ps) = ?n" using True pg(2) that by (fastforce simp: paged_def)
      moreover have "?ps \<noteq> []" using that by auto
      moreover have "\<forall>p \<in> set (butlast ?ps). page_tokens p = ?n" using pg(2) by (simp add: paged_def)
      ultimately show ?thesis using butlast_last_eq [of ?ps "\<lambda>p. page_tokens p = ?n"] that by blast
    qed
    have "paged ?n (?ps @ [p'])"
      using pg full by (auto simp: paged_def p'_def page_tokens_def)
    moreover have "cache_list (c\<lparr>kc_pages := ?ps @ [p']\<rparr>) = cache_list c @ [(k, v)]"
      by (simp add: cache_list_def p'_def)
    ultimately show ?thesis
      using run kv wf by (intro that [of "c\<lparr>kc_pages := ?ps @ [p']\<rparr>"]) (simp_all add: cache_wf_def)
  next
    case False
    define qs where "qs = butlast ?ps"
    define p where "p = last ?ps"
    have ps: "?ps = qs @ [p]" using False by (simp add: qs_def p_def)
    define p' where "p' = p\<lparr>kp_keys := kp_keys p @ [k], kp_values := kp_values p @ [v]\<rparr>"
    have run: "append_token k v c = (Inr (), c\<lparr>kc_pages := qs @ [p']\<rparr>)"
      using False legal by (simp add: append_token_def p'_def p_def qs_def Let_def)
    have "paged ?n (qs @ [p'])"
      using pg False unfolding ps by (auto simp: paged_def p'_def page_tokens_def)
    moreover have "cache_list (c\<lparr>kc_pages := qs @ [p']\<rparr>) = cache_list c @ [(k, v)]"
      using kvlen by (simp add: cache_list_def ps p'_def)
    ultimately show ?thesis
      using run kv wf by (intro that [of "c\<lparr>kc_pages := qs @ [p']\<rparr>"]) (simp_all add: cache_wf_def)
  qed
qed

lemma emit_take:
  "emit None e xs = xs" "emit (Some l) e xs = take (nat (l - e)) xs"
proof -
  show "emit None e xs = xs" by (induction xs arbitrary: e) simp_all
  show "emit (Some l) e xs = take (nat (l - e)) xs"
  proof (induction xs arbitrary: e)
    case (Cons x xs)
    show ?case
    proof (cases "e \<ge> l")
      case False
      then have "nat (l - e) = Suc (nat (l - (e + 1)))" by simp
      with False Cons show ?thesis by simp
    qed simp
  qed simp
qed

lemma iter_tokens_take: "iter_tokens limit c = (case limit of None \<Rightarrow> cache_list c | Some l \<Rightarrow> take (nat l) (cache_list c))"
  by (cases limit) (simp_all add: iter_tokens_def emit_take cache_list_def)

text \<open>Looking up in a list cut into chunks of \<open>n\<close>.\<close>

lemma nth_chunks:
  assumes "0 < n" and "\<forall>xs \<in> set (butlast xss). length xs = n" and "xss \<noteq> [] \<Longrightarrow> length (last xss) \<le> n"
    and "i < length (concat xss)"
  shows "i div n < length xss \<and> i mod n < length (xss ! (i div n)) \<and> concat xss ! i = xss ! (i div n) ! (i mod n)"
  using assms
proof (induction xss arbitrary: i)
  case (Cons xs xss)
  show ?case
  proof (cases "xss = []")
    case True
    then have "i < length xs" "length xs \<le> n" using Cons.prems(3,4) by simp_all
    then show ?thesis using True by simp
  next
    case False
    then have len: "length xs = n" using Cons.prems(2) by simp
    show ?thesis
    proof (cases "i < n")
      case True
      then show ?thesis using len by (simp add: nth_append)
    next
      case ge: False
      have "i - n < length (concat xss)" using Cons.prems(4) len ge by simp
      from Cons.IH [OF Cons.prems(1) _ _ this] Cons.prems(2,3) False
      have IH: "(i - n) div n < length xss" "(i - n) mod n < length (xss ! ((i - n) div n))"
        "concat xss ! (i - n) = xss ! ((i - n) div n) ! ((i - n) mod n)" by simp_all
      have "i div n = Suc ((i - n) div n)" "i mod n = (i - n) mod n"
        using ge Cons.prems(1) by (simp_all add: le_div_geq le_mod_geq)
      then show ?thesis using IH len ge by (simp add: nth_append)
    qed
  qed
qed simp

lemma get_token_nth:
  assumes wf: "cache_wf c"
  shows "get_token i c = (if 0 \<le> i \<and> i < int (length (cache_list c)) then Inr (cache_list c ! nat i) else Inl IndexError)"
proof (cases "0 \<le> i \<and> i < int (length (cache_list c))")
  case False
  then show ?thesis using cache_tokens_length [OF wf] by (auto simp: get_token_def)
next
  case True
  let ?n = "kc_page_tokens c" and ?ps = "kc_pages c"
  let ?z = "\<lambda>p. zip (kp_keys p) (kp_values p)"
  have pg: "0 < ?n" "paged ?n ?ps" using wf by (simp_all add: cache_wf_def)
  define j where "j = nat i"
  define n where "n = nat ?n"
  have ints: "nat (i div ?n) = j div n" "nat (i mod ?n) = j mod n"
    using True pg(1) by (simp_all add: j_def n_def nat_div_distrib nat_mod_distrib)
  have zlen: "length (?z p) = nat (page_tokens p)" if "p \<in> set ?ps" for p
    using pg(2) that by (simp add: paged_def page_tokens_def)
  have chunk: "j div n < length (map ?z ?ps) \<and> j mod n < length (map ?z ?ps ! (j div n)) \<and>
      concat (map ?z ?ps) ! j = map ?z ?ps ! (j div n) ! (j mod n)"
  proof (rule nth_chunks)
    show "0 < n" using pg(1) by (simp add: n_def)
    show "\<forall>xs \<in> set (butlast (map ?z ?ps)). length xs = n"
    proof
      fix xs assume "xs \<in> set (butlast (map ?z ?ps))"
      then obtain p where p: "p \<in> set (butlast ?ps)" "xs = ?z p" by (auto simp flip: map_butlast)
      then have "page_tokens p = ?n" "p \<in> set ?ps" using pg(2) by (auto simp: paged_def dest: in_set_butlastD)
      then show "length xs = n" using p(2) zlen [of p] by (simp only: n_def)
    qed
    show "length (last (map ?z ?ps)) \<le> n" if "map ?z ?ps \<noteq> []"
    proof -
      have "last ?ps \<in> set ?ps" using that by simp
      then have "page_tokens (last ?ps) \<le> ?n" "length (?z (last ?ps)) = nat (page_tokens (last ?ps))"
        using pg(2) zlen by (auto simp: paged_def)
      then show ?thesis using that by (simp add: last_map n_def nat_mono del: length_zip)
    qed
    show "j < length (concat (map ?z ?ps))"
      unfolding cache_list_def [symmetric] j_def using True by linarith
  qed
  have "j div n < length ?ps" using chunk by simp
  with chunk have at: "j div n < length ?ps" "j mod n < length (?z (?ps ! (j div n)))"
    "cache_list c ! j = ?z (?ps ! (j div n)) ! (j mod n)" by (simp_all add: cache_list_def)
  then show ?thesis
    using True cache_tokens_length [OF wf]
    by (simp add: get_token_def index_def ints j_def [symmetric])
qed

section \<open>The cache is a list of tokens\<close>

text \<open>Appends in a row, with the exceptions of the rejected ones left out.\<close>

definition append_all :: "('f head_values \<times> 'f head_values) list \<Rightarrow> 'f kv_cache \<Rightarrow> 'f kv_cache" where
  "append_all kvs c = fold (\<lambda>(k, v) c. snd (append_token k v c)) kvs c"

lemma append_all_ok:
  assumes "cache_wf c"
  shows "cache_wf (append_all kvs c) \<and>
    cache_list (append_all kvs c) = cache_list c @ filter (pair_ok (kc_num_kv_heads c) (kc_head_dim c)) kvs \<and>
    kc_page_tokens (append_all kvs c) = kc_page_tokens c \<and> kc_num_kv_heads (append_all kvs c) = kc_num_kv_heads c \<and>
    kc_head_dim (append_all kvs c) = kc_head_dim c"
  using assms
proof (induction kvs arbitrary: c)
  case Nil
  then show ?case by (simp add: append_all_def)
next
  case (Cons kv kvs)
  obtain k v where kv: "kv = (k, v)" by fastforce
  have step: "append_all (kv # kvs) c = append_all kvs (snd (append_token k v c))"
    by (simp add: append_all_def kv)
  note step = step [unfolded kv]
  show ?case
  proof (cases "pair_ok (kc_num_kv_heads c) (kc_head_dim c) (k, v)")
    case True
    obtain c' where "append_token k v c = (Inr (), c')" "cache_wf c'" "cache_list c' = cache_list c @ [(k, v)]"
      "kc_page_tokens c' = kc_page_tokens c" "kc_num_kv_heads c' = kc_num_kv_heads c" "kc_head_dim c' = kc_head_dim c"
      by (rule append_token_ok [OF Cons.prems True])
    with Cons.IH [of c'] show ?thesis using True unfolding kv step by simp
  next
    case False
    with Cons show ?thesis unfolding kv step by (simp add: append_token_illegal)
  qed
qed

lemma fresh_cache_wf:
  assumes "PagedKVCache_init pt heads hdim = Inr c"
  shows "cache_wf c" "cache_list c = []" "kc_page_tokens c = pt" "kc_num_kv_heads c = heads" "kc_head_dim c = hdim"
    "0 < pt" "0 < heads" "0 < hdim"
proof -
  have c: "c = \<lparr>kc_page_tokens = pt, kc_num_kv_heads = heads, kc_head_dim = hdim, kc_pages = []\<rparr>"
    and pos: "0 < pt" "0 < heads" "0 < hdim"
    using assms by (simp_all add: PagedKVCache_init_def split: if_splits)
  show "cache_wf c" "cache_list c = []" "kc_page_tokens c = pt" "kc_num_kv_heads c = heads" "kc_head_dim c = hdim"
    "0 < pt" "0 < heads" "0 < hdim"
    using pos by (simp_all add: c cache_wf_def paged_def cache_list_def)
qed

text \<open>The number of pages: \<open>n\<close> tokens fill \<open>\<lceil>n / pt\<rceil>\<close> of them.\<close>

lemma paged_count:
  assumes "0 < n" and "paged n ps"
  shows "int (length ps) = (sum_list (map page_tokens ps) + n - 1) div n"
proof (cases ps rule: rev_cases)
  case (snoc qs p)
  have "sum_list (map page_tokens qs) = int (length qs) * n"
  proof -
    have "\<forall>p \<in> set qs. page_tokens p = n" using assms(2) snoc by (simp add: paged_def)
    then show ?thesis by (induction qs) (simp_all add: algebra_simps)
  qed
  moreover have "0 < page_tokens p" "page_tokens p \<le> n" using assms(2) snoc by (simp_all add: paged_def)
  moreover have "((page_tokens p - 1) + (int (length qs) + 1) * n) div n = int (length qs) + 1"
    using calculation(2,3) assms(1) by (subst div_mult_self1) simp_all
  moreover have "sum_list (map page_tokens ps) + n - 1 = (page_tokens p - 1) + (int (length qs) + 1) * n"
    using calculation(1) snoc by (simp add: algebra_simps)
  ultimately show ?thesis using snoc by (simp only:) simp
qed (use assms(1) in simp)

text \<open>
  C18: the paged cache implements a list of tokens. After any appends to a new cache, legal and
  rejected ones mixed, the accepted pairs are there in order: \<open>tokens\<close> is their number,
  \<open>get_token\<close> is list lookup with \<open>IndexError\<close> outside the range, \<open>iter_tokens\<close> yields a prefix, and
  they occupy the least number of pages that can hold them, numbered from 0.
\<close>

theorem paged_cache_refines_list:
  assumes "PagedKVCache_init pt heads hdim = Inr c0" and "c = append_all kvs c0"
    and "toks = filter (pair_ok heads hdim) kvs"
  shows "cache_tokens c = int (length toks) \<and>
    get_token i c = (if 0 \<le> i \<and> i < int (length toks) then Inr (toks ! nat i) else Inl IndexError) \<and>
    iter_tokens limit c = (case limit of None \<Rightarrow> toks | Some l \<Rightarrow> take (nat l) toks) \<and>
    map kp_page_id (kc_pages c) = map int [0..<length (kc_pages c)] \<and>
    int (length (kc_pages c)) = (int (length toks) + pt - 1) div pt"
proof -
  note new = fresh_cache_wf [OF assms(1)]
  have wf: "cache_wf c" and list: "cache_list c = toks" and pt: "kc_page_tokens c = pt"
    using append_all_ok [OF new(1), of kvs] new(2-5) by (simp_all add: assms(2,3))
  have pg: "paged pt (kc_pages c)" using wf pt by (simp add: cache_wf_def)
  have "int (length (kc_pages c)) = (cache_tokens c + pt - 1) div pt"
    using paged_count [OF new(6) pg] by (simp add: cache_tokens_def)
  then show ?thesis
    using cache_tokens_length [OF wf] get_token_nth [OF wf, of i] iter_tokens_take [of limit c] pg
    unfolding list by (simp add: paged_def)
qed

theorem paged_cache_refines_list_witness:
  "\<exists>c0. PagedKVCache_init 2 1 1 = Inr c0 \<and>
     get_token 2 (append_all [([[1]], [[2]]), ([[1, 1]], [[0]]), ([[3]], [[4]]), ([[5 :: int]], [[6]])] c0) = Inr ([[5]], [[6]]) \<and>
     int (length (kc_pages (append_all [([[1]], [[2]]), ([[1, 1]], [[0]]), ([[3]], [[4]]), ([[5]], [[6]])] c0))) = 2"
proof -
  obtain c0 :: "int kv_cache" where c0: "PagedKVCache_init 2 1 1 = Inr c0" by (simp add: PagedKVCache_init_def)
  have "filter (pair_ok 1 1) [([[1]], [[2]]), ([[1, 1]], [[0]]), ([[3]], [[4]]), ([[5 :: int]], [[6]])]
      = [([[1]], [[2]]), ([[3]], [[4]]), ([[5]], [[6]])]"
    by (simp add: pair_ok_def token_ok_def)
  from paged_cache_refines_list [OF c0 refl this [symmetric], of 2 None] c0 show ?thesis by simp
qed

end
