(* ===== verification/KVDecode.thy ===== *)
theory KVDecode
  imports KVCache
begin

text \<open>
  What \<open>attention_decode\<close> of \<open>dv/golden/kv_cache_ref.py\<close> computes over the paged cache: masks and
  context limits are filters and paging is invisible, in any arithmetic; over exact numbers the
  output is the textbook softmax attention of the query head and its KV head.
\<close>

section \<open>The tokens a mask keeps\<close>

definition kept :: "bool list option \<Rightarrow> 'a list \<Rightarrow> 'a list" where
  "kept allow xs = (case allow of None \<Rightarrow> xs | Some m \<Rightarrow> map snd (filter fst (zip m xs)))"

lemma kept_subset: "set (kept allow xs) \<subseteq> set xs"
  by (cases allow) (auto simp: kept_def dest: set_zip_rightD)

lemma map_res_cong: "(\<And>x. x \<in> set xs \<Longrightarrow> f x = g x) \<Longrightarrow> map_res f xs = map_res g xs"
  by (induction xs) (simp_all split: sum.split)

text \<open>The scan of one query head over well-formed tokens never raises.\<close>

definition score_of :: "'f float_ops \<Rightarrow> 'f vec \<Rightarrow> nat \<Rightarrow> 'f \<Rightarrow> 'f head_values \<times> 'f head_values \<Rightarrow> 'f" where
  "score_of F query h scale kv =
     fl_mul F (fl_sum F (map (\<lambda>(left, right). fl_mul F left right) (zip query (fst kv ! h)))) scale"

definition value_of :: "nat \<Rightarrow> 'f head_values \<times> 'f head_values \<Rightarrow> 'f vec" where
  "value_of h kv = snd kv ! h"

lemma pair_ok_head:
  assumes "pair_ok heads hdim (k, v)" and "int h < heads"
  shows "h < length k" "h < length v" "int (length (k ! h)) = hdim" "int (length (v ! h)) = hdim"
  using assms by (auto simp: pair_ok_def token_ok_def list_all_length)

lemma gather_ok:
  assumes "list_all (pair_ok heads hdim) toks" and h: "int h < heads" and q: "int (length query) = hdim"
    and "0 \<le> i" and "case allow of None \<Rightarrow> True | Some m \<Rightarrow> nat i + length toks \<le> length m"
  shows "gather F query (int h) scale allow i toks =
    Inr (map (score_of F query h scale) (kept (map_option (drop (nat i)) allow) toks),
         map (value_of h) (kept (map_option (drop (nat i)) allow) toks))"
  using assms(1,4,5)
proof (induction toks arbitrary: i)
  case Nil
  then show ?case by (simp add: kept_def split: option.split)
next
  case (Cons kv toks)
  obtain k v where kv: "kv = (k, v)" by fastforce
  have ok: "pair_ok heads hdim (k, v)" using Cons.prems(1) by (simp add: kv)
  note head = pair_ok_head [OF ok h]
  have "length query = length (k ! h)" using q head(3) by simp
  then have dot: "fl_mul F (fl_sum F (map (\<lambda>(left, right). fl_mul F left right) (zip query (k ! h)))) scale
      = score_of F query h scale (k, v)" "length query = length (k ! h)" by (simp_all add: score_of_def)
  have i1: "nat (i + 1) = Suc (nat i)" using Cons.prems(2) by simp
  have IH: "gather F query (int h) scale allow (i + 1) toks =
    Inr (map (score_of F query h scale) (kept (map_option (drop (nat (i + 1))) allow) toks),
         map (value_of h) (kept (map_option (drop (nat (i + 1))) allow) toks))"
    using Cons.prems by (intro Cons.IH) (auto simp: i1 split: option.splits)
  show ?case
  proof (cases allow)
    case None
    then show ?thesis using IH head dot by (simp add: kv index_def fl_dot_def kept_def value_of_def)
  next
    case (Some m)
    then have len: "nat i < length m" using Cons.prems(3) by simp
    then have drop: "drop (nat i) m = m ! nat i # drop (Suc (nat i)) m" by (simp add: Cons_nth_drop_Suc)
    show ?thesis
      using IH head dot len by (simp add: kv index_def fl_dot_def kept_def value_of_def Some drop i1)
  qed
qed

text \<open>The KV head a query head maps to.\<close>

definition kv_head_of :: "int \<Rightarrow> nat \<Rightarrow> nat \<Rightarrow> nat" where
  "kv_head_of heads nq qi = nat ((int qi * heads) div int nq)"

lemma kv_head_of:
  assumes "0 < heads" and "qi < nq"
  shows "(int qi * heads) div int nq = int (kv_head_of heads nq qi)" "int (kv_head_of heads nq qi) < heads"
proof -
  have "0 \<le> (int qi * heads) div int nq" using assms by (simp add: pos_imp_zdiv_nonneg_iff)
  then show eq: "(int qi * heads) div int nq = int (kv_head_of heads nq qi)" by (simp add: kv_head_of_def)
  have "int qi * heads < heads * int nq" using assms by (simp add: mult.commute)
  moreover have "((int qi * heads) div int nq) * int nq \<le> int qi * heads"
    using assms(2) pos_mod_sign [of "int nq" "int qi * heads"] minus_mod_eq_div_mult [of "int qi * heads" "int nq"] by linarith
  ultimately have "((int qi * heads) div int nq) * int nq < heads * int nq" by simp
  then have "(int qi * heads) div int nq < heads" using assms(2) by (simp add: mult_less_cancel_right)
  then show "int (kv_head_of heads nq qi) < heads" by (simp add: eq)
qed

text \<open>The reference as a function of the kept tokens.\<close>

definition decode_kept ::
  "'f float_ops \<Rightarrow> int \<Rightarrow> int \<Rightarrow> 'f head_values \<Rightarrow> ('f head_values \<times> 'f head_values) list \<Rightarrow> 'f head_values res"
where
  "decode_kept F heads hdim qs toks =
     (if qs = [] \<or> list_ex (\<lambda>q. int (length q) \<noteq> hdim) qs then Inl ValueError
      else (case fl_div F (fl_of_int F 1) (fl_sqrt F (fl_of_int F hdim)) of Inl e \<Rightarrow> Inl e
        | Inr scale \<Rightarrow>
          map_res (\<lambda>(qi, q). let h = kv_head_of heads (length qs) qi in
              (case stable_softmax F (map (score_of F q h scale) toks) of Inl e \<Rightarrow> Inl e
               | Inr weights \<Rightarrow> accumulate_all F (zip weights (map (value_of h) toks)) (replicate (nat hdim) (fl_zero F))))
            (enumerate 0 qs)))"

lemma attention_decode_kept:
  assumes wf: "cache_wf c" and heads: "0 < kc_num_kv_heads c" and n: "0 \<le> n" "n \<le> cache_tokens c"
    and allow: "case allow of None \<Rightarrow> True | Some m \<Rightarrow> n \<le> int (length m)"
    and ctx: "ctx = Some n \<or> ctx = None \<and> n = cache_tokens c"
  shows "attention_decode F qs c ctx allow =
    decode_kept F (kc_num_kv_heads c) (kc_head_dim c) qs (kept allow (take (nat n) (cache_list c)))"
proof (cases "qs = [] \<or> list_ex (\<lambda>q. int (length q) \<noteq> kc_head_dim c) qs")
  case True
  then show ?thesis by (auto simp: attention_decode_def decode_kept_def)
next
  case False
  let ?toks = "take (nat n) (cache_list c)" and ?d = "kc_head_dim c"
  have total: "(case ctx of None \<Rightarrow> cache_tokens c | Some n \<Rightarrow> n) = n" using ctx by auto
  have ok: "list_all (pair_ok (kc_num_kv_heads c) ?d) ?toks"
    using wf by (auto simp: cache_wf_def list_all_iff dest: in_set_takeD)
  have long: "case allow of None \<Rightarrow> True | Some m \<Rightarrow> nat 0 + length ?toks \<le> length m"
    using allow n(1) by (auto split: option.splits)
  have each: "decode_head F ?d scale allow ?toks ((int qi * kc_num_kv_heads c) div int (length qs)) q =
      (let h = kv_head_of (kc_num_kv_heads c) (length qs) qi in
       case stable_softmax F (map (score_of F q h scale) (kept allow ?toks)) of Inl e \<Rightarrow> Inl e
       | Inr weights \<Rightarrow> accumulate_all F (zip weights (map (value_of h) (kept allow ?toks))) (replicate (nat ?d) (fl_zero F)))"
    if "(qi, q) \<in> set (enumerate 0 qs)" for qi q scale
  proof -
    have "qi < length qs" "q \<in> set qs" using that by (auto simp: in_set_enumerate_eq)
    then have "int (length q) = ?d" using False by (auto simp: list_ex_iff)
    note gather = gather_ok [OF ok kv_head_of(2) [OF heads \<open>qi < length qs\<close>] this order_refl long, of F scale]
    show ?thesis
      unfolding decode_head_def kv_head_of(1) [OF heads \<open>qi < length qs\<close>] gather
      by (simp add: Let_def option.map_ident)
  qed
  have mask: "\<not> (case allow of None \<Rightarrow> False | Some m \<Rightarrow> int (length m) < n)"
    using allow by (auto split: option.splits)
  have iter: "iter_tokens (Some n) c = ?toks" by (simp add: iter_tokens_take)
  have "attention_decode F qs c ctx allow =
      (case fl_div F (fl_of_int F 1) (fl_sqrt F (fl_of_int F ?d)) of Inl e \<Rightarrow> Inl e
       | Inr scale \<Rightarrow> map_res (\<lambda>(qi, q). decode_head F ?d scale allow ?toks
           ((int qi * kc_num_kv_heads c) div int (length qs)) q) (enumerate 0 qs))"
    unfolding attention_decode_def total Let_def iter using False n mask by (simp split: sum.split)
  also have "\<dots> = decode_kept F (kc_num_kv_heads c) ?d qs (kept allow ?toks)"
    unfolding decode_kept_def using False
    by (auto intro!: map_res_cong each split: sum.split)
  finally show ?thesis .
qed

text \<open>
  C21: masks, context limits and pages are invisible. Decoding with a context of \<open>n\<close> tokens and a
  mask is decoding, without either, over a cache that holds only the tokens among the first \<open>n\<close>
  that the mask keeps, whatever the page sizes of the two caches: same outputs and same
  exceptions, in any floating-point arithmetic.
\<close>

theorem masked_decode_is_filtered_decode:
  assumes "PagedKVCache_init pt heads hdim = Inr c0" and "PagedKVCache_init pt' heads hdim = Inr c0'"
    and "c = append_all kvs c0" and "toks = filter (pair_ok heads hdim) kvs"
    and "0 \<le> n" and "n \<le> int (length toks)" and "n \<le> int (length m)"
    and "c' = append_all (kept (Some m) (take (nat n) toks)) c0'"
  shows "attention_decode F qs c (Some n) (Some m) = attention_decode F qs c' None None"
proof -
  note new = fresh_cache_wf [OF assms(1)] and new' = fresh_cache_wf [OF assms(2)]
  have c: "cache_wf c" "cache_list c = toks" "kc_num_kv_heads c = heads" "kc_head_dim c = hdim"
    using append_all_ok [OF new(1), of kvs] new(2-5) by (simp_all add: assms(3,4))
  have "filter (pair_ok heads hdim) (kept (Some m) (take (nat n) toks)) = kept (Some m) (take (nat n) toks)"
    using kept_subset [of "Some m" "take (nat n) toks"] assms(4) by (auto simp: filter_id_conv dest!: in_set_takeD)
  then have c': "cache_wf c'" "cache_list c' = kept (Some m) (take (nat n) toks)" "kc_num_kv_heads c' = heads" "kc_head_dim c' = hdim"
    using append_all_ok [OF new'(1), of "kept (Some m) (take (nat n) toks)"] new'(2-5) by (simp_all add: assms(8))
  have "attention_decode F qs c (Some n) (Some m) = decode_kept F heads hdim qs (kept (Some m) (take (nat n) toks))"
    using attention_decode_kept [OF c(1), of n "Some m" "Some n" F qs] cache_tokens_length [OF c(1)] assms(5-7) new(7)
    unfolding c(2-4) by simp
  also have "\<dots> = attention_decode F qs c' None None"
    using attention_decode_kept [OF c'(1), of "cache_tokens c'" None None F qs] cache_tokens_length [OF c'(1)] new(7)
    unfolding c'(3,4) by (simp add: kept_def [of None] c'(2))
  finally show ?thesis .
qed

section \<open>Exact arithmetic\<close>

lemma sum_list_exp_pos: "xs \<noteq> [] \<Longrightarrow> 0 < sum_list (map (\<lambda>x. exp (f x :: real)) xs)"
proof (induction xs)
  case (Cons x xs)
  have "0 \<le> sum_list (map (\<lambda>x. exp (f x)) xs)" by (rule sum_list_nonneg) auto
  then show ?case by (simp add: add_pos_nonneg)
qed simp

text \<open>Subtracting the maximum cancels: the stable softmax is the softmax.\<close>

lemma stable_softmax_real:
  "stable_softmax real_ops xs = Inr (map (\<lambda>x. exp x / sum_list (map exp xs)) xs)"
proof (cases xs)
  case (Cons s ss)
  define m where "m = fold (\<lambda>x m. if m < x then x else m) ss s"
  have sum: "sum_list (map (\<lambda>x. exp (x - m)) xs) = sum_list (map exp xs) / exp m" for xs :: "real list"
    by (induction xs) (simp_all add: exp_diff add_divide_distrib)
  have pos: "0 < sum_list (map exp xs)" using sum_list_exp_pos [of xs "\<lambda>x. x"] Cons by simp
  have "stable_softmax real_ops xs =
      map_res (\<lambda>item. fl_div real_ops item (sum_list (map (\<lambda>x. exp (x - m)) xs))) (map (\<lambda>x. exp (x - m)) xs)"
    by (simp add: stable_softmax_def Cons m_def Let_def)
  also have "\<dots> = Inr (map (\<lambda>item. item / sum_list (map (\<lambda>x. exp (x - m)) xs)) (map (\<lambda>x. exp (x - m)) xs))"
    using pos by (intro map_res_total) (simp add: fl_div_def sum)
  also have "\<dots> = Inr (map (\<lambda>x. exp x / sum_list (map exp xs)) xs)"
    unfolding sum using pos by (simp add: exp_diff)
  finally show ?thesis .
qed (simp add: stable_softmax_def)

lemma accumulate_all_real:
  assumes "list_all (\<lambda>v. length v = length out) vs" and "length ws = length vs"
  shows "accumulate_all real_ops (zip ws vs) out =
    Inr (map (\<lambda>i. out ! i + sum_list (map (\<lambda>(w, v). w * v ! i) (zip ws vs))) [0..<length out])"
  using assms(2,1)
proof (induction ws vs arbitrary: out rule: list_induct2)
  case Nil
  then show ?case by (simp add: map_nth)
next
  case (Cons w ws v vs)
  define out' where "out' = map (\<lambda>i. out ! i + w * v ! i) [0..<length out]"
  have "accumulate real_ops w v out = Inr out'"
    using Cons.prems by (auto simp: accumulate_def out'_def)
  moreover have "accumulate_all real_ops (zip ws vs) out' =
      Inr (map (\<lambda>i. out' ! i + sum_list (map (\<lambda>(w, v). w * v ! i) (zip ws vs))) [0..<length out'])"
    using Cons.prems by (intro Cons.IH) (simp add: out'_def)
  ultimately show ?case by (simp add: out'_def algebra_simps)
qed

text \<open>The attention of one query head, as a formula over the kept tokens.\<close>

definition qk_score :: "real vec \<Rightarrow> nat \<Rightarrow> int \<Rightarrow> real head_values \<times> real head_values \<Rightarrow> real" where
  "qk_score query h hdim kv = (\<Sum>j < nat hdim. query ! j * fst kv ! h ! j) / sqrt hdim"

definition softmax_attention ::
  "real vec \<Rightarrow> nat \<Rightarrow> int \<Rightarrow> (real head_values \<times> real head_values) list \<Rightarrow> nat \<Rightarrow> real"
where
  "softmax_attention query h hdim toks i =
     (\<Sum>kv \<leftarrow> toks. exp (qk_score query h hdim kv) * snd kv ! h ! i) / (\<Sum>kv \<leftarrow> toks. exp (qk_score query h hdim kv))"

lemma score_of_real:
  assumes "pair_ok heads hdim kv" and "int h < heads" and "int (length query) = hdim"
  shows "score_of real_ops query h (1 / sqrt hdim) kv = qk_score query h hdim kv"
proof -
  obtain k v where kv: "kv = (k, v)" by fastforce
  have len: "length query = nat hdim" "length (k ! h) = nat hdim"
    using assms(3) pair_ok_head [OF assms(1) [unfolded kv] assms(2)] by simp_all
  have "sum_list (map (\<lambda>(left, right). left * right) (zip query (k ! h))) = (\<Sum>j < nat hdim. query ! j * k ! h ! j)"
    using len by (simp add: sum_list_sum_nth atLeast0LessThan)
  then show ?thesis by (simp add: score_of_def qk_score_def kv)
qed

text \<open>One head of the decode over exact numbers.\<close>

lemma decode_head_real:
  assumes T: "\<And>kv. kv \<in> set T \<Longrightarrow> pair_ok heads hdim kv" and h: "int h < heads" and lq: "int (length q) = hdim"
  shows "(case stable_softmax real_ops (map (score_of real_ops q h (1 / sqrt hdim)) T) of Inl e \<Rightarrow> Inl e
      | Inr weights \<Rightarrow> accumulate_all real_ops (zip weights (map (value_of h) T)) (replicate (nat hdim) (fl_zero real_ops)))
      = Inr (map (softmax_attention q h hdim T) [0..<nat hdim])"
proof -
  have scores: "map (score_of real_ops q h (1 / sqrt hdim)) T = map (qk_score q h hdim) T"
    using score_of_real [OF T h lq] by simp
  define w where "w = (\<lambda>kv. exp (qk_score q h hdim kv) / (\<Sum>kv \<leftarrow> T. exp (qk_score q h hdim kv)))"
  have soft: "stable_softmax real_ops (map (qk_score q h hdim) T) = Inr (map w T)"
    by (simp add: stable_softmax_real w_def o_def)
  have "length (value_of h kv) = nat hdim" if "kv \<in> set T" for kv
    using pair_ok_head(4) [OF _ h, of hdim "fst kv" "snd kv"] T [OF that] by (simp add: value_of_def)
  then have lens: "list_all (\<lambda>v. length v = length (replicate (nat hdim) (0 :: real))) (map (value_of h) T)"
    by (simp add: list_all_iff)
  have acc: "accumulate_all real_ops (zip (map w T) (map (value_of h) T)) (replicate (nat hdim) 0) =
      Inr (map (\<lambda>i. sum_list (map (\<lambda>(w, v). w * v ! i) (zip (map w T) (map (value_of h) T)))) [0..<nat hdim])"
    using accumulate_all_real [OF lens, of "map w T"] by simp
  have "sum_list (map (\<lambda>(w, v). w * v ! i) (zip (map (\<lambda>kv. f kv / d) T) (map (value_of h) T)))
      = (\<Sum>kv \<leftarrow> T. f kv * snd kv ! h ! i) / d" for f d i
    by (induction T) (simp_all add: value_of_def add_divide_distrib)
  then have lane: "sum_list (map (\<lambda>(w, v). w * v ! i) (zip (map w T) (map (value_of h) T))) = softmax_attention q h hdim T i" for i
    by (simp add: w_def softmax_attention_def)
  show ?thesis unfolding scores soft sum.case real_ops_sel acc lane ..
qed

text \<open>
  C19: the decode is softmax attention. Over exact numbers, for any cache, context limit and mask,
  \<open>attention_decode\<close> returns normally, and lane \<open>i\<close> of query head \<open>q\<close> is the average of the kept
  values of its KV head \<open>\<lfloor>q * num_kv_heads / num_q_heads\<rfloor>\<close>, weighted by the exponentials of the
  scores over \<open>sqrt head_dim\<close> (0 when nothing is kept): subtracting the maximum changes nothing.
\<close>

theorem decode_is_softmax_attention:
  assumes "PagedKVCache_init pt heads hdim = Inr c0" and "c = append_all kvs c0"
    and "toks = filter (pair_ok heads hdim) kvs"
    and "0 \<le> n" and "n \<le> int (length toks)"
    and "case allow of None \<Rightarrow> True | Some m \<Rightarrow> n \<le> int (length m)"
    and "qs \<noteq> []" and "list_all (\<lambda>q. int (length q) = hdim) qs"
  shows "attention_decode real_ops qs c (Some n) allow =
    Inr (map (\<lambda>qi. map (softmax_attention (qs ! qi) (kv_head_of heads (length qs) qi) hdim (kept allow (take (nat n) toks)))
        [0..<nat hdim]) [0..<length qs])"
proof -
  note new = fresh_cache_wf [OF assms(1)]
  have c: "cache_wf c" "cache_list c = toks" "kc_num_kv_heads c = heads" "kc_head_dim c = hdim"
    using append_all_ok [OF new(1), of kvs] new(2-5) by (simp_all add: assms(2,3))
  define T where "T = kept allow (take (nat n) toks)"
  have T: "pair_ok heads hdim kv" if "kv \<in> set T" for kv
    using that kept_subset [of allow "take (nat n) toks"] assms(3) by (auto simp: T_def dest!: in_set_takeD)
  have scale: "fl_div real_ops (fl_of_int real_ops 1) (fl_sqrt real_ops (fl_of_int real_ops hdim)) = Inr (1 / sqrt hdim)"
    using new(8) by (simp add: fl_div_def)
  have each: "(let h = kv_head_of heads (length qs) qi in
      case stable_softmax real_ops (map (score_of real_ops q h (1 / sqrt hdim)) T) of Inl e \<Rightarrow> Inl e
      | Inr weights \<Rightarrow> accumulate_all real_ops (zip weights (map (value_of h) T)) (replicate (nat hdim) (fl_zero real_ops)))
      = Inr (map (softmax_attention q (kv_head_of heads (length qs) qi) hdim T) [0..<nat hdim])"
    if "(qi, q) \<in> set (enumerate 0 qs)" for qi q
  proof -
    have "qi < length qs" "int (length q) = hdim" using that assms(8) by (auto simp: in_set_enumerate_eq list_all_iff)
    then show ?thesis unfolding Let_def using decode_head_real [OF T kv_head_of(2) [OF new(7)]] by blast
  qed
  have "attention_decode real_ops qs c (Some n) allow = decode_kept real_ops heads hdim qs T"
    using attention_decode_kept [OF c(1), of n allow "Some n" real_ops qs] cache_tokens_length [OF c(1)] assms(4-6) new(7)
    unfolding c(2-4) T_def by simp
  also have "\<dots> = Inr (map (\<lambda>(qi, q). map (softmax_attention q (kv_head_of heads (length qs) qi) hdim T) [0..<nat hdim])
      (enumerate 0 qs))"
    unfolding decode_kept_def scale sum.case using assms(7,8)
    by (auto simp: list_all_iff list_ex_iff intro!: map_res_total each)
  also have "map (\<lambda>(qi, q). map (softmax_attention q (kv_head_of heads (length qs) qi) hdim T) [0..<nat hdim]) (enumerate 0 qs)
      = map (\<lambda>qi. map (softmax_attention (qs ! qi) (kv_head_of heads (length qs) qi) hdim T) [0..<nat hdim]) [0..<length qs]"
    by (rule nth_equalityI) (simp_all add: nth_enumerate_eq)
  finally show ?thesis by (simp add: T_def)
qed

text \<open>Concrete caches: one KV head, two query heads, three tokens, the second one masked.\<close>

definition demo_kvs :: "(real head_values \<times> real head_values) list" where
  "demo_kvs = [([[0]], [[6]]), ([[7]], [[100]]), ([[0]], [[2]])]"

lemma demo_kvs_ok: "demo_kvs = filter (pair_ok 1 1) demo_kvs"
  by (simp add: demo_kvs_def pair_ok_def token_ok_def)

theorem decode_is_softmax_attention_witness:
  "\<exists>c0. PagedKVCache_init 2 1 1 = Inr c0 \<and>
     attention_decode real_ops [[3], [5]] (append_all demo_kvs c0) (Some 3) (Some [True, False, True]) = Inr [[4], [4]]"
proof -
  obtain c0 :: "real kv_cache" where c0: "PagedKVCache_init 2 1 1 = Inr c0" by (simp add: PagedKVCache_init_def)
  have kept: "kept (Some [True, False, True]) (take (nat 3) demo_kvs) = [([[0]], [[6]]), ([[0]], [[2]])]"
    by (simp add: kept_def demo_kvs_def)
  have "attention_decode real_ops [[3], [5]] (append_all demo_kvs c0) (Some 3) (Some [True, False, True]) =
    Inr (map (\<lambda>qi. map (softmax_attention ([[3], [5]] ! qi) (kv_head_of 1 2 qi) 1 [([[0]], [[6]]), ([[0]], [[2]])])
        [0..<nat 1]) [0..<2])"
    using decode_is_softmax_attention [OF c0 refl demo_kvs_ok, of 3 "Some [True, False, True]" "[[3], [5]]", unfolded kept]
    by (simp add: demo_kvs_def upt_rec numeral_2_eq_2)
  also have "\<dots> = Inr [[4], [4]]"
    by (simp add: softmax_attention_def qk_score_def kv_head_of_def upt_rec)
  finally show ?thesis using c0 by blast
qed

theorem masked_decode_is_filtered_decode_witness:
  "\<exists>c0 c0'. PagedKVCache_init 2 1 1 = Inr c0 \<and> PagedKVCache_init 5 1 1 = Inr c0' \<and>
     attention_decode real_ops [[3], [5]] (append_all demo_kvs c0) (Some 3) (Some [True, False, True]) =
     attention_decode real_ops [[3], [5]] (append_all [([[0]], [[6]]), ([[0]], [[2]])] c0') None None"
proof -
  obtain c0 :: "real kv_cache" where c0: "PagedKVCache_init 2 1 1 = Inr c0" by (simp add: PagedKVCache_init_def)
  obtain c0' :: "real kv_cache" where c0': "PagedKVCache_init 5 1 1 = Inr c0'" by (simp add: PagedKVCache_init_def)
  have kept: "kept (Some [True, False, True]) (take (nat 3) demo_kvs) = [([[0]], [[6]]), ([[0]], [[2]])]"
    by (simp add: kept_def demo_kvs_def)
  show ?thesis
    using masked_decode_is_filtered_decode [OF c0 c0' refl demo_kvs_ok _ _ _ refl, of 3 "[True, False, True]" real_ops "[[3], [5]]",
        unfolded kept] c0 c0' by (simp add: demo_kvs_def)
qed

text \<open>
  the debug cache. For positive sizes \<open>build_debug_cache\<close> returns a cache of exactly
  \<open>tokens\<close> tokens over exact numbers, and token \<open>t\<close> reads back as the deterministic values it was
  built from; a size that is not positive raises \<open>ValueError\<close>.
\<close>

theorem debug_cache_reads_back:
  assumes "0 \<le> tokens"
  shows "case build_debug_cache real_ops tokens pt heads hdim of
      Inl e \<Rightarrow> e = ValueError \<and> (pt \<le> 0 \<or> heads \<le> 0 \<or> hdim \<le> 0)
    | Inr c \<Rightarrow> 0 < pt \<and> 0 < heads \<and> 0 < hdim \<and> cache_tokens c = tokens \<and>
        (case get_token t c of
           Inl e \<Rightarrow> e = IndexError \<and> \<not> (0 \<le> t \<and> t < tokens)
         | Inr kv \<Rightarrow> 0 \<le> t \<and> t < tokens \<and>
             kv = (map (\<lambda>h. map (\<lambda>d. of_int (t + h + d + 1) / 10) [0..hdim - 1]) [0..heads - 1],
                   map (\<lambda>h. map (\<lambda>d. of_int ((t + 1) * (h + 1) + d) / 10) [0..hdim - 1]) [0..heads - 1]))"
proof (cases "pt \<le> 0 \<or> heads \<le> 0 \<or> hdim \<le> 0")
  case True
  then have "PagedKVCache_init pt heads hdim = (Inl ValueError :: real kv_cache res)"
    by (auto simp: PagedKVCache_init_def)
  with True show ?thesis by (simp add: build_debug_cache_def)
next
  case False
  define key :: "int \<Rightarrow> real head_values" where "key t = map (\<lambda>h. map (\<lambda>d. of_int (t + h + d + 1) / 10) [0..hdim - 1]) [0..heads - 1]" for t
  define val :: "int \<Rightarrow> real head_values" where "val t = map (\<lambda>h. map (\<lambda>d. of_int ((t + 1) * (h + 1) + d) / 10) [0..hdim - 1]) [0..heads - 1]" for t
  have keys: "debug_key real_ops heads hdim t = Inr (key t)" "debug_value real_ops heads hdim t = Inr (val t)" for t
    unfolding debug_key_def debug_value_def key_def val_def by (intro map_res_total; simp add: fl_div_def)+
  have shape: "pair_ok heads hdim (key t, val t)" for t
    using False by (simp add: pair_ok_def token_ok_def key_def val_def list_all_iff)
  define pairs where "pairs = map (\<lambda>t. (key t, val t)) [0..tokens - 1]"
  obtain c0 :: "real kv_cache" where c0: "PagedKVCache_init pt heads hdim = Inr c0"
    using False by (simp add: PagedKVCache_init_def)
  have build: "debug_tokens real_ops ts c = Inr (append_all (map (\<lambda>t. (key t, val t)) ts) c)"
    if "cache_wf c" "kc_num_kv_heads c = heads" "kc_head_dim c = hdim" for ts c
    using that
  proof (induction ts arbitrary: c)
    case (Cons t ts)
    have ok: "pair_ok (kc_num_kv_heads c) (kc_head_dim c) (key t, val t)" using shape Cons.prems by simp
    obtain c' where "append_token (key t) (val t) c = (Inr (), c')" "cache_wf c'"
      "kc_num_kv_heads c' = kc_num_kv_heads c" "kc_head_dim c' = kc_head_dim c"
      by (rule append_token_ok [OF Cons.prems(1) ok])
    with Cons show ?case by (simp add: keys append_all_def)
  qed (simp add: append_all_def)
  note new = fresh_cache_wf [OF c0]
  define c where "c = append_all pairs c0"
  have "build_debug_cache real_ops tokens pt heads hdim = Inr c"
    using build [OF new(1,4,5), of "[0..tokens - 1]"] c0 by (simp add: build_debug_cache_def c_def pairs_def)
  moreover have "cache_wf c" "cache_list c = pairs"
  proof -
    have "filter (pair_ok heads hdim) pairs = pairs" using shape by (auto simp: pairs_def filter_id_conv)
    then show "cache_wf c" "cache_list c = pairs"
      using append_all_ok [OF new(1), of pairs] new(2-5) by (simp_all add: c_def)
  qed
  moreover have "length pairs = nat tokens" by (simp add: pairs_def)
  moreover have "pairs ! nat t = (key t, val t)" if "0 \<le> t" "t < tokens"
    using that by (simp add: pairs_def nth_upto)
  ultimately show ?thesis
    using False assms get_token_nth [of c t] cache_tokens_length [of c]
    by (auto simp: key_def val_def)
qed

theorem debug_cache_reads_back_witness:
  "case build_debug_cache real_ops 5 2 1 1 of Inl _ \<Rightarrow> False
   | Inr c \<Rightarrow> cache_tokens c = 5 \<and> (case get_token 3 c of Inl _ \<Rightarrow> False | Inr kv \<Rightarrow> kv = ([[4 / 10]], [[4 / 10]]))"
  using debug_cache_reads_back [of 5 2 1 1 3]
  by (cases "build_debug_cache real_ops 5 2 1 1") (auto split: sum.splits)

end
