(* ===== verification/Percentile.thy ===== *)
theory Percentile
  imports PyText "HOL-Library.Multiset"
begin

text \<open>
  The order statistics of \<open>sim/event_model/rcif_sim.py\<close>: Python's \<open>sorted\<close> on floats, \<open>percentile\<close>
  with its linear interpolation, and \<open>statistics.median\<close>. Over exact numbers the median is the
  50th percentile, and percentiles lie between the extremes and grow with the percentage.
\<close>

section \<open>Sorting and indexing\<close>

text \<open>\<open>sorted\<close> is stable: an item goes before the first one that is not smaller.\<close>

fun fl_insert :: "('f, 'x) float_ops_scheme \<Rightarrow> 'f \<Rightarrow> 'f list \<Rightarrow> 'f list" where
  "fl_insert F x [] = [x]"
| "fl_insert F x (y # ys) = (if fl_less F y x then y # fl_insert F x ys else x # y # ys)"

definition py_sorted :: "('f, 'x) float_ops_scheme \<Rightarrow> 'f list \<Rightarrow> 'f list" where
  "py_sorted F xs = foldr (fl_insert F) xs []"

text \<open>\<open>xs[i]\<close>, where a negative index counts from the end.\<close>

definition py_index :: "'a list \<Rightarrow> int \<Rightarrow> 'a res" where
  "py_index xs i =
     (let n = int (length xs) in
      if 0 \<le> i \<and> i < n then Inr (xs ! nat i)
      else if - n \<le> i \<and> i < 0 then Inr (xs ! nat (n + i))
      else Inl IndexError)"

section \<open>Percentile and median\<close>

definition percentile :: "('f, 'x) sim_float_scheme \<Rightarrow> 'f list \<Rightarrow> 'f \<Rightarrow> 'f res" where
  "percentile F xs pct =
     (let ordered = py_sorted F xs; n = int (length ordered) in
      if ordered = [] then Inr (fl_zero F)
      else if n = 1 then Inr (hd ordered)
      else
        bind_res (fl_conv F (n - 1)) (\<lambda>last_rank.
        let rank = fl_mul F last_rank pct in
        bind_res (fl_trunc F rank) (\<lambda>low.
        let high = min (low + 1) (n - 1) in
        bind_res (fl_conv F low) (\<lambda>fl_low.
        let frac = fl_sub F rank fl_low in
        bind_res (py_index ordered low) (\<lambda>a.
        bind_res (py_index ordered high) (\<lambda>b.
        Inr (fl_add F (fl_mul F a (fl_sub F (fl_of_int F 1) frac)) (fl_mul F b frac))))))))"

text \<open>\<open>StatisticsError\<close>, a subclass of \<open>ValueError\<close>, on no data.\<close>

definition median :: "('f, 'x) sim_float_scheme \<Rightarrow> 'f list \<Rightarrow> 'f res" where
  "median F xs =
     (let data = py_sorted F xs; n = int (length data) in
      if n = 0 then Inl ValueError
      else if n mod 2 = 1 then py_index data (n div 2)
      else let i = n div 2 in
        bind_res (py_index data (i - 1)) (\<lambda>a. bind_res (py_index data i) (\<lambda>b.
        fl_div F (fl_add F a b) (fl_of_int F 2))))"

section \<open>Exact arithmetic\<close>

text \<open>
  Exact numbers with Python's conversions; \<open>float\<close> of a string and \<open>str\<close> stay parameters.
\<close>

definition real_sim :: "(string \<Rightarrow> real res) \<Rightarrow> (real json \<Rightarrow> string) \<Rightarrow> real sim_ops" where
  "real_sim parse repr = \<lparr>fl_of_int = of_int, fl_add = (+), fl_sub = (-), fl_mul = (*), fl_quot = (/), fl_less = (<),
     fl_eq = (=), fl_exp = exp, fl_sqrt = sqrt, fl_sum = sum_list,
     fl_conv = (\<lambda>i. Inr (of_int i)), fl_trunc = (\<lambda>x. Inr (if 0 \<le> x then \<lfloor>x\<rfloor> else \<lceil>x\<rceil>)), fl_parse = parse,
     fl_true_div = (\<lambda>i j. if j = 0 then Inl ZeroDivisionError else Inr (of_int i / of_int j)), fl_repr = repr\<rparr>"

lemma real_sim_sel [simp]:
  "fl_of_int (real_sim p q) = of_int" "fl_add (real_sim p q) = (+)" "fl_sub (real_sim p q) = (-)"
  "fl_mul (real_sim p q) = (*)" "fl_quot (real_sim p q) = (/)" "fl_less (real_sim p q) = (<)"
  "fl_eq (real_sim p q) = (=)" "fl_sum (real_sim p q) = sum_list" "fl_zero (real_sim p q) = 0"
  "fl_conv (real_sim p q) = (\<lambda>i. Inr (of_int i))"
  "fl_trunc (real_sim p q) = (\<lambda>x. Inr (if 0 \<le> x then \<lfloor>x\<rfloor> else \<lceil>x\<rceil>))"
  "fl_true_div (real_sim p q) = (\<lambda>i j. if j = 0 then Inl ZeroDivisionError else Inr (of_int i / of_int j))"
  "fl_parse (real_sim p q) = p" "fl_repr (real_sim p q) = q"
  by (simp_all add: real_sim_def fl_zero_def)

lemma fl_div_real_sim: "fl_div (real_sim p q) a b = (if b = 0 then Inl ZeroDivisionError else Inr (a / b))"
  by (simp add: fl_div_def)

lemma fl_insert_real: "fl_insert (real_sim p q) x ys = insort x ys"
  by (induction ys) auto

lemma py_sorted_real: "py_sorted (real_sim p q) xs = sort xs"
  by (induction xs) (simp_all add: py_sorted_def fl_insert_real)

lemma py_index_int: "k < length xs \<Longrightarrow> py_index xs (int k) = Inr (xs ! k)"
  by (simp add: py_index_def)

text \<open>The percentile as a function of the sorted data.\<close>

definition interpolate :: "real list \<Rightarrow> real \<Rightarrow> real" where
  "interpolate ys r = (let k = nat \<lfloor>r\<rfloor>; l = min (k + 1) (length ys - 1) in
     ys ! k * (1 - (r - real k)) + ys ! l * (r - real k))"

lemma percentile_interpolate:
  assumes "xs \<noteq> []" and "0 \<le> pct" "pct \<le> 1"
  shows "percentile (real_sim p q) xs pct = Inr (interpolate (sort xs) (real (length xs - 1) * pct))"
proof -
  define ys where "ys = sort xs"
  define n where "n = length xs"
  have len: "length ys = n" "0 < n" using assms(1) by (simp_all add: ys_def n_def)
  define r where "r = real (n - 1) * pct"
  have r: "0 \<le> r" "r \<le> real (n - 1)"
    using assms len(2) mult_left_le [of pct "real (n - 1)"] by (simp_all add: r_def)
  define k where "k = nat \<lfloor>r\<rfloor>"
  have k: "\<lfloor>r\<rfloor> = int k" using r by (simp add: k_def)
  have "int k \<le> \<lfloor>real (n - 1)\<rfloor>" using floor_mono [OF r(2)] by (simp add: k)
  then have kn: "k < n" using len(2) by simp
  show ?thesis
  proof (cases "n = 1")
    case True
    then have "k = 0" "r = 0" using kn by (simp_all add: r_def)
    moreover have "hd ys = ys ! 0" using len by (cases ys) auto
    ultimately show ?thesis
      unfolding percentile_def py_sorted_real ys_def [symmetric] Let_def interpolate_def n_def [symmetric] r_def [symmetric]
      using len True by (cases ys) (simp_all add: r_def)
  next
    case False
    have r': "(real n - 1) * pct = r" using len(2) by (simp add: r_def of_nat_diff)
    have high: "min (int k + 1) (int n - 1) = int (min (k + 1) (n - 1))" using len(2) by (simp add: min_def) linarith
    have "py_index ys (int k) = Inr (ys ! k)" using kn len by (simp add: py_index_int)
    moreover have "py_index ys (int (min (k + 1) (n - 1))) = Inr (ys ! min (k + 1) (n - 1))"
      by (rule py_index_int) (use len in linarith)
    moreover have "ys \<noteq> []" using len by auto
    ultimately show ?thesis
      unfolding percentile_def py_sorted_real ys_def [symmetric] Let_def interpolate_def n_def [symmetric] r_def [symmetric] len(1)
      using False r(1) by (simp add: r' k high flip: k_def)
  qed
qed

lemma nth_interpolate:
  assumes "k < length ys" "k \<le> r" "r < real k + 1"
  shows "interpolate ys r = ys ! k + (ys ! min (k + 1) (length ys - 1) - ys ! k) * (r - real k)"
proof -
  have "nat \<lfloor>r\<rfloor> = k" using assms by linarith
  then show ?thesis by (simp add: interpolate_def Let_def algebra_simps)
qed

lemma interpolate_cell:
  assumes "sorted ys" and k: "k < length ys" "real k \<le> r" "r < real k + 1"
  shows "ys ! k \<le> interpolate ys r" "interpolate ys r \<le> ys ! min (k + 1) (length ys - 1)"
proof -
  define d where "d = ys ! min (k + 1) (length ys - 1) - ys ! k"
  have "0 \<le> d" using assms(1) k(1) by (auto simp: d_def intro!: sorted_nth_mono)
  moreover have I: "interpolate ys r = ys ! k + d * (r - real k)"
    using nth_interpolate [of k ys r] k by (simp add: d_def)
  ultimately show "ys ! k \<le> interpolate ys r" using k by simp
  have "d * (r - real k) \<le> d" using \<open>0 \<le> d\<close> k by (intro mult_left_le) simp_all
  then show "interpolate ys r \<le> ys ! min (k + 1) (length ys - 1)" by (simp add: I d_def)
qed

lemma interpolate_mono:
  assumes ys: "sorted ys" and r: "0 \<le> r" "r \<le> s" and s: "s \<le> real (length ys - 1)" "ys \<noteq> []"
  shows "interpolate ys r \<le> interpolate ys s"
proof -
  define k where "k = nat \<lfloor>r\<rfloor>"
  define m where "m = nat \<lfloor>s\<rfloor>"
  have k: "real k \<le> r" "r < real k + 1" and m: "real m \<le> s" "s < real m + 1"
    using r by (auto simp: k_def m_def)
  have "real m \<le> real (length ys - 1)" using m s by linarith
  then have ml: "m < length ys" using s(2) by (simp add: less_eq_Suc_le) (cases ys; simp)
  have "real k < real m + 1" using k m r by linarith
  then have "k \<le> m" by simp
  show ?thesis
  proof (cases "k = m")
    case True
    define d where "d = ys ! min (m + 1) (length ys - 1) - ys ! m"
    have "0 \<le> d" using ys ml by (auto simp: d_def intro!: sorted_nth_mono)
    then have "d * (r - real m) \<le> d * (s - real m)" using r by (intro mult_left_mono) simp_all
    then show ?thesis
      using nth_interpolate [of m ys r] nth_interpolate [of m ys s] ml k m True by (simp add: d_def)
  next
    case False
    then have km: "k + 1 \<le> m" using \<open>k \<le> m\<close> by simp
    have "interpolate ys r \<le> ys ! min (k + 1) (length ys - 1)"
      using interpolate_cell(2) [OF ys _ k] km ml by simp
    also have "\<dots> \<le> ys ! m" using km ml by (intro sorted_nth_mono ys) (simp_all add: min_def)
    also have "\<dots> \<le> interpolate ys s" using interpolate_cell(1) [OF ys ml m] .
    finally show ?thesis .
  qed
qed

lemma interpolate_ends:
  assumes "ys \<noteq> []"
  shows "interpolate ys 0 = hd ys" "interpolate ys (real (length ys - 1)) = last ys"
  using assms by (simp_all add: interpolate_def Let_def hd_conv_nth last_conv_nth)

lemma sorted_Min_hd: "sorted ys \<Longrightarrow> ys \<noteq> [] \<Longrightarrow> Min (set ys) = hd ys" for ys :: "real list"
  by (cases ys) (auto intro: Min_eqI)

lemma sorted_Max_last: "sorted ys \<Longrightarrow> ys \<noteq> [] \<Longrightarrow> Max (set ys) = last ys" for ys :: "real list"
  by (induction ys) (auto simp: max_def intro!: Max_eqI)

lemma median_interpolate:
  assumes "xs \<noteq> []"
  shows "median (real_sim p q) xs = Inr (interpolate (sort xs) (real (length xs - 1) * (1 / 2)))"
proof -
  define ys where "ys = sort xs"
  define n where "n = length xs"
  have len: "length ys = n" "0 < n" using assms by (simp_all add: ys_def n_def)
  show ?thesis
  proof (cases "odd n")
    case True
    then obtain k where n: "n = 2 * k + 1" by (auto elim: oddE)
    then have "int n mod 2 = 1" "int n div 2 = int k" by presburger+
    moreover have "interpolate ys (real k) = ys ! k"
      using nth_interpolate [of k ys "real k"] n len by simp
    moreover have "real (n - 1) * (1 / 2) = real k" using n by simp
    moreover have "py_index ys (int k) = Inr (ys ! k)" using n len by (simp add: py_index_int)
    ultimately show ?thesis
      unfolding median_def py_sorted_real ys_def [symmetric] n_def [symmetric] len(1) Let_def using len by simp
  next
    case False
    then obtain k where n: "n = 2 * k" by (auto elim: evenE)
    then obtain i where k: "k = Suc i" using len by (cases k) auto
    have "int n mod 2 \<noteq> 1" "int n div 2 = 1 + int i" using n k by (presburger, simp)
    moreover have r: "real (n - 1) * (1 / 2) = real i + 1 / 2" using n k by (simp add: field_simps)
    moreover have "interpolate ys (real i + 1 / 2) = (ys ! i + ys ! k) / 2"
      using nth_interpolate [of i ys "real i + 1 / 2"] n k len by (simp add: field_simps)
    moreover have "py_index ys (int i) = Inr (ys ! i)" "py_index ys (1 + int i) = Inr (ys ! k)"
      using n k len py_index_int [of i ys] py_index_int [of k ys] by simp_all
    ultimately show ?thesis
      unfolding median_def py_sorted_real ys_def [symmetric] n_def [symmetric] len(1) Let_def r
      using len by (simp add: fl_div_real_sim)
  qed
qed

lemma sort_interpolate_ends:
  assumes "xs \<noteq> []"
  shows "interpolate (sort xs) 0 = Min (set xs)" "interpolate (sort xs) (real (length xs - 1)) = Max (set xs)"
proof -
  have s: "sorted (sort xs)" "sort xs \<noteq> []" using assms by (simp_all flip: set_empty)
  show "interpolate (sort xs) 0 = Min (set xs)" "interpolate (sort xs) (real (length xs - 1)) = Max (set xs)"
    using interpolate_ends [OF s(2)] sorted_Min_hd [OF s] sorted_Max_last [OF s] by simp_all
qed

lemma sort_interpolate_mono:
  assumes "xs \<noteq> []" "0 \<le> u" "u \<le> v" "v \<le> 1"
  shows "interpolate (sort xs) (real (length xs - 1) * u) \<le> interpolate (sort xs) (real (length xs - 1) * v)"
proof (rule interpolate_mono)
  show "sorted (sort xs)" "sort xs \<noteq> []" using assms(1) by (simp_all flip: set_empty)
  show "0 \<le> real (length xs - 1) * u" "real (length xs - 1) * u \<le> real (length xs - 1) * v"
    using assms by (simp_all add: mult_left_mono)
  show "real (length xs - 1) * v \<le> real (length (sort xs) - 1)"
    using assms(4) mult_left_le [of v "real (length xs - 1)"] by simp
qed

text \<open>Percentages in ascending order between the extremes.\<close>

lemma sort_interpolate_range:
  assumes "xs \<noteq> []" "0 \<le> u" "u \<le> 1"
  shows "Min (set xs) \<le> interpolate (sort xs) (real (length xs - 1) * u)"
    "interpolate (sort xs) (real (length xs - 1) * u) \<le> Max (set xs)"
  using sort_interpolate_mono [OF assms(1), of 0 u] sort_interpolate_mono [OF assms(1), of u 1] assms
  by (simp_all add: sort_interpolate_ends flip: One_nat_def)

section \<open>Properties\<close>

text \<open>
  over exact numbers and for percentages from 0 to 1, \<open>percentile\<close> of a non-empty list never
  raises, does not depend on the order of the list, lies between its least and greatest item, and
  grows with the percentage; the ends of the range are the minimum and the maximum.
\<close>

theorem percentile_order:
  assumes "xs \<noteq> []" and "0 \<le> p1" "p1 \<le> p2" "p2 \<le> 1"
  shows "\<exists>a b. percentile (real_sim p q) xs p1 = Inr a \<and> percentile (real_sim p q) xs p2 = Inr b \<and>
    Min (set xs) \<le> a \<and> a \<le> b \<and> b \<le> Max (set xs) \<and>
    percentile (real_sim p q) xs 0 = Inr (Min (set xs)) \<and> percentile (real_sim p q) xs 1 = Inr (Max (set xs)) \<and>
    (\<forall>ys. mset ys = mset xs \<longrightarrow> percentile (real_sim p q) ys p1 = Inr a)"
proof -
  let ?s = "sort xs" and ?n = "real (length xs - 1)"
  note mono = sort_interpolate_mono [OF assms(1)] and range = sort_interpolate_range [OF assms(1)]
    and ends = sort_interpolate_ends [OF assms(1)]
  have perm: "percentile (real_sim p q) ys p1 = Inr (interpolate ?s (?n * p1))" if "mset ys = mset xs" for ys
  proof -
    have "sort ys = ?s" using that by (intro properties_for_sort) simp_all
    moreover have "length ys = length xs" using that by (rule mset_eq_length)
    moreover have "ys \<noteq> []" using calculation(2) assms(1) by auto
    ultimately show ?thesis using percentile_interpolate [of ys p1 p q] assms by simp
  qed
  have eq: "percentile (real_sim p q) xs u = Inr (interpolate ?s (?n * u))" if "0 \<le> u" "u \<le> 1" for u
    by (rule percentile_interpolate [OF assms(1) that])
  show ?thesis
  proof (intro exI conjI allI impI)
    show "percentile (real_sim p q) xs p1 = Inr (interpolate ?s (?n * p1))" by (rule eq) (use assms in linarith)+
    show "percentile (real_sim p q) xs p2 = Inr (interpolate ?s (?n * p2))" by (rule eq) (use assms in linarith)+
    show "Min (set xs) \<le> interpolate ?s (?n * p1)" by (rule range) (use assms in linarith)+
    show "interpolate ?s (?n * p1) \<le> interpolate ?s (?n * p2)" by (rule mono) (use assms in linarith)+
    show "interpolate ?s (?n * p2) \<le> Max (set xs)" by (rule range) (use assms in linarith)+
    show "percentile (real_sim p q) xs 0 = Inr (Min (set xs))" using eq [of 0] ends(1) by simp
    show "percentile (real_sim p q) xs 1 = Inr (Max (set xs))" using eq [of 1] ends(2) by simp
  qed (rule perm)
qed

theorem percentile_order_witness:
  "\<exists>a b. percentile (real_sim (\<lambda>_. Inl ValueError) (\<lambda>_. [])) [3, 1] (1 / 4) = Inr a \<and>
    percentile (real_sim (\<lambda>_. Inl ValueError) (\<lambda>_. [])) [3, 1] (1 / 2) = Inr b \<and> 1 \<le> a \<and> a \<le> b \<and> b \<le> (3::real)"
  using percentile_order [of "[3, 1]" "1 / 4" "1 / 2" "\<lambda>_. Inl ValueError" "\<lambda>_. []"] by auto

text \<open>
  over exact numbers the median that the summary reports as its 50th percentile is what
  \<open>percentile\<close> returns for one half, also for lists of even length, and it raises on no data, where
  \<open>percentile\<close> returns 0.
\<close>

theorem median_is_p50:
  "median (real_sim p q) xs = (if xs = [] then Inl ValueError else percentile (real_sim p q) xs (1 / 2))"
proof (cases "xs = []")
  case False
  then show ?thesis using median_interpolate [OF False] percentile_interpolate [OF False, of "1 / 2"] by simp
qed (simp add: median_def py_sorted_real)

end
