(* ===== verification/Binary64.thy ===== *)
theory Binary64
  imports Percentile PyFloat
begin

text \<open>
  Python's floats: IEEE binary64 with rounding to nearest, ties to even, subnormal numbers, overflow
  to infinity and NaN, as executable definitions, and what rounding guarantees: it depends on the
  number only and does not cross a number that has a binary64 form. The two zeros are one number:
  no comparison of the modelled code tells them apart, only their texts would differ.
\<close>

section \<open>Numbers and rounding\<close>

text \<open>\<open>B_fin m e\<close> is \<open>m * 2 ^ e\<close>; \<open>B_inf\<close> carries the sign, true for negative.\<close>

datatype b64 = B_fin int int | B_inf bool | B_nan

text \<open>
  The mantissa and exponent that \<open>(n / d) * 2 ^ s\<close> rounds to, for positive \<open>n\<close> and \<open>d\<close>: 53 bits, or
  fewer where the exponent would fall below \<open>-1074\<close>.
\<close>

definition quotient_exponent :: "int \<Rightarrow> int \<Rightarrow> int" where
  "quotient_exponent n d =
     (let e = int (int_bit_length n) - int (int_bit_length d) in
      if n * 2 ^ nat (- e) < d * 2 ^ nat e then e - 1 else e)"

definition round_positive :: "int \<Rightarrow> int \<Rightarrow> int \<Rightarrow> int \<times> int" where
  "round_positive n d s =
     (let e = max (quotient_exponent n d - 52) (- 1074 - s) in
      (int_round_half_even (n * 2 ^ nat (- e)) (d * 2 ^ nat e), e + s))"

definition round_ratio :: "int \<Rightarrow> int \<Rightarrow> int \<Rightarrow> b64" where
  "round_ratio n d s =
     (if n = 0 then B_fin 0 0
      else case round_positive \<bar>n\<bar> d s of (m, e) \<Rightarrow>
        if int (int_bit_length m) + e > 1024 then B_inf (n < 0) else B_fin (sgn n * m) e)"

section \<open>What rounding guarantees\<close>

lemma int_bit_length_bounds:
  assumes "0 < n"
  shows "2 powi (int (int_bit_length n) - 1) \<le> real_of_int n" "real_of_int n < 2 powi int (int_bit_length n)"
proof -
  define k where "k = nat n"
  have n: "n = int k" and k: "0 < k" using assms by (simp_all add: k_def)
  obtain l where l: "bit_length k = Suc l" using bit_length_bounds(3) [OF k] by (cases "bit_length k") auto
  have "2 ^ l \<le> k" "k < 2 ^ Suc l" using bit_length_bounds [OF k] l by simp_all
  then have "real (2 ^ l) \<le> real k" "real k < real (2 ^ Suc l)" by (simp_all only: of_nat_le_iff of_nat_less_iff)
  then show "2 powi (int (int_bit_length n) - 1) \<le> real_of_int n" "real_of_int n < 2 powi int (int_bit_length n)"
    by (simp_all add: n int_bit_length l power_int_add)
qed

lemma scaled_ratio:
  "real_of_int (n * 2 ^ nat (- e)) / real_of_int (d * 2 ^ nat e) = real_of_int n / real_of_int d * 2 powi (- e)"
  by (cases e rule: int_cases2) (simp_all add: power_int_minus divide_inverse)

lemma quotient_exponent_bounds:
  assumes "0 < n" "0 < d"
  defines "q \<equiv> quotient_exponent n d"
  shows "2 powi q \<le> real_of_int n / real_of_int d" "real_of_int n / real_of_int d < 2 powi (q + 1)"
proof -
  let ?x = "real_of_int n / real_of_int d"
  define e where "e = int (int_bit_length n) - int (int_bit_length d)"
  have d: "0 < real_of_int d" using assms by simp
  have inverse_less: "(x * inverse p < 1) = (x < p)" if "0 < p" for x p :: real
    using that by (simp add: field_simps)
  note n' = int_bit_length_bounds [OF assms(1)] and d' = int_bit_length_bounds [OF assms(2)]
  have "2 powi (e - 1) = (2::real) powi (int (int_bit_length n) - 1) / 2 powi int (int_bit_length d)"
    by (simp add: e_def power_int_diff)
  also have "\<dots> \<le> ?x" using n'(1) d'(2) d assms(1) by (intro frac_le) simp_all
  finally have low: "2 powi (e - 1) \<le> ?x" .
  have "?x < 2 powi int (int_bit_length n) / 2 powi (int (int_bit_length d) - 1)"
    by (rule frac_less) (use n'(2) d'(1) assms(1) in simp_all)
  also have "\<dots> = (2::real) powi (e + 1)" by (simp add: e_def power_int_diff power_int_add)
  finally have high: "?x < 2 powi (e + 1)" .
  have "(n * 2 ^ nat (- e) < d * 2 ^ nat e) = (real_of_int (n * 2 ^ nat (- e)) < real_of_int (d * 2 ^ nat e))"
    by (simp only: of_int_less_iff)
  also have "\<dots> = (real_of_int (n * 2 ^ nat (- e)) / real_of_int (d * 2 ^ nat e) < 1)"
    using assms by (subst divide_less_eq_1_pos) simp_all
  also have "\<dots> = (?x < 2 powi e)"
    unfolding scaled_ratio power_int_minus by (rule inverse_less) simp
  finally have "q = (if ?x < 2 powi e then e - 1 else e)"
    by (simp add: q_def quotient_exponent_def Let_def e_def)
  with low high show "2 powi q \<le> ?x" "?x < 2 powi (q + 1)" by (auto split: if_splits)
qed

lemma int_round_half_even_le: "0 < b \<Longrightarrow> a \<le> k * b \<Longrightarrow> int_round_half_even a b \<le> k"
proof -
  assume b: "0 < b" and a: "a \<le> k * b"
  have "a div b \<le> k" using zdiv_mono1 [OF a b] b by simp
  moreover have "a div b + 1 \<le> k" if "0 < a mod b"
  proof (rule ccontr)
    assume "\<not> a div b + 1 \<le> k"
    then have "k * b \<le> a div b * b" using b by (intro mult_right_mono) simp_all
    with a that show False using div_mult_mod_eq [of a b] by linarith
  qed
  moreover have "0 \<le> a mod b" using b by simp
  ultimately show ?thesis using b by (auto simp: int_round_half_even_def Let_def)
qed

lemma int_round_half_even_ge: "0 < b \<Longrightarrow> k * b \<le> a \<Longrightarrow> k \<le> int_round_half_even a b"
proof -
  assume b: "0 < b" and a: "k * b \<le> a"
  have "k \<le> a div b" using zdiv_mono1 [OF a b] b by simp
  then show ?thesis by (simp add: int_round_half_even_def Let_def)
qed

text \<open>The numbers that have a binary64 form.\<close>

definition b64_form :: "real \<Rightarrow> bool" where
  "b64_form x = ((\<exists>k j. x = real_of_int k * 2 powi j \<and> \<bar>k\<bar> \<le> 2 ^ 53 \<and> - 1074 \<le> j) \<and> \<bar>x\<bar> < 2 ^ 1024)"

lemma b64_form_range: "b64_form x \<Longrightarrow> x < 2 ^ 1024" "b64_form x \<Longrightarrow> - (2 ^ 1024) < x"
  unfolding b64_form_def by linarith+

lemma round_positive_bounds:
  assumes n: "0 < n" and d: "0 < d" and r: "round_positive n d s = (m, f)"
  defines "x \<equiv> real_of_int n / real_of_int d * 2 powi s"
  shows "\<And>k. x \<le> real_of_int k * 2 powi f \<Longrightarrow> m \<le> k" "\<And>k. real_of_int k * 2 powi f \<le> x \<Longrightarrow> k \<le> m"
    "x < 2 ^ 53 * 2 powi f" "- 1074 \<le> f" "- 1074 < f \<Longrightarrow> 2 ^ 52 * 2 powi f \<le> x"
proof -
  define q where "q = quotient_exponent n d"
  define e where "e = max (q - 52) (- 1074 - s)"
  have m: "m = int_round_half_even (n * 2 ^ nat (- e)) (d * 2 ^ nat e)" and f: "f = e + s"
    using r by (simp_all add: round_positive_def e_def q_def Let_def)
  let ?a = "n * 2 ^ nat (- e)" and ?b = "d * 2 ^ nat e"
  have b: "0 < ?b" using d by simp
  then have b': "0 < real_of_int ?b" by (simp only: of_int_0_less_iff)
  have "real_of_int ?a / real_of_int ?b = x / 2 powi f"
    unfolding scaled_ratio by (simp add: x_def f power_int_add power_int_minus divide_inverse)
  then have quot: "x = real_of_int ?a / real_of_int ?b * 2 powi f" by simp
  show "m \<le> k" if "x \<le> real_of_int k * 2 powi f" for k
  proof -
    have "real_of_int ?a / real_of_int ?b \<le> real_of_int k" using that unfolding quot by (rule mult_right_le_imp_le) simp
    then have "real_of_int ?a \<le> real_of_int (k * ?b)" using b' by (simp only: pos_divide_le_eq of_int_mult)
    then have "?a \<le> k * ?b" by (simp only: of_int_le_iff)
    then show ?thesis unfolding m by (rule int_round_half_even_le [OF b])
  qed
  show "k \<le> m" if "real_of_int k * 2 powi f \<le> x" for k
  proof -
    have "real_of_int k \<le> real_of_int ?a / real_of_int ?b" using that unfolding quot by (rule mult_right_le_imp_le) simp
    then have "real_of_int (k * ?b) \<le> real_of_int ?a" using b' by (simp only: pos_le_divide_eq of_int_mult)
    then have "k * ?b \<le> ?a" by (simp only: of_int_le_iff)
    then show ?thesis unfolding m by (rule int_round_half_even_ge [OF b])
  qed
  have "x < 2 powi (q + 1) * 2 powi s"
    unfolding x_def using quotient_exponent_bounds(2) [OF n d] by (intro mult_strict_right_mono) (simp_all add: q_def)
  also have "\<dots> = 2 powi (q + 1 + s)" by (simp add: power_int_add)
  also have "\<dots> \<le> (2::real) powi (53 + f)" by (intro power_int_increasing) (simp_all add: f e_def)
  finally show "x < 2 ^ 53 * 2 powi f" by (simp add: power_int_add)
  show "- 1074 \<le> f" by (simp add: f e_def)
  show "2 ^ 52 * 2 powi f \<le> x" if "- 1074 < f"
  proof -
    have "e = q - 52" using that by (auto simp: f e_def max_def split: if_splits)
    then have "2 ^ 52 * 2 powi f = (2::real) powi (q + s)" by (simp add: f power_int_add power_int_diff)
    also have "\<dots> = 2 powi q * 2 powi s" by (simp add: power_int_add)
    also have "\<dots> \<le> x"
      unfolding x_def using quotient_exponent_bounds(1) [OF n d] by (intro mult_right_mono) (simp_all add: q_def)
    finally show ?thesis .
  qed
qed

text \<open>Rounding does not cross a number that has a binary64 form.\<close>

lemma round_positive_monotone:
  assumes n: "0 < n" and d: "0 < d" and r: "round_positive n d s = (m, f)" and y: "b64_form y"
  defines "x \<equiv> real_of_int n / real_of_int d * 2 powi s"
  shows "x \<le> y \<Longrightarrow> real_of_int m * 2 powi f \<le> y" "y \<le> x \<Longrightarrow> y \<le> real_of_int m * 2 powi f"
proof -
  note bounds = round_positive_bounds [OF n d r, folded x_def]
  obtain k j where k: "y = real_of_int k * 2 powi j" "\<bar>k\<bar> \<le> 2 ^ 53" "- 1074 \<le> j"
    using y unfolding b64_form_def by blast
  have u: "0 < (2::real) powi f" by simp
  have "(x \<le> y \<longrightarrow> real_of_int m * 2 powi f \<le> y) \<and> (y \<le> x \<longrightarrow> y \<le> real_of_int m * 2 powi f)"
  proof (cases "f \<le> j")
    case True
    then obtain i where j: "j = int i + f" by (metis add.commute zle_iff_zadd)
    define c where "c = k * 2 ^ i"
    have y: "y = real_of_int c * 2 powi f" unfolding k(1) j c_def by (simp add: power_int_add)
    show ?thesis
    proof (intro conjI impI)
      assume "x \<le> y"
      then have "m \<le> c" unfolding y by (rule bounds(1))
      then show "real_of_int m * 2 powi f \<le> y" unfolding y by (intro mult_right_mono) simp_all
    next
      assume "y \<le> x"
      then have "c \<le> m" unfolding y by (rule bounds(2))
      then show "y \<le> real_of_int m * 2 powi f" unfolding y by (intro mult_right_mono) simp_all
    qed
  next
    case False
    then have low: "real_of_int (2 ^ 52) * 2 powi f \<le> x" using bounds(5) k(3) by simp
    then have m: "2 ^ 52 \<le> m" by (rule bounds(2))
    have "real_of_int k \<le> real_of_int (2 ^ 53)" using k(2) by (simp only: of_int_le_iff)
    then have "y \<le> real_of_int (2 ^ 53) * 2 powi j" unfolding k(1) by (rule mult_right_mono) simp
    also have "(2::real) powi j \<le> 2 powi (f - 1)" using False by (intro power_int_increasing) simp_all
    then have "real_of_int (2 ^ 53) * 2 powi j \<le> real_of_int (2 ^ 53) * 2 powi (f - 1)" by (rule mult_left_mono) simp
    also have "\<dots> = real_of_int (2 ^ 52) * 2 powi f" by (simp add: power_int_diff)
    finally have y: "y \<le> real_of_int (2 ^ 52) * 2 powi f" .
    show ?thesis
    proof (intro conjI impI)
      assume "x \<le> y"
      then have "x \<le> real_of_int (2 ^ 52) * 2 powi f" using y by (rule order_trans)
      then have "m \<le> 2 ^ 52" by (rule bounds(1))
      with m have "m = 2 ^ 52" by (rule antisym [rotated])
      then show "real_of_int m * 2 powi f \<le> y" using low \<open>x \<le> y\<close> by simp
    next
      have "real_of_int (2 ^ 52) * 2 powi f \<le> real_of_int m * 2 powi f"
        by (intro mult_right_mono) (simp_all only: of_int_le_iff m power_int_nonneg_exp zero_le_power_int zero_le_numeral)
      with y show "y \<le> real_of_int m * 2 powi f" by (rule order_trans)
    qed
  qed
  then show "x \<le> y \<Longrightarrow> real_of_int m * 2 powi f \<le> y" "y \<le> x \<Longrightarrow> y \<le> real_of_int m * 2 powi f" by simp_all
qed

lemma b64_form_uminus [simp]: "b64_form (- x) = b64_form x"
proof -
  have "b64_form (- y)" if "b64_form y" for y
  proof -
    obtain k j where "y = real_of_int k * 2 powi j" "\<bar>k\<bar> \<le> 2 ^ 53" "- 1074 \<le> j" "\<bar>y\<bar> < 2 ^ 1024"
      using \<open>b64_form y\<close> unfolding b64_form_def by blast
    then show ?thesis unfolding b64_form_def by (intro conjI exI [of _ "- k"] exI [of _ j]) simp_all
  qed
  from this [of x] this [of "- x"] show ?thesis by auto
qed

lemma round_positive_mantissa:
  assumes n: "0 < n" and d: "0 < d" and r: "round_positive n d s = (m, f)"
  shows "0 \<le> m" "m \<le> 2 ^ 53" "- 1074 \<le> f" "- 1074 < f \<Longrightarrow> 2 ^ 52 \<le> m"
proof -
  note bounds = round_positive_bounds [OF n d r]
  show "- 1074 \<le> f" by (rule bounds(4))
  show "m \<le> 2 ^ 53" using bounds(3) by (intro bounds(1)) simp
  show "0 \<le> m" using n d by (intro bounds(2)) simp
  show "2 ^ 52 \<le> m" if "- 1074 < f" using bounds(5) [OF that] by (intro bounds(2)) simp
qed

text \<open>
  The rounded quotient is finite, has a binary64 form, and lies between any two numbers of that form
  that enclose the exact quotient.
\<close>

lemma round_ratio_enclosed:
  assumes d: "0 < d"
    and x: "x = real_of_int n / real_of_int d * 2 powi s" "lo \<le> x" "x \<le> hi"
    and form: "b64_form lo" "b64_form hi"
  shows "\<exists>m f. round_ratio n d s = B_fin m f \<and> \<bar>m\<bar> \<le> 2 ^ 53 \<and> - 1074 \<le> f \<and>
    lo \<le> real_of_int m * 2 powi f \<and> real_of_int m * 2 powi f \<le> hi"
proof (cases "n = 0")
  case True
  then show ?thesis using x by (simp add: round_ratio_def)
next
  case False
  then have n: "0 < \<bar>n\<bar>" by simp
  obtain m f where r: "round_positive \<bar>n\<bar> d s = (m, f)" by (cases "round_positive \<bar>n\<bar> d s")
  note m = round_positive_mantissa [OF n d r]
  define v where "v = real_of_int m * 2 powi f"
  define t where "t = real_of_int \<bar>n\<bar> / real_of_int d * 2 powi s"
  have le: "b64_form y \<Longrightarrow> t \<le> y \<Longrightarrow> v \<le> y" and ge: "b64_form y \<Longrightarrow> y \<le> t \<Longrightarrow> y \<le> v" for y
    using round_positive_monotone [OF n d r, of y] by (simp_all add: t_def v_def)
  define w where "w = real_of_int (sgn n * m) * 2 powi f"
  have w: "w = (if n < 0 then - v else v)" and x': "x = (if n < 0 then - t else t)"
    using False by (simp_all add: w_def v_def t_def x(1))
  have enclosed: "lo \<le> w" "w \<le> hi"
    using le [of hi] ge [of lo] le [of "- lo"] ge [of "- hi"] form x(2,3) unfolding w x' by (auto split: if_splits)
  then have small: "v < 2 ^ 1024" using b64_form_range(2) [OF form(1)] b64_form_range(1) [OF form(2)] unfolding w by (auto split: if_splits)
  have "\<not> 1024 < int (int_bit_length m) + f"
  proof
    assume big: "1024 < int (int_bit_length m) + f"
    show False
    proof (cases "m = 0")
      case True
      then have "\<not> - 1074 < f" using m(4) by auto
      with True big show False by (simp add: int_bit_length.simps)
    next
      case False
      then have "2 powi (int (int_bit_length m) - 1) \<le> real_of_int m" using m(1) by (intro int_bit_length_bounds) simp
      then have "2 powi (int (int_bit_length m) - 1) * 2 powi f \<le> v" unfolding v_def by (rule mult_right_mono) simp
      moreover have "(2::real) powi 1024 \<le> 2 powi (int (int_bit_length m) - 1 + f)"
        using big by (intro power_int_increasing) simp_all
      ultimately show False using small by (simp add: power_int_add)
    qed
  qed
  then have "round_ratio n d s = B_fin (sgn n * m) f" using False by (simp add: round_ratio_def r)
  then show ?thesis using m enclosed by (auto simp: w_def abs_mult sgn_if)
qed

lemma int_round_half_even_scale:
  assumes "0 < c" "0 < b"
  shows "int_round_half_even (a * c) (b * c) = int_round_half_even a b"
proof -
  have "(a * c) div (b * c) = a div b" "(a * c) mod (b * c) = a mod b * c"
    using assms by (simp_all add: mod_mult_mult2)
  moreover have "(b * c < 2 * (a mod b * c)) = (b < 2 * (a mod b))" "(2 * (a mod b * c) = b * c) = (2 * (a mod b) = b)"
  proof -
    have "2 * (a mod b * c) = 2 * (a mod b) * c" by simp
    then show "(b * c < 2 * (a mod b * c)) = (b < 2 * (a mod b))" "(2 * (a mod b * c) = b * c) = (2 * (a mod b) = b)"
      using assms(1) by (simp_all only: mult_less_cancel_right mult_cancel_right) auto
  qed
  ultimately show ?thesis by (simp only: int_round_half_even_def Let_def)
qed

lemma int_round_half_even_cong:
  assumes "0 < b" "0 < b'" "a * b' = a' * b"
  shows "int_round_half_even a b = int_round_half_even a' b'"
proof -
  have "int_round_half_even a b = int_round_half_even (a * b') (b * b')"
    using assms(1,2) by (simp add: int_round_half_even_scale)
  also have "\<dots> = int_round_half_even (a' * b) (b' * b)" using assms(3) by (simp add: mult.commute)
  finally show ?thesis using assms(1,2) by (simp add: int_round_half_even_scale)
qed

lemma quotient_exponent_unique:
  assumes "0 < n" "0 < d" "2 powi q \<le> real_of_int n / real_of_int d" "real_of_int n / real_of_int d < 2 powi (q + 1)"
  shows "q = quotient_exponent n d"
proof -
  note b = quotient_exponent_bounds [OF assms(1,2)]
  have "2 powi q < (2::real) powi (quotient_exponent n d + 1)" "2 powi quotient_exponent n d < (2::real) powi (q + 1)"
    using b assms(3,4) by linarith+
  then have "q < quotient_exponent n d + 1" "quotient_exponent n d < q + 1"
    using power_int_increasing [of "quotient_exponent n d + 1" q "2::real"] power_int_increasing [of "q + 1" "quotient_exponent n d" "2::real"]
    by (metis not_le one_le_numeral)+
  then show ?thesis by simp
qed

text \<open>Rounding depends on the number only.\<close>

lemma round_positive_cong:
  assumes "0 < n" "0 < d" "0 < n'" "0 < d'"
    and eq: "real_of_int n / real_of_int d * 2 powi s = real_of_int n' / real_of_int d' * 2 powi s'"
  shows "round_positive n d s = round_positive n' d' s'"
proof -
  define q where "q = quotient_exponent n d"
  define q' where "q' = quotient_exponent n' d'"
  let ?x = "real_of_int n / real_of_int d" and ?y = "real_of_int n' / real_of_int d'"
  have y: "?y = ?x * 2 powi (s - s')" using eq by (simp add: power_int_diff field_simps)
  have "2 powi (q + s - s') \<le> ?y" "?y < 2 powi (q + s - s' + 1)"
  proof -
    have p: "0 < (2::real) powi (s - s')" by simp
    have "2 powi q * 2 powi (s - s') \<le> ?x * 2 powi (s - s')" "?x * 2 powi (s - s') < 2 powi (q + 1) * 2 powi (s - s')"
      using quotient_exponent_bounds [OF assms(1,2)] p unfolding q_def by (simp_all only: mult_le_cancel_right_pos mult_less_cancel_right_pos)
    moreover have "2 powi q * 2 powi (s - s') = (2::real) powi (q + s - s')" "2 powi (q + 1) * 2 powi (s - s') = (2::real) powi (q + s - s' + 1)"
      by (simp_all add: power_int_add power_int_diff)
    ultimately show "2 powi (q + s - s') \<le> ?y" "?y < 2 powi (q + s - s' + 1)" unfolding y by simp_all
  qed
  then have q': "q' = q + s - s'" using quotient_exponent_unique [OF assms(3,4)] by (simp add: q'_def)
  define e where "e = max (q - 52) (- 1074 - s)"
  define e' where "e' = max (q' - 52) (- 1074 - s')"
  have e': "e' = e + s - s'" by (simp add: e_def e'_def q' max_def)
  let ?a = "n * 2 ^ nat (- e)" and ?b = "d * 2 ^ nat e" and ?a' = "n' * 2 ^ nat (- e')" and ?b' = "d' * 2 ^ nat e'"
  have b: "0 < ?b" "0 < ?b'" using assms by simp_all
  have "real_of_int ?a' / real_of_int ?b' = ?y * 2 powi (- e')" by (rule scaled_ratio)
  also have "\<dots> = ?x * (2 powi (s - s') * 2 powi (- e'))" unfolding y by simp
  also have "2 powi (s - s') * 2 powi (- e') = (2::real) powi (s - s' + - e')" by (rule power_int_add [symmetric]) simp
  also have "s - s' + - e' = - e" by (simp add: e')
  also have "?x * 2 powi (- e) = real_of_int ?a / real_of_int ?b" by (rule scaled_ratio [symmetric])
  finally have "real_of_int ?a / real_of_int ?b = real_of_int ?a' / real_of_int ?b'" by (rule sym)
  moreover have "real_of_int ?b \<noteq> 0" "real_of_int ?b' \<noteq> 0" using b by (simp_all only: of_int_eq_0_iff)
  ultimately have "real_of_int ?a * real_of_int ?b' = real_of_int ?a' * real_of_int ?b"
    using frac_eq_eq by blast
  then have "?a * ?b' = ?a' * ?b" by (simp only: of_int_eq_iff flip: of_int_mult)
  then have "int_round_half_even ?a ?b = int_round_half_even ?a' ?b'" by (rule int_round_half_even_cong [OF b])
  moreover have "e + s = e' + s'" by (simp add: e')
  ultimately show ?thesis by (simp add: round_positive_def Let_def flip: q_def q'_def e_def e'_def)
qed

lemma round_ratio_cong:
  assumes "0 < d" "0 < d'"
    and eq: "real_of_int n / real_of_int d * 2 powi s = real_of_int n' / real_of_int d' * 2 powi s'"
  shows "round_ratio n d s = round_ratio n' d' s'"
proof (cases "n = 0 \<or> n' = 0")
  case True
  then have "n = 0" "n' = 0" using eq assms(1,2) by auto
  then show ?thesis by (simp add: round_ratio_def)
next
  case False
  have abs: "real_of_int \<bar>n\<bar> / real_of_int d * 2 powi s = real_of_int \<bar>n'\<bar> / real_of_int d' * 2 powi s'"
    using arg_cong [OF eq, of abs] assms(1,2) by (simp add: abs_mult)
  have neg: "(real_of_int n / real_of_int d * 2 powi s < 0) = (n < 0)" if "0 < d" for n d s
  proof -
    have p: "0 < 2 powi s / real_of_int d" using that by simp
    have "real_of_int n / real_of_int d * 2 powi s = real_of_int n * (2 powi s / real_of_int d)" by simp
    moreover have "(real_of_int n * (2 powi s / real_of_int d) < 0) = (real_of_int n < 0)"
      using mult_less_cancel_right_pos [OF p, of "real_of_int n" 0] by simp
    ultimately show ?thesis by simp
  qed
  have neg: "(n < 0) = (n' < 0)" using neg [OF assms(1), of n s] neg [OF assms(2), of n' s'] unfolding eq by simp
  with False have s: "sgn n = sgn n'" by (auto simp: sgn_if)
  then show ?thesis
    using round_positive_cong [OF _ assms(1) _ assms(2) abs] False unfolding round_ratio_def s neg by simp
qed

section \<open>Operations\<close>

fun b64_add :: "b64 \<Rightarrow> b64 \<Rightarrow> b64" where
  "b64_add (B_fin m e) (B_fin m' e') =
     (let k = min e e' in round_ratio (m * 2 ^ nat (e - k) + m' * 2 ^ nat (e' - k)) 1 k)"
| "b64_add B_nan b = B_nan"
| "b64_add a B_nan = B_nan"
| "b64_add (B_inf s) (B_inf s') = (if s = s' then B_inf s else B_nan)"
| "b64_add (B_inf s) (B_fin m e) = B_inf s"
| "b64_add (B_fin m e) (B_inf s) = B_inf s"

fun b64_neg :: "b64 \<Rightarrow> b64" where
  "b64_neg (B_fin m e) = B_fin (- m) e"
| "b64_neg (B_inf s) = B_inf (\<not> s)"
| "b64_neg B_nan = B_nan"

fun b64_mul :: "b64 \<Rightarrow> b64 \<Rightarrow> b64" where
  "b64_mul (B_fin m e) (B_fin m' e') = round_ratio (m * m') 1 (e + e')"
| "b64_mul B_nan b = B_nan"
| "b64_mul a B_nan = B_nan"
| "b64_mul (B_inf s) (B_inf s') = B_inf (s \<noteq> s')"
| "b64_mul (B_inf s) (B_fin m e) = (if m = 0 then B_nan else B_inf (s \<noteq> (m < 0)))"
| "b64_mul (B_fin m e) (B_inf s) = (if m = 0 then B_nan else B_inf (s \<noteq> (m < 0)))"

text \<open>Division by zero is an exception in Python and never reaches this function.\<close>

fun b64_div :: "b64 \<Rightarrow> b64 \<Rightarrow> b64" where
  "b64_div (B_fin m e) (B_fin m' e') = (if m' = 0 then B_nan else round_ratio (sgn m' * m) \<bar>m'\<bar> (e - e'))"
| "b64_div B_nan b = B_nan"
| "b64_div a B_nan = B_nan"
| "b64_div (B_inf s) (B_inf s') = B_nan"
| "b64_div (B_inf s) (B_fin m e) = B_inf (s \<noteq> (m < 0))"
| "b64_div (B_fin m e) (B_inf s) = B_fin 0 0"

fun b64_less :: "b64 \<Rightarrow> b64 \<Rightarrow> bool" where
  "b64_less (B_fin m e) (B_fin m' e') = (let k = min e e' in m * 2 ^ nat (e - k) < m' * 2 ^ nat (e' - k))"
| "b64_less B_nan b = False"
| "b64_less a B_nan = False"
| "b64_less (B_inf s) (B_inf s') = (s \<and> \<not> s')"
| "b64_less (B_inf s) (B_fin m e) = s"
| "b64_less (B_fin m e) (B_inf s) = (\<not> s)"

fun b64_eq :: "b64 \<Rightarrow> b64 \<Rightarrow> bool" where
  "b64_eq (B_fin m e) (B_fin m' e') = (let k = min e e' in m * 2 ^ nat (e - k) = m' * 2 ^ nat (e' - k))"
| "b64_eq (B_inf s) (B_inf s') = (s = s')"
| "b64_eq a b = False"

definition b64_conv :: "int \<Rightarrow> b64 res" where
  "b64_conv i = (case round_ratio i 1 0 of B_inf _ \<Rightarrow> Inl OverflowError | x \<Rightarrow> Inr x)"

fun b64_trunc :: "b64 \<Rightarrow> int res" where
  "b64_trunc (B_fin m e) = Inr (if 0 \<le> e then m * 2 ^ nat e else sgn m * (\<bar>m\<bar> div 2 ^ nat (- e)))"
| "b64_trunc (B_inf s) = Inl OverflowError"
| "b64_trunc B_nan = Inl ValueError"

definition b64_true_div :: "int \<Rightarrow> int \<Rightarrow> b64 res" where
  "b64_true_div i j =
     (if j = 0 then Inl ZeroDivisionError
      else case round_ratio (sgn j * i) \<bar>j\<bar> 0 of B_inf _ \<Rightarrow> Inl OverflowError | x \<Rightarrow> Inr x)"

section \<open>Operations on finite floats as real numbers\<close>

fun b64_val :: "b64 \<Rightarrow> real" where
  "b64_val (B_fin m e) = real_of_int m * 2 powi e"
| "b64_val _ = 0"

text \<open>A finite float in range: 53 bits and an exponent no smaller than that of the least subnormal number.\<close>

fun b64_finite :: "b64 \<Rightarrow> bool" where
  "b64_finite (B_fin m e) = (\<bar>m\<bar> \<le> 2 ^ 53 \<and> - 1074 \<le> e \<and> \<bar>real_of_int m * 2 powi e\<bar> < 2 ^ 1024)"
| "b64_finite _ = False"

lemma b64_form_val [simp]: "b64_finite a \<Longrightarrow> b64_form (b64_val a)"
  by (cases a) (auto simp: b64_form_def simp del: abs_mult)

lemma b64_form_of_int: "\<bar>i\<bar> \<le> 2 ^ 53 \<Longrightarrow> b64_form (real_of_int i)"
proof -
  assume i: "\<bar>i\<bar> \<le> 2 ^ 53"
  then have "\<bar>real_of_int i\<bar> \<le> real_of_int (2 ^ 53)" by (simp only: of_int_le_iff flip: of_int_abs)
  then have "\<bar>real_of_int i\<bar> < 2 ^ 1024" by simp
  moreover have "real_of_int i = real_of_int i * 2 powi 0" by simp
  ultimately show ?thesis unfolding b64_form_def using i by (metis neg_le_0_iff_le zero_le_numeral)
qed

lemma round_ratio_between:
  assumes "0 < d" "b64_form lo" "b64_form hi"
    "lo \<le> real_of_int n / real_of_int d * 2 powi s" "real_of_int n / real_of_int d * 2 powi s \<le> hi"
  shows "b64_finite (round_ratio n d s)" "lo \<le> b64_val (round_ratio n d s)" "b64_val (round_ratio n d s) \<le> hi"
proof -
  obtain m f where r: "round_ratio n d s = B_fin m f" "\<bar>m\<bar> \<le> 2 ^ 53" "- 1074 \<le> f"
      "lo \<le> real_of_int m * 2 powi f" "real_of_int m * 2 powi f \<le> hi"
    using round_ratio_enclosed [OF assms(1) refl assms(4,5,2,3)] by blast
  then show "lo \<le> b64_val (round_ratio n d s)" "b64_val (round_ratio n d s) \<le> hi" by simp_all
  have "\<bar>real_of_int m * 2 powi f\<bar> < 2 ^ 1024"
    using r(4,5) b64_form_range(2) [OF assms(2)] b64_form_range(1) [OF assms(3)] by (intro abs_less_iff [THEN iffD2] conjI) linarith+
  then show "b64_finite (round_ratio n d s)" using r(1-3) by (simp only: b64_finite.simps simp_thms)
qed

lemma round_ratio_exact:
  assumes "0 < d" "b64_form x" "real_of_int n / real_of_int d * 2 powi s = x"
  shows "b64_finite (round_ratio n d s)" "b64_val (round_ratio n d s) = x"
  using round_ratio_between [OF assms(1,2,2)] assms(3) by (simp_all only: order_refl eq_iff)

lemma scaled_int: "k \<le> e \<Longrightarrow> real_of_int (m * 2 ^ nat (e - k)) = real_of_int m * 2 powi e / 2 powi k"
proof -
  assume "k \<le> e"
  then obtain i where "e = k + int i" by (metis zle_iff_zadd)
  then show ?thesis by (simp add: power_int_add)
qed

lemma common_exponent:
  fixes m m' e e' :: int
  defines "k \<equiv> min e e'"
  shows "real_of_int (m * 2 ^ nat (e - k)) * 2 powi k = real_of_int m * 2 powi e"
    "real_of_int (m' * 2 ^ nat (e' - k)) * 2 powi k = real_of_int m' * 2 powi e'"
  by (simp_all only: scaled_int k_def min.cobounded1 min.cobounded2) simp_all

lemma b64_less_B_fin: "b64_less (B_fin m e) (B_fin m' e') = (real_of_int m * 2 powi e < real_of_int m' * 2 powi e')"
proof -
  let ?k = "min e e'"
  have "b64_less (B_fin m e) (B_fin m' e') = (real_of_int (m * 2 ^ nat (e - ?k)) < real_of_int (m' * 2 ^ nat (e' - ?k)))"
    by (simp only: b64_less.simps Let_def of_int_less_iff)
  also have "\<dots> = (real_of_int (m * 2 ^ nat (e - ?k)) * 2 powi ?k < real_of_int (m' * 2 ^ nat (e' - ?k)) * 2 powi ?k)"
    by (subst mult_less_cancel_right_pos) simp_all
  finally show ?thesis unfolding common_exponent .
qed

lemma b64_less_val: "b64_finite a \<Longrightarrow> b64_finite b \<Longrightarrow> b64_less a b = (b64_val a < b64_val b)"
  by (cases a; cases b) (simp_all only: b64_less_B_fin b64_val.simps b64_finite.simps)

lemma b64_eq_val: "b64_finite a \<Longrightarrow> b64_finite b \<Longrightarrow> b64_eq a b = (b64_val a = b64_val b)"
proof (cases a; cases b)
  fix m e m' e' assume [simp]: "a = B_fin m e" "b = B_fin m' e'"
  let ?k = "min e e'"
  have "b64_eq a b = (real_of_int (m * 2 ^ nat (e - ?k)) = real_of_int (m' * 2 ^ nat (e' - ?k)))"
    by (simp only: of_int_eq_iff) (simp add: Let_def)
  also have "\<dots> = (real_of_int (m * 2 ^ nat (e - ?k)) * 2 powi ?k = real_of_int (m' * 2 ^ nat (e' - ?k)) * 2 powi ?k)"
    by (subst mult_right_cancel) simp_all
  finally show ?thesis unfolding common_exponent by simp
qed simp_all

lemma b64_trunc_val: "b64_finite a \<Longrightarrow> 0 \<le> b64_val a \<Longrightarrow> b64_trunc a = Inr \<lfloor>b64_val a\<rfloor>"
proof (cases a)
  fix m e assume [simp]: "a = B_fin m e" and "0 \<le> b64_val a"
  then have "\<not> real_of_int m * 2 powi e < 0" by (simp only: b64_val.simps not_less)
  then have m: "0 \<le> m" by (rule contrapos_np) (intro mult_neg_pos, simp_all)
  show ?thesis
  proof (cases e rule: int_cases2)
    case (nonneg i)
    have "\<lfloor>real_of_int m * 2 ^ i\<rfloor> = \<lfloor>real_of_int (m * 2 ^ i)\<rfloor>" by simp
    also have "\<dots> = m * 2 ^ i" by (rule floor_of_int)
    finally show ?thesis using nonneg by simp
  next
    case (nonpos i)
    have "\<lfloor>real_of_int m / real_of_int (2 ^ i)\<rfloor> = m div 2 ^ i" by (rule floor_divide_of_int_eq)
    then show ?thesis using nonpos m by (auto simp: power_int_minus divide_inverse sgn_if abs_if)
  qed
qed simp_all

lemma b64_mul_between:
  assumes "b64_finite a" "b64_finite b" "b64_form lo" "b64_form hi"
    "lo \<le> b64_val a * b64_val b" "b64_val a * b64_val b \<le> hi"
  shows "b64_finite (b64_mul a b)" "lo \<le> b64_val (b64_mul a b)" "b64_val (b64_mul a b) \<le> hi"
proof -
  obtain m e m' e' where ab: "a = B_fin m e" "b = B_fin m' e'" using assms(1,2) by (cases a; cases b) simp_all
  have mul: "b64_mul a b = round_ratio (m * m') 1 (e + e')" by (simp add: ab)
  have eq: "b64_val a * b64_val b = real_of_int (m * m') / real_of_int 1 * 2 powi (e + e')"
    by (simp add: ab power_int_add)
  show "b64_finite (b64_mul a b)" "lo \<le> b64_val (b64_mul a b)" "b64_val (b64_mul a b) \<le> hi"
    unfolding mul by (rule round_ratio_between [OF zero_less_one assms(3-6) [unfolded eq]])+
qed

lemma b64_add_between:
  assumes "b64_finite a" "b64_finite b" "b64_form lo" "b64_form hi"
    "lo \<le> b64_val a + b64_val b" "b64_val a + b64_val b \<le> hi"
  shows "b64_finite (b64_add a b)" "lo \<le> b64_val (b64_add a b)" "b64_val (b64_add a b) \<le> hi"
proof -
  obtain m e m' e' where ab: "a = B_fin m e" "b = B_fin m' e'" using assms(1,2) by (cases a; cases b) simp_all
  let ?k = "min e e'"
  have add: "b64_add a b = round_ratio (m * 2 ^ nat (e - ?k) + m' * 2 ^ nat (e' - ?k)) 1 ?k" by (simp add: ab Let_def)
  have "real_of_int (m * 2 ^ nat (e - ?k) + m' * 2 ^ nat (e' - ?k)) / real_of_int 1 * 2 powi ?k =
      real_of_int (m * 2 ^ nat (e - ?k)) * 2 powi ?k + real_of_int (m' * 2 ^ nat (e' - ?k)) * 2 powi ?k"
    by (simp add: distrib_right)
  also have "\<dots> = b64_val a + b64_val b" unfolding common_exponent by (simp add: ab)
  finally have eq: "b64_val a + b64_val b =
      real_of_int (m * 2 ^ nat (e - ?k) + m' * 2 ^ nat (e' - ?k)) / real_of_int 1 * 2 powi ?k" ..
  show "b64_finite (b64_add a b)" "lo \<le> b64_val (b64_add a b)" "b64_val (b64_add a b) \<le> hi"
    unfolding add by (rule round_ratio_between [OF zero_less_one assms(3-6) [unfolded eq]])+
qed

lemma b64_div_between:
  assumes "b64_finite a" "b64_finite b" "b64_val b \<noteq> 0" "b64_form lo" "b64_form hi"
    "lo \<le> b64_val a / b64_val b" "b64_val a / b64_val b \<le> hi"
  shows "b64_finite (b64_div a b)" "lo \<le> b64_val (b64_div a b)" "b64_val (b64_div a b) \<le> hi"
proof -
  obtain m e m' e' where ab: "a = B_fin m e" "b = B_fin m' e'" using assms(1,2) by (cases a; cases b) simp_all
  have m': "m' \<noteq> 0" using assms(3) by (auto simp: ab)
  have div: "b64_div a b = round_ratio (sgn m' * m) \<bar>m'\<bar> (e - e')" using m' by (simp add: ab)
  have eq: "b64_val a / b64_val b = real_of_int (sgn m' * m) / real_of_int \<bar>m'\<bar> * 2 powi (e - e')"
    using m' by (auto simp: ab power_int_diff sgn_if abs_if)
  show "b64_finite (b64_div a b)" "lo \<le> b64_val (b64_div a b)" "b64_val (b64_div a b) \<le> hi"
    unfolding div by (rule round_ratio_between [OF _ assms(4-7) [unfolded eq]], use m' in simp)+
qed

lemma b64_neg_val [simp]: "b64_val (b64_neg a) = - b64_val a" "b64_finite (b64_neg a) = b64_finite a"
  by (cases a; simp)+

lemma b64_form_power: "0 \<le> i \<Longrightarrow> i < 1024 \<Longrightarrow> \<bar>k\<bar> \<le> 2 ^ 53 \<Longrightarrow> \<bar>real_of_int k * 2 powi i\<bar> < 2 ^ 1024 \<Longrightarrow> b64_form (real_of_int k * 2 powi i)"
  unfolding b64_form_def by (intro conjI exI [of _ k] exI [of _ i]) auto

text \<open>Integers of at most 53 bits convert without loss.\<close>

lemma b64_of_int:
  assumes "\<bar>i\<bar> \<le> 2 ^ 53"
  shows "b64_finite (round_ratio i 1 0)" "b64_val (round_ratio i 1 0) = real_of_int i" "b64_conv i = Inr (round_ratio i 1 0)"
proof -
  show f: "b64_finite (round_ratio i 1 0)" "b64_val (round_ratio i 1 0) = real_of_int i"
    using round_ratio_exact [of 1 "real_of_int i" i 0] b64_form_of_int [OF assms] by simp_all
  from f(1) show "b64_conv i = Inr (round_ratio i 1 0)" by (cases "round_ratio i 1 0") (simp_all add: b64_conv_def)
qed

end
