(* ===== verification/FloatText.thy ===== *)
theory FloatText
  imports Binary64
begin

text \<open>
  The texts of floats: \<open>float(s)\<close> of a decimal, which Python rounds correctly, and \<open>repr(x)\<close>, the
  shortest digits that read as \<open>x\<close> in CPython's layout. Reading what was written gives the float back.
  At the end stands the record of Python's float operations; \<open>exp\<close>, \<open>sqrt\<close>, \<open>sum\<close> and \<open>str\<close> of lists and
  dictionaries, which IEEE arithmetic does not fix, are its parameters.
\<close>

section \<open>Decimal digits\<close>

function int_decimal :: "int \<Rightarrow> string" where
  "int_decimal i = (if i < 10 then [char_of (48 + i)] else int_decimal (i div 10) @ [char_of (48 + i mod 10)])"
  by pat_completeness auto
termination by (relation "measure nat") simp_all

declare int_decimal.simps [simp del]

definition int_text :: "int \<Rightarrow> string" where
  "int_text i = (if i < 0 then CHR ''-'' # int_decimal (- i) else int_decimal i)"

definition is_digit :: "char \<Rightarrow> bool" where
  "is_digit c = (digit_of c \<noteq> None)"

fun digits_value :: "int \<Rightarrow> string \<Rightarrow> int" where
  "digits_value acc [] = acc"
| "digits_value acc (c # cs) = digits_value (10 * acc + (case digit_of c of None \<Rightarrow> 0 | Some d \<Rightarrow> d)) cs"

section \<open>Reading a float\<close>

text \<open>The float nearest to \<open>n * 10 ^ p\<close>.\<close>

definition decimal_float :: "int \<Rightarrow> int \<Rightarrow> b64" where
  "decimal_float n p = round_ratio (n * 10 ^ nat p) (10 ^ nat (- p)) 0"

text \<open>The exponent after \<open>e\<close>: an optional sign and digits.\<close>

definition exponent_value :: "string \<Rightarrow> int option" where
  "exponent_value t =
     (let neg = (t \<noteq> [] \<and> hd t = CHR ''-''); u = (if t \<noteq> [] \<and> (hd t = CHR ''-'' \<or> hd t = CHR ''+'') then tl t else t) in
      if u = [] \<or> \<not> list_all is_digit u then None
      else Some (if neg then - digits_value 0 u else digits_value 0 u))"

text \<open>Digits with an optional point and exponent, as significand and power of ten.\<close>

definition decimal_parts :: "string \<Rightarrow> (int \<times> int) option" where
  "decimal_parts s =
     (let ip = takeWhile is_digit s; s1 = dropWhile is_digit s;
          point = (s1 \<noteq> [] \<and> hd s1 = CHR ''.'');
          fp = (if point then takeWhile is_digit (tl s1) else []);
          s2 = (if point then dropWhile is_digit (tl s1) else s1);
          n = digits_value 0 (ip @ fp); p = - int (length fp) in
      if ip = [] \<and> fp = [] then None
      else if s2 = [] then Some (n, p)
      else if hd s2 = CHR ''e'' \<or> hd s2 = CHR ''E'' then map_option (\<lambda>x. (n, p + x)) (exponent_value (tl s2))
      else None)"

definition lower_case :: "char \<Rightarrow> char" where
  "lower_case c = (let n = (of_char c :: int) in if 65 \<le> n \<and> n \<le> 90 then char_of (n + 32) else c)"

text \<open>Underscores stand between digits only.\<close>

fun underscores_ok :: "bool \<Rightarrow> string \<Rightarrow> bool" where
  "underscores_ok prev [] = True"
| "underscores_ok prev (c # cs) =
     (if c = CHR ''_'' then prev \<and> cs \<noteq> [] \<and> is_digit (hd cs) \<and> underscores_ok False cs else underscores_ok (is_digit c) cs)"

text \<open>\<open>float(s)\<close>\<close>

definition b64_parse :: "string \<Rightarrow> b64 res" where
  "b64_parse s =
     (let t = strip s; neg = (t \<noteq> [] \<and> hd t = CHR ''-'');
          body = (if t \<noteq> [] \<and> (hd t = CHR ''-'' \<or> hd t = CHR ''+'') then tl t else t);
          word = map lower_case body in
      if word = ''inf'' \<or> word = ''infinity'' then Inr (B_inf neg)
      else if word = ''nan'' then Inr B_nan
      else if \<not> underscores_ok False body then Inl ValueError
      else case decimal_parts (filter (\<lambda>c. c \<noteq> CHR ''_'') body) of None \<Rightarrow> Inl ValueError
        | Some (n, p) \<Rightarrow> Inr (decimal_float (if neg then - n else n) p))"

section \<open>Writing a float\<close>

text \<open>\<open>m * 2 ^ e\<close> exactly, as significand and power of ten.\<close>

definition exact_decimal :: "int \<Rightarrow> int \<Rightarrow> int \<times> int" where
  "exact_decimal m e = (if e < 0 then (m * 5 ^ nat (- e), e) else (m * 2 ^ nat e, 0))"

text \<open>The decimal of \<open>k\<close> digits that reads as the float, the nearer one if two do.\<close>

definition decimal_of_length :: "b64 \<Rightarrow> int \<Rightarrow> int \<Rightarrow> nat \<Rightarrow> nat \<Rightarrow> (int \<times> int) option" where
  "decimal_of_length x n p len k =
     (let unit = 10 ^ (len - k); low = n div unit; rest = n mod unit; q = p + int (len - k);
          low_ok = (decimal_float low q = x); high_ok = (decimal_float (low + 1) q = x) in
      if low_ok \<and> (\<not> high_ok \<or> 2 * rest < unit \<or> 2 * rest = unit \<and> low mod 2 = 0) then Some (low, q)
      else if high_ok then Some (low + 1, q) else None)"

fun first_some :: "('a \<Rightarrow> 'b option) \<Rightarrow> 'a list \<Rightarrow> 'b option" where
  "first_some f [] = None"
| "first_some f (x # xs) = (case f x of None \<Rightarrow> first_some f xs | Some y \<Rightarrow> Some y)"

text \<open>The shortest digits that read as the positive float, and the position of the point before them.\<close>

definition shortest :: "int \<Rightarrow> int \<Rightarrow> (int \<times> int) option" where
  "shortest m e =
     (case exact_decimal m e of (n, p) \<Rightarrow>
        let len = length (int_decimal n) in
        first_some (decimal_of_length (round_ratio m 1 e) n p len) [1..<len + 1])"

definition strip_zeros :: "string \<Rightarrow> string" where
  "strip_zeros ds = rev (dropWhile (\<lambda>c. c = CHR ''0'') (rev ds))"

text \<open>The digits with the point after \<open>pt\<close> of them: fixed from 0.0001 up to 16 digits, otherwise with an exponent.\<close>

definition float_layout :: "string \<Rightarrow> int \<Rightarrow> string" where
  "float_layout ds pt =
     (if - 4 < pt \<and> pt \<le> 16 then
        if pt \<le> 0 then ''0.'' @ replicate (nat (- pt)) (CHR ''0'') @ ds
        else if int (length ds) \<le> pt then ds @ replicate (nat pt - length ds) (CHR ''0'') @ ''.0''
        else take (nat pt) ds @ ''.'' @ drop (nat pt) ds
      else
        let x = int_decimal \<bar>pt - 1\<bar> in
        hd ds # (if tl ds = [] then [] else CHR ''.'' # tl ds) @ ''e'' @ (if pt - 1 < 0 then ''-'' else ''+'') @
          (if length x < 2 then CHR ''0'' # x else x))"

text \<open>\<open>repr(x)\<close>; the sign of a zero is not kept.\<close>

fun b64_repr :: "b64 \<Rightarrow> string" where
  "b64_repr (B_fin m e) =
     (if m = 0 then ''0.0''
      else case shortest \<bar>m\<bar> e of None \<Rightarrow> []
        | Some (n, p) \<Rightarrow>
            (let all = int_decimal n; ds = strip_zeros all; pt = p + int (length all) in
             (if m < 0 then ''-'' else '''') @ float_layout ds pt))"
| "b64_repr (B_inf neg) = (if neg then ''-inf'' else ''inf'')"
| "b64_repr B_nan = ''nan''"

section \<open>Digits read back\<close>

lemma is_digit_char: "0 \<le> i \<Longrightarrow> i < 10 \<Longrightarrow> digit_of (char_of (48 + i :: int)) = Some i"
proof -
  assume i: "0 \<le> i" "i < 10"
  have "(of_char (char_of (48 + i) :: char) :: int) = 48 + i" using i by (subst of_char_of) simp
  then show ?thesis using i by (simp only: digit_of_def Let_def) simp
qed

lemma int_decimal_digits: "0 \<le> i \<Longrightarrow> list_all is_digit (int_decimal i)"
proof (induction i rule: int_decimal.induct)
  case (1 i)
  then show ?case
    by (cases "i < 10") (simp_all add: int_decimal.simps [of i] is_digit_def is_digit_char)
qed

lemma int_decimal_ne [simp]: "int_decimal i \<noteq> []"
  by (subst int_decimal.simps) simp

lemma digits_value_append: "digits_value a (xs @ ys) = digits_value (digits_value a xs) ys"
  by (induction xs arbitrary: a) simp_all

lemma digits_value_start: "digits_value a xs = a * 10 ^ length xs + digits_value 0 xs"
proof (induction xs arbitrary: a)
  case (Cons c cs)
  let ?d = "case digit_of c of None \<Rightarrow> 0 | Some d \<Rightarrow> d"
  have "digits_value a (c # cs) = (10 * a + ?d) * 10 ^ length cs + digits_value 0 cs" using Cons [of "10 * a + ?d"] by simp
  moreover have "digits_value 0 (c # cs) = ?d * 10 ^ length cs + digits_value 0 cs" using Cons [of ?d] by simp
  ultimately show ?case by (simp add: algebra_simps)
qed simp

lemma digits_value_decimal: "0 \<le> i \<Longrightarrow> digits_value 0 (int_decimal i) = i"
proof (induction i rule: int_decimal.induct)
  case (1 i)
  then show ?case
    by (cases "i < 10") (simp_all add: int_decimal.simps [of i] digits_value_append is_digit_char)
qed

lemma digits_value_zeros: "digits_value a (replicate k (CHR ''0'')) = a * 10 ^ k"
  by (induction k arbitrary: a) (simp_all add: digit_of_def)

lemma hd_decimal: "0 < i \<Longrightarrow> hd (int_decimal i) \<noteq> CHR ''0''"
proof (induction i rule: int_decimal.induct)
  case (1 i)
  show ?case
  proof (cases "i < 10")
    case True
    have "digit_of (char_of (48 + i)) \<noteq> digit_of (CHR ''0'')"
      using 1 True by (subst is_digit_char) (simp_all add: digit_of_def)
    then show ?thesis using True by (subst int_decimal.simps) auto
  next
    case False
    then show ?thesis using 1 by (subst int_decimal.simps) simp
  qed
qed

lemma length_decimal: "0 \<le> i \<Longrightarrow> i < 10 ^ length (int_decimal i)"
proof (induction i rule: int_decimal.induct)
  case (1 i)
  show ?case
  proof (cases "i < 10")
    case True
    then show ?thesis by (subst int_decimal.simps) simp
  next
    case False
    then have "i div 10 < 10 ^ length (int_decimal (i div 10))" using 1 by simp
    then have "i < 10 * 10 ^ length (int_decimal (i div 10))" by linarith
    then show ?thesis using False by (subst int_decimal.simps) simp
  qed
qed

lemma strip_zeros_value: "\<exists>k. ds = strip_zeros ds @ replicate k (CHR ''0'')"
proof -
  have "rev ds = takeWhile (\<lambda>c. c = CHR ''0'') (rev ds) @ dropWhile (\<lambda>c. c = CHR ''0'') (rev ds)" by simp
  then have "ds = rev (dropWhile (\<lambda>c. c = CHR ''0'') (rev ds)) @ rev (takeWhile (\<lambda>c. c = CHR ''0'') (rev ds))"
    by (metis rev_append rev_rev_ident)
  moreover have "takeWhile (\<lambda>c. c = CHR ''0'') (rev ds) = replicate (length (takeWhile (\<lambda>c. c = CHR ''0'') (rev ds))) (CHR ''0'')"
    by (rule replicate_length_same [symmetric]) (auto dest: set_takeWhileD)
  ultimately show ?thesis unfolding strip_zeros_def by (metis rev_replicate)
qed

section \<open>The syntax of a float\<close>

text \<open>Integer digits, digits after a point, and an exponent with its sign.\<close>

definition exponent_text :: "(bool \<times> string) option \<Rightarrow> string" where
  "exponent_text ex = (case ex of None \<Rightarrow> [] | Some (neg, ds) \<Rightarrow> CHR ''e'' # (if neg then CHR ''-'' else CHR ''+'') # ds)"

definition float_syntax :: "string \<Rightarrow> string \<Rightarrow> (bool \<times> string) option \<Rightarrow> string" where
  "float_syntax ip fp ex = ip @ (if fp = [] then [] else CHR ''.'' # fp) @ exponent_text ex"

definition exponent_of :: "(bool \<times> string) option \<Rightarrow> int" where
  "exponent_of ex = (case ex of None \<Rightarrow> 0 | Some (neg, ds) \<Rightarrow> if neg then - digits_value 0 ds else digits_value 0 ds)"

text \<open>What JSON accepts as a float: no leading zeros, and a fraction or an exponent.\<close>

definition float_shape :: "string \<Rightarrow> string \<Rightarrow> (bool \<times> string) option \<Rightarrow> bool" where
  "float_shape ip fp ex \<longleftrightarrow> list_all is_digit ip \<and> ip \<noteq> [] \<and> (hd ip \<noteq> CHR ''0'' \<or> ip = ''0'') \<and> list_all is_digit fp \<and>
     (fp \<noteq> [] \<or> ex \<noteq> None) \<and> (case ex of None \<Rightarrow> True | Some (_, ds) \<Rightarrow> ds \<noteq> [] \<and> list_all is_digit ds)"

lemma not_digits [simp]: "\<not> is_digit (CHR ''.'')" "\<not> is_digit (CHR ''e'')" "\<not> is_digit (CHR ''E'')" "\<not> is_digit (CHR ''-'')"
    "\<not> is_digit (CHR ''+'')" "\<not> is_digit (CHR ''_'')" "is_digit (CHR ''0'')"
  by (simp_all add: is_digit_def digit_of_def)

lemma take_digits: "list_all is_digit ds \<Longrightarrow> rest = [] \<or> \<not> is_digit (hd rest) \<Longrightarrow>
    takeWhile is_digit (ds @ rest) = ds \<and> dropWhile is_digit (ds @ rest) = rest"
  by (induction ds) (cases rest; simp)+

lemma exponent_value_text:
  "ex = Some (neg, ds) \<Longrightarrow> ds \<noteq> [] \<Longrightarrow> list_all is_digit ds \<Longrightarrow> exponent_value (tl (exponent_text ex)) = Some (exponent_of ex)"
  by (auto simp: exponent_value_def exponent_text_def exponent_of_def Let_def)

lemma decimal_parts_syntax:
  assumes "float_shape ip fp ex"
  shows "decimal_parts (float_syntax ip fp ex) = Some (digits_value 0 (ip @ fp), - int (length fp) + exponent_of ex)"
proof -
  let ?e = "exponent_text ex"
  have e: "?e = [] \<or> hd ?e = CHR ''e''" by (auto simp: exponent_text_def split: option.splits)
  have val: "?e = [] \<longrightarrow> exponent_of ex = 0" "?e \<noteq> [] \<longrightarrow> exponent_value (tl ?e) = Some (exponent_of ex)"
    using assms exponent_value_text [of ex]
    by (auto simp: exponent_of_def exponent_text_def float_shape_def split: option.splits)
  have d: "list_all is_digit ip" "list_all is_digit fp" "ip \<noteq> []" using assms by (simp_all add: float_shape_def)
  have fp: "takeWhile is_digit (fp @ ?e) = fp" "dropWhile is_digit (fp @ ?e) = ?e"
    using take_digits [OF d(2), of ?e] e by auto
  show ?thesis
  proof (cases "fp = []")
    case True
    have ip: "takeWhile is_digit (ip @ ?e) = ip" "dropWhile is_digit (ip @ ?e) = ?e"
      using take_digits [OF d(1), of ?e] e by auto
    show ?thesis using d(3) val e by (auto simp: decimal_parts_def float_syntax_def Let_def ip True)
  next
    case False
    have ip: "takeWhile is_digit (ip @ CHR ''.'' # fp @ ?e) = ip" "dropWhile is_digit (ip @ CHR ''.'' # fp @ ?e) = CHR ''.'' # fp @ ?e"
      using take_digits [OF d(1), of "CHR ''.'' # fp @ ?e"] by auto
    show ?thesis
    proof (cases "?e = []")
      case True
      have tf: "takeWhile is_digit fp = fp" "dropWhile is_digit fp = []" using d(2) by (simp_all add: list_all_iff)
      show ?thesis using d(3) val False ip unfolding True by (simp add: decimal_parts_def float_syntax_def Let_def True tf)
    next
      case nonempty: False
      then show ?thesis using d(3) val e False by (simp add: decimal_parts_def float_syntax_def Let_def ip fp)
    qed
  qed
qed

section \<open>The layout of a float\<close>

text \<open>The number that the digits \<open>ds\<close> with the point after \<open>pt\<close> of them stand for.\<close>

lemma float_layout_fixed:
  assumes ds: "list_all is_digit ds" "ds \<noteq> []" "hd ds \<noteq> CHR ''0''" and pt: "- 4 < pt" "pt \<le> 16"
  shows "\<exists>ip fp. float_layout ds pt = float_syntax ip fp None \<and> float_shape ip fp None \<and>
    real_of_int (digits_value 0 (ip @ fp)) * 10 powi (- int (length fp)) = real_of_int (digits_value 0 ds) * 10 powi (pt - int (length ds))"
proof -
  consider "pt \<le> 0" | "0 < pt" "int (length ds) \<le> pt" | "0 < pt" "pt < int (length ds)" by linarith
  then show ?thesis
  proof cases
    case 1
    let ?fp = "replicate (nat (- pt)) (CHR ''0'') @ ds"
    have lay: "float_layout ds pt = float_syntax ''0'' ?fp None"
      using 1 pt ds by (simp add: float_layout_def float_syntax_def exponent_text_def)
    have shape: "float_shape ''0'' ?fp None" using ds by (auto simp: float_shape_def list_all_iff)
    have val: "digits_value 0 (''0'' @ ?fp) = digits_value 0 ds"
      by (simp add: digits_value_append digits_value_zeros digit_of_def)
    have len: "- int (length ?fp) = pt - int (length ds)" using 1 by simp
    from lay shape show ?thesis using val len by (metis (mono_tags))
  next
    case 2
    let ?n = "nat pt - length ds"
    let ?ip = "ds @ replicate ?n (CHR ''0'')"
    have lay: "float_layout ds pt = float_syntax ?ip ''0'' None"
      using 2 pt ds by (simp add: float_layout_def float_syntax_def exponent_text_def)
    have shape: "float_shape ?ip ''0'' None" using ds by (auto simp: float_shape_def list_all_iff)
    have val: "digits_value 0 (?ip @ ''0'') = digits_value 0 ds * 10 ^ ?n * 10"
      by (simp add: digits_value_append digits_value_zeros digit_of_def)
    have len: "pt - int (length ds) = int ?n" using 2 by simp
    have "real_of_int (digits_value 0 ds * 10 ^ ?n * 10) * 10 powi (- int (length ''0'')) =
        real_of_int (digits_value 0 ds) * 10 ^ ?n"
      by (simp add: power_int_minus)
    then show ?thesis using lay shape val len by (metis power_int_of_nat)
  next
    case 3
    let ?ip = "take (nat pt) ds" and ?fp = "drop (nat pt) ds"
    have lay: "float_layout ds pt = float_syntax ?ip ?fp None"
      using 3 pt ds by (simp add: float_layout_def float_syntax_def exponent_text_def)
    have shape: "float_shape ?ip ?fp None"
      using 3 ds by (auto simp: float_shape_def list_all_iff dest: in_set_takeD in_set_dropD)
    have len: "- int (length ?fp) = pt - int (length ds)" using 3 by simp
    have val: "digits_value 0 (?ip @ ?fp) = digits_value 0 ds" by (simp only: append_take_drop_id)
    from lay shape show ?thesis using val len by (metis (mono_tags))
  qed
qed

lemma float_layout_scientific:
  assumes ds: "list_all is_digit ds" "ds \<noteq> []" "hd ds \<noteq> CHR ''0''" and pt: "\<not> (- 4 < pt \<and> pt \<le> 16)"
  shows "\<exists>ip fp ex. float_layout ds pt = float_syntax ip fp ex \<and> float_shape ip fp ex \<and>
    digits_value 0 (ip @ fp) = digits_value 0 ds \<and> - int (length fp) + exponent_of ex = pt - int (length ds)"
proof -
  obtain c fp where c: "ds = c # fp" using ds(2) by (cases ds) auto
  define x where "x = int_decimal \<bar>pt - 1\<bar>"
  define y where "y = (if length x < 2 then CHR ''0'' # x else x)"
  let ?ex = "Some (pt - 1 < 0, y)"
  have x: "list_all is_digit x" "digits_value 0 x = \<bar>pt - 1\<bar>" "x \<noteq> []"
    unfolding x_def by (rule int_decimal_digits digits_value_decimal; simp)+ simp
  have zero: "digits_value 0 (CHR ''0'' # x) = digits_value 0 x" by (simp add: digit_of_def)
  have y: "list_all is_digit y" "digits_value 0 y = \<bar>pt - 1\<bar>" "y \<noteq> []"
    using x zero by (simp_all add: y_def del: digits_value.simps)
  have "float_layout ds pt = float_syntax [c] fp ?ex"
    using pt by (auto simp: float_layout_def float_syntax_def exponent_text_def c Let_def simp flip: x_def y_def)
  moreover have "float_shape [c] fp ?ex" using ds y by (simp add: float_shape_def c)
  moreover have "- int (length fp) + exponent_of ?ex = pt - int (length ds)" by (simp add: exponent_of_def y c)
  ultimately show ?thesis using c by (metis append_Cons append_Nil)
qed

lemma float_layout_shape:
  assumes "list_all is_digit ds" "ds \<noteq> []" "hd ds \<noteq> CHR ''0''"
  shows "\<exists>ip fp ex. float_layout ds pt = float_syntax ip fp ex \<and> float_shape ip fp ex \<and>
    real_of_int (digits_value 0 (ip @ fp)) * 10 powi (- int (length fp) + exponent_of ex) =
      real_of_int (digits_value 0 ds) * 10 powi (pt - int (length ds))"
proof (cases "- 4 < pt \<and> pt \<le> 16")
  case True
  then obtain ip fp where "float_layout ds pt = float_syntax ip fp None" "float_shape ip fp None"
      "real_of_int (digits_value 0 (ip @ fp)) * 10 powi (- int (length fp)) = real_of_int (digits_value 0 ds) * 10 powi (pt - int (length ds))"
    using float_layout_fixed [OF assms, of pt] by blast
  moreover have "exponent_of None = 0" by (simp add: exponent_of_def)
  ultimately show ?thesis by (metis add.right_neutral)
next
  case False
  then show ?thesis using float_layout_scientific [OF assms] by metis
qed

section \<open>Shortest digits\<close>

lemma decimal_float_real:
  "real_of_int (n * 10 ^ nat p) / real_of_int (10 ^ nat (- p)) * 2 powi 0 = real_of_int n * 10 powi p"
  by (cases p rule: int_cases2) (simp_all add: power_int_minus divide_inverse)

lemma decimal_float_cong:
  "real_of_int n * 10 powi p = real_of_int n' * 10 powi p' \<Longrightarrow> decimal_float n p = decimal_float n' p'"
  unfolding decimal_float_def by (rule round_ratio_cong) (simp_all only: decimal_float_real, simp_all)

lemma decimal_float_binary:
  assumes "real_of_int n * 10 powi p = real_of_int m * 2 powi e"
  shows "decimal_float n p = round_ratio m 1 e"
proof -
  have "real_of_int (n * 10 ^ nat p) / real_of_int (10 ^ nat (- p)) * 2 powi 0 = real_of_int m / real_of_int 1 * 2 powi e"
    unfolding decimal_float_real assms by simp
  then show ?thesis unfolding decimal_float_def by (rule round_ratio_cong [rotated 2]) simp_all
qed

lemma decimal_float_uminus: "decimal_float n p = round_ratio m 1 e \<Longrightarrow> 0 < n \<Longrightarrow> 0 < m \<Longrightarrow>
    decimal_float (- n) p = round_ratio (- m) 1 e"
  by (auto simp: decimal_float_def round_ratio_def split: prod.splits if_splits)

lemma exact_decimal_value:
  "exact_decimal m e = (n, p) \<Longrightarrow> real_of_int n * 10 powi p = real_of_int m * 2 powi e"
proof (cases "e < 0")
  case True
  assume "exact_decimal m e = (n, p)"
  with True have n: "n = m * 5 ^ nat (- e)" "p = e" by (auto simp: exact_decimal_def)
  obtain k where e: "e = - int k" using True by (metis int_cases2 nat_neq_iff not_less of_nat_0_le_iff)
  have "(10::real) ^ k = 2 ^ k * 5 ^ k" by (simp flip: power_mult_distrib)
  then show ?thesis by (simp add: n e power_int_minus)
next
  case False
  assume "exact_decimal m e = (n, p)"
  with False show ?thesis by (cases e rule: int_cases2) (auto simp: exact_decimal_def)
qed

lemma length_decimal_low: "0 < i \<Longrightarrow> 10 ^ (length (int_decimal i) - 1) \<le> i"
proof (induction i rule: int_decimal.induct)
  case (1 i)
  show ?case
  proof (cases "i < 10")
    case True
    then show ?thesis using 1(2) by (subst int_decimal.simps) simp
  next
    case False
    then have "10 ^ (length (int_decimal (i div 10)) - 1) \<le> i div 10" using 1 by simp
    then have "10 * 10 ^ (length (int_decimal (i div 10)) - 1) \<le> i" by linarith
    moreover have "0 < length (int_decimal (i div 10))" by simp
    ultimately have "10 ^ length (int_decimal (i div 10)) \<le> i" by (simp flip: power_Suc)
    then show ?thesis using False by (subst int_decimal.simps) simp
  qed
qed

lemma first_some_last: "f x \<noteq> None \<Longrightarrow> \<exists>y. first_some f (xs @ [x]) = Some y \<and> (\<exists>z\<in>set (xs @ [x]). f z = Some y)"
  by (induction xs) (auto split: option.splits)

lemma decimal_of_length_Some:
  assumes "decimal_of_length x n p len k = Some (c, q)" and n: "10 ^ (len - 1) \<le> n" and k: "1 \<le> k" "k \<le> len"
  shows "decimal_float c q = x" "0 < c"
proof -
  have "(10::int) ^ (len - k) \<le> 10 ^ (len - 1)" using k by (intro power_increasing) simp_all
  then have "10 ^ (len - k) \<le> n" using n by (rule order_trans)
  then have "0 < n div 10 ^ (len - k)" by (simp add: pos_imp_zdiv_pos_iff)
  then show "decimal_float c q = x" "0 < c"
    using assms(1) by (auto simp: decimal_of_length_def Let_def split: if_splits)
qed

lemma shortest_Some:
  assumes m: "0 < m"
  shows "\<exists>c q. shortest m e = Some (c, q) \<and> decimal_float c q = round_ratio m 1 e \<and> 0 < c"
proof -
  obtain n p where np: "exact_decimal m e = (n, p)" by (cases "exact_decimal m e")
  have n: "0 < n" using np m by (auto simp: exact_decimal_def split: if_splits)
  define len where "len = length (int_decimal n)"
  have len: "1 \<le> len" by (simp add: len_def Suc_le_eq)
  have low: "10 ^ (len - 1) \<le> n" using length_decimal_low [OF n] by (simp add: len_def)
  let ?f = "decimal_of_length (round_ratio m 1 e) n p len"
  have "decimal_float n p = round_ratio m 1 e" using exact_decimal_value [OF np] by (rule decimal_float_binary)
  then have "?f len = Some (n, p)" by (simp add: decimal_of_length_def)
  moreover have "[1..<len + 1] = [1..<len] @ [len]" using len by simp
  ultimately obtain y z where y: "first_some ?f [1..<len + 1] = Some y" "z \<in> set [1..<len + 1]" "?f z = Some y"
    using first_some_last [of ?f len "[1..<len]"] by (metis option.distinct(1))
  then have "1 \<le> z" "z \<le> len" by auto
  moreover obtain c q where "y = (c, q)" by (cases y)
  ultimately show ?thesis
    using y decimal_of_length_Some [of _ n p len z c q] low by (auto simp: shortest_def np Let_def simp flip: len_def)
qed

section \<open>Reading a float that was written\<close>

text \<open>The text of a float that is not zero: a sign and a float of JSON's syntax with the same value.\<close>

lemma b64_repr_shape:
  assumes "m \<noteq> 0"
  shows "\<exists>ip fp ex. b64_repr (B_fin m e) = (if m < 0 then ''-'' else []) @ float_syntax ip fp ex \<and> float_shape ip fp ex \<and>
    decimal_float ((if m < 0 then - 1 else 1) * digits_value 0 (ip @ fp)) (- int (length fp) + exponent_of ex) = round_ratio m 1 e"
proof -
  obtain c q where c: "shortest \<bar>m\<bar> e = Some (c, q)" "decimal_float c q = round_ratio \<bar>m\<bar> 1 e" "0 < c"
    using shortest_Some [of "\<bar>m\<bar>" e] assms by auto
  define all_digits where "all_digits = int_decimal c"
  define ds where "ds = strip_zeros all_digits"
  define pt where "pt = q + int (length all_digits)"
  obtain k where k: "all_digits = ds @ replicate k (CHR ''0'')" using strip_zeros_value unfolding ds_def by blast
  have all: "list_all is_digit all_digits" "hd all_digits \<noteq> CHR ''0''" "all_digits \<noteq> []" "digits_value 0 all_digits = c"
    using c(3) by (simp_all add: all_digits_def int_decimal_digits hd_decimal digits_value_decimal)
  have ne: "ds \<noteq> []"
  proof
    assume "ds = []"
    then show False using all(2,3) k by (cases k) auto
  qed
  have ds: "list_all is_digit ds" "hd ds \<noteq> CHR ''0''" using all ne by (simp_all add: k)
  have val: "c = digits_value 0 ds * 10 ^ k"
    using all(4) unfolding k by (simp add: digits_value_append digits_value_zeros)
  obtain ip fp ex where lay: "float_layout ds pt = float_syntax ip fp ex" "float_shape ip fp ex"
      "real_of_int (digits_value 0 (ip @ fp)) * 10 powi (- int (length fp) + exponent_of ex) =
        real_of_int (digits_value 0 ds) * 10 powi (pt - int (length ds))"
    using float_layout_shape [OF ds(1) ne ds(2), of pt] by blast
  have "real_of_int (digits_value 0 ds) * 10 powi (pt - int (length ds)) = real_of_int c * 10 powi q"
  proof -
    have "pt - int (length ds) = int k + q" by (simp add: pt_def k)
    then show ?thesis by (simp add: val power_int_add)
  qed
  then have d: "decimal_float (digits_value 0 (ip @ fp)) (- int (length fp) + exponent_of ex) = round_ratio \<bar>m\<bar> 1 e"
    using decimal_float_cong [OF lay(3) [THEN trans]] c(2) by metis
  have "0 < digits_value 0 ds" using val c(3) by (simp add: zero_less_mult_iff)
  then have "0 < real_of_int (digits_value 0 ds) * 10 powi (pt - int (length ds))" by simp
  then have "0 < real_of_int (digits_value 0 (ip @ fp)) * 10 powi (- int (length fp) + exponent_of ex)" by (simp only: lay(3))
  then have pos: "0 < digits_value 0 (ip @ fp)" by (rule contrapos_pp) (simp add: not_less mult_nonpos_nonneg)
  show ?thesis
  proof (intro exI conjI)
    show "b64_repr (B_fin m e) = (if m < 0 then ''-'' else []) @ float_syntax ip fp ex"
      using assms c(1) lay(1) by (simp add: Let_def flip: all_digits_def ds_def pt_def)
    show "float_shape ip fp ex" by (rule lay(2))
    show "decimal_float ((if m < 0 then - 1 else 1) * digits_value 0 (ip @ fp)) (- int (length fp) + exponent_of ex) = round_ratio m 1 e"
      using d decimal_float_uminus [OF d pos] assms by auto
  qed
qed

text \<open>The characters of a float's text; none of them is removed before it is read.\<close>

definition float_char :: "char \<Rightarrow> bool" where
  "float_char c \<longleftrightarrow> is_digit c \<or> c \<in> {CHR ''.'', CHR ''e'', CHR ''-'', CHR ''+''}"

lemma is_digit_iff: "is_digit c \<longleftrightarrow> 48 \<le> (of_char c :: int) \<and> (of_char c :: int) \<le> 57"
  by (simp add: is_digit_def digit_of_def Let_def)

lemma float_char_plain: "float_char c \<Longrightarrow> \<not> is_space c \<and> c \<noteq> CHR ''_''"
  by (auto simp: float_char_def is_digit_iff is_space_def Let_def)

lemma float_syntax_chars: "float_shape ip fp ex \<Longrightarrow> list_all float_char (float_syntax ip fp ex)"
  by (auto simp: float_shape_def float_syntax_def exponent_text_def float_char_def list_all_iff split: option.splits if_splits)

lemma strip_plain: "list_all (\<lambda>c. \<not> is_space c) s \<Longrightarrow> strip s = s"
proof -
  have drop: "list_all (\<lambda>c. \<not> is_space c) t \<Longrightarrow> dropWhile is_space t = t" for t by (cases t) simp_all
  assume "list_all (\<lambda>c. \<not> is_space c) s"
  then show ?thesis by (simp add: strip_def drop)
qed

lemma underscores_ok_plain: "list_all (\<lambda>c. c \<noteq> CHR ''_'') s \<Longrightarrow> underscores_ok b s"
  by (induction s arbitrary: b) simp_all

lemma lower_case_digit: "is_digit c \<Longrightarrow> lower_case c = c"
  by (simp add: lower_case_def is_digit_iff)

lemma parse_float_syntax:
  assumes shape: "float_shape ip fp ex"
  shows "b64_parse ((if neg then ''-'' else []) @ float_syntax ip fp ex) =
    Inr (decimal_float ((if neg then - 1 else 1) * digits_value 0 (ip @ fp)) (- int (length fp) + exponent_of ex))"
proof -
  let ?b = "float_syntax ip fp ex" and ?s = "(if neg then ''-'' else []) @ float_syntax ip fp ex"
  have chars: "list_all float_char ?b" by (rule float_syntax_chars [OF shape])
  then have "list_all float_char ?s" by (simp add: float_char_def)
  then have strip: "strip ?s = ?s" by (intro strip_plain) (auto simp: list_all_iff float_char_plain)
  have plain: "list_all (\<lambda>c. c \<noteq> CHR ''_'') ?b" using chars float_char_plain by (auto simp: list_all_iff)
  then have flt: "filter (\<lambda>c. c \<noteq> CHR ''_'') ?b = ?b" by (simp add: list_all_iff)
  have ok: "underscores_ok False ?b" by (rule underscores_ok_plain [OF plain])
  obtain c cs where b: "?b = c # cs" and c: "is_digit c"
    using shape by (cases ip) (auto simp: float_syntax_def float_shape_def)
  have first: "c \<noteq> CHR ''-''" "c \<noteq> CHR ''+''" "lower_case c \<noteq> CHR ''i''" "lower_case c \<noteq> CHR ''n''"
    using c by (auto simp: lower_case_digit is_digit_iff)
  then have body: "(if ?s \<noteq> [] \<and> (hd ?s = CHR ''-'' \<or> hd ?s = CHR ''+'') then tl ?s else ?s) = ?b" by (simp add: b)
  have sign: "(?s \<noteq> [] \<and> hd ?s = CHR ''-'') = neg" using first by (simp add: b)
  have word: "map lower_case ?b \<noteq> ''inf''" "map lower_case ?b \<noteq> ''infinity''" "map lower_case ?b \<noteq> ''nan''"
    using first by (simp_all add: b)
  show ?thesis
    unfolding b64_parse_def strip Let_def body sign flt decimal_parts_syntax [OF shape]
    by (simp only: word ok) simp
qed

text \<open>Every float but NaN is read back as itself; the two zeros are one number.\<close>

lemma b64_parse_repr:
  "b64_parse (b64_repr (B_fin m e)) = Inr (round_ratio m 1 e)"
proof (cases "m = 0")
  case True
  have "b64_parse ''0.0'' = Inr (B_fin 0 0)" by code_simp
  then show ?thesis using True by (simp add: round_ratio_def)
next
  case False
  then show ?thesis using b64_repr_shape [OF False, of e] parse_float_syntax by metis
qed

section \<open>The record of operations\<close>

record b64_lib =
  lib_exp :: "b64 \<Rightarrow> b64"
  lib_sqrt :: "b64 \<Rightarrow> b64"
  lib_sum :: "b64 list \<Rightarrow> b64"
  lib_str :: "b64 json \<Rightarrow> string"

text \<open>\<open>str\<close> of a value that is no string; the texts of lists and dictionaries are part of the library.\<close>

definition b64_str :: "b64_lib \<Rightarrow> b64 json \<Rightarrow> string" where
  "b64_str L v =
     (case v of J_null \<Rightarrow> ''None'' | J_bool b \<Rightarrow> if b then ''True'' else ''False'' | J_int i \<Rightarrow> int_text i
      | J_float x \<Rightarrow> b64_repr x | _ \<Rightarrow> lib_str L v)"

definition b64_sim :: "b64_lib \<Rightarrow> b64 sim_ops" where
  "b64_sim L = \<lparr>fl_of_int = (\<lambda>i. round_ratio i 1 0), fl_add = b64_add, fl_sub = (\<lambda>a b. b64_add a (b64_neg b)),
     fl_mul = b64_mul, fl_quot = b64_div, fl_less = b64_less, fl_eq = b64_eq, fl_exp = lib_exp L, fl_sqrt = lib_sqrt L,
     fl_sum = lib_sum L, fl_conv = b64_conv, fl_trunc = b64_trunc, fl_parse = b64_parse, fl_true_div = b64_true_div,
     fl_repr = b64_str L\<rparr>"

lemma b64_sim_sel [simp]:
  "fl_of_int (b64_sim L) = (\<lambda>i. round_ratio i 1 0)" "fl_add (b64_sim L) = b64_add"
  "fl_sub (b64_sim L) = (\<lambda>a b. b64_add a (b64_neg b))" "fl_mul (b64_sim L) = b64_mul"
  "fl_quot (b64_sim L) = b64_div" "fl_less (b64_sim L) = b64_less" "fl_eq (b64_sim L) = b64_eq"
  "fl_conv (b64_sim L) = b64_conv" "fl_trunc (b64_sim L) = b64_trunc" "fl_true_div (b64_sim L) = b64_true_div"
  "fl_sum (b64_sim L) = lib_sum L" "fl_parse (b64_sim L) = b64_parse" "fl_repr (b64_sim L) = b64_str L" "fl_zero (b64_sim L) = B_fin 0 0"
  by (simp_all add: b64_sim_def fl_zero_def round_ratio_def)

text \<open>One choice of the library: \<open>sum\<close> adds from left to right, as Python did before version 3.12.\<close>

definition plain_lib :: b64_lib where
  "plain_lib = \<lparr>lib_exp = (\<lambda>_. B_nan), lib_sqrt = (\<lambda>_. B_nan), lib_sum = foldl b64_add (B_fin 0 0),
     lib_str = (\<lambda>_. [])\<rparr>"

text \<open>The float nearest to a decimal literal \<open>n / d\<close>.\<close>

abbreviation literal :: "int \<Rightarrow> int \<Rightarrow> b64" where
  "literal n d \<equiv> round_ratio n d 0"

lemma b64_demo:
  "literal 1 10 = B_fin 7205759403792794 (- 56) \<and>
   b64_add (literal 1 10) (literal 2 10) = B_fin 5404319552844596 (- 54) \<and>
   literal 3 10 = B_fin 5404319552844595 (- 54) \<and>
   b64_mul (B_fin 1 1023) (B_fin 2 0) = B_inf False \<and> b64_true_div 1 3 = Inr (B_fin 6004799503160661 (- 54)) \<and>
   round_ratio 3 1 (- 1076) = B_fin 1 (- 1074) \<and> b64_trunc (literal (- 7) 2) = Inr (- 3)"
  by code_simp

lemma float_text_demo:
  "b64_repr (literal 1 10) = ''0.1'' \<and> b64_repr (literal (10 ^ 16) 1) = ''1e+16'' \<and> b64_repr (literal (- 1) 100000) = ''-1e-05'' \<and>
   b64_parse '' -1_0.5E-1 '' = Inr (literal (- 105) 100) \<and> b64_parse ''1__0'' = Inl ValueError \<and>
   b64_parse ''-Infinity'' = Inr (B_inf True)"
  by code_simp

end
