(* ===== verification/DecodeBinary64.thy ===== *)
theory DecodeBinary64
  imports KVDecode FloatText
begin

text \<open>
  \<open>stable_softmax\<close> and \<open>attention_decode\<close> of \<open>dv/golden/kv_cache_ref.py\<close> with Python's binary64
  floats: for numbers of bounded size the decode neither overflows nor divides by zero, every
  softmax weight lies between 0 and 1, and every lane of the result is finite. \<open>exp\<close>, \<open>sqrt\<close> and
  \<open>sum\<close> are library functions; what is used of them is stated as laws.
\<close>

section \<open>The operations and the laws of the library\<close>

definition b64_ops :: "b64_lib \<Rightarrow> b64 float_ops" where
  "b64_ops L = \<lparr>fl_of_int = (\<lambda>i. round_ratio i 1 0), fl_add = b64_add, fl_sub = (\<lambda>a b. b64_add a (b64_neg b)),
     fl_mul = b64_mul, fl_quot = b64_div, fl_less = b64_less, fl_eq = b64_eq, fl_exp = lib_exp L, fl_sqrt = lib_sqrt L,
     fl_sum = lib_sum L\<rparr>"

lemma b64_ops_truncate: "b64_ops L = float_ops.truncate (b64_sim L)"
  by (simp add: b64_ops_def b64_sim_def float_ops.defs)

lemma b64_ops_sel [simp]:
  "fl_of_int (b64_ops L) = (\<lambda>i. round_ratio i 1 0)" "fl_add (b64_ops L) = b64_add"
  "fl_sub (b64_ops L) = (\<lambda>a b. b64_add a (b64_neg b))" "fl_mul (b64_ops L) = b64_mul"
  "fl_quot (b64_ops L) = b64_div" "fl_less (b64_ops L) = b64_less" "fl_eq (b64_ops L) = b64_eq"
  "fl_exp (b64_ops L) = lib_exp L" "fl_sqrt (b64_ops L) = lib_sqrt L" "fl_sum (b64_ops L) = lib_sum L"
  "fl_zero (b64_ops L) = B_fin 0 0"
  by (simp_all add: b64_ops_def fl_zero_def round_ratio_def)

text \<open>A finite float of size at most \<open>B\<close>.\<close>

definition b64_upto :: "real \<Rightarrow> b64 \<Rightarrow> bool" where
  "b64_upto B x \<longleftrightarrow> b64_finite x \<and> \<bar>b64_val x\<bar> \<le> B"

text \<open>
  \<open>sum\<close> of \<open>n\<close> floats up to \<open>2 ^ i\<close> is at most \<open>n * 2 ^ i\<close> and not smaller than an item if none is negative;
  \<open>exp\<close> of a number that is not positive lies between 0 and 1 and is 1 at 0; \<open>sqrt\<close> of a number from
  1 on is not below 1.
\<close>

definition sum_law :: "(b64 list \<Rightarrow> b64) \<Rightarrow> bool" where
  "sum_law s \<longleftrightarrow> (\<forall>xs i. (\<forall>x \<in> set xs. b64_upto (2 ^ i) x) \<and> int (length xs) \<le> 2 ^ 53 \<and> i \<le> 900 \<longrightarrow>
     b64_upto (real (length xs) * 2 ^ i) (s xs) \<and>
     ((\<forall>x \<in> set xs. 0 \<le> b64_val x) \<longrightarrow> (\<forall>x \<in> set xs. b64_val x \<le> b64_val (s xs))))"

definition exp_law :: "(b64 \<Rightarrow> b64) \<Rightarrow> bool" where
  "exp_law f \<longleftrightarrow> (\<forall>x. b64_finite x \<and> b64_val x \<le> 0 \<longrightarrow>
     b64_finite (f x) \<and> 0 \<le> b64_val (f x) \<and> b64_val (f x) \<le> 1 \<and> (b64_val x = 0 \<longrightarrow> b64_val (f x) = 1))"

definition sqrt_law :: "(b64 \<Rightarrow> b64) \<Rightarrow> bool" where
  "sqrt_law f \<longleftrightarrow> (\<forall>x. b64_finite x \<and> 1 \<le> b64_val x \<longrightarrow> b64_finite (f x) \<and> 1 \<le> b64_val (f x))"

section \<open>Operations on bounded floats\<close>

lemma form_scaled:
  assumes "int k \<le> 2 ^ 53" "i \<le> 960"
  shows "b64_form (real k * 2 ^ i)" "b64_form (- (real k * 2 ^ i))"
proof -
  have "real_of_int (int k) \<le> real_of_int (2 ^ 53)" using assms(1) by (simp only: of_int_le_iff)
  then have "real k * 2 ^ i \<le> 2 ^ 53 * 2 ^ 960"
    using assms(2) by (intro mult_mono power_increasing) simp_all
  also have "\<dots> = (2::real) ^ 1013" by (simp only: flip: power_add) simp
  also have "\<dots> < 2 ^ 1024" by (rule power_strict_increasing) simp_all
  finally have "\<bar>real k * 2 ^ i\<bar> < 2 ^ 1024" by simp
  moreover have "real k * 2 ^ i = real_of_int (int k) * 2 powi (int i)" by simp
  moreover have "\<bar>int k\<bar> \<le> 2 ^ 53" "- 1074 \<le> int i" using assms(1) by simp_all
  ultimately show "b64_form (real k * 2 ^ i)" unfolding b64_form_def by blast
  then show "b64_form (- (real k * 2 ^ i))" by simp
qed

lemma upto_mono: "b64_upto B x \<Longrightarrow> B \<le> C \<Longrightarrow> b64_upto C x"
  by (auto simp: b64_upto_def)

lemma suc_scaled: "real (Suc k) * 2 ^ i = real k * 2 ^ i + 2 ^ i"
  by (simp add: distrib_right)

lemma upto_add:
  assumes "b64_upto (real k * 2 ^ i) x" "b64_upto (2 ^ i) y" "int (Suc k) \<le> 2 ^ 53" "i \<le> 960"
  shows "b64_upto (real (Suc k) * 2 ^ i) (b64_add x y)"
proof -
  have "\<bar>b64_val x + b64_val y\<bar> \<le> real (Suc k) * 2 ^ i" using assms(1,2) unfolding b64_upto_def suc_scaled by linarith
  then have "- (real (Suc k) * 2 ^ i) \<le> b64_val x + b64_val y" "b64_val x + b64_val y \<le> real (Suc k) * 2 ^ i" by linarith+
  with b64_add_between [OF _ _ form_scaled(2,1) [OF assms(3,4)], of x y] assms(1,2) show ?thesis
    by (auto simp: b64_upto_def abs_le_iff)
qed

lemma upto_mul:
  assumes "b64_upto (2 ^ i) x" "b64_upto (2 ^ j) y" "i + j \<le> 960"
  shows "b64_upto (2 ^ (i + j)) (b64_mul x y)"
proof -
  have "\<bar>b64_val x\<bar> * \<bar>b64_val y\<bar> \<le> 2 ^ i * 2 ^ j" using assms(1,2) by (intro mult_mono) (simp_all add: b64_upto_def)
  then have "\<bar>b64_val x * b64_val y\<bar> \<le> 2 ^ (i + j)" by (simp add: abs_mult power_add)
  then have "- (2 ^ (i + j)) \<le> b64_val x * b64_val y" "b64_val x * b64_val y \<le> 2 ^ (i + j)" by linarith+
  with b64_mul_between [OF _ _ form_scaled(2,1) [of 1 "i + j"], of x y] assms show ?thesis
    by (auto simp: b64_upto_def abs_le_iff)
qed

text \<open>Adding up from left to right obeys the law.\<close>

lemma left_sum_upto:
  assumes "\<forall>x \<in> set xs. b64_upto (2 ^ i) x" "b64_upto (real k * 2 ^ i) s" "int (k + length xs) \<le> 2 ^ 53" "i \<le> 960"
  shows "b64_upto (real (k + length xs) * 2 ^ i) (foldl b64_add s xs)"
  using assms
proof (induction xs arbitrary: s k)
  case (Cons x xs)
  have "b64_upto (real (Suc k) * 2 ^ i) (b64_add s x)" using Cons.prems by (intro upto_add) simp_all
  then show ?case using Cons.IH [of "Suc k" "b64_add s x"] Cons.prems by simp
qed simp

lemma left_sum_ge:
  assumes "\<forall>x \<in> set xs. b64_upto (2 ^ i) x \<and> 0 \<le> b64_val x" "b64_upto (real k * 2 ^ i) s" "0 \<le> b64_val s"
    "int (k + length xs) \<le> 2 ^ 53" "i \<le> 960"
  shows "b64_val s \<le> b64_val (foldl b64_add s xs) \<and> (\<forall>x \<in> set xs. b64_val x \<le> b64_val (foldl b64_add s xs))"
  using assms
proof (induction xs arbitrary: s k)
  case (Cons x xs)
  have w: "b64_upto (real (Suc k) * 2 ^ i) (b64_add s x)" using Cons.prems by (intro upto_add) simp_all
  have fin: "b64_finite s" "b64_finite x" using Cons.prems by (simp_all add: b64_upto_def)
  have big: "b64_val s + b64_val x \<le> real (Suc k) * 2 ^ i" using Cons.prems unfolding b64_upto_def suc_scaled by simp linarith
  have ge: "b64_val s \<le> b64_val (b64_add s x)" "b64_val x \<le> b64_val (b64_add s x)"
    using Cons.prems big
    by (auto intro!: b64_add_between(2) [OF fin _ form_scaled(1) [of "Suc k" i]] b64_form_val [OF fin(1)] b64_form_val [OF fin(2)])
  then show ?case using Cons.IH [OF _ w] Cons.prems by (auto intro: order_trans)
qed simp

lemma left_sum_law: "sum_law (foldl b64_add (B_fin 0 0))"
proof -
  have zero: "b64_upto (real 0 * 2 ^ i) (B_fin 0 0)" for i by (simp add: b64_upto_def)
  show ?thesis
    unfolding sum_law_def
  proof (intro allI impI)
    fix xs :: "b64 list" and i
    assume xs: "(\<forall>x \<in> set xs. b64_upto (2 ^ i) x) \<and> int (length xs) \<le> 2 ^ 53 \<and> i \<le> 900"
    let ?s = "foldl b64_add (B_fin 0 0) xs"
    have "b64_upto (real (0 + length xs) * 2 ^ i) ?s" using xs by (intro left_sum_upto [OF _ zero]) simp_all
    moreover have "\<forall>x \<in> set xs. b64_val x \<le> b64_val ?s" if "\<forall>x \<in> set xs. 0 \<le> b64_val x"
      using left_sum_ge [OF _ zero, of xs i] xs that by simp
    ultimately show "b64_upto (real (length xs) * 2 ^ i) ?s \<and>
        ((\<forall>x \<in> set xs. 0 \<le> b64_val x) \<longrightarrow> (\<forall>x \<in> set xs. b64_val x \<le> b64_val ?s))"
      by simp
  qed
qed

section \<open>The softmax\<close>

lemma fold_max:
  assumes "\<forall>x \<in> set (s # ss). b64_finite x"
  defines "m \<equiv> fold (\<lambda>x m. if b64_less m x then x else m) ss s"
  shows "m \<in> set (s # ss)" "\<forall>x \<in> set (s # ss). b64_val x \<le> b64_val m"
proof -
  have "m \<in> set (s # ss) \<and> (\<forall>x \<in> set (s # ss). b64_val x \<le> b64_val m)"
    unfolding m_def using assms(1)
  proof (induction ss arbitrary: s)
    case (Cons x ss)
    have less: "b64_less s x = (b64_val s < b64_val x)" using Cons.prems by (simp add: b64_less_val)
    show ?case
    proof (cases "b64_less s x")
      case True
      then show ?thesis using Cons.IH [of x] Cons.prems less by auto
    next
      case False
      then show ?thesis using Cons.IH [of s] Cons.prems less by auto
    qed
  qed simp
  then show "m \<in> set (s # ss)" "\<forall>x \<in> set (s # ss). b64_val x \<le> b64_val m" by simp_all
qed

lemma upto_sub_max:
  assumes "b64_upto (2 ^ i) x" "b64_upto (2 ^ i) m" "b64_val x \<le> b64_val m" "i \<le> 958"
  shows "b64_finite (b64_add x (b64_neg m))" "b64_val (b64_add x (b64_neg m)) \<le> 0"
    "b64_val x = b64_val m \<Longrightarrow> b64_val (b64_add x (b64_neg m)) = 0"
proof -
  have fin: "b64_finite x" "b64_finite (b64_neg m)" using assms(1,2) by (simp_all add: b64_upto_def)
  have low: "- (real 2 * 2 ^ i) \<le> b64_val x + b64_val (b64_neg m)" using assms(1,2) unfolding b64_upto_def by simp linarith
  have up: "b64_val x + b64_val (b64_neg m) \<le> 0" using assms(3) by simp
  have zero: "b64_form 0" using form_scaled(1) [of 0 0] by simp
  have form: "b64_form (- (real 2 * 2 ^ i))" by (rule form_scaled) (use assms(4) in simp_all)
  show "b64_finite (b64_add x (b64_neg m))" "b64_val (b64_add x (b64_neg m)) \<le> 0"
    by (rule b64_add_between [OF fin form zero low up])+
  show "b64_val (b64_add x (b64_neg m)) = 0" if "b64_val x = b64_val m"
    using b64_add_between(2,3) [OF fin zero zero] that by simp
qed

lemma quotient_unit:
  assumes "b64_finite a" "b64_finite b" "0 \<le> b64_val a" "b64_val a \<le> b64_val b" "0 < b64_val b"
  shows "b64_finite (b64_div a b)" "0 \<le> b64_val (b64_div a b)" "b64_val (b64_div a b) \<le> 1"
proof -
  have form: "b64_form 0" "b64_form 1" using form_scaled(1) [of 0 0] form_scaled(1) [of 1 0] by simp_all
  have nz: "b64_val b \<noteq> 0" using assms(5) by simp
  have q: "0 \<le> b64_val a / b64_val b" "b64_val a / b64_val b \<le> 1" using assms(3-5) by simp_all
  show "b64_finite (b64_div a b)" "0 \<le> b64_val (b64_div a b)" "b64_val (b64_div a b) \<le> 1"
    by (rule b64_div_between [OF assms(1,2) nz form q])+
qed

definition unit_float :: "b64 \<Rightarrow> bool" where
  "unit_float w \<longleftrightarrow> b64_finite w \<and> 0 \<le> b64_val w \<and> b64_val w \<le> 1"

lemma softmax_unit:
  assumes laws: "exp_law (lib_exp L)" "sum_law (lib_sum L)"
    and scores: "\<forall>x \<in> set xs. b64_upto (2 ^ i) x" "i \<le> 958" "int (length xs) \<le> 2 ^ 53"
  shows "\<exists>ws. stable_softmax (b64_ops L) xs = Inr ws \<and> length ws = length xs \<and> (\<forall>w \<in> set ws. unit_float w)"
proof (cases xs)
  case Nil
  then show ?thesis by (simp add: stable_softmax_def)
next
  case (Cons s ss)
  define m where "m = fold (\<lambda>x m. if b64_less m x then x else m) ss s"
  have fin: "\<forall>x \<in> set (s # ss). b64_finite x" using scores(1) by (simp add: Cons b64_upto_def)
  note max = fold_max [OF fin, folded m_def Cons]
  define f where "f = (\<lambda>x. lib_exp L (b64_add x (b64_neg m)))"
  define denom where "denom = lib_sum L (map f xs)"
  have f: "unit_float (f x)" "b64_val x = b64_val m \<Longrightarrow> b64_val (f x) = 1" if "x \<in> set xs" for x
  proof -
    note sub = upto_sub_max [OF _ _ _ scores(2), of x m]
    have x: "b64_upto (2 ^ i) x" "b64_upto (2 ^ i) m" "b64_val x \<le> b64_val m" using that max scores(1) by simp_all
    show "unit_float (f x)" "b64_val x = b64_val m \<Longrightarrow> b64_val (f x) = 1"
      using laws(1) sub [OF x] unfolding exp_law_def unit_float_def f_def by blast+
  qed
  have "\<forall>y \<in> set (map f xs). b64_upto (2 ^ 0) y \<and> 0 \<le> b64_val y" using f(1) by (simp add: unit_float_def b64_upto_def)
  then have sum: "b64_upto (real (length xs)) denom" "\<forall>y \<in> set (map f xs). b64_val y \<le> b64_val denom"
    using laws(2) [unfolded sum_law_def, rule_format, of "map f xs" 0] scores(3) by (simp_all add: denom_def)
  have "f m \<in> set (map f xs)" using max(1) by simp
  then have "1 \<le> b64_val denom" using sum(2) f(2) [OF max(1) refl] by force
  then have denom: "b64_finite denom" "0 < b64_val denom" using sum(1) by (simp_all add: b64_upto_def)
  then have nz: "b64_eq denom (B_fin 0 0) = False" by (simp add: b64_eq_val)
  have "stable_softmax (b64_ops L) xs = map_res (\<lambda>item. fl_div (b64_ops L) item denom) (map f xs)"
    by (simp add: stable_softmax_def Cons Let_def denom_def f_def m_def)
  also have "(\<lambda>item. fl_div (b64_ops L) item denom) = (\<lambda>item. Inr (b64_div item denom))"
    by (simp add: fl_div_def nz)
  also have "map_res (\<lambda>item. Inr (b64_div item denom)) ys = Inr (map (\<lambda>y. b64_div y denom) ys)" for ys
    by (induction ys) simp_all
  finally have "stable_softmax (b64_ops L) xs = Inr (map (\<lambda>y. b64_div y denom) (map f xs))" .
  moreover have "unit_float (b64_div y denom)" if "y \<in> set (map f xs)" for y
    using quotient_unit [OF _ denom(1) _ _ denom(2), of y] that f(1) sum(2) by (auto simp: unit_float_def)
  ultimately show ?thesis by auto
qed

section \<open>The decode\<close>

lemma accumulate_upto:
  assumes "\<forall>(w, v) \<in> set wvs. unit_float w \<and> length v = n \<and> (\<forall>x \<in> set v. b64_upto (2 ^ b) x)"
    and "length out = n" "\<forall>y \<in> set out. b64_upto (real k * 2 ^ b) y" "int (k + length wvs) \<le> 2 ^ 53" "b \<le> 960"
  shows "\<exists>out'. accumulate_all (b64_ops L) wvs out = Inr out' \<and> length out' = n \<and>
    (\<forall>y \<in> set out'. b64_upto (real (k + length wvs) * 2 ^ b) y)"
  using assms
proof (induction wvs arbitrary: out k)
  case (Cons wv wvs)
  obtain w v where wv: "wv = (w, v)" by fastforce
  have w: "b64_upto (2 ^ 0) w" and v: "length v = n" "\<forall>x \<in> set v. b64_upto (2 ^ b) x"
    using Cons.prems(1) by (auto simp: wv unit_float_def b64_upto_def)
  define out1 where "out1 = map (\<lambda>i. b64_add (out ! i) (b64_mul w (v ! i))) [0..<n]"
  have step: "accumulate (b64_ops L) w v out = Inr out1"
    using v(1) Cons.prems(2) by (simp add: accumulate_def out1_def)
  have "b64_upto (real (Suc k) * 2 ^ b) (b64_add (out ! i) (b64_mul w (v ! i)))" if i: "i < n" for i
  proof (rule upto_add)
    show "b64_upto (real k * 2 ^ b) (out ! i)" using Cons.prems(2,3) i by simp
    have "b64_upto (2 ^ b) (v ! i)" using v i by simp
    then show "b64_upto (2 ^ b) (b64_mul w (v ! i))" using upto_mul [OF w] Cons.prems(5) by fastforce
  qed (use Cons.prems in simp_all)
  then have "\<forall>y \<in> set out1. b64_upto (real (Suc k) * 2 ^ b) y" by (simp add: out1_def)
  then show ?case using Cons.IH [of out1 "Suc k"] Cons.prems by (simp add: wv step) (simp add: out1_def)
qed simp

lemma score_upto:
  assumes "sum_law (lib_sum L)" "unit_float scale" "\<forall>x \<in> set query. b64_upto (2 ^ a) x" "\<forall>x \<in> set (fst kv ! h). b64_upto (2 ^ a) x"
    and "int (length query) \<le> 2 ^ 53" "a \<le> 450"
  shows "b64_upto (2 ^ (53 + 2 * a)) (score_of (b64_ops L) query h scale kv)"
proof -
  let ?ps = "map (\<lambda>(left, right). b64_mul left right) (zip query (fst kv ! h))"
  have "b64_upto (2 ^ (2 * a)) p" if "p \<in> set ?ps" for p
    using that assms(3,4,6) by (auto simp: mult_2 intro!: upto_mul dest: set_zip_leftD set_zip_rightD)
  moreover have len: "int (length ?ps) \<le> 2 ^ 53" using assms(5) by simp
  moreover have "2 * a \<le> 900" using assms(6) by simp
  ultimately have "b64_upto (real (length ?ps) * 2 ^ (2 * a)) (lib_sum L ?ps)"
    using assms(1) [unfolded sum_law_def, rule_format, of ?ps "2 * a"] by blast
  moreover have "real_of_int (int (length ?ps)) \<le> real_of_int (2 ^ 53)" using len by (simp only: of_int_le_iff)
  then have "real (length ?ps) * 2 ^ (2 * a) \<le> 2 ^ (53 + 2 * a)" by (simp only: power_add) (simp add: mult_right_mono)
  ultimately have "b64_upto (2 ^ (53 + 2 * a)) (lib_sum L ?ps)" by (rule upto_mono)
  moreover have "b64_upto (2 ^ 0) scale" using assms(2) by (simp add: unit_float_def b64_upto_def)
  ultimately have "b64_upto (2 ^ (53 + 2 * a + 0)) (b64_mul (lib_sum L ?ps) scale)"
    using assms(6) by (intro upto_mul) simp_all
  then show ?thesis by (simp add: score_of_def)
qed

lemma scale_unit:
  assumes "sqrt_law (lib_sqrt L)" "1 \<le> d" "d \<le> 2 ^ 53"
  shows "\<exists>scale. fl_div (b64_ops L) (fl_of_int (b64_ops L) 1) (fl_sqrt (b64_ops L) (fl_of_int (b64_ops L) d)) = Inr scale \<and> unit_float scale"
proof -
  note one = b64_of_int [of 1, simplified] and dim = b64_of_int [of d]
  define root where "root = lib_sqrt L (round_ratio d 1 0)"
  have root: "b64_finite root" "1 \<le> b64_val root" using assms dim unfolding sqrt_law_def root_def by simp_all
  have "unit_float (b64_div (round_ratio 1 1 0) root)"
    using quotient_unit [OF one(1) root(1)] root(2) one(2) by (simp add: unit_float_def)
  moreover have "b64_eq root (B_fin 0 0) = False" using root by (simp add: b64_eq_val)
  ultimately show ?thesis by (simp add: fl_div_def root_def)
qed

lemma map_res_exists:
  assumes "\<And>x. x \<in> set xs \<Longrightarrow> \<exists>y. f x = Inr y \<and> P y"
  shows "\<exists>ys. map_res f xs = Inr ys \<and> length ys = length xs \<and> (\<forall>y \<in> set ys. P y)"
  using assms
proof (induction xs)
  case (Cons x xs)
  obtain y where "f x = Inr y" "P y" using Cons.prems by auto
  moreover obtain ys where "map_res f xs = Inr ys" "length ys = length xs" "\<forall>y \<in> set ys. P y"
    using Cons by auto
  ultimately show ?case by simp
qed simp

lemma kept_length: "length (kept allow xs) \<le> length xs"
proof (cases allow)
  case (Some m)
  have "length (filter fst (zip m xs)) \<le> length (zip m xs)" by (rule length_filter_le)
  then show ?thesis by (simp add: kept_def Some)
qed (simp add: kept_def)

definition numbers_upto :: "nat \<Rightarrow> b64 head_values \<Rightarrow> bool" where
  "numbers_upto i heads \<longleftrightarrow> (\<forall>head \<in> set heads. \<forall>x \<in> set head. b64_upto (2 ^ i) x)"

lemma decode_head_upto:
  assumes laws: "exp_law (lib_exp L)" "sum_law (lib_sum L)" and scale: "unit_float scale"
    and query: "int (length q) = hdim" "hdim \<le> 2 ^ 53" "\<forall>x \<in> set q. b64_upto (2 ^ a) x" and h: "int h < heads"
    and toks: "\<forall>kv \<in> set T. pair_ok heads hdim kv \<and> numbers_upto a (fst kv) \<and> numbers_upto b (snd kv)"
    and sizes: "int (length T) \<le> 2 ^ 53" "a \<le> 450" "b \<le> 900"
  shows "\<exists>out. (case stable_softmax (b64_ops L) (map (score_of (b64_ops L) q h scale) T) of Inl e \<Rightarrow> Inl e
      | Inr weights \<Rightarrow> accumulate_all (b64_ops L) (zip weights (map (value_of h) T)) (replicate (nat hdim) (fl_zero (b64_ops L)))) = Inr out \<and>
    int (length out) = hdim \<and> (\<forall>x \<in> set out. b64_upto (real (length T) * 2 ^ b) x)"
proof -
  have head: "h < length (fst kv)" "h < length (snd kv)" "length (snd kv ! h) = nat hdim" if "kv \<in> set T" for kv
    using toks that pair_ok_head [OF _ h, of hdim "fst kv" "snd kv"] by auto
  have key: "\<forall>x \<in> set (fst kv ! h). b64_upto (2 ^ a) x" and val: "\<forall>x \<in> set (snd kv ! h). b64_upto (2 ^ b) x" if kv: "kv \<in> set T" for kv
  proof -
    have "numbers_upto a (fst kv)" "numbers_upto b (snd kv)" using toks kv by simp_all
    then show "\<forall>x \<in> set (fst kv ! h). b64_upto (2 ^ a) x" "\<forall>x \<in> set (snd kv ! h). b64_upto (2 ^ b) x"
      using nth_mem [OF head(1) [OF kv]] nth_mem [OF head(2) [OF kv]] unfolding numbers_upto_def by metis+
  qed
  have "b64_upto (2 ^ (53 + 2 * a)) s" if "s \<in> set (map (score_of (b64_ops L) q h scale) T)" for s
    using that query sizes(2) by (auto intro!: score_upto [OF laws(2) scale _ key])
  then obtain ws where ws: "stable_softmax (b64_ops L) (map (score_of (b64_ops L) q h scale) T) = Inr ws"
      "length ws = length T" "\<forall>w \<in> set ws. unit_float w"
    using softmax_unit [OF laws, of "map (score_of (b64_ops L) q h scale) T" "53 + 2 * a"] sizes by auto
  let ?wvs = "zip ws (map (value_of h) T)" and ?zero = "replicate (nat hdim) (B_fin 0 0)"
  have "\<forall>(w, v) \<in> set ?wvs. unit_float w \<and> length v = nat hdim \<and> (\<forall>x \<in> set v. b64_upto (2 ^ b) x)"
  proof (intro ballI, clarify)
    fix w v assume wv: "(w, v) \<in> set ?wvs"
    obtain kv where "kv \<in> set T" "v = snd kv ! h" using set_zip_rightD [OF wv] by (auto simp: value_of_def)
    then show "unit_float w \<and> length v = nat hdim \<and> (\<forall>x \<in> set v. b64_upto (2 ^ b) x)"
      using set_zip_leftD [OF wv] ws(3) head(3) val by simp
  qed
  moreover have "\<forall>y \<in> set ?zero. b64_upto (real 0 * 2 ^ b) y" by (simp add: b64_upto_def)
  moreover have "int (0 + length ?wvs) \<le> 2 ^ 53" "b \<le> 960" using ws(2) sizes by simp_all
  moreover have "length ?zero = nat hdim" by simp
  ultimately have "\<exists>out. accumulate_all (b64_ops L) ?wvs ?zero = Inr out \<and> length out = nat hdim \<and>
      (\<forall>y \<in> set out. b64_upto (real (0 + length ?wvs) * 2 ^ b) y)"
    by (intro accumulate_upto)
  then show ?thesis using ws query(1) by auto
qed

text \<open>
  C20: the decode does not overflow. In binary64, for queries and keys up to \<open>2 ^ a\<close> with \<open>a \<le> 450\<close>,
  values up to \<open>2 ^ b\<close> with \<open>b \<le> 900\<close>, and any page size, head sizes, context limit and mask,
  \<open>attention_decode\<close> returns normally: no \<open>ZeroDivisionError\<close>, no NaN and no infinity; and every
  lane of every head is at most the number of kept tokens times \<open>2 ^ b\<close>. Of the library only the
  laws of \<open>exp\<close>, \<open>sqrt\<close> and \<open>sum\<close> are used; adding up from left to right obeys that of \<open>sum\<close>.
\<close>

theorem decode_stays_finite:
  assumes "exp_law (lib_exp L)" "sum_law (lib_sum L)" "sqrt_law (lib_sqrt L)"
    and "PagedKVCache_init pt heads hdim = Inr c0" and "c = append_all kvs c0" and "toks = filter (pair_ok heads hdim) kvs"
    and "0 \<le> n" and "n \<le> int (length toks)" and "case allow of None \<Rightarrow> True | Some m \<Rightarrow> n \<le> int (length m)"
    and "qs \<noteq> []" and "list_all (\<lambda>q. int (length q) = hdim) qs"
    and "numbers_upto a qs" and "\<forall>(k, v) \<in> set toks. numbers_upto a k \<and> numbers_upto b v"
    and "a \<le> 450" "b \<le> 900" "hdim \<le> 2 ^ 53" "int (length toks) \<le> 2 ^ 53"
  shows "\<exists>out. attention_decode (b64_ops L) qs c (Some n) allow = Inr out \<and> length out = length qs \<and>
    (\<forall>lanes \<in> set out. int (length lanes) = hdim \<and>
       (\<forall>x \<in> set lanes. b64_upto (real (length (kept allow (take (nat n) toks))) * 2 ^ b) x))"
proof -
  note new = fresh_cache_wf [OF assms(4)]
  have c: "cache_wf c" "cache_list c = toks" "kc_num_kv_heads c = heads" "kc_head_dim c = hdim"
    using append_all_ok [OF new(1), of kvs] new(2-5) by (simp_all add: assms(5,6))
  define T where "T = kept allow (take (nat n) toks)"
  have sub: "set T \<subseteq> set toks" using kept_subset [of allow "take (nat n) toks"] by (auto simp: T_def dest: in_set_takeD)
  have T: "\<forall>kv \<in> set T. pair_ok heads hdim kv \<and> numbers_upto a (fst kv) \<and> numbers_upto b (snd kv)"
    using sub assms(6,13) by fastforce
  have len: "int (length T) \<le> 2 ^ 53"
    using kept_length [of allow "take (nat n) toks"] assms(17) by (simp add: T_def)
  obtain scale where scale: "fl_div (b64_ops L) (fl_of_int (b64_ops L) 1) (fl_sqrt (b64_ops L) (fl_of_int (b64_ops L) hdim)) = Inr scale"
      "unit_float scale" using scale_unit [OF assms(3)] new(8) assms(16) by (metis int_one_le_iff_zero_less)
  define lanes_ok where "lanes_ok = (\<lambda>lanes. int (length lanes) = hdim \<and> (\<forall>x \<in> set lanes. b64_upto (real (length T) * 2 ^ b) x))"
  define each_head where "each_head = (\<lambda>(qi, q). let h = kv_head_of heads (length qs) qi in
      (case stable_softmax (b64_ops L) (map (score_of (b64_ops L) q h scale) T) of Inl e \<Rightarrow> Inl e
       | Inr weights \<Rightarrow> accumulate_all (b64_ops L) (zip weights (map (value_of h) T)) (replicate (nat hdim) (fl_zero (b64_ops L)))))"
  have each: "\<exists>out. each_head x = Inr out \<and> lanes_ok out" if "x \<in> set (enumerate 0 qs)" for x
  proof -
    obtain qi q where x: "x = (qi, q)" by fastforce
    then have q: "qi < length qs" "q \<in> set qs" using that by (auto simp: in_set_enumerate_eq)
    have "int (length q) = hdim" "\<forall>x \<in> set q. b64_upto (2 ^ a) x" using q(2) assms(11,12) by (simp_all add: list_all_iff numbers_upto_def)
    then show ?thesis
      unfolding Let_def lanes_ok_def each_head_def x prod.case
      by (intro decode_head_upto [OF assms(1,2) scale(2) _ assms(16) _ kv_head_of(2) [OF new(7) q(1)] T len assms(14,15)])
  qed
  have "attention_decode (b64_ops L) qs c (Some n) allow = decode_kept (b64_ops L) heads hdim qs T"
    using attention_decode_kept [OF c(1), of n allow "Some n" "b64_ops L" qs] cache_tokens_length [OF c(1)] assms(7-9) new(7)
    unfolding c(2-4) T_def by simp
  also have "\<dots> = map_res each_head (enumerate 0 qs)"
    unfolding decode_kept_def scale(1) sum.case each_head_def using assms(10,11) by (simp add: list_all_iff list_ex_iff)
  finally have "attention_decode (b64_ops L) qs c (Some n) allow = map_res each_head (enumerate 0 qs)" .
  moreover have "\<exists>out. map_res each_head (enumerate 0 qs) = Inr out \<and> length out = length (enumerate 0 qs) \<and> (\<forall>lanes \<in> set out. lanes_ok lanes)"
    by (rule map_res_exists [OF each])
  ultimately show ?thesis by (simp add: lanes_ok_def T_def)
qed

text \<open>A library that obeys the laws, with steps for \<open>exp\<close> and the identity for \<open>sqrt\<close>.\<close>

definition step_lib :: b64_lib where
  "step_lib = \<lparr>lib_exp = (\<lambda>x. if b64_eq x (B_fin 0 0) then B_fin 1 0 else B_fin 1 (- 1)), lib_sqrt = (\<lambda>x. x),
     lib_sum = foldl b64_add (B_fin 0 0), lib_str = (\<lambda>_. [])\<rparr>"

lemma step_lib_laws: "exp_law (lib_exp step_lib)" "sum_law (lib_sum step_lib)" "sqrt_law (lib_sqrt step_lib)"
proof -
  have small: "1 < (2::real) ^ 1024" by (rule one_less_power) simp_all
  have half: "b64_finite (B_fin 1 (- 1))" "b64_val (B_fin 1 (- 1)) = 1 / 2" "b64_finite (B_fin 1 0)" "b64_val (B_fin 1 0) = 1"
    using small by (simp_all add: power_int_minus)
  have "b64_eq x (B_fin 0 0) = (b64_val x = 0)" if "b64_finite x" for x using that by (simp add: b64_eq_val)
  then show "exp_law (lib_exp step_lib)" using half by (simp add: exp_law_def step_lib_def)
  show "sum_law (lib_sum step_lib)" using left_sum_law by (simp add: step_lib_def)
  show "sqrt_law (lib_sqrt step_lib)" by (simp add: sqrt_law_def step_lib_def)
qed

theorem decode_stays_finite_witness:
  "\<exists>c0 out. PagedKVCache_init 1 1 1 = Inr c0 \<and>
     attention_decode (b64_ops step_lib) [[B_fin 1 (- 1)]]
       (append_all [([[B_fin 1 0]], [[B_fin 3 0]]), ([[B_fin 1 1]], [[B_fin 5 0]])] c0) (Some 2) None = Inr out \<and>
     length out = 1 \<and> (\<forall>lanes \<in> set out. length lanes = 1 \<and> (\<forall>x \<in> set lanes. b64_upto 16 x))"
proof -
  obtain c0 :: "b64 kv_cache" where c0: "PagedKVCache_init 1 1 1 = Inr c0" by (simp add: PagedKVCache_init_def)
  let ?kvs = "[([[B_fin 1 0]], [[B_fin 3 0]]), ([[B_fin 1 1]], [[B_fin 5 0]])]"
  have small: "(6::real) < 2 ^ 1024" using power_strict_increasing [of 3 1024 "2::real"] by simp
  then have upto: "b64_upto (2 ^ 1) (B_fin 1 0)" "b64_upto (2 ^ 1) (B_fin 1 1)" "b64_upto (2 ^ 1) (B_fin 1 (- 1))"
    "b64_upto (2 ^ 3) (B_fin 3 0)" "b64_upto (2 ^ 3) (B_fin 5 0)"
    by (simp_all add: b64_upto_def power_int_minus)
  have ok: "?kvs = filter (pair_ok 1 1) ?kvs" by (simp add: pair_ok_def token_ok_def)
  have "numbers_upto 1 [[B_fin 1 (- 1)]]" "\<forall>(k, v) \<in> set ?kvs. numbers_upto 1 k \<and> numbers_upto 3 v"
    using upto by (simp_all add: numbers_upto_def)
  from decode_stays_finite [OF step_lib_laws c0 refl ok _ _ _ _ _ this, of 2 None] c0 show ?thesis
    by (auto simp: kept_def)
qed

end
