(* ===== verification/Monitor.thy ===== *)
theory Monitor
  imports Prelude "HOL-Library.AList"
begin

text \<open>
  \<open>dv/phase9/invariants.py\<close>: the full-chip safety monitor and the cross-coverage
  collector; the theory \<open>ChipTrace\<close> has \<open>run_trace\<close>, which drives both.

  A \<open>Counter\<close> is an association list that reads as 0 where it has no key; two of them are equal
  when they agree on the keys of both (Python 3.10 and later). A \<open>dict\<close> that is only looked up or
  overwritten is a map. A window is the sequence of its bounds, which \<open>dma\<close> unpacks. Every failing
  check raises before the monitor changes.
\<close>

section \<open>Counters\<close>

type_synonym 'k pycounter = "('k \<times> int) list"

definition cnt_get :: "'k pycounter \<Rightarrow> 'k \<Rightarrow> int" where
  "cnt_get c k = (case map_of c k of None \<Rightarrow> 0 | Some n \<Rightarrow> n)"

definition cnt_add :: "'k \<Rightarrow> int \<Rightarrow> 'k pycounter \<Rightarrow> 'k pycounter" where
  "cnt_add k n c = AList.update k (cnt_get c k + n) c"

definition cnt_eq :: "'k pycounter \<Rightarrow> 'k pycounter \<Rightarrow> bool" where
  "cnt_eq a b \<longleftrightarrow> list_all (\<lambda>k. cnt_get a k = cnt_get b k) (map fst a @ map fst b)"

lemma cnt_get_simps [simp]:
  "cnt_get [] k = 0" "cnt_get (cnt_add k n c) = (cnt_get c)(k := cnt_get c k + n)"
  by (auto simp: cnt_get_def cnt_add_def AList.update_conv' fun_eq_iff)

lemma cnt_keys [simp]: "fst ` set (cnt_add k n c) = insert k (fst ` set c)"
  by (simp add: cnt_add_def AList.dom_update)

lemma cnt_get_no_key: "k \<notin> fst ` set c \<Longrightarrow> cnt_get c k = 0"
  by (simp add: cnt_get_def map_of_eq_None_iff [THEN iffD2])

lemma cnt_eq_iff: "cnt_eq a b \<longleftrightarrow> cnt_get a = cnt_get b"
proof
  assume eq: "cnt_eq a b"
  show "cnt_get a = cnt_get b"
  proof
    fix k show "cnt_get a k = cnt_get b k"
      using eq cnt_get_no_key [of k a] cnt_get_no_key [of k b]
      by (cases "k \<in> fst ` set a \<union> fst ` set b") (auto simp: cnt_eq_def list_all_iff)
  qed
qed (simp add: cnt_eq_def list_all_iff)

section \<open>The monitor\<close>

record monitor =
  mon_dma_windows :: "string \<rightharpoonup> int list"
  mon_node_partitions :: "int \<rightharpoonup> string"
  mon_accepted :: "string pycounter"
  mon_completed :: "string pycounter"
  mon_kv_pages :: "string \<times> int \<rightharpoonup> int"
  mon_refcounts :: "(string \<times> int) pycounter"
  mon_ready_dependencies :: "string set"

definition FullChipMonitor_init :: "(string \<rightharpoonup> int list) \<Rightarrow> (int \<rightharpoonup> string) \<Rightarrow> monitor" where
  "FullChipMonitor_init windows partitions =
     \<lparr>mon_dma_windows = windows, mon_node_partitions = partitions, mon_accepted = [],
      mon_completed = [], mon_kv_pages = Map.empty, mon_refcounts = [],
      mon_ready_dependencies = {}\<rparr>"

definition mon_accept :: "string \<Rightarrow> monitor \<Rightarrow> monitor" where
  "mon_accept rid m = m\<lparr>mon_accepted := cnt_add rid 1 (mon_accepted m)\<rparr>"

definition mon_complete :: "string \<Rightarrow> monitor \<Rightarrow> unit res \<times> monitor" where
  "mon_complete rid m =
     (if cnt_get (mon_completed m) rid \<ge> cnt_get (mon_accepted m) rid then (Inl VerificationError, m)
      else (Inr (), m\<lparr>mon_completed := cnt_add rid 1 (mon_completed m)\<rparr>))"

definition mon_assert_drained :: "monitor \<Rightarrow> unit res" where
  "mon_assert_drained m = (if \<not> cnt_eq (mon_accepted m) (mon_completed m) then Inl VerificationError else Inr ())"

definition mon_map_kv :: "string \<Rightarrow> int \<Rightarrow> int \<Rightarrow> monitor \<Rightarrow> monitor" where
  "mon_map_kv tenant virtual_page physical_page m =
     (let key = (tenant, virtual_page) in
      m\<lparr>mon_kv_pages := (mon_kv_pages m)(key \<mapsto> physical_page),
        mon_refcounts := cnt_add key 1 (mon_refcounts m)\<rparr>)"

definition mon_read_kv :: "string \<Rightarrow> string \<Rightarrow> int \<Rightarrow> monitor \<Rightarrow> int res" where
  "mon_read_kv requester owner virtual_page m =
     (if requester \<noteq> owner then Inl VerificationError
      else case mon_kv_pages m (owner, virtual_page) of None \<Rightarrow> Inl KeyError | Some p \<Rightarrow> Inr p)"

definition mon_release_kv :: "string \<Rightarrow> int \<Rightarrow> monitor \<Rightarrow> unit res \<times> monitor" where
  "mon_release_kv tenant virtual_page m =
     (let key = (tenant, virtual_page) in
      if cnt_get (mon_refcounts m) key = 0 then (Inl VerificationError, m)
      else (Inr (), m\<lparr>mon_refcounts := cnt_add key (-1) (mon_refcounts m)\<rparr>))"

definition mon_dma :: "string \<Rightarrow> int \<Rightarrow> int \<Rightarrow> monitor \<Rightarrow> unit res" where
  "mon_dma tenant address len m =
     (if len \<le> 0 then Inl VerificationError
      else case mon_dma_windows m tenant of None \<Rightarrow> Inl VerificationError
      | Some [lower, upper] \<Rightarrow>
        let endp = address + len in
        if endp < address \<or> address < lower \<or> endp > upper then Inl VerificationError else Inr ()
      | Some _ \<Rightarrow> Inl ValueError)"

definition mon_dependency_ready :: "string \<Rightarrow> monitor \<Rightarrow> monitor" where
  "mon_dependency_ready dep m = m\<lparr>mon_ready_dependencies := insert dep (mon_ready_dependencies m)\<rparr>"

definition mon_issue :: "string list \<Rightarrow> monitor \<Rightarrow> unit res" where
  "mon_issue deps m =
     (if list_ex (\<lambda>d. d \<notin> mon_ready_dependencies m) deps then Inl VerificationError else Inr ())"

definition mon_route_collective :: "int \<Rightarrow> int \<Rightarrow> monitor \<Rightarrow> unit res" where
  "mon_route_collective source destination m =
     (if mon_node_partitions m source \<noteq> mon_node_partitions m destination then Inl VerificationError else Inr ())"

section \<open>Cross coverage\<close>

type_synonym cov_point = "int \<times> string \<times> string \<times> int \<times> string"

definition PAGE_SIZES :: "int list" where "PAGE_SIZES = [16, 32, 64, 128]"
definition PRECISIONS :: "string list" where "PRECISIONS = [''int4'', ''fp4'', ''fp8'', ''bf16'']"
definition MASKS :: "string list" where "MASKS = [''causal'', ''sliding'', ''sink'', ''sparse'']"
definition PRIORITIES :: "int list" where "PRIORITIES = [0, 1, 2, 3]"
definition FAULTS :: "string list" where "FAULTS = [''none'', ''kv_miss'', ''dma_range'', ''ecc'', ''retry'']"

lemmas bin_defs = PAGE_SIZES_def PRECISIONS_def MASKS_def PRIORITIES_def FAULTS_def

definition required_bins :: "cov_point set" where
  "required_bins = set (List.product PAGE_SIZES (List.product PRECISIONS (List.product MASKS
     (List.product PRIORITIES FAULTS))))"

lemma required_bins_iff [simp]:
  "(a, b, c, d, e) \<in> required_bins \<longleftrightarrow>
     a \<in> set PAGE_SIZES \<and> b \<in> set PRECISIONS \<and> c \<in> set MASKS \<and> d \<in> set PRIORITIES \<and> e \<in> set FAULTS"
  by (simp add: required_bins_def)

type_synonym coverage = "cov_point pycounter"

definition CrossCoverage_init :: coverage where
  "CrossCoverage_init = []"

definition cov_sample :: "cov_point \<Rightarrow> coverage \<Rightarrow> unit res \<times> coverage" where
  "cov_sample point hits =
     (if point \<notin> required_bins then (Inl VerificationError, hits)
      else (Inr (), cnt_add point 1 hits))"

text \<open>\<open>set(self.hits)\<close> is the set of keys.\<close>

definition cov_close :: "coverage \<Rightarrow> unit res" where
  "cov_close hits =
     (if required_bins - fst ` set hits \<noteq> {} then Inl VerificationError else Inr ())"

section \<open>Invariants of the monitor\<close>

text \<open>Any calls of a testbench, the exceptions caught.\<close>

datatype mon_call =
    Accept string | Complete string | Map_Kv string int int | Release_Kv string int | Dependency_Ready string

definition mon_step :: "mon_call \<Rightarrow> monitor \<Rightarrow> unit res \<times> monitor" where
  "mon_step c m =
     (case c of
        Accept r \<Rightarrow> (Inr (), mon_accept r m)
      | Complete r \<Rightarrow> mon_complete r m
      | Map_Kv t v p \<Rightarrow> (Inr (), mon_map_kv t v p m)
      | Release_Kv t v \<Rightarrow> mon_release_kv t v m
      | Dependency_Ready d \<Rightarrow> (Inr (), mon_dependency_ready d m))"

fun mon_run :: "mon_call list \<Rightarrow> monitor \<Rightarrow> (mon_call \<times> unit res) list \<times> monitor" where
  "mon_run [] m = ([], m)"
| "mon_run (c # cs) m =
     (case mon_step c m of (r, m1) \<Rightarrow> (case mon_run cs m1 of (log, m2) \<Rightarrow> ((c, r) # log, m2)))"

text \<open>The calls of a log that went through.\<close>

definition succeeded :: "(mon_call \<times> unit res) list \<Rightarrow> mon_call list" where
  "succeeded log = map fst (filter (\<lambda>(_, r). is_ok r) log)"

definition calls_of :: "(mon_call \<Rightarrow> bool) \<Rightarrow> mon_call list \<Rightarrow> int" where
  "calls_of P cs = int (length (filter P cs))"

lemma succeeded_simps [simp]:
  "succeeded [] = []" "succeeded ((c, Inr u) # log) = c # succeeded log" "succeeded ((c, Inl e) # log) = succeeded log"
  by (simp_all add: succeeded_def)

definition is_map :: "string \<Rightarrow> int \<Rightarrow> mon_call \<Rightarrow> bool" where
  "is_map t v c \<longleftrightarrow> (case c of Map_Kv t' v' _ \<Rightarrow> t' = t \<and> v' = v | _ \<Rightarrow> False)"

lemma mon_run_counts:
  assumes "mon_run cs m = (log, m')" and "cnt_get (mon_completed m) r \<le> cnt_get (mon_accepted m) r" and "0 \<le> cnt_get (mon_refcounts m) (t, v)"
  shows "cnt_get (mon_accepted m') r = cnt_get (mon_accepted m) r + calls_of ((=) (Accept r)) cs \<and>
    cnt_get (mon_completed m') r = cnt_get (mon_completed m) r + calls_of ((=) (Complete r)) (succeeded log) \<and>
    cnt_get (mon_completed m') r \<le> cnt_get (mon_accepted m') r \<and>
    cnt_get (mon_refcounts m') (t, v) = cnt_get (mon_refcounts m) (t, v) + calls_of (is_map t v) cs
      - calls_of ((=) (Release_Kv t v)) (succeeded log) \<and>
    0 \<le> cnt_get (mon_refcounts m') (t, v)"
  using assms
proof (induction cs arbitrary: m log)
  case Nil
  then show ?case by (simp add: calls_of_def)
next
  case (Cons c cs)
  obtain res m1 where step: "mon_step c m = (res, m1)" by fastforce
  obtain log1 where log: "mon_run cs m1 = (log1, m')" "log = (c, res) # log1"
    using Cons.prems(1) step by (auto split: prod.splits)
  have one: "cnt_get (mon_accepted m1) r = cnt_get (mon_accepted m) r + calls_of ((=) (Accept r)) [c] \<and>
    cnt_get (mon_completed m1) r = cnt_get (mon_completed m) r + calls_of ((=) (Complete r)) (succeeded [(c, res)]) \<and>
    cnt_get (mon_completed m1) r \<le> cnt_get (mon_accepted m1) r \<and>
    cnt_get (mon_refcounts m1) (t, v) = cnt_get (mon_refcounts m) (t, v) + calls_of (is_map t v) [c]
      - calls_of ((=) (Release_Kv t v)) (succeeded [(c, res)]) \<and> 0 \<le> cnt_get (mon_refcounts m1) (t, v)"
    using step Cons.prems(2,3)
    by (cases c) (auto simp: mon_step_def mon_accept_def mon_complete_def mon_map_kv_def mon_release_kv_def
        mon_dependency_ready_def calls_of_def is_map_def Let_def split: if_splits)
  have split: "calls_of P (c # cs) = calls_of P [c] + calls_of P cs"
    "calls_of P (succeeded log) = calls_of P (succeeded [(c, res)]) + calls_of P (succeeded log1)" for P
    by (simp_all add: calls_of_def log(2) succeeded_def)
  show ?case using Cons.IH [OF log(1)] one unfolding split by simp
qed

text \<open>
  C23: conservation. Whatever a testbench calls, in any order and with exceptions caught: the
  monitor's counts are the numbers of calls that went through, no request has more completions
  than acceptances, every page has as many references as maps minus releases and never fewer than
  0, and the drain check passes exactly when every request was completed as often as accepted.
\<close>

theorem monitor_conserves:
  assumes "mon_run cs (FullChipMonitor_init windows partitions) = (log, m)"
  shows "cnt_get (mon_accepted m) r = calls_of ((=) (Accept r)) cs \<and>
    cnt_get (mon_completed m) r = calls_of ((=) (Complete r)) (succeeded log) \<and> cnt_get (mon_completed m) r \<le> cnt_get (mon_accepted m) r \<and>
    cnt_get (mon_refcounts m) (t, v) = calls_of (is_map t v) cs - calls_of ((=) (Release_Kv t v)) (succeeded log) \<and>
    0 \<le> cnt_get (mon_refcounts m) (t, v) \<and>
    is_ok (mon_assert_drained m) = (\<forall>r. calls_of ((=) (Complete r)) (succeeded log) = calls_of ((=) (Accept r)) cs)"
proof -
  have counts: "cnt_get (mon_accepted m) r = calls_of ((=) (Accept r)) cs"
    "cnt_get (mon_completed m) r = calls_of ((=) (Complete r)) (succeeded log)" for r
    using mon_run_counts [OF assms, of r t v] by (simp_all add: FullChipMonitor_init_def)
  have "is_ok (mon_assert_drained m) = (\<forall>r. cnt_get (mon_completed m) r = cnt_get (mon_accepted m) r)"
    by (simp add: mon_assert_drained_def cnt_eq_iff fun_eq_iff) metis
  then show ?thesis
    using mon_run_counts [OF assms, of r t v] counts by (simp add: FullChipMonitor_init_def)
qed

theorem monitor_conserves_witness:
  "cnt_get (mon_completed (snd (mon_run [Accept ''a'', Complete ''a'', Complete ''a'', Map_Kv ''t'' 7 9, Release_Kv ''t'' 7, Release_Kv ''t'' 7]
       (FullChipMonitor_init Map.empty Map.empty)))) ''a'' = 1"
proof -
  define cs where "cs = [Accept ''a'', Complete ''a'', Complete ''a'', Map_Kv ''t'' 7 9, Release_Kv ''t'' 7, Release_Kv ''t'' 7]"
  obtain log m where run: "mon_run cs (FullChipMonitor_init Map.empty Map.empty) = (log, m)" by fastforce
  have "log = [(Accept ''a'', Inr ()), (Complete ''a'', Inr ()), (Complete ''a'', Inl VerificationError),
      (Map_Kv ''t'' 7 9, Inr ()), (Release_Kv ''t'' 7, Inr ()), (Release_Kv ''t'' 7, Inl VerificationError)]"
    using run by (auto simp: cs_def mon_step_def mon_accept_def mon_complete_def mon_map_kv_def mon_release_kv_def
        FullChipMonitor_init_def Let_def)
  then show ?thesis
    using monitor_conserves [OF run, of "''a''"] run by (simp add: cs_def calls_of_def)
qed

section \<open>Closing the coverage\<close>

definition cov_sample_all :: "cov_point list \<Rightarrow> coverage \<Rightarrow> coverage" where
  "cov_sample_all ps cov = fold (\<lambda>p c. snd (cov_sample p c)) ps cov"

lemma required_bins_card: "card required_bins = 1280"
proof -
  have "card (set PAGE_SIZES) = 4" "card (set PRECISIONS) = 4" "card (set MASKS) = 4" "card (set PRIORITIES) = 4"
    "card (set FAULTS) = 5"
    by (simp_all add: bin_defs)
  then show ?thesis by (simp add: required_bins_def)
qed

text \<open>
  closing the cross needs every bin. There are 1280 bins, and after any samples \<open>close\<close>
  passes exactly when each of them is among the samples; illegal samples count for nothing.
\<close>

theorem coverage_closes_on_all_bins:
  "card required_bins = 1280 \<and>
   is_ok (cov_close (cov_sample_all ps CrossCoverage_init)) = (required_bins \<subseteq> set ps)"
proof -
  have "fst ` set (cov_sample_all ps cov) = fst ` set cov \<union> set ps \<inter> required_bins" for cov
    by (induction ps arbitrary: cov) (auto simp: cov_sample_all_def cov_sample_def)
  from this [of CrossCoverage_init] show ?thesis
    by (auto simp: cov_close_def required_bins_card CrossCoverage_init_def)
qed

end
