(* ===== verification/ChipTrace.thy ===== *)
theory ChipTrace
  imports Monitor PyText
begin

text \<open>
  \<open>run_trace\<close> of \<open>dv/phase9/invariants.py\<close>: it replays the operations of a trace on a fresh monitor
  and samples their coverage points. What a trace must satisfy is stated operation by operation,
  without the monitor.

  A trace is a dictionary read from JSON. Every key the code reads may be missing, which raises
  \<open>KeyError\<close> at that point, so the fields are options; the values have the types the monitor's
  annotations give. The keys of \<open>node_partitions\<close> are strings that \<open>int\<close> converts.
\<close>

section \<open>Traces\<close>

record trace_op =
  to_kind :: "string option"
  to_request_id :: "string option"
  to_tenant :: "string option"
  to_virtual_page :: "int option"
  to_physical_page :: "int option"
  to_address :: "int option"
  to_length :: "int option"
  to_dependencies :: "string list option"
  to_source :: "int option"
  to_destination :: "int option"
  to_page_size :: "int option"
  to_precision :: "string option"
  to_mask :: "string option"
  to_priority :: "int option"
  to_fault :: "string option"

record chip_trace =
  ct_dma_windows :: "(string \<times> int list) list option"
  ct_node_partitions :: "(string \<times> string) list option"
  ct_operations :: "trace_op list option"

text \<open>\<open>operation[key]\<close>\<close>

definition item :: "'a option \<Rightarrow> 'a res" where
  "item v = (case v of None \<Rightarrow> Inl KeyError | Some x \<Rightarrow> Inr x)"

lemma item_simps [simp]: "item None = Inl KeyError" "item (Some x) = Inr x"
  by (simp_all add: item_def)

text \<open>\<open>{int(node): partition for ...}\<close>: a later key that converts to the same number wins.\<close>

definition node_map :: "(string \<times> string) list \<Rightarrow> (int \<rightharpoonup> string) res" where
  "node_map nodes =
     bind_res (map_res (\<lambda>(node, partition). bind_res (parse_int node) (\<lambda>n. Inr (n, partition))) nodes)
       (\<lambda>ps. Inr (map_of (rev ps)))"

definition run_kind :: "string \<Rightarrow> trace_op \<Rightarrow> monitor \<Rightarrow> unit res \<times> monitor" where
  "run_kind kind op m =
     (if kind = ''kv'' then
        (case bind_res (item (to_tenant op)) (\<lambda>tenant. bind_res (item (to_virtual_page op)) (\<lambda>vp.
              bind_res (item (to_physical_page op)) (\<lambda>pp. Inr (tenant, vp, pp)))) of
           Inl e \<Rightarrow> (Inl e, m)
         | Inr (tenant, vp, pp) \<Rightarrow>
             let m1 = mon_map_kv tenant vp pp m in
             (bind_res (mon_read_kv tenant tenant vp m1) (\<lambda>_. Inr ()), m1))
      else if kind = ''dma'' then
        (bind_res (item (to_tenant op)) (\<lambda>tenant. bind_res (item (to_address op)) (\<lambda>address.
           bind_res (item (to_length op)) (\<lambda>len. mon_dma tenant address len m))), m)
      else if kind = ''scheduler'' then
        (case item (to_dependencies op) of Inl e \<Rightarrow> (Inl e, m)
         | Inr deps \<Rightarrow> let m1 = fold mon_dependency_ready deps m in (mon_issue deps m1, m1))
      else if kind = ''collective'' then
        (bind_res (item (to_source op)) (\<lambda>source. bind_res (item (to_destination op)) (\<lambda>destination.
           mon_route_collective source destination m)), m)
      else (Inl VerificationError, m))"

definition op_point :: "trace_op \<Rightarrow> cov_point res" where
  "op_point op =
     bind_res (item (to_page_size op)) (\<lambda>psize. bind_res (item (to_precision op)) (\<lambda>precision.
     bind_res (item (to_mask op)) (\<lambda>m. bind_res (item (to_priority op)) (\<lambda>prio.
     bind_res (item (to_fault op)) (\<lambda>flt. Inr (psize, precision, m, prio, flt))))))"

fun run_operations :: "trace_op list \<Rightarrow> monitor \<Rightarrow> coverage \<Rightarrow> (monitor \<times> coverage) res" where
  "run_operations [] m cov = Inr (m, cov)"
| "run_operations (op # ops) m cov =
     bind_res (item (to_kind op)) (\<lambda>kind.
     bind_res (item (to_request_id op)) (\<lambda>rid.
     case run_kind kind op (mon_accept rid m) of
        (Inl e, _) \<Rightarrow> Inl e
      | (Inr _, m1) \<Rightarrow>
        (case mon_complete rid m1 of
           (Inl e, _) \<Rightarrow> Inl e
         | (Inr _, m2) \<Rightarrow>
           bind_res (op_point op) (\<lambda>point.
           case cov_sample point cov of
              (Inl e, _) \<Rightarrow> Inl e
            | (Inr _, cov1) \<Rightarrow> run_operations ops m2 cov1))))"

definition run_trace :: "chip_trace \<Rightarrow> (monitor \<times> coverage) res" where
  "run_trace trace =
     bind_res (item (ct_dma_windows trace)) (\<lambda>windows.
     bind_res (item (ct_node_partitions trace)) (\<lambda>nodes. bind_res (node_map nodes) (\<lambda>partitions.
     bind_res (item (ct_operations trace)) (\<lambda>operations.
     bind_res (run_operations operations (FullChipMonitor_init (map_of windows) partitions) CrossCoverage_init) (\<lambda>(m, cov).
     bind_res (mon_assert_drained m) (\<lambda>_. Inr (m, cov)))))))"

section \<open>What \<open>run_trace\<close> accepts\<close>

text \<open>What one operation raises, from its own fields and the two tables of the trace.\<close>

definition kind_verdict :: "(string \<rightharpoonup> int list) \<Rightarrow> (int \<rightharpoonup> string) \<Rightarrow> string \<Rightarrow> trace_op \<Rightarrow> unit res" where
  "kind_verdict windows partitions kind op =
     (if kind = ''kv'' then
        (if None \<in> {to_virtual_page op, to_physical_page op} \<or> to_tenant op = None then Inl KeyError else Inr ())
      else if kind = ''dma'' then
        (case (to_tenant op, to_address op, to_length op) of
           (Some tenant, Some address, Some len) \<Rightarrow>
             if len \<le> 0 \<or> windows tenant = None then Inl VerificationError
             else (case the (windows tenant) of
                [lower, upper] \<Rightarrow> if lower \<le> address \<and> address + len \<le> upper then Inr () else Inl VerificationError
              | _ \<Rightarrow> Inl ValueError)
         | _ \<Rightarrow> Inl KeyError)
      else if kind = ''scheduler'' then (if to_dependencies op = None then Inl KeyError else Inr ())
      else if kind = ''collective'' then
        (case (to_source op, to_destination op) of
           (Some s, Some d) \<Rightarrow> if partitions s = partitions d then Inr () else Inl VerificationError
         | _ \<Rightarrow> Inl KeyError)
      else Inl VerificationError)"

definition op_verdict :: "(string \<rightharpoonup> int list) \<Rightarrow> (int \<rightharpoonup> string) \<Rightarrow> trace_op \<Rightarrow> unit res" where
  "op_verdict windows partitions op =
     (if to_kind op = None \<or> to_request_id op = None then Inl KeyError
      else bind_res (kind_verdict windows partitions (the (to_kind op)) op) (\<lambda>_.
        bind_res (op_point op) (\<lambda>point. if point \<in> required_bins then Inr () else Inl VerificationError)))"

definition monitors :: "(string \<rightharpoonup> int list) \<Rightarrow> (int \<rightharpoonup> string) \<Rightarrow> monitor \<Rightarrow> bool" where
  "monitors windows partitions m \<longleftrightarrow> mon_dma_windows m = windows \<and> mon_node_partitions m = partitions"

lemma dependencies_ready:
  "mon_ready_dependencies (fold mon_dependency_ready deps m) = set deps \<union> mon_ready_dependencies m"
  "mon_dma_windows (fold mon_dependency_ready deps m) = mon_dma_windows m"
  "mon_node_partitions (fold mon_dependency_ready deps m) = mon_node_partitions m"
  "mon_accepted (fold mon_dependency_ready deps m) = mon_accepted m"
  "mon_completed (fold mon_dependency_ready deps m) = mon_completed m"
  by (induction deps arbitrary: m) (simp_all add: mon_dependency_ready_def)

text \<open>The monitor agrees with the verdict and keeps its counts and tables.\<close>

lemma run_kind_verdict:
  assumes "monitors windows partitions m"
  obtains m1 where "run_kind kind op m = (kind_verdict windows partitions kind op, m1)"
    "monitors windows partitions m1" "mon_accepted m1 = mon_accepted m" "mon_completed m1 = mon_completed m"
proof -
  consider "kind = ''kv''" | "kind = ''dma''" | "kind = ''scheduler''" | "kind = ''collective''"
    | "kind \<notin> {''kv'', ''dma'', ''scheduler'', ''collective''}" by blast
  then have "\<exists>m1. run_kind kind op m = (kind_verdict windows partitions kind op, m1) \<and>
      monitors windows partitions m1 \<and> mon_accepted m1 = mon_accepted m \<and> mon_completed m1 = mon_completed m"
  proof cases
    case 1
    then show ?thesis using assms
      by (cases "to_tenant op"; cases "to_virtual_page op"; cases "to_physical_page op")
        (simp_all add: run_kind_def kind_verdict_def mon_map_kv_def mon_read_kv_def Let_def monitors_def)
  next
    case 2
    then show ?thesis using assms
      by (cases "to_tenant op"; cases "to_address op"; cases "to_length op")
        (auto simp: run_kind_def kind_verdict_def mon_dma_def Let_def monitors_def split: option.split list.split)
  next
    case 3
    then show ?thesis using assms
      by (cases "to_dependencies op")
        (auto simp: run_kind_def kind_verdict_def mon_issue_def Let_def monitors_def dependencies_ready list_ex_iff)
  next
    case 4
    then show ?thesis using assms
      by (cases "to_source op"; cases "to_destination op")
        (simp_all add: run_kind_def kind_verdict_def mon_route_collective_def monitors_def)
  next
    case 5
    then show ?thesis using assms by (simp add: run_kind_def kind_verdict_def)
  qed
  then show ?thesis using that by blast
qed

text \<open>The counts after the operations \<open>ops\<close>.\<close>

definition counted :: "trace_op list \<Rightarrow> monitor \<Rightarrow> coverage \<Rightarrow> monitor \<Rightarrow> coverage \<Rightarrow> bool" where
  "counted ops m cov m' cov' \<longleftrightarrow>
     cnt_get (mon_completed m') = cnt_get (mon_accepted m') \<and>
     cnt_get (mon_accepted m') = (\<lambda>r. cnt_get (mon_accepted m) r + int (count_list (map to_request_id ops) (Some r))) \<and>
     cnt_get cov' = (\<lambda>p. cnt_get cov p + int (count_list (map op_point ops) (Inr p)))"

lemma run_operations_verdict:
  assumes "monitors windows partitions m" and "cnt_get (mon_completed m) = cnt_get (mon_accepted m)"
  shows "case check_all (op_verdict windows partitions) ops of
      Inl e \<Rightarrow> run_operations ops m cov = Inl e
    | Inr _ \<Rightarrow> \<exists>m' cov'. run_operations ops m cov = Inr (m', cov') \<and> counted ops m cov m' cov'"
  using assms
proof (induction ops arbitrary: m cov)
  case Nil
  then show ?case by (simp add: counted_def)
next
  case (Cons op ops)
  show ?case
  proof (cases "to_kind op = None \<or> to_request_id op = None")
    case True
    then show ?thesis
      by (cases "to_kind op"; cases "to_request_id op") (simp_all add: op_verdict_def)
  next
    case False
    then obtain kind rid where op: "to_kind op = Some kind" "to_request_id op = Some rid" by auto
    define m0 where "m0 = mon_accept rid m"
    have m0: "monitors windows partitions m0" "cnt_get (mon_completed m0) = cnt_get (mon_accepted m)"
      "cnt_get (mon_accepted m0) = (cnt_get (mon_accepted m))(rid := cnt_get (mon_accepted m) rid + 1)"
      using Cons.prems by (simp_all add: m0_def mon_accept_def monitors_def)
    obtain m1 where m1: "run_kind kind op m0 = (kind_verdict windows partitions kind op, m1)"
      "monitors windows partitions m1" "mon_accepted m1 = mon_accepted m0" "mon_completed m1 = mon_completed m0"
      by (rule run_kind_verdict [OF m0(1)])
    show ?thesis
    proof (cases "op_verdict windows partitions op")
      case (Inl e)
      then show ?thesis using m1 m0 op
        by (cases "kind_verdict windows partitions kind op"; cases "op_point op")
          (auto simp: op_verdict_def m0_def [symmetric] mon_complete_def cov_sample_def split: if_splits)
    next
      case (Inr u)
      then obtain point where point: "op_point op = Inr point" "point \<in> required_bins"
          "kind_verdict windows partitions kind op = Inr ()"
        by (auto simp: op_verdict_def op bind_res_Inr split: if_splits)
      define m2 where "m2 = m1\<lparr>mon_completed := cnt_add rid 1 (mon_completed m1)\<rparr>"
      define cov1 where "cov1 = cnt_add point 1 cov"
      have step: "run_operations (op # ops) m cov = run_operations ops m2 cov1"
        using m1 m0 point by (simp add: op m0_def [symmetric] mon_complete_def cov_sample_def m2_def cov1_def)
      have m2: "monitors windows partitions m2" "cnt_get (mon_completed m2) = cnt_get (mon_accepted m2)"
        "cnt_get (mon_accepted m2) = (cnt_get (mon_accepted m))(rid := cnt_get (mon_accepted m) rid + 1)"
        using m1 m0 by (simp_all add: m2_def monitors_def)
      have "counted (op # ops) m cov m' cov'" if "counted ops m2 cov1 m' cov'" for m' cov'
        using that by (auto simp: counted_def m2(3) cov1_def op point fun_eq_iff)
      with Cons.IH [OF m2(1,2), of cov1] show ?thesis
        unfolding step by (auto simp: Inr split: sum.splits)
    qed
  qed
qed

lemma verdict_errors:
  assumes "check_all (op_verdict windows partitions) ops = Inl e"
  shows "e \<in> {KeyError, ValueError, VerificationError}"
proof -
  have kind: "e \<in> {KeyError, ValueError, VerificationError}" if "kind_verdict windows partitions kind op = Inl e" for kind op
    using that by (auto simp: kind_verdict_def split: if_splits option.splits prod.splits list.splits)
  have "e \<in> {KeyError, ValueError, VerificationError}" if "op_verdict windows partitions op = Inl e" for op
    using that kind
    by (fastforce simp: op_verdict_def op_point_def bind_res_def item_def split: if_splits option.splits sum.splits)
  then show ?thesis using assms by (induction ops) (auto split: sum.splits)
qed

lemma node_map_error: "node_map nodes = Inl e \<Longrightarrow> e = ValueError"
proof -
  have "map_res (\<lambda>(node, partition). bind_res (parse_int node) (\<lambda>n. Inr (n, partition))) xs = Inl e \<Longrightarrow> e = ValueError"
    for xs :: "(string \<times> string) list"
    by (induction xs) (auto simp: bind_res_def parse_int_def Let_def split: sum.splits if_splits option.splits)
  then show "node_map nodes = Inl e \<Longrightarrow> e = ValueError"
    by (auto simp: node_map_def bind_res_def split: sum.splits)
qed

text \<open>The trace with everything it needs to start.\<close>

lemma run_trace_found:
  assumes found: "ct_dma_windows trace = Some windows" "ct_node_partitions trace = Some nodes" "node_map nodes = Inr partitions"
    "ct_operations trace = Some ops"
  shows "check_all (op_verdict (map_of windows) partitions) ops = (case run_trace trace of Inl e \<Rightarrow> Inl e | Inr _ \<Rightarrow> Inr ()) \<and>
   (case run_trace trace of Inl e \<Rightarrow> e \<in> {KeyError, ValueError, VerificationError}
    | Inr (m, cov) \<Rightarrow> cnt_get (mon_completed m) r = cnt_get (mon_accepted m) r \<and>
        cnt_get (mon_accepted m) r = int (count_list (map to_request_id ops) (Some r)) \<and>
        cnt_get cov p = int (count_list (map op_point ops) (Inr p)))"
proof -
  define m0 where "m0 = FullChipMonitor_init (map_of windows) partitions"
  have m0: "monitors (map_of windows) partitions m0" "cnt_get (mon_completed m0) = cnt_get (mon_accepted m0)"
    "cnt_get (mon_accepted m0) = (\<lambda>_. 0)"
    by (simp_all add: m0_def FullChipMonitor_init_def monitors_def fun_eq_iff)
  note run = run_operations_verdict [OF m0(1,2), of ops CrossCoverage_init]
  show ?thesis
  proof (cases "check_all (op_verdict (map_of windows) partitions) ops")
    case (Inl e)
    then show ?thesis using run verdict_errors [OF Inl]
      by (simp add: run_trace_def found m0_def [symmetric])
  next
    case (Inr u)
    then obtain m cov where "run_operations ops m0 CrossCoverage_init = Inr (m, cov)"
        "counted ops m0 CrossCoverage_init m cov" using run by auto
    then show ?thesis
      by (simp add: run_trace_def found m0_def [symmetric] Inr mon_assert_drained_def
          cnt_eq_iff counted_def m0(3) CrossCoverage_init_def)
  qed
qed

text \<open>
  C22: what a trace must satisfy. \<open>run_trace\<close> raises exactly what the first offending operation raises
  by its own fields (a missing key, a window that is no pair, a DMA outside its window, a collective
  between partitions, an unknown kind, a coverage point that is no bin), after the errors of the
  tables, and succeeds on all other traces. On success every request id was accepted and completed
  once per operation and the hits count the operations. The page, dependency and completion checks
  of the monitor never fail in it, because \<open>run_trace\<close> itself maps the page, marks the dependencies
  and accepts the request just before.
\<close>

theorem run_trace_accepts:
  "bind_res (item (ct_dma_windows trace)) (\<lambda>windows.
     bind_res (item (ct_node_partitions trace)) (\<lambda>nodes. bind_res (node_map nodes) (\<lambda>partitions.
     bind_res (item (ct_operations trace)) (check_all (op_verdict (map_of windows) partitions))))) =
     (case run_trace trace of Inl e \<Rightarrow> Inl e | Inr _ \<Rightarrow> Inr ()) \<and>
   (case run_trace trace of Inl e \<Rightarrow> e \<in> {KeyError, ValueError, VerificationError}
    | Inr (m, cov) \<Rightarrow> \<exists>ops. ct_operations trace = Some ops \<and> cnt_get (mon_completed m) r = cnt_get (mon_accepted m) r \<and>
        cnt_get (mon_accepted m) r = int (count_list (map to_request_id ops) (Some r)) \<and>
        cnt_get cov p = int (count_list (map op_point ops) (Inr p)))"
proof -
  consider "ct_dma_windows trace = None"
    | windows where "ct_dma_windows trace = Some windows" "ct_node_partitions trace = None"
    | windows nodes e where "ct_dma_windows trace = Some windows" "ct_node_partitions trace = Some nodes" "node_map nodes = Inl e"
    | windows nodes partitions where "ct_dma_windows trace = Some windows" "ct_node_partitions trace = Some nodes"
        "node_map nodes = Inr partitions" "ct_operations trace = None"
    | windows nodes partitions ops where "ct_dma_windows trace = Some windows" "ct_node_partitions trace = Some nodes"
        "node_map nodes = Inr partitions" "ct_operations trace = Some ops"
    by (metis option.exhaust sum.exhaust)
  then show ?thesis
  proof cases
    case (3 windows nodes e)
    then show ?thesis using node_map_error [OF 3(3)] by (simp add: run_trace_def)
  next
    case (5 windows nodes partitions ops)
    then show ?thesis using run_trace_found [OF 5, of r p] by (auto split: sum.splits)
  qed (simp_all add: run_trace_def)
qed

text \<open>The trace shipped as \<open>sim/workloads/phase9_full_chip_trace.json\<close> passes.\<close>

definition blank_op :: trace_op where
  "blank_op = \<lparr>to_kind = None, to_request_id = None, to_tenant = None, to_virtual_page = None, to_physical_page = None,
     to_address = None, to_length = None, to_dependencies = None, to_source = None, to_destination = None,
     to_page_size = None, to_precision = None, to_mask = None, to_priority = None, to_fault = None\<rparr>"

definition pointed :: "int \<Rightarrow> string \<Rightarrow> string \<Rightarrow> int \<Rightarrow> string \<Rightarrow> trace_op \<Rightarrow> trace_op" where
  "pointed psize precision m prio flt op =
     op\<lparr>to_page_size := Some psize, to_precision := Some precision, to_mask := Some m, to_priority := Some prio,
        to_fault := Some flt\<rparr>"

definition shipped_trace :: chip_trace where
  "shipped_trace = \<lparr>
     ct_dma_windows = Some [(''tenant-a'', [4096, 8192]), (''tenant-b'', [8192, 12288])],
     ct_node_partitions = Some [(''0'', ''domain-a''), (''1'', ''domain-a''), (''2'', ''domain-b''), (''3'', ''domain-b'')],
     ct_operations = Some [
       pointed 16 ''int4'' ''causal'' 3 ''none'' (blank_op\<lparr>to_kind := Some ''kv'', to_request_id := Some ''repo-edit-001-kv'',
         to_tenant := Some ''tenant-a'', to_virtual_page := Some 16, to_physical_page := Some 256\<rparr>),
       pointed 32 ''fp4'' ''sliding'' 2 ''retry'' (blank_op\<lparr>to_kind := Some ''dma'', to_request_id := Some ''repo-edit-001-dma'',
         to_tenant := Some ''tenant-a'', to_address := Some 4352, to_length := Some 512\<rparr>),
       pointed 64 ''fp8'' ''sink'' 3 ''kv_miss'' (blank_op\<lparr>to_kind := Some ''scheduler'', to_request_id := Some ''repo-edit-001-token'',
         to_dependencies := Some [''kv-ready'', ''weights-ready'']\<rparr>),
       pointed 128 ''bf16'' ''sparse'' 1 ''ecc'' (blank_op\<lparr>to_kind := Some ''collective'', to_request_id := Some ''repo-edit-001-reduce'',
         to_source := Some 0, to_destination := Some 1\<rparr>)]\<rparr>"

lemma shipped_trace_passes: "is_ok (run_trace shipped_trace)"
proof -
  have "map parse_int [''0'', ''1'', ''2'', ''3''] = [Inr 0, Inr 1, Inr 2, Inr 3]" by code_simp
  then show ?thesis
    by (simp add: run_trace_def shipped_trace_def node_map_def pointed_def blank_op_def op_point_def run_kind_def
        mon_accept_def mon_complete_def mon_map_kv_def mon_read_kv_def mon_dma_def mon_issue_def mon_dependency_ready_def
        mon_route_collective_def FullChipMonitor_init_def CrossCoverage_init_def cov_sample_def bin_defs
        mon_assert_drained_def cnt_eq_iff Let_def)
qed

end
