(* ===== verification/Backpressure.thy ===== *)
theory Backpressure
  imports Prelude
begin

text \<open>
  \<open>exhaust_legal_backpressure\<close> of \<open>dv/phase9/invariants.py\<close>: a breadth-first search over the
  states of a bounded valid/ready queue.

  The \<open>while pending\<close> may run forever (for a negative \<open>steps\<close> the cut-off is never reached), so it
  is a \<open>partial_function\<close> whose value is \<open>None\<close> when it does not end; for the legal arguments it
  is proved to end. The abstract specification is the step relation \<open>bp_step\<close>.
\<close>

section \<open>The search\<close>

type_synonym bp_state = "int \<times> int \<times> int"

text \<open>The body of the loop over \<open>product((False, True), repeat=2)\<close>: the next state, if there is one.\<close>

definition bp_next :: "int \<Rightarrow> bp_state \<Rightarrow> bool \<times> bool \<Rightarrow> bp_state option" where
  "bp_next depth st move =
     (case st of (occupancy, stall_age, elapsed) \<Rightarrow> case move of (enqueue, dequeue) \<Rightarrow>
        if enqueue \<and> occupancy = depth then None
        else if dequeue \<and> occupancy = 0 then None
        else let next_occupancy = occupancy + of_bool enqueue - of_bool dequeue;
            next_stall = (if dequeue then 0 else if occupancy \<noteq> 0 then stall_age + 1 else 0) in
          if next_stall > depth then None
          else Some (next_occupancy, next_stall, elapsed + 1))"

definition bp_moves :: "(bool \<times> bool) list" where
  "bp_moves = [(False, False), (False, True), (True, False), (True, True)]"

definition bp_visit :: "int \<Rightarrow> bp_state \<Rightarrow> bool \<times> bool \<Rightarrow> bp_state list \<times> bp_state set \<Rightarrow> bp_state list \<times> bp_state set" where
  "bp_visit depth st move pv =
     (case bp_next depth st move of None \<Rightarrow> pv
      | Some st' \<Rightarrow>
        (case pv of (pending, visited) \<Rightarrow>
          if st' \<in> visited then (pending, visited) else (pending @ [st'], insert st' visited)))"

partial_function (option) bp_loop :: "int \<Rightarrow> int \<Rightarrow> bp_state list \<Rightarrow> bp_state set \<Rightarrow> int res option" where
  "bp_loop depth steps pending visited =
     (case pending of [] \<Rightarrow> Some (Inr (int (card visited)))
      | st # rest \<Rightarrow>
        (case st of (occupancy, stall_age, elapsed) \<Rightarrow>
          if \<not> (0 \<le> occupancy \<and> occupancy \<le> depth) then Some (Inl VerificationError)
          else if elapsed = steps then bp_loop depth steps rest visited
          else (case fold (bp_visit depth st) bp_moves (rest, visited) of
            (pending', visited') \<Rightarrow> bp_loop depth steps pending' visited')))"

definition exhaust_legal_backpressure :: "int \<Rightarrow> int \<Rightarrow> int res option" where
  "exhaust_legal_backpressure depth steps = bp_loop depth steps [(0, 0, 0)] {(0, 0, 0)}"

declare bp_loop.simps [code]

lemma bp_demo: "exhaust_legal_backpressure 1 2 = Some (Inr 6)"
  by code_simp

section \<open>The abstract state space\<close>

inductive bp_step :: "int \<Rightarrow> bp_state \<Rightarrow> bp_state \<Rightarrow> bool" for depth where
  hold: "(if occ = 0 then stall' = 0 else stall' = stall + 1) \<Longrightarrow> stall' \<le> depth \<Longrightarrow>
     bp_step depth (occ, stall, t) (occ, stall', t + 1)"
| leave: "0 < occ \<Longrightarrow> bp_step depth (occ, stall, t) (occ - 1, 0, t + 1)"
| enter: "occ < depth \<Longrightarrow> (if occ = 0 then stall' = 0 else stall' = stall + 1) \<Longrightarrow> stall' \<le> depth \<Longrightarrow>
     bp_step depth (occ, stall, t) (occ + 1, stall', t + 1)"
| pass_on: "0 < occ \<Longrightarrow> occ < depth \<Longrightarrow> bp_step depth (occ, stall, t) (occ, 0, t + 1)"

inductive_cases bp_stepE: "bp_step depth s s'"

inductive bp_reach :: "int \<Rightarrow> int \<Rightarrow> bp_state \<Rightarrow> bool" for depth steps where
  start: "bp_reach depth steps (0, 0, 0)"
| further: "bp_reach depth steps (occ, stall, t) \<Longrightarrow> t \<noteq> steps \<Longrightarrow> bp_step depth (occ, stall, t) s' \<Longrightarrow>
     bp_reach depth steps s'"

lemma bp_reach_bounds:
  assumes "bp_reach depth steps s" and "0 \<le> depth" and "0 \<le> steps"
  shows "case s of (occ, stall, t) \<Rightarrow> 0 \<le> occ \<and> occ \<le> depth \<and> 0 \<le> stall \<and> stall \<le> depth \<and> 0 \<le> t \<and> t \<le> steps"
  using assms
proof (induction rule: bp_reach.induct)
  case (further occ stall t s')
  then show ?case by (auto elim!: bp_stepE split: if_splits)
qed simp

text \<open>\<open>bp_next\<close> computes the steps.\<close>

lemma bp_next_step:
  assumes "0 \<le> occ" "occ \<le> depth" "0 \<le> depth"
  shows "(\<exists>mv \<in> set bp_moves. bp_next depth (occ, stall, t) mv = Some s') \<longleftrightarrow> bp_step depth (occ, stall, t) s'"
proof
  assume "bp_step depth (occ, stall, t) s'"
  then show "\<exists>mv \<in> set bp_moves. bp_next depth (occ, stall, t) mv = Some s'"
  proof cases
    case hold
    then show ?thesis by (intro bexI [of _ "(False, False)"]) (auto simp: bp_next_def bp_moves_def Let_def)
  next
    case leave
    then show ?thesis using assms by (intro bexI [of _ "(False, True)"]) (auto simp: bp_next_def bp_moves_def Let_def)
  next
    case enter
    then show ?thesis by (intro bexI [of _ "(True, False)"]) (auto simp: bp_next_def bp_moves_def Let_def)
  next
    case pass_on
    then show ?thesis using assms by (intro bexI [of _ "(True, True)"]) (auto simp: bp_next_def bp_moves_def Let_def)
  qed
next
  assume "\<exists>mv \<in> set bp_moves. bp_next depth (occ, stall, t) mv = Some s'"
  then show "bp_step depth (occ, stall, t) s'"
    using assms bp_step.enter [of occ depth "if occ = 0 then 0 else stall + 1" stall t]
      bp_step.hold [of occ "if occ = 0 then 0 else stall + 1" stall depth t]
      bp_step.leave [of occ depth stall t] bp_step.pass_on [of occ depth stall t]
    by (auto simp: bp_moves_def bp_next_def Let_def split: if_splits)
qed

section \<open>The search visits exactly the reachable states\<close>

definition bp_successors :: "int \<Rightarrow> bp_state \<Rightarrow> bp_state set" where
  "bp_successors depth st = {s'. \<exists>mv \<in> set bp_moves. bp_next depth st mv = Some s'}"

lemma fold_visit:
  "\<exists>new. fold (bp_visit depth st) mvs (pending, visited) = (pending @ new, visited \<union> set new) \<and>
     distinct new \<and> set new \<inter> visited = {} \<and>
     visited \<union> set new = visited \<union> {s'. \<exists>mv \<in> set mvs. bp_next depth st mv = Some s'}"
proof (induction mvs arbitrary: pending visited)
  case (Cons mv mvs)
  show ?case
  proof (cases "bp_next depth st mv")
    case None
    then have "bp_visit depth st mv (pending, visited) = (pending, visited)" by (simp add: bp_visit_def)
    with Cons.IH [of pending visited] None show ?thesis by simp
  next
    case (Some s')
    show ?thesis
    proof (cases "s' \<in> visited")
      case True
      with Some have "bp_visit depth st mv (pending, visited) = (pending, visited)" by (simp add: bp_visit_def)
      moreover have "visited \<union> {s'. \<exists>mv \<in> set (mv # mvs). bp_next depth st mv = Some s'}
          = visited \<union> {s'. \<exists>mv \<in> set mvs. bp_next depth st mv = Some s'}" using True Some by auto
      ultimately show ?thesis using Cons.IH [of pending visited] by (simp only: fold.simps o_apply)
    next
      case False
      with Some have step: "bp_visit depth st mv (pending, visited) = (pending @ [s'], insert s' visited)"
        by (simp add: bp_visit_def)
      obtain new where new: "fold (bp_visit depth st) mvs (pending @ [s'], insert s' visited)
          = ((pending @ [s']) @ new, insert s' visited \<union> set new)" "distinct new" "set new \<inter> insert s' visited = {}"
        "insert s' visited \<union> set new = insert s' visited \<union> {s'. \<exists>mv \<in> set mvs. bp_next depth st mv = Some s'}"
        using Cons.IH [of "pending @ [s']" "insert s' visited"] by blast
      have "visited \<union> set (s' # new) = visited \<union> {t. \<exists>mv \<in> set (mv # mvs). bp_next depth st mv = Some t}"
        using new(4) Some by auto
      then show ?thesis
        using new(1-3) step False by (intro exI [of _ "s' # new"]) auto
    qed
  qed
qed (auto intro: exI [of _ "[]"])

text \<open>What holds at the head of the loop: the states taken off the queue are fully expanded.\<close>

definition bp_inv :: "int \<Rightarrow> int \<Rightarrow> bp_state list \<Rightarrow> bp_state set \<Rightarrow> bool" where
  "bp_inv depth steps pending visited \<longleftrightarrow>
     finite visited \<and> (0, 0, 0) \<in> visited \<and> (\<forall>s \<in> visited. bp_reach depth steps s) \<and>
     distinct pending \<and> set pending \<subseteq> visited \<and>
     (\<forall>s \<in> visited - set pending. snd (snd s) \<noteq> steps \<longrightarrow> bp_successors depth s \<subseteq> visited)"

definition bp_universe :: "int \<Rightarrow> int \<Rightarrow> bp_state set" where
  "bp_universe depth steps = {0..depth} \<times> {0..depth} \<times> {0..steps}"

lemma reach_universe:
  assumes "0 \<le> depth" "0 \<le> steps" "bp_reach depth steps s"
  shows "s \<in> bp_universe depth steps"
  using bp_reach_bounds [OF assms(3,1,2)] by (cases s) (simp add: bp_universe_def)

lemma bp_closed_reach:
  assumes d: "0 \<le> depth" "0 \<le> steps" and inv: "bp_inv depth steps [] visited"
  shows "visited = {s. bp_reach depth steps s}"
proof -
  have "s \<in> visited" if "bp_reach depth steps s" for s
    using that
  proof (induction rule: bp_reach.induct)
    case start
    then show ?case using inv by (simp add: bp_inv_def)
  next
    case (further occ stall t s')
    have "0 \<le> occ" "occ \<le> depth" using bp_reach_bounds [OF further.hyps(1) d] by simp_all
    then have "s' \<in> bp_successors depth (occ, stall, t)"
      using bp_next_step [of occ depth stall t s'] further.hyps(3) d(1) by (simp add: bp_successors_def)
    then show ?case using inv further.IH further.hyps(2) by (fastforce simp: bp_inv_def)
  qed
  then show ?thesis using inv by (auto simp: bp_inv_def)
qed

lemma bp_loop_total:
  assumes d: "0 \<le> depth" "0 \<le> steps" and inv: "bp_inv depth steps pending visited"
  shows "bp_loop depth steps pending visited = Some (Inr (int (card {s. bp_reach depth steps s})))"
  using inv
proof (induction "card (bp_universe depth steps - visited) + length pending" arbitrary: pending visited rule: less_induct)
  case less
  have fin: "finite (bp_universe depth steps)" by (simp add: bp_universe_def)
  show ?case
  proof (cases pending)
    case Nil
    then show ?thesis
      using bp_closed_reach [OF d] less.prems by (subst bp_loop.simps) simp
  next
    case (Cons st rest)
    obtain occ stall t where st: "st = (occ, stall, t)" by (cases st)
    have reach: "bp_reach depth steps (occ, stall, t)" using less.prems Cons st by (auto simp: bp_inv_def)
    then have bounds: "0 \<le> occ" "occ \<le> depth" using bp_reach_bounds [OF reach d] by simp_all
    show ?thesis
    proof (cases "t = steps")
      case True
      have "bp_inv depth steps rest visited"
        using less.prems Cons st True by (auto simp: bp_inv_def)
      moreover have "bp_loop depth steps pending visited = bp_loop depth steps rest visited"
        using Cons st bounds True by (subst bp_loop.simps) simp
      ultimately show ?thesis using less.hyps [of visited rest] Cons by simp
    next
      case False
      obtain new where new: "fold (bp_visit depth st) bp_moves (rest, visited) = (rest @ new, visited \<union> set new)"
        "distinct new" "set new \<inter> visited = {}" "visited \<union> set new = visited \<union> bp_successors depth st"
        using fold_visit [of depth st bp_moves rest visited] by (auto simp: bp_successors_def)
      have succ: "bp_reach depth steps s'" if "s' \<in> bp_successors depth st" for s'
        using that bp_next_step [OF bounds d(1)] reach False st by (auto simp: bp_successors_def intro: bp_reach.further)
      have reach': "\<forall>s \<in> visited \<union> set new. bp_reach depth steps s"
        unfolding new(4) using succ less.prems by (auto simp: bp_inv_def)
      have inv': "bp_inv depth steps (rest @ new) (visited \<union> set new)"
        unfolding bp_inv_def
      proof (intro conjI ballI impI)
        fix s assume s: "s \<in> (visited \<union> set new) - set (rest @ new)" "snd (snd s) \<noteq> steps"
        show "bp_successors depth s \<subseteq> visited \<union> set new"
        proof (cases "s = st")
          case True
          then show ?thesis using new(4) by auto
        next
          case other: False
          then have "s \<in> visited - set pending" using s Cons by auto
          then show ?thesis using less.prems s(2) by (auto simp: bp_inv_def)
        qed
      qed (use less.prems Cons new(2,3) reach' in \<open>auto simp: bp_inv_def\<close>)
      have step: "bp_loop depth steps pending visited = bp_loop depth steps (rest @ new) (visited \<union> set new)"
        using Cons st bounds False new(1) by (subst bp_loop.simps) simp
      have "set new \<subseteq> bp_universe depth steps - visited"
        using reach' new(3) reach_universe [OF d] by auto
      then have "card (bp_universe depth steps - visited) = card (bp_universe depth steps - visited - set new) + length new"
        using fin new(2) card_Diff_subset [of "set new" "bp_universe depth steps - visited"]
          card_mono [of "bp_universe depth steps - visited" "set new"] by (simp add: distinct_card)
      then have "card (bp_universe depth steps - (visited \<union> set new)) + length (rest @ new)
          < card (bp_universe depth steps - visited) + length pending"
        using Cons by (simp add: Diff_eq Int_assoc Compl_Un)
      from less.hyps [OF this inv'] show ?thesis using step by simp
    qed
  qed
qed

text \<open>
  C24: the search ends and counts the state space. For a queue depth and a step bound that are not
  negative, the loop terminates without a \<open>VerificationError\<close> and returns the number of states
  reachable by the valid/ready steps, at most \<open>(depth + 1) ^ 2 * (steps + 1)\<close>.
\<close>

theorem backpressure_search_ends:
  assumes "0 \<le> depth" and "0 \<le> steps"
  shows "exhaust_legal_backpressure depth steps = Some (Inr (int (card {s. bp_reach depth steps s}))) \<and>
    int (card {s. bp_reach depth steps s}) \<le> (depth + 1) * (depth + 1) * (steps + 1)"
proof
  have "bp_inv depth steps [(0, 0, 0)] {(0, 0, 0)}" by (simp add: bp_inv_def bp_reach.start)
  from bp_loop_total [OF assms this]
  show "exhaust_legal_backpressure depth steps = Some (Inr (int (card {s. bp_reach depth steps s})))"
    by (simp add: exhaust_legal_backpressure_def)
  have "{s. bp_reach depth steps s} \<subseteq> bp_universe depth steps" using reach_universe [OF assms] by auto
  then have "card {s. bp_reach depth steps s} \<le> card (bp_universe depth steps)"
    by (rule card_mono [rotated]) (simp add: bp_universe_def)
  also have "card (bp_universe depth steps) = nat (depth + 1) * (nat (depth + 1) * nat (steps + 1))"
    by (simp add: bp_universe_def card_cartesian_product)
  finally have "int (card {s. bp_reach depth steps s}) \<le> int (nat (depth + 1) * (nat (depth + 1) * nat (steps + 1)))"
    by (simp only: of_nat_le_iff)
  also have "\<dots> = (depth + 1) * (depth + 1) * (steps + 1)" using assms by (simp add: algebra_simps)
  finally show "int (card {s. bp_reach depth steps s}) \<le> (depth + 1) * (depth + 1) * (steps + 1)" .
qed

theorem backpressure_search_ends_witness:
  "exhaust_legal_backpressure 1 2 = Some (Inr (int (card {s. bp_reach 1 2 s}))) \<and> card {s. bp_reach 1 2 s} = 6"
  using backpressure_search_ends [of 1 2] bp_demo by simp

section \<open>Draining\<close>

text \<open>A sequence of moves, each taken by the body of the loop; \<open>None\<close> when one of them is skipped.\<close>

fun bp_run :: "int \<Rightarrow> bp_state \<Rightarrow> (bool \<times> bool) list \<Rightarrow> bp_state option" where
  "bp_run depth st [] = Some st"
| "bp_run depth st (move # moves) =
     (case bp_next depth st move of None \<Rightarrow> None | Some st' \<Rightarrow> bp_run depth st' moves)"

lemma bp_run_snoc: "bp_run depth st (moves @ [move]) = Option.bind (bp_run depth st moves) (\<lambda>st'. bp_next depth st' move)"
  by (induction moves arbitrary: st) (auto split: option.split)

lemma bp_moves_all: "move \<in> set bp_moves"
  by (cases move) (auto simp: bp_moves_def)

lemma bp_next_bounds:
  assumes "bp_next depth (occ, stall, t) move = Some (occ', stall', t')" and "0 \<le> occ" "occ \<le> depth" "0 \<le> stall" "stall \<le> depth"
  shows "0 \<le> occ'" "occ' \<le> depth" "0 \<le> stall'" "stall' \<le> depth" "t' = t + 1" "occ \<le> occ' + 1"
  using assms by (cases move; auto simp: bp_next_def Let_def split: if_splits)+

lemma bp_run_bounds:
  assumes "bp_run depth (0, 0, 0) moves = Some (occ, stall, t)" and "0 \<le> depth"
  shows "0 \<le> occ \<and> occ \<le> depth \<and> 0 \<le> stall \<and> stall \<le> depth \<and> t = int (length moves)"
  using assms(1)
proof (induction moves arbitrary: occ stall t rule: rev_induct)
  case (snoc move moves)
  then obtain occ0 stall0 t0 where st: "bp_run depth (0, 0, 0) moves = Some (occ0, stall0, t0)"
    "bp_next depth (occ0, stall0, t0) move = Some (occ, stall, t)"
    by (auto simp: bp_run_snoc bind_eq_Some_conv)
  then show ?case using bp_next_bounds [OF st(2)] snoc.IH [OF st(1)] by simp
qed (use assms(2) in simp)

text \<open>The states of the search are the ends of the runs of at most \<open>steps\<close> moves.\<close>

lemma bp_reach_run:
  assumes "0 \<le> depth" "0 \<le> steps"
  shows "bp_reach depth steps st \<longleftrightarrow> (\<exists>moves. int (length moves) \<le> steps \<and> bp_run depth (0, 0, 0) moves = Some st)"
proof
  assume "bp_reach depth steps st"
  then show "\<exists>moves. int (length moves) \<le> steps \<and> bp_run depth (0, 0, 0) moves = Some st"
  proof (induction rule: bp_reach.induct)
    case start
    then show ?case using assms by (intro exI [of _ "[]"]) simp
  next
    case (further occ stall t s')
    from further.IH obtain moves where m: "int (length moves) \<le> steps"
      "bp_run depth (0, 0, 0) moves = Some (occ, stall, t)" by (elim exE conjE)
    have b: "0 \<le> occ" "occ \<le> depth" "t = int (length moves)"
      using bp_run_bounds [OF m(2) assms(1)] by simp_all
    obtain move where move: "bp_next depth (occ, stall, t) move = Some s'"
      using iffD2 [OF bp_next_step [OF b(1,2) assms(1)] further.hyps(3)] by (elim bexE)
    then have "bp_run depth (0, 0, 0) (moves @ [move]) = Some s'" by (simp add: bp_run_snoc m(2) move)
    moreover have "int (length (moves @ [move])) \<le> steps" using m(1) b further.hyps(2) by simp
    ultimately show ?case by (intro exI conjI)
  qed
next
  assume "\<exists>moves. int (length moves) \<le> steps \<and> bp_run depth (0, 0, 0) moves = Some st"
  then obtain moves where "int (length moves) \<le> steps" "bp_run depth (0, 0, 0) moves = Some st" by (elim exE conjE)
  then show "bp_reach depth steps st"
  proof (induction moves arbitrary: st rule: rev_induct)
    case (snoc move moves)
    then obtain occ stall t where m: "bp_run depth (0, 0, 0) moves = Some (occ, stall, t)"
      "bp_next depth (occ, stall, t) move = Some st" by (auto simp: bp_run_snoc bind_eq_Some_conv)
    have b: "0 \<le> occ" "occ \<le> depth" "t = int (length moves)"
      using bp_run_bounds [OF m(1) assms(1)] by simp_all
    have "bp_step depth (occ, stall, t) st"
      by (rule iffD1 [OF bp_next_step [OF b(1,2) assms(1)]]) (rule bexI [of _ move], rule m(2), rule bp_moves_all)
    moreover have "bp_reach depth steps (occ, stall, t)" using snoc.IH [OF _ m(1)] snoc.prems(1) by simp
    moreover have "t \<noteq> steps" using snoc.prems(1) b(3) by simp
    ultimately show ?case using bp_reach.further by blast
  next
    case Nil
    then have "st = (0, 0, 0)" by simp
    then show ?case using bp_reach.start by simp
  qed
qed

lemma bp_run_drains:
  "0 < depth \<or> n = 0 \<Longrightarrow> bp_run depth (int n, stall, t) (replicate n (False, True)) =
     Some (0, if n = 0 then stall else 0, t + int n)"
  by (induction n arbitrary: stall t) (auto simp: bp_next_def Let_def algebra_simps)

lemma bp_run_empties:
  assumes "bp_run depth (occ, stall, t) moves = Some (0, stall', t')" and "0 \<le> occ" "occ \<le> depth" "0 \<le> stall" "stall \<le> depth"
  shows "occ \<le> int (length moves)"
  using assms
proof (induction moves arbitrary: occ stall t)
  case (Cons move moves)
  then obtain occ1 stall1 t1 where st: "bp_next depth (occ, stall, t) move = Some (occ1, stall1, t1)"
    "bp_run depth (occ1, stall1, t1) moves = Some (0, stall', t')" by (auto split: option.splits)
  note b = bp_next_bounds [OF st(1) Cons.prems(2-5)]
  from Cons.IH [OF st(2) b(1-4)] b(6) show ?case by simp
qed simp

text \<open>
  C25: every state the moves of the loop reach can drain. After any sequence of moves that the loop
  body accepts from the empty queue, occupancy and stall age are within \<open>0..depth\<close>, \<open>elapsed\<close> is the
  number of moves, the body accepts a dequeue exactly if there is an item, and then as many dequeues
  as there are items, which empty the queue, and no shorter sequence of moves does. (By \<open>bp_reach_run\<close> the sequences of at most \<open>steps\<close> moves
  lead to exactly the states the search visits.) The code's comment claims that every state can
  drain, but the loop itself checks the occupancy bounds only.
\<close>

theorem visited_states_can_drain:
  assumes "0 \<le> depth" and "bp_run depth (0, 0, 0) moves = Some (occ, stall, t)"
  shows "occ \<in> {0..depth} \<and> stall \<in> {0..depth} \<and> t = int (length moves) \<and>
    bp_next depth (occ, stall, t) (False, True) = (if occ = 0 then None else Some (occ - 1, 0, t + 1)) \<and>
    bp_run depth (occ, stall, t) (replicate (nat occ) (False, True)) = Some (0, if occ = 0 then stall else 0, t + occ) \<and>
    (\<forall>moves' stall' t'. bp_run depth (occ, stall, t) moves' = Some (0, stall', t') \<longrightarrow> occ \<le> int (length moves'))"
proof -
  have b: "0 \<le> occ" "occ \<le> depth" "0 \<le> stall" "stall \<le> depth" "t = int (length moves)"
    using bp_run_bounds [OF assms(2,1)] by simp_all
  moreover from b have "bp_next depth (occ, stall, t) (False, True) = (if occ = 0 then None else Some (occ - 1, 0, t + 1))"
    by (simp add: bp_next_def Let_def)
  ultimately show ?thesis
    using bp_run_drains [of depth "nat occ" stall t] bp_run_empties [OF _ b(1-4)] by auto
qed

theorem visited_states_can_drain_witness:
  "bp_run 4 (0, 0, 0) [(True, False), (True, False), (False, False)] = Some (2, 2, 3) \<and>
   bp_run 4 (2, 2, 3) [(False, True), (False, True)] = Some (0, 0, 5)"
proof -
  have r: "bp_run 4 (0, 0, 0) [(True, False), (True, False), (False, False)] = Some (2, 2, 3)" by code_simp
  have two: "replicate (nat 2) (False, True) = [(False, True), (False, True)]" by (simp add: numeral_2_eq_2)
  from visited_states_can_drain [OF _ r, unfolded two] r show ?thesis by (simp del: bp_run.simps)
qed

end
