(* ===== verification/EventModel.thy ===== *)
theory EventModel
  imports Percentile
begin

text \<open>
  \<open>sim/event_model/rcif_sim.py\<close>: the configurations read from a trace, the per-request model of
  time-to-first-token, time-per-token and KV traffic, and the summary of a trace.

  A trace is the dictionary \<open>json.load\<close> returns. Every conversion that can raise is a step of the
  exception sequence, in the order Python evaluates the expression; floats are the parameter of
  \<open>FloatOps\<close> with the conversions of \<open>PyText\<close>.
\<close>

section \<open>Configurations\<close>

record 'f model_config =
  mc_layers :: int
  mc_hidden_size :: int
  mc_num_q_heads :: int
  mc_num_kv_heads :: int
  mc_head_dim :: int
  mc_kv_bytes_per_element :: 'f
  mc_weight_bytes_per_token :: 'f
  mc_decode_ops_per_token :: 'f
  mc_prefill_ops_per_token :: 'f

definition int_field :: "('f, 'x) sim_ops_scheme \<Rightarrow> string \<Rightarrow> 'f json \<Rightarrow> int res" where
  "int_field F key data = bind_res (getitem key data) (py_int F)"

definition float_field :: "('f, 'x) sim_ops_scheme \<Rightarrow> string \<Rightarrow> 'f json \<Rightarrow> 'f res" where
  "float_field F key data = bind_res (getitem key data) (py_float F)"

definition ModelConfig_from_dict :: "('f, 'x) sim_ops_scheme \<Rightarrow> 'f json \<Rightarrow> 'f model_config res" where
  "ModelConfig_from_dict F data =
     bind_res (int_field F ''layers'' data) (\<lambda>layers.
     bind_res (int_field F ''hidden_size'' data) (\<lambda>hidden.
     bind_res (int_field F ''num_q_heads'' data) (\<lambda>q_heads.
     bind_res (int_field F ''num_kv_heads'' data) (\<lambda>kv_heads.
     bind_res (int_field F ''head_dim'' data) (\<lambda>hdim.
     bind_res (bind_res (dict_get ''kv_bytes_per_element'' (J_float (fl_of_int F 1)) data) (py_float F)) (\<lambda>kv_bytes.
     bind_res (float_field F ''weight_bytes_per_token'' data) (\<lambda>weight.
     bind_res (float_field F ''decode_ops_per_token'' data) (\<lambda>decode.
     bind_res (float_field F ''prefill_ops_per_token'' data) (\<lambda>prefill.
     Inr \<lparr>mc_layers = layers, mc_hidden_size = hidden, mc_num_q_heads = q_heads, mc_num_kv_heads = kv_heads,
          mc_head_dim = hdim, mc_kv_bytes_per_element = kv_bytes, mc_weight_bytes_per_token = weight,
          mc_decode_ops_per_token = decode, mc_prefill_ops_per_token = prefill\<rparr>)))))))))"

text \<open>\<open>x * i\<close> and \<open>i * x\<close> of a float and an integer convert the integer first.\<close>

definition mul_int :: "('f, 'x) sim_ops_scheme \<Rightarrow> 'f \<Rightarrow> int \<Rightarrow> 'f res" where
  "mul_int F x i = bind_res (fl_conv F i) (\<lambda>y. Inr (fl_mul F x y))"

definition int_mul :: "('f, 'x) sim_ops_scheme \<Rightarrow> int \<Rightarrow> 'f \<Rightarrow> 'f res" where
  "int_mul F i x = bind_res (fl_conv F i) (\<lambda>y. Inr (fl_mul F y x))"

definition kv_bytes_per_token :: "('f, 'x) sim_ops_scheme \<Rightarrow> 'f model_config \<Rightarrow> 'f res" where
  "kv_bytes_per_token F m =
     bind_res (mul_int F (fl_of_int F 2) (mc_layers m)) (\<lambda>a.
     bind_res (mul_int F a (mc_num_kv_heads m)) (\<lambda>b.
     bind_res (mul_int F b (mc_head_dim m)) (\<lambda>c.
     Inr (fl_mul F c (mc_kv_bytes_per_element m)))))"

record 'f hardware_config =
  hw_local_dram_bandwidth_bytes_s :: 'f
  hw_remote_kv_bandwidth_bytes_s :: 'f
  hw_prefill_ops_s :: 'f
  hw_decode_ops_s :: 'f
  hw_collective_latency_s :: 'f
  hw_kv_local_hit_rate :: 'f
  hw_kv_remote_hit_rate :: 'f

definition HardwareConfig_from_dict :: "('f, 'x) sim_ops_scheme \<Rightarrow> 'f json \<Rightarrow> 'f hardware_config res" where
  "HardwareConfig_from_dict F data =
     bind_res (float_field F ''kv_local_hit_rate'' data) (\<lambda>local_hit.
     bind_res (float_field F ''kv_remote_hit_rate'' data) (\<lambda>remote_hit.
     if fl_less F (fl_of_int F 1) (fl_add F local_hit remote_hit) then Inl ValueError
     else
       bind_res (dict_get ''local_hbm_bandwidth_bytes_s'' J_null data) (\<lambda>hbm.
       bind_res (dict_get ''local_dram_bandwidth_bytes_s'' hbm data) (\<lambda>dram.
       if (case dram of J_null \<Rightarrow> True | _ \<Rightarrow> False) then Inl ValueError
       else
         bind_res (py_float F dram) (\<lambda>local_bw.
         bind_res (float_field F ''remote_kv_bandwidth_bytes_s'' data) (\<lambda>remote_bw.
         bind_res (float_field F ''prefill_ops_s'' data) (\<lambda>prefill.
         bind_res (float_field F ''decode_ops_s'' data) (\<lambda>decode.
         bind_res (float_field F ''collective_latency_s'' data) (\<lambda>collective.
         Inr \<lparr>hw_local_dram_bandwidth_bytes_s = local_bw, hw_remote_kv_bandwidth_bytes_s = remote_bw,
              hw_prefill_ops_s = prefill, hw_decode_ops_s = decode, hw_collective_latency_s = collective,
              hw_kv_local_hit_rate = local_hit, hw_kv_remote_hit_rate = remote_hit\<rparr>)))))))))"

record request =
  rq_request_id :: string
  rq_prefix_tokens :: int
  rq_reused_prefix_tokens :: int
  rq_new_prefill_tokens :: int
  rq_output_tokens :: int
  rq_tenant_id :: string
  rq_locality_domain :: string
  rq_priority :: int

text \<open>The message of the \<open>ValueError\<close> reads \<open>request_id\<close>, so a missing one wins over the error.\<close>

definition Request_from_dict :: "('f, 'x) sim_ops_scheme \<Rightarrow> 'f json \<Rightarrow> request res" where
  "Request_from_dict F data =
     bind_res (int_field F ''prefix_tokens'' data) (\<lambda>prefix.
     bind_res (int_field F ''reused_prefix_tokens'' data) (\<lambda>reused.
     bind_res (int_field F ''new_prefill_tokens'' data) (\<lambda>new_prefill.
     if reused > prefix then bind_res (getitem ''request_id'' data) (\<lambda>_. Inl ValueError)
     else
       bind_res (getitem ''request_id'' data) (\<lambda>rid.
       bind_res (int_field F ''output_tokens'' data) (\<lambda>output_tokens.
       bind_res (dict_get ''tenant_id'' (J_str ''default'') data) (\<lambda>tenant.
       bind_res (dict_get ''locality_domain'' (J_str ''default'') data) (\<lambda>domain.
       bind_res (bind_res (dict_get ''priority'' (J_int 0) data) (py_int F)) (\<lambda>prio.
       Inr \<lparr>rq_request_id = py_str F rid, rq_prefix_tokens = prefix, rq_reused_prefix_tokens = reused,
            rq_new_prefill_tokens = new_prefill, rq_output_tokens = output_tokens, rq_tenant_id = py_str F tenant,
            rq_locality_domain = py_str F domain, rq_priority = prio\<rparr>))))))))"

section \<open>Trace validation\<close>

definition required_top :: "string list" where
  "required_top = [''trace_name'', ''model'', ''hardware'', ''requests'']"

definition validate_trace_shape :: "('f, 'x) sim_ops_scheme \<Rightarrow> 'f dict \<Rightarrow> unit res" where
  "validate_trace_shape F trace =
     (if \<exists>k\<in>set required_top. k \<notin> fst ` set trace then Inl ValueError
      else case map_of trace ''requests'' of
        Some (J_list (r # rs)) \<Rightarrow>
          bind_res (getitem ''model'' (J_obj trace)) (\<lambda>m. bind_res (ModelConfig_from_dict F m) (\<lambda>_.
          bind_res (getitem ''hardware'' (J_obj trace)) (\<lambda>h. bind_res (HardwareConfig_from_dict F h) (\<lambda>_.
          check_all (\<lambda>item. bind_res (Request_from_dict F item) (\<lambda>_. Inr ())) (r # rs)))))
      | _ \<Rightarrow> Inl ValueError)"

section \<open>One request\<close>

record 'f request_result =
  rr_request_id :: string
  rr_ttft_s :: 'f
  rr_tpot_s :: 'f
  rr_total_decode_s :: 'f
  rr_kv_bytes_read :: 'f
  rr_kv_bytes_written :: 'f
  rr_weight_bytes_read :: 'f
  rr_local_kv_bytes :: 'f
  rr_remote_kv_bytes :: 'f
  rr_cold_kv_bytes :: 'f

definition result_dict :: "'f request_result \<Rightarrow> 'f dict" where
  "result_dict r =
     [(''request_id'', J_str (rr_request_id r)), (''ttft_s'', J_float (rr_ttft_s r)),
      (''tpot_s'', J_float (rr_tpot_s r)), (''total_decode_s'', J_float (rr_total_decode_s r)),
      (''kv_bytes_read'', J_float (rr_kv_bytes_read r)), (''kv_bytes_written'', J_float (rr_kv_bytes_written r)),
      (''weight_bytes_read'', J_float (rr_weight_bytes_read r)), (''local_kv_bytes'', J_float (rr_local_kv_bytes r)),
      (''remote_kv_bytes'', J_float (rr_remote_kv_bytes r)), (''cold_kv_bytes'', J_float (rr_cold_kv_bytes r))]"

text \<open>\<open>max\<close> keeps the first of equal items.\<close>

definition fl_max :: "('f, 'x) float_ops_scheme \<Rightarrow> 'f \<Rightarrow> 'f \<Rightarrow> 'f" where
  "fl_max F a b = (if fl_less F a b then b else a)"

record 'f decode_totals =
  dt_kv_read :: 'f
  dt_local_kv :: 'f
  dt_remote_kv :: 'f
  dt_cold_kv :: 'f
  dt_weight_read :: 'f
  dt_decode_s :: 'f

definition decode_token ::
  "('f, 'x) sim_ops_scheme \<Rightarrow> 'f model_config \<Rightarrow> 'f hardware_config \<Rightarrow> request \<Rightarrow> 'f \<Rightarrow> int \<Rightarrow>
   'f decode_totals \<Rightarrow> 'f decode_totals res"
where
  "decode_token F m hw rq cold_hit_rate token_index t =
     bind_res (kv_bytes_per_token F m) (\<lambda>per_token.
     bind_res (int_mul F (rq_prefix_tokens rq + token_index) per_token) (\<lambda>kv_bytes.
     let local_kv = fl_mul F kv_bytes (hw_kv_local_hit_rate hw);
         remote_kv = fl_mul F kv_bytes (hw_kv_remote_hit_rate hw);
         cold_kv = fl_mul F kv_bytes cold_hit_rate in
     bind_res (fl_div F local_kv (hw_local_dram_bandwidth_bytes_s hw)) (\<lambda>local_s.
     bind_res (fl_div F remote_kv (hw_remote_kv_bandwidth_bytes_s hw)) (\<lambda>remote_s.
     bind_res (fl_div F (fl_mul F cold_kv (fl_of_int F 4)) (hw_remote_kv_bandwidth_bytes_s hw)) (\<lambda>cold_s.
     let kv_time_s = fl_add F (fl_add F local_s remote_s) cold_s in
     bind_res (fl_div F (mc_weight_bytes_per_token m) (hw_local_dram_bandwidth_bytes_s hw)) (\<lambda>weight_time_s.
     bind_res (fl_div F (mc_decode_ops_per_token m) (hw_decode_ops_s hw)) (\<lambda>compute_time_s.
     let token_s = fl_add F (fl_max F (fl_max F kv_time_s weight_time_s) compute_time_s) (hw_collective_latency_s hw) in
     Inr \<lparr>dt_kv_read = fl_add F (dt_kv_read t) kv_bytes, dt_local_kv = fl_add F (dt_local_kv t) local_kv,
          dt_remote_kv = fl_add F (dt_remote_kv t) remote_kv, dt_cold_kv = fl_add F (dt_cold_kv t) cold_kv,
          dt_weight_read = fl_add F (dt_weight_read t) (mc_weight_bytes_per_token m),
          dt_decode_s = fl_add F (dt_decode_s t) token_s\<rparr>)))))))"

fun decode_tokens ::
  "('f, 'x) sim_ops_scheme \<Rightarrow> 'f model_config \<Rightarrow> 'f hardware_config \<Rightarrow> request \<Rightarrow> 'f \<Rightarrow> int list \<Rightarrow>
   'f decode_totals \<Rightarrow> 'f decode_totals res"
where
  "decode_tokens F m hw rq cold [] t = Inr t"
| "decode_tokens F m hw rq cold (i # rest) t =
     bind_res (decode_token F m hw rq cold i t) (decode_tokens F m hw rq cold rest)"

definition simulate_request ::
  "('f, 'x) sim_ops_scheme \<Rightarrow> 'f model_config \<Rightarrow> 'f hardware_config \<Rightarrow> request \<Rightarrow> 'f request_result res"
where
  "simulate_request F m hw rq =
     bind_res (kv_bytes_per_token F m) (\<lambda>per_token.
     bind_res (int_mul F (rq_new_prefill_tokens rq) per_token) (\<lambda>kv_write_bytes.
     bind_res (int_mul F (rq_new_prefill_tokens rq) (mc_prefill_ops_per_token m)) (\<lambda>prefill_ops.
     bind_res (fl_div F prefill_ops (hw_prefill_ops_s hw)) (\<lambda>prefill_compute_s.
     bind_res (fl_div F kv_write_bytes (hw_local_dram_bandwidth_bytes_s hw)) (\<lambda>prefill_mem_s.
     let prefill_s = fl_max F prefill_compute_s prefill_mem_s;
         zero = fl_zero F;
         cold_hit_rate = fl_sub F (fl_sub F (fl_of_int F 1) (hw_kv_local_hit_rate hw)) (hw_kv_remote_hit_rate hw) in
     bind_res (decode_tokens F m hw rq cold_hit_rate [0..rq_output_tokens rq - 1]
         \<lparr>dt_kv_read = zero, dt_local_kv = zero, dt_remote_kv = zero, dt_cold_kv = zero, dt_weight_read = zero,
          dt_decode_s = zero\<rparr>) (\<lambda>t.
     bind_res (fl_conv F (rq_output_tokens rq)) (\<lambda>tokens.
     bind_res (fl_div F (dt_decode_s t) tokens) (\<lambda>tpot_s.
     Inr \<lparr>rr_request_id = rq_request_id rq, rr_ttft_s = fl_add F prefill_s tpot_s, rr_tpot_s = tpot_s,
          rr_total_decode_s = dt_decode_s t, rr_kv_bytes_read = dt_kv_read t, rr_kv_bytes_written = kv_write_bytes,
          rr_weight_bytes_read = dt_weight_read t, rr_local_kv_bytes = dt_local_kv t,
          rr_remote_kv_bytes = dt_remote_kv t, rr_cold_kv_bytes = dt_cold_kv t\<rparr>))))))))"

section \<open>A trace\<close>

record 'f trace_summary =
  ts_requests :: int
  ts_output_tokens :: int
  ts_ttft_p50_s :: 'f
  ts_ttft_p95_s :: 'f
  ts_ttft_p99_s :: 'f
  ts_tpot_p50_s :: 'f
  ts_tpot_p95_s :: 'f
  ts_tpot_p99_s :: 'f
  ts_accepted_tokens_per_s :: 'f
  ts_kv_bytes_read :: 'f
  ts_kv_bytes_written :: 'f
  ts_weight_bytes_read :: 'f
  ts_local_kv_bytes :: 'f
  ts_remote_kv_bytes :: 'f
  ts_cold_kv_bytes :: 'f

record 'f trace_report =
  tr_trace_name :: "'f json"
  tr_kv_bytes_per_token :: 'f
  tr_summary :: "'f trace_summary"
  tr_requests :: "'f dict list"

text \<open>The literals 0.95 and 0.99 are the floats nearest to those fractions, as the quotients are.\<close>

definition pct95 :: "('f, 'x) float_ops_scheme \<Rightarrow> 'f" where
  "pct95 F = fl_quot F (fl_of_int F 95) (fl_of_int F 100)"

definition pct99 :: "('f, 'x) float_ops_scheme \<Rightarrow> 'f" where
  "pct99 F = fl_quot F (fl_of_int F 99) (fl_of_int F 100)"

definition summarize ::
  "('f, 'x) sim_ops_scheme \<Rightarrow> request list \<Rightarrow> 'f request_result list \<Rightarrow> 'f trace_summary res"
where
  "summarize F requests results =
     (let ttft = map rr_ttft_s results; tpot = map rr_tpot_s results;
          output_tokens = sum_list (map rq_output_tokens requests);
          total_time = fl_sum F (map (\<lambda>r. fl_add F (rr_ttft_s r) (rr_total_decode_s r)) results) in
      bind_res (median F ttft) (\<lambda>ttft50. bind_res (percentile F ttft (pct95 F)) (\<lambda>ttft95.
      bind_res (percentile F ttft (pct99 F)) (\<lambda>ttft99. bind_res (median F tpot) (\<lambda>tpot50.
      bind_res (percentile F tpot (pct95 F)) (\<lambda>tpot95. bind_res (percentile F tpot (pct99 F)) (\<lambda>tpot99.
      bind_res (if fl_less F (fl_zero F) total_time
          then bind_res (fl_conv F output_tokens) (\<lambda>n. fl_div F n total_time) else Inr (fl_zero F)) (\<lambda>rate.
      Inr \<lparr>ts_requests = int (length results), ts_output_tokens = output_tokens,
           ts_ttft_p50_s = ttft50, ts_ttft_p95_s = ttft95, ts_ttft_p99_s = ttft99,
           ts_tpot_p50_s = tpot50, ts_tpot_p95_s = tpot95, ts_tpot_p99_s = tpot99,
           ts_accepted_tokens_per_s = rate,
           ts_kv_bytes_read = fl_sum F (map rr_kv_bytes_read results),
           ts_kv_bytes_written = fl_sum F (map rr_kv_bytes_written results),
           ts_weight_bytes_read = fl_sum F (map rr_weight_bytes_read results),
           ts_local_kv_bytes = fl_sum F (map rr_local_kv_bytes results),
           ts_remote_kv_bytes = fl_sum F (map rr_remote_kv_bytes results),
           ts_cold_kv_bytes = fl_sum F (map rr_cold_kv_bytes results)\<rparr>))))))))"

definition simulate_trace :: "('f, 'x) sim_ops_scheme \<Rightarrow> 'f dict \<Rightarrow> 'f trace_report res" where
  "simulate_trace F trace =
     bind_res (validate_trace_shape F trace) (\<lambda>_.
     bind_res (getitem ''model'' (J_obj trace)) (\<lambda>mj. bind_res (ModelConfig_from_dict F mj) (\<lambda>m.
     bind_res (getitem ''hardware'' (J_obj trace)) (\<lambda>hj. bind_res (HardwareConfig_from_dict F hj) (\<lambda>hw.
     bind_res (getitem ''requests'' (J_obj trace)) (\<lambda>rj. bind_res (json_iter rj) (\<lambda>items.
     bind_res (map_res (Request_from_dict F) items) (\<lambda>requests.
     bind_res (map_res (simulate_request F m hw) requests) (\<lambda>results.
     bind_res (getitem ''trace_name'' (J_obj trace)) (\<lambda>name.
     bind_res (kv_bytes_per_token F m) (\<lambda>per_token.
     bind_res (summarize F requests results) (\<lambda>summary.
     Inr \<lparr>tr_trace_name = name, tr_kv_bytes_per_token = per_token, tr_summary = summary,
          tr_requests = map result_dict results\<rparr>))))))))))))"

end
