(* ===== verification/EventFacts.thy ===== *)
theory EventFacts
  imports EventModel
begin

text \<open>
  What the event model computes over exact numbers: the closed form of a request's traffic and
  times with the inputs on which it divides by zero, bounds on the time per token, and the summary
  of a validated trace.
\<close>

section \<open>Exact formulas\<close>

definition kv_token_bytes :: "real model_config \<Rightarrow> real" where
  "kv_token_bytes m = 2 * of_int (mc_layers m) * of_int (mc_num_kv_heads m) * of_int (mc_head_dim m) * mc_kv_bytes_per_element m"

definition cold_rate :: "real hardware_config \<Rightarrow> real" where
  "cold_rate hw = 1 - hw_kv_local_hit_rate hw - hw_kv_remote_hit_rate hw"

text \<open>The time of the token that reads \<open>c\<close> bytes of KV.\<close>

definition token_seconds :: "real model_config \<Rightarrow> real hardware_config \<Rightarrow> real \<Rightarrow> real" where
  "token_seconds m hw c =
     max (max (c * hw_kv_local_hit_rate hw / hw_local_dram_bandwidth_bytes_s hw
             + c * hw_kv_remote_hit_rate hw / hw_remote_kv_bandwidth_bytes_s hw
             + c * cold_rate hw * 4 / hw_remote_kv_bandwidth_bytes_s hw)
           (mc_weight_bytes_per_token m / hw_local_dram_bandwidth_bytes_s hw))
         (mc_decode_ops_per_token m / hw_decode_ops_s hw)
     + hw_collective_latency_s hw"

definition context_bytes :: "real model_config \<Rightarrow> request \<Rightarrow> int \<Rightarrow> real" where
  "context_bytes m rq i = of_int (rq_prefix_tokens rq + i) * kv_token_bytes m"

text \<open>The divisors of a request; those of the token loop count only when it runs.\<close>

definition divides_by_zero :: "real hardware_config \<Rightarrow> request \<Rightarrow> bool" where
  "divides_by_zero hw rq \<longleftrightarrow>
     hw_prefill_ops_s hw = 0 \<or> hw_local_dram_bandwidth_bytes_s hw = 0 \<or> rq_output_tokens rq = 0 \<or>
     0 < rq_output_tokens rq \<and> (hw_remote_kv_bandwidth_bytes_s hw = 0 \<or> hw_decode_ops_s hw = 0)"

definition request_closed_form :: "real model_config \<Rightarrow> real hardware_config \<Rightarrow> request \<Rightarrow> real request_result" where
  "request_closed_form m hw rq =
     (let n = real (nat (rq_output_tokens rq));
          read = kv_token_bytes m * (n * of_int (rq_prefix_tokens rq) + n * (n - 1) / 2);
          written = of_int (rq_new_prefill_tokens rq) * kv_token_bytes m;
          total = (\<Sum>i\<leftarrow>[0..rq_output_tokens rq - 1]. token_seconds m hw (context_bytes m rq i));
          tpot = total / of_int (rq_output_tokens rq) in
      \<lparr>rr_request_id = rq_request_id rq,
       rr_ttft_s = max (of_int (rq_new_prefill_tokens rq) * mc_prefill_ops_per_token m / hw_prefill_ops_s hw)
          (written / hw_local_dram_bandwidth_bytes_s hw) + tpot,
       rr_tpot_s = tpot, rr_total_decode_s = total, rr_kv_bytes_read = read, rr_kv_bytes_written = written,
       rr_weight_bytes_read = n * mc_weight_bytes_per_token m,
       rr_local_kv_bytes = read * hw_kv_local_hit_rate hw, rr_remote_kv_bytes = read * hw_kv_remote_hit_rate hw,
       rr_cold_kv_bytes = read * cold_rate hw\<rparr>)"

lemma kv_bytes_per_token_real: "kv_bytes_per_token (real_sim p q) m = Inr (kv_token_bytes m)"
  by (simp add: kv_bytes_per_token_def mul_int_def kv_token_bytes_def)

lemma fl_max_real: "fl_max (real_sim p q) a b = max a b"
  by (simp add: fl_max_def max_def)

definition add_token :: "real model_config \<Rightarrow> real hardware_config \<Rightarrow> request \<Rightarrow> int \<Rightarrow> real decode_totals \<Rightarrow> real decode_totals" where
  "add_token m hw rq i t =
     (let c = context_bytes m rq i in
      \<lparr>dt_kv_read = dt_kv_read t + c, dt_local_kv = dt_local_kv t + c * hw_kv_local_hit_rate hw,
       dt_remote_kv = dt_remote_kv t + c * hw_kv_remote_hit_rate hw, dt_cold_kv = dt_cold_kv t + c * cold_rate hw,
       dt_weight_read = dt_weight_read t + mc_weight_bytes_per_token m,
       dt_decode_s = dt_decode_s t + token_seconds m hw c\<rparr>)"

lemma decode_token_real:
  "decode_token (real_sim p q) m hw rq (cold_rate hw) i t =
     (if hw_local_dram_bandwidth_bytes_s hw = 0 \<or> hw_remote_kv_bandwidth_bytes_s hw = 0 \<or> hw_decode_ops_s hw = 0
      then Inl ZeroDivisionError else Inr (add_token m hw rq i t))"
  by (simp add: decode_token_def kv_bytes_per_token_real int_mul_def fl_div_real_sim fl_max_real Let_def
    add_token_def token_seconds_def context_bytes_def)

lemma decode_tokens_real:
  assumes "hw_local_dram_bandwidth_bytes_s hw \<noteq> 0"
  shows "decode_tokens (real_sim p q) m hw rq (cold_rate hw) is t =
     (if is \<noteq> [] \<and> (hw_remote_kv_bandwidth_bytes_s hw = 0 \<or> hw_decode_ops_s hw = 0) then Inl ZeroDivisionError
      else Inr (fold (add_token m hw rq) is t))"
  using assms by (induction "is" arbitrary: t) (auto simp: decode_token_real)

lemma fold_add_token:
  "fold (add_token m hw rq) is t =
     (let c = (\<Sum>i\<leftarrow>is. context_bytes m rq i) in
      \<lparr>dt_kv_read = dt_kv_read t + c, dt_local_kv = dt_local_kv t + c * hw_kv_local_hit_rate hw,
       dt_remote_kv = dt_remote_kv t + c * hw_kv_remote_hit_rate hw, dt_cold_kv = dt_cold_kv t + c * cold_rate hw,
       dt_weight_read = dt_weight_read t + real (length is) * mc_weight_bytes_per_token m,
       dt_decode_s = dt_decode_s t + (\<Sum>i\<leftarrow>is. token_seconds m hw (context_bytes m rq i))\<rparr>)"
  by (induction "is" arbitrary: t) (simp_all add: add_token_def Let_def algebra_simps)

lemma sum_context_bytes:
  "(\<Sum>i\<leftarrow>[0..k - 1]. context_bytes m rq i) =
     kv_token_bytes m * (real (nat k) * of_int (rq_prefix_tokens rq) + real (nat k) * (real (nat k) - 1) / 2)"
proof -
  have "(\<Sum>i\<leftarrow>[0..int n - 1]. context_bytes m rq i) =
     kv_token_bytes m * (real n * of_int (rq_prefix_tokens rq) + real n * (real n - 1) / 2)" for n
  proof (induction n)
    case (Suc n)
    have "[0..int (Suc n) - 1] = [0..int n - 1] @ [int n]" using upto_rec2 [of 0 "int n"] by simp
    then have "(\<Sum>i\<leftarrow>[0..int (Suc n) - 1]. context_bytes m rq i) =
        (\<Sum>i\<leftarrow>[0..int n - 1]. context_bytes m rq i) + context_bytes m rq (int n)" by simp
    then show ?case unfolding Suc.IH by (simp add: context_bytes_def field_simps)
  qed simp
  from this [of "nat k"] show ?thesis by (cases "0 \<le> k") simp_all
qed

lemma simulate_request_real:
  "simulate_request (real_sim p q) m hw rq =
     (if divides_by_zero hw rq then Inl ZeroDivisionError else Inr (request_closed_form m hw rq))"
proof (cases "hw_prefill_ops_s hw = 0 \<or> hw_local_dram_bandwidth_bytes_s hw = 0")
  case False
  define out where "out = rq_output_tokens rq"
  have cold: "1 - hw_kv_local_hit_rate hw - hw_kv_remote_hit_rate hw = cold_rate hw" by (simp add: cold_rate_def)
  have empty: "[0..out - 1] = [] \<longleftrightarrow> out \<le> 0" by auto
  have len: "length [0..out - 1] = nat out" by simp
  note run = decode_tokens_real [of hw p q m rq "[0..out - 1]", unfolded fold_add_token Let_def sum_context_bytes len empty]
  show ?thesis
    unfolding simulate_request_def kv_bytes_per_token_real out_def [symmetric] real_sim_sel Let_def
    using False
    by (simp add: cold run [of _] int_mul_def fl_div_real_sim fl_max_real divides_by_zero_def
        request_closed_form_def Let_def flip: out_def)
qed (auto simp: simulate_request_def kv_bytes_per_token_real int_mul_def fl_div_real_sim divides_by_zero_def Let_def)

section \<open>Properties\<close>

text \<open>
  Over exact numbers \<open>simulate_request\<close> divides by zero exactly on a request without output
  tokens and on hardware with a zero rate that the request uses, and otherwise returns the closed
  form: a context of growing length is read once per output token, the reads split into local,
  remote and cold bytes by the hit rates, and the prefill is bound by compute or by memory.
\<close>

theorem simulate_request_exact:
  "simulate_request (real_sim p q) m hw rq =
     (if divides_by_zero hw rq then Inl ZeroDivisionError else Inr (request_closed_form m hw rq))"
  by (rule simulate_request_real)

lemma hardware_hit_rates:
  assumes "HardwareConfig_from_dict (real_sim p q) hj = Inr hw"
  shows "hw_kv_local_hit_rate hw + hw_kv_remote_hit_rate hw \<le> 1"
  using assms by (auto simp: HardwareConfig_from_dict_def bind_res_Inr split: if_splits)

lemma token_seconds_mono:
  assumes "0 \<le> hw_kv_local_hit_rate hw" "0 \<le> hw_kv_remote_hit_rate hw" "0 \<le> cold_rate hw"
    "0 < hw_local_dram_bandwidth_bytes_s hw" "0 < hw_remote_kv_bandwidth_bytes_s hw" "c \<le> c'"
  shows "token_seconds m hw c \<le> token_seconds m hw c'"
  unfolding token_seconds_def using assms
  by (intro add_mono max.mono divide_right_mono mult_right_mono order_refl) auto

text \<open>
  C34: over exact numbers, the time per output token lies between the time of the first and of the
  last token of the request, for every hardware configuration the parser accepts with rates that
  are not negative and positive bandwidths, every model whose KV bytes per token are not negative
  and every request of at least one output token: the parser's check of the hit rates is what makes
  a longer context slower. The three kinds of KV traffic add up to the bytes read.
\<close>

theorem tpot_between_first_and_last_token:
  assumes hw: "HardwareConfig_from_dict (real_sim p q) hj = Inr hw"
    and rates: "0 \<le> hw_kv_local_hit_rate hw" "0 \<le> hw_kv_remote_hit_rate hw"
    and bandwidths: "0 < hw_local_dram_bandwidth_bytes_s hw" "0 < hw_remote_kv_bandwidth_bytes_s hw"
    and kv: "0 \<le> kv_token_bytes m" and out: "0 < rq_output_tokens rq"
    and run: "simulate_request (real_sim p q) m hw rq = Inr r"
  shows "token_seconds m hw (context_bytes m rq 0) \<le> rr_tpot_s r \<and>
    rr_tpot_s r \<le> token_seconds m hw (context_bytes m rq (rq_output_tokens rq - 1)) \<and>
    rr_local_kv_bytes r + rr_remote_kv_bytes r + rr_cold_kv_bytes r = rr_kv_bytes_read r"
proof -
  define n where "n = rq_output_tokens rq"
  define f where "f i = token_seconds m hw (context_bytes m rq i)" for i
  have r: "r = request_closed_form m hw rq"
    using run by (simp add: simulate_request_real split: if_splits)
  have cold: "0 \<le> cold_rate hw" using hardware_hit_rates [OF hw] by (simp add: cold_rate_def)
  have mono: "f i \<le> f j" if "i \<le> j" for i j
    unfolding f_def using that kv
    by (intro token_seconds_mono rates cold bandwidths) (simp add: context_bytes_def mult_right_mono)
  have tpot: "rr_tpot_s r = (\<Sum>i\<leftarrow>[0..n - 1]. f i) / of_int n"
    by (simp add: r request_closed_form_def Let_def n_def f_def)
  have len: "of_nat (length [0..n - 1]) = (of_int n :: real)" using out by (simp add: n_def)
  have "of_int n * f 0 \<le> (\<Sum>i\<leftarrow>[0..n - 1]. f i)"
    unfolding len [symmetric] by (rule sum_list_const_ge) (auto intro: mono)
  moreover have "(\<Sum>i\<leftarrow>[0..n - 1]. f i) \<le> of_int n * f (n - 1)"
    unfolding len [symmetric] by (rule sum_list_const_le) (auto intro: mono)
  ultimately have "f 0 \<le> rr_tpot_s r" "rr_tpot_s r \<le> f (n - 1)"
    unfolding tpot using out by (simp_all add: n_def field_simps)
  moreover have "rr_local_kv_bytes r + rr_remote_kv_bytes r + rr_cold_kv_bytes r = rr_kv_bytes_read r"
    by (simp add: r request_closed_form_def Let_def cold_rate_def algebra_simps)
  ultimately show ?thesis by (simp add: f_def n_def)
qed

definition toy_hardware :: "real json" where
  "toy_hardware = J_obj [(''kv_local_hit_rate'', J_float (1 / 2)), (''kv_remote_hit_rate'', J_float (1 / 4)),
     (''local_hbm_bandwidth_bytes_s'', J_int 8), (''remote_kv_bandwidth_bytes_s'', J_int 2),
     (''prefill_ops_s'', J_int 4), (''decode_ops_s'', J_int 4), (''collective_latency_s'', J_int 1)]"

definition toy_model_config :: "real model_config" where
  "toy_model_config = \<lparr>mc_layers = 1, mc_hidden_size = 1, mc_num_q_heads = 1, mc_num_kv_heads = 1, mc_head_dim = 1,
     mc_kv_bytes_per_element = 1, mc_weight_bytes_per_token = 8, mc_decode_ops_per_token = 4,
     mc_prefill_ops_per_token = 4\<rparr>"

definition toy_request :: "int \<Rightarrow> request" where
  "toy_request n = \<lparr>rq_request_id = ''r'', rq_prefix_tokens = 2, rq_reused_prefix_tokens = 1, rq_new_prefill_tokens = 1,
     rq_output_tokens = n, rq_tenant_id = ''t'', rq_locality_domain = ''d'', rq_priority = 0\<rparr>"

abbreviation no_text :: "real sim_ops" where
  "no_text \<equiv> real_sim (\<lambda>_. Inl ValueError) (\<lambda>_. [])"

theorem tpot_between_first_and_last_token_witness:
  "\<exists>hw r. HardwareConfig_from_dict no_text toy_hardware = Inr hw \<and>
     simulate_request no_text toy_model_config hw (toy_request 2) = Inr r \<and>
     token_seconds toy_model_config hw (context_bytes toy_model_config (toy_request 2) 0) \<le> rr_tpot_s r \<and>
     rr_tpot_s r \<le> token_seconds toy_model_config hw (context_bytes toy_model_config (toy_request 2) 1)"
proof -
  define hw :: "real hardware_config" where
    "hw = \<lparr>hw_local_dram_bandwidth_bytes_s = 8, hw_remote_kv_bandwidth_bytes_s = 2, hw_prefill_ops_s = 4,
       hw_decode_ops_s = 4, hw_collective_latency_s = 1, hw_kv_local_hit_rate = 1 / 2, hw_kv_remote_hit_rate = 1 / 4\<rparr>"
  have hw: "HardwareConfig_from_dict no_text toy_hardware = Inr hw"
    by (simp add: HardwareConfig_from_dict_def toy_hardware_def float_field_def hw_def)
  have run: "simulate_request no_text toy_model_config hw (toy_request 2) =
      Inr (request_closed_form toy_model_config hw (toy_request 2))"
    by (simp add: simulate_request_real divides_by_zero_def hw_def toy_request_def)
  show ?thesis
    using tpot_between_first_and_last_token [OF hw _ _ _ _ _ _ run] hw run
    by (simp add: hw_def toy_request_def toy_model_config_def kv_token_bytes_def)
qed

section \<open>Traces\<close>

text \<open>What a report says of the results it is made from.\<close>

definition report_of :: "real json \<Rightarrow> real model_config \<Rightarrow> request list \<Rightarrow> real request_result list \<Rightarrow> real trace_report \<Rightarrow> bool" where
  "report_of name m requests results rep \<longleftrightarrow>
     (let s = tr_summary rep in
      tr_trace_name rep = name \<and> tr_kv_bytes_per_token rep = kv_token_bytes m \<and>
      tr_requests rep = map result_dict results \<and>
      ts_requests s = int (length results) \<and> ts_output_tokens s = sum_list (map rq_output_tokens requests) \<and>
      Min (rr_ttft_s ` set results) \<le> ts_ttft_p50_s s \<and> ts_ttft_p50_s s \<le> ts_ttft_p95_s s \<and>
      ts_ttft_p95_s s \<le> ts_ttft_p99_s s \<and> ts_ttft_p99_s s \<le> Max (rr_ttft_s ` set results) \<and>
      Min (rr_tpot_s ` set results) \<le> ts_tpot_p50_s s \<and> ts_tpot_p50_s s \<le> ts_tpot_p95_s s \<and>
      ts_tpot_p95_s s \<le> ts_tpot_p99_s s \<and> ts_tpot_p99_s s \<le> Max (rr_tpot_s ` set results) \<and>
      ts_local_kv_bytes s + ts_remote_kv_bytes s + ts_cold_kv_bytes s = ts_kv_bytes_read s)"

lemma percentiles_ordered:
  assumes "xs \<noteq> []"
  shows "\<exists>a b c. median (real_sim p q) xs = Inr a \<and> percentile (real_sim p q) xs (pct95 (real_sim p q)) = Inr b \<and>
    percentile (real_sim p q) xs (pct99 (real_sim p q)) = Inr c \<and> Min (set xs) \<le> a \<and> a \<le> b \<and> b \<le> c \<and> c \<le> Max (set xs)"
proof -
  let ?f = "\<lambda>u. interpolate (sort xs) (real (length xs - 1) * u)"
  note mono = sort_interpolate_mono [OF assms] and range = sort_interpolate_range [OF assms]
  have "median (real_sim p q) xs = Inr (?f (1 / 2))" by (rule median_interpolate [OF assms])
  moreover have "percentile (real_sim p q) xs (pct95 (real_sim p q)) = Inr (?f (95 / 100))"
    using percentile_interpolate [OF assms, of "95 / 100" p q] by (simp add: pct95_def)
  moreover have "percentile (real_sim p q) xs (pct99 (real_sim p q)) = Inr (?f (99 / 100))"
    using percentile_interpolate [OF assms, of "99 / 100" p q] by (simp add: pct99_def)
  moreover have "Min (set xs) \<le> ?f (1 / 2)" by (rule range) simp_all
  moreover have "?f (1 / 2) \<le> ?f (95 / 100)" by (rule mono) simp_all
  moreover have "?f (95 / 100) \<le> ?f (99 / 100)" by (rule mono) simp_all
  moreover have "?f (99 / 100) \<le> Max (set xs)" by (rule range) simp_all
  ultimately show ?thesis by blast
qed

lemma summarize_real:
  assumes "results \<noteq> []"
    and kv: "\<And>r. r \<in> set results \<Longrightarrow> rr_local_kv_bytes r + rr_remote_kv_bytes r + rr_cold_kv_bytes r = rr_kv_bytes_read r"
  shows "\<exists>s. summarize (real_sim p q) requests results = Inr s \<and>
    report_of name m requests results
      \<lparr>tr_trace_name = name, tr_kv_bytes_per_token = kv_token_bytes m, tr_summary = s, tr_requests = map result_dict results\<rparr>"
proof -
  from assms(1) have ne: "map rr_ttft_s results \<noteq> []" "map rr_tpot_s results \<noteq> []" by simp_all
  obtain a b c where ttft: "median (real_sim p q) (map rr_ttft_s results) = Inr a"
      "percentile (real_sim p q) (map rr_ttft_s results) (pct95 (real_sim p q)) = Inr b"
      "percentile (real_sim p q) (map rr_ttft_s results) (pct99 (real_sim p q)) = Inr c"
      "Min (rr_ttft_s ` set results) \<le> a" "a \<le> b" "b \<le> c" "c \<le> Max (rr_ttft_s ` set results)"
    using percentiles_ordered [OF ne(1), of p q] by auto
  obtain a' b' c' where tpot: "median (real_sim p q) (map rr_tpot_s results) = Inr a'"
      "percentile (real_sim p q) (map rr_tpot_s results) (pct95 (real_sim p q)) = Inr b'"
      "percentile (real_sim p q) (map rr_tpot_s results) (pct99 (real_sim p q)) = Inr c'"
      "Min (rr_tpot_s ` set results) \<le> a'" "a' \<le> b'" "b' \<le> c'" "c' \<le> Max (rr_tpot_s ` set results)"
    using percentiles_ordered [OF ne(2), of p q] by auto
  have sum: "(\<Sum>r\<leftarrow>results. rr_local_kv_bytes r) + (\<Sum>r\<leftarrow>results. rr_remote_kv_bytes r)
      + (\<Sum>r\<leftarrow>results. rr_cold_kv_bytes r) = (\<Sum>r\<leftarrow>results. rr_kv_bytes_read r)"
  proof -
    have "map rr_kv_bytes_read results =
        map (\<lambda>r. rr_local_kv_bytes r + rr_remote_kv_bytes r + rr_cold_kv_bytes r) results"
      using kv by simp
    then show ?thesis by (simp only: sum_list_addf)
  qed
  define T where "T = (\<Sum>r\<leftarrow>results. rr_ttft_s r + rr_total_decode_s r)"
  show ?thesis
    by (cases "0 < T")
      (simp_all add: summarize_def ttft tpot Let_def fl_div_real_sim report_of_def sum comp_def flip: T_def)
qed

lemma validate_Inr:
  "validate_trace_shape F trace = Inr () \<longleftrightarrow>
     (\<exists>mj hj items m hw rqs name. map_of trace ''model'' = Some mj \<and> map_of trace ''hardware'' = Some hj \<and>
        map_of trace ''requests'' = Some (J_list items) \<and> map_of trace ''trace_name'' = Some name \<and> items \<noteq> [] \<and>
        ModelConfig_from_dict F mj = Inr m \<and> HardwareConfig_from_dict F hj = Inr hw \<and>
        map_res (Request_from_dict F) items = Inr rqs)"
    (is "?L \<longleftrightarrow> ?R")
proof -
  have keys: "(\<exists>k\<in>set required_top. k \<notin> fst ` set trace) \<longleftrightarrow> (\<exists>k\<in>set required_top. map_of trace k = None)"
    by (simp add: map_of_eq_None_iff)
  have items: "check_all (\<lambda>item. bind_res (Request_from_dict F item) (\<lambda>_. Inr ())) xs = Inr () \<longleftrightarrow>
      (\<exists>rqs. map_res (Request_from_dict F) xs = Inr rqs)" for xs
    by (induction xs) (auto split: sum.splits simp: bind_res_def)
  show ?thesis
    unfolding validate_trace_shape_def keys
    by (auto simp: required_top_def items bind_res_Inr simp del: check_all.simps map_res.simps split: option.splits json.splits list.splits if_splits)
qed

lemma simulate_trace_cases:
  "(case validate_trace_shape (real_sim p q) trace of
      Inl e \<Rightarrow> simulate_trace (real_sim p q) trace = Inl e
    | Inr _ \<Rightarrow> (\<exists>mj hj items m hw rqs name.
        map_of trace ''model'' = Some mj \<and> ModelConfig_from_dict (real_sim p q) mj = Inr m \<and>
        map_of trace ''hardware'' = Some hj \<and> HardwareConfig_from_dict (real_sim p q) hj = Inr hw \<and>
        map_of trace ''requests'' = Some (J_list items) \<and> map_res (Request_from_dict (real_sim p q)) items = Inr rqs \<and>
        map_of trace ''trace_name'' = Some name \<and> rqs \<noteq> [] \<and>
        (if \<exists>rq\<in>set rqs. divides_by_zero hw rq then simulate_trace (real_sim p q) trace = Inl ZeroDivisionError
         else \<exists>rep. simulate_trace (real_sim p q) trace = Inr rep \<and>
           report_of name m rqs (map (request_closed_form m hw) rqs) rep)))"
proof (cases "validate_trace_shape (real_sim p q) trace")
  case (Inl e)
  then show ?thesis by (simp add: simulate_trace_def)
next
  case (Inr u)
  let ?F = "real_sim p q"
  from Inr obtain mj hj items m hw rqs name where t:
      "map_of trace ''model'' = Some mj" "map_of trace ''hardware'' = Some hj"
      "map_of trace ''requests'' = Some (J_list items)" "map_of trace ''trace_name'' = Some name" "items \<noteq> []"
      "ModelConfig_from_dict ?F mj = Inr m" "HardwareConfig_from_dict ?F hj = Inr hw"
      "map_res (Request_from_dict ?F) items = Inr rqs"
    using validate_Inr [of ?F trace] by auto
  have ne: "rqs \<noteq> []" using map_res_length [OF t(8)] t(5) by auto
  have sim: "simulate_trace ?F trace = bind_res (map_res (simulate_request ?F m hw) rqs) (\<lambda>results.
      bind_res (summarize ?F rqs results) (\<lambda>summary. Inr \<lparr>tr_trace_name = name, tr_kv_bytes_per_token = kv_token_bytes m,
        tr_summary = summary, tr_requests = map result_dict results\<rparr>))"
    by (simp add: simulate_trace_def Inr t json_iter_def kv_bytes_per_token_real)
  have each: "simulate_request ?F m hw = (\<lambda>rq. if divides_by_zero hw rq then Inl ZeroDivisionError
      else Inr (request_closed_form m hw rq))"
    by (simp add: fun_eq_iff simulate_request_real)
  have "\<exists>s. summarize ?F rqs (map (request_closed_form m hw) rqs) = Inr s \<and>
      report_of name m rqs (map (request_closed_form m hw) rqs)
        \<lparr>tr_trace_name = name, tr_kv_bytes_per_token = kv_token_bytes m, tr_summary = s,
         tr_requests = map result_dict (map (request_closed_form m hw) rqs)\<rparr>"
    by (rule summarize_real) (use ne in \<open>auto simp: request_closed_form_def Let_def cold_rate_def algebra_simps\<close>)
  then have "if \<exists>rq\<in>set rqs. divides_by_zero hw rq then simulate_trace ?F trace = Inl ZeroDivisionError
      else \<exists>rep. simulate_trace ?F trace = Inr rep \<and> report_of name m rqs (map (request_closed_form m hw) rqs) rep"
    unfolding sim each map_res_if by auto
  with Inr t ne show ?thesis by auto
qed

text \<open>
  C33: on a trace that passes \<open>validate_trace_shape\<close>, \<open>simulate_trace\<close> over exact numbers returns a
  report unless a request divides by zero, and then it raises \<open>ZeroDivisionError\<close>. The report has
  one entry per request, the closed form of each, ordered percentiles between the least and the
  greatest request for both latencies, and KV traffic that adds up. A trace that does not validate
  raises what the validator raises.
\<close>

theorem simulate_trace_outcome:
  "(case validate_trace_shape (real_sim p q) trace of
      Inl e \<Rightarrow> simulate_trace (real_sim p q) trace = Inl e
    | Inr _ \<Rightarrow> (\<exists>mj hj items m hw rqs name.
        map_of trace ''model'' = Some mj \<and> ModelConfig_from_dict (real_sim p q) mj = Inr m \<and>
        map_of trace ''hardware'' = Some hj \<and> HardwareConfig_from_dict (real_sim p q) hj = Inr hw \<and>
        map_of trace ''requests'' = Some (J_list items) \<and> map_res (Request_from_dict (real_sim p q)) items = Inr rqs \<and>
        map_of trace ''trace_name'' = Some name \<and> rqs \<noteq> [] \<and>
        (if \<exists>rq\<in>set rqs. divides_by_zero hw rq then simulate_trace (real_sim p q) trace = Inl ZeroDivisionError
         else \<exists>rep. simulate_trace (real_sim p q) trace = Inr rep \<and>
           report_of name m rqs (map (request_closed_form m hw) rqs) rep)))"
  by (rule simulate_trace_cases)

text \<open>
  The validator accepts a request that asks for no output tokens, and the simulation of that
  trace raises \<open>ZeroDivisionError\<close>.
\<close>

theorem validated_trace_can_raise:
  "\<exists>trace. validate_trace_shape no_text trace = Inr () \<and> simulate_trace no_text trace = Inl ZeroDivisionError"
proof (intro exI conjI)
  let ?model = "J_obj (map (\<lambda>k. (k, J_int 1)) [''layers'', ''hidden_size'', ''num_q_heads'', ''num_kv_heads'',
      ''head_dim'', ''weight_bytes_per_token'', ''decode_ops_per_token'', ''prefill_ops_per_token''])"
  let ?request = "J_obj ((''request_id'', J_str ''r'') # map (\<lambda>k. (k, J_int 0))
      [''prefix_tokens'', ''reused_prefix_tokens'', ''new_prefill_tokens'', ''output_tokens''])"
  let ?trace = "[(''trace_name'', J_str ''t''), (''model'', ?model), (''hardware'', toy_hardware),
      (''requests'', J_list [?request])]"
  show "validate_trace_shape no_text ?trace = Inr ()"
    by (simp add: validate_trace_shape_def required_top_def ModelConfig_from_dict_def HardwareConfig_from_dict_def
        Request_from_dict_def int_field_def float_field_def toy_hardware_def)
  then show "simulate_trace no_text ?trace = Inl ZeroDivisionError"
    by (simp add: simulate_trace_def ModelConfig_from_dict_def HardwareConfig_from_dict_def json_iter_def
        Request_from_dict_def int_field_def float_field_def toy_hardware_def simulate_request_real divides_by_zero_def)
qed

end
