(* ===== verification/TraceGen.thy ===== *)
theory TraceGen
  imports EventFacts
begin

text \<open>
  \<open>sim/tracegen/generate_agentic_trace.py\<close>: the generated trace, and that the event model accepts
  and simulates it.
\<close>

section \<open>The generator\<close>

text \<open>A decimal literal \<open>n / d\<close> of the source.\<close>

definition ratio :: "('f, 'x) float_ops_scheme \<Rightarrow> int \<Rightarrow> int \<Rightarrow> 'f json" where
  "ratio F n d = J_float (fl_quot F (fl_of_int F n) (fl_of_int F d))"

definition generated_model :: "'f json" where
  "generated_model = J_obj [(''layers'', J_int 96), (''hidden_size'', J_int 32768), (''num_q_heads'', J_int 128),
     (''num_kv_heads'', J_int 8), (''head_dim'', J_int 256), (''kv_bytes_per_element'', J_int 1),
     (''weight_bytes_per_token'', J_int 500000000000), (''decode_ops_per_token'', J_int 1000000000000),
     (''prefill_ops_per_token'', J_int 1000000000000)]"

definition generated_hardware :: "('f, 'x) float_ops_scheme \<Rightarrow> 'f json" where
  "generated_hardware F = J_obj [(''local_dram_bandwidth_bytes_s'', J_int 800000000000),
     (''remote_kv_bandwidth_bytes_s'', J_int 224000000000), (''prefill_ops_s'', J_int 5000000000000000),
     (''decode_ops_s'', J_int 1000000000000000), (''collective_latency_s'', ratio F 1 1000),
     (''kv_local_hit_rate'', ratio F 9 10), (''kv_remote_hit_rate'', ratio F 8 100)]"

definition generated_request :: "int \<Rightarrow> int \<Rightarrow> int \<Rightarrow> nat \<Rightarrow> 'f json" where
  "generated_request prefix reused new_prefill index =
     J_obj [(''request_id'', J_str (''generated-'' @ pad4 index)), (''tenant_id'', J_str ''tenant-a''),
       (''locality_domain'', J_str ''rack-0-domain-0''), (''priority'', J_int 10),
       (''prefix_tokens'', J_int prefix), (''reused_prefix_tokens'', J_int reused),
       (''new_prefill_tokens'', J_int new_prefill), (''output_tokens'', J_int (512 + (int index mod 4) * 256))]"

text \<open>\<open>range(requests)\<close> is empty for a count that is not positive.\<close>

definition build_trace :: "('f, 'x) sim_ops_scheme \<Rightarrow> int \<Rightarrow> int \<Rightarrow> 'f \<Rightarrow> 'f dict res" where
  "build_trace F requests prefix_tokens reuse_ratio =
     bind_res (int_mul F prefix_tokens reuse_ratio) (\<lambda>product.
     bind_res (fl_trunc F product) (\<lambda>reused.
     Inr [(''trace_name'', J_str ''generated_agentic_coding_trace''),
          (''description'', J_str ''Generated deterministic trace for architecture experiments.''),
          (''model'', generated_model), (''hardware'', generated_hardware F),
          (''requests'', J_list (map (generated_request prefix_tokens reused (prefix_tokens - reused))
             [0..<nat requests]))]))"

section \<open>Properties\<close>

definition reused_tokens :: "int \<Rightarrow> real \<Rightarrow> int" where
  "reused_tokens prefix r = (let x = of_int prefix * r in if 0 \<le> x then \<lfloor>x\<rfloor> else \<lceil>x\<rceil>)"

definition generated :: "int \<Rightarrow> int \<Rightarrow> nat \<Rightarrow> request" where
  "generated prefix reused index =
     \<lparr>rq_request_id = ''generated-'' @ pad4 index, rq_prefix_tokens = prefix, rq_reused_prefix_tokens = reused,
      rq_new_prefill_tokens = prefix - reused, rq_output_tokens = 512 + (int index mod 4) * 256,
      rq_tenant_id = ''tenant-a'', rq_locality_domain = ''rack-0-domain-0'', rq_priority = 10\<rparr>"

lemma Request_generated:
  "Request_from_dict F (generated_request prefix reused (prefix - reused) k) =
     (if reused > prefix then Inl ValueError else Inr (generated prefix reused k))"
  by (simp add: Request_from_dict_def generated_request_def int_field_def generated_def)

lemma generated_configs:
  "\<exists>m. ModelConfig_from_dict (real_sim p q) generated_model = Inr m"
  "\<exists>hw. HardwareConfig_from_dict (real_sim p q) (generated_hardware (real_sim p q)) = Inr hw \<and>
     (\<forall>k. \<not> divides_by_zero hw (generated prefix reused k))"
proof -
  have "0 < 512 + (int k mod 4) * 256" for k by (simp add: add_pos_nonneg)
  then have "512 + (int k mod 4) * 256 \<noteq> 0" for k by (metis less_irrefl)
  then show "\<exists>hw. HardwareConfig_from_dict (real_sim p q) (generated_hardware (real_sim p q)) = Inr hw \<and>
     (\<forall>k. \<not> divides_by_zero hw (generated prefix reused k))"
    by (simp add: HardwareConfig_from_dict_def generated_hardware_def float_field_def ratio_def divides_by_zero_def
        generated_def)
qed (simp add: ModelConfig_from_dict_def generated_model_def int_field_def float_field_def)

lemma map_res_generated:
  "map_res (Request_from_dict F) (map (generated_request prefix reused (prefix - reused)) ks) =
     (if ks \<noteq> [] \<and> reused > prefix then Inl ValueError else Inr (map (generated prefix reused) ks))"
  by (induction ks) (simp_all add: Request_generated)

lemma reused_at_most_prefix: "0 \<le> prefix \<Longrightarrow> r \<le> 1 \<Longrightarrow> reused_tokens prefix r \<le> prefix"
  using mult_left_le [of r "of_int prefix"] by (simp add: reused_tokens_def Let_def ceiling_le_iff floor_le_iff)

text \<open>
  over exact numbers every call of \<open>build_trace\<close> returns a trace. The event model refuses it
  with \<open>ValueError\<close> when it has no requests or reuses more tokens than the prefix has; otherwise it
  simulates it without error and reports as many requests as were asked for, all with different
  identifiers, and the sum of their output tokens.
\<close>

theorem generated_trace_simulates:
  "\<exists>trace. build_trace (real_sim p q) n prefix r = Inr trace \<and>
     (if n \<le> 0 \<or> reused_tokens prefix r > prefix then simulate_trace (real_sim p q) trace = Inl ValueError
      else \<exists>rep. simulate_trace (real_sim p q) trace = Inr rep \<and>
        ts_requests (tr_summary rep) = n \<and> int (length (tr_requests rep)) = n \<and>
        distinct (map (\<lambda>d. map_of d ''request_id'') (tr_requests rep)) \<and>
        ts_output_tokens (tr_summary rep) = (\<Sum>k\<leftarrow>[0..<nat n]. 512 + (int k mod 4) * 256))"
proof -
  let ?F = "real_sim p q" and ?reused = "reused_tokens prefix r"
  let ?items = "map (generated_request prefix ?reused (prefix - ?reused)) [0..<nat n]"
  obtain m where m: "ModelConfig_from_dict ?F generated_model = Inr m" using generated_configs(1) by blast
  obtain hw where hw: "HardwareConfig_from_dict ?F (generated_hardware ?F) = Inr hw"
      "\<And>k. \<not> divides_by_zero hw (generated prefix ?reused k)"
    using generated_configs(2) [of p q prefix ?reused] by blast
  define trace where "trace = [(''trace_name'', J_str ''generated_agentic_coding_trace''),
      (''description'', J_str ''Generated deterministic trace for architecture experiments.''),
      (''model'', generated_model), (''hardware'', generated_hardware ?F), (''requests'', J_list ?items)]"
  have build: "build_trace ?F n prefix r = Inr trace"
    by (simp add: build_trace_def int_mul_def trace_def reused_tokens_def Let_def)
  have fields: "map_of trace ''trace_name'' = Some (J_str ''generated_agentic_coding_trace'')"
      "map_of trace ''model'' = Some generated_model" "map_of trace ''hardware'' = Some (generated_hardware ?F)"
      "map_of trace ''requests'' = Some (J_list ?items)"
    by (simp_all add: trace_def)
  have keys: "\<not> (\<exists>k\<in>set required_top. k \<notin> fst ` set trace)" by (simp add: required_top_def trace_def)
  show ?thesis
  proof (cases "n \<le> 0 \<or> ?reused > prefix")
    case True
    have "validate_trace_shape ?F trace = Inl ValueError"
    proof (cases "n \<le> 0")
      case False
      then have "[0..<nat n] = 0 # [1..<nat n]" by (simp add: upt_conv_Cons)
      with False True show ?thesis
        using keys by (simp add: validate_trace_shape_def fields m hw(1) Request_generated)
    qed (use keys in \<open>simp add: validate_trace_shape_def fields\<close>)
    then have "simulate_trace ?F trace = Inl ValueError" by (simp add: simulate_trace_def)
    with build True show ?thesis by simp
  next
    case False
    let ?rqs = "map (generated prefix ?reused) [0..<nat n]"
    have rqs: "map_res (Request_from_dict ?F) ?items = Inr ?rqs" using False by (simp add: map_res_generated)
    have "validate_trace_shape ?F trace = Inr ()"
      unfolding validate_Inr using False fields m hw(1) rqs by auto
    then obtain rep where rep: "simulate_trace ?F trace = Inr rep"
        "report_of (J_str ''generated_agentic_coding_trace'') m ?rqs (map (request_closed_form m hw) ?rqs) rep"
      using simulate_trace_cases [of p q trace] fields m hw rqs by (auto split: if_splits)
    have ids: "map (\<lambda>d. map_of d ''request_id'') (tr_requests rep) =
        map (\<lambda>k. Some (J_str (''generated-'' @ pad4 k))) [0..<nat n]"
      using rep(2) by (simp add: report_of_def Let_def result_dict_def request_closed_form_def generated_def comp_def)
    have "inj_on (\<lambda>k. Some (J_str (''generated-'' @ pad4 k))) A" for A
      by (rule inj_onI) (simp add: pad4_inj)
    then have "distinct (map (\<lambda>d. map_of d ''request_id'') (tr_requests rep))"
      unfolding ids by (simp add: distinct_map)
    moreover have "ts_requests (tr_summary rep) = n" "int (length (tr_requests rep)) = n"
        "ts_output_tokens (tr_summary rep) = (\<Sum>k\<leftarrow>[0..<nat n]. 512 + (int k mod 4) * 256)"
      using rep(2) False by (simp_all add: report_of_def Let_def comp_def generated_def)
    ultimately show ?thesis using build rep(1) False by auto
  qed
qed

end
