(* ===== verification/Binary64Trace.thy ===== *)
theory Binary64Trace
  imports FloatText TraceGen
begin

text \<open>
  The trace generator and the event model in Python's own floats: what binary64 rounding keeps of the
  generated traces, what it breaks in the model's percentiles, and how far the check of the hit
  rates and the cold share computed from them can disagree.
\<close>

section \<open>When a request is simulated without error\<close>

lemma decode_tokens_returns:
  assumes "kv_bytes_per_token F m = Inr p"
    and "\<forall>i\<in>set is. \<exists>x. fl_conv F (rq_prefix_tokens rq + i) = Inr x"
    and "\<not> fl_eq F (hw_local_dram_bandwidth_bytes_s hw) (fl_zero F)"
      "\<not> fl_eq F (hw_remote_kv_bandwidth_bytes_s hw) (fl_zero F)" "\<not> fl_eq F (hw_decode_ops_s hw) (fl_zero F)"
  shows "\<exists>t'. decode_tokens F m hw rq cold is t = Inr t'"
  using assms(2)
proof (induction "is" arbitrary: t)
  case (Cons i rest)
  then obtain x where "fl_conv F (rq_prefix_tokens rq + i) = Inr x" by auto
  then have "\<exists>t'. decode_token F m hw rq cold i t = Inr t'"
    by (simp add: decode_token_def assms(1,3-5) int_mul_def fl_div_def Let_def)
  then show ?case using Cons by auto
qed simp

lemma simulate_request_returns:
  assumes "kv_bytes_per_token F m = Inr p"
    and "\<forall>i\<in>{0..<rq_output_tokens rq}. \<exists>x. fl_conv F (rq_prefix_tokens rq + i) = Inr x"
    and "fl_conv F (rq_new_prefill_tokens rq) = Inr np" "fl_conv F (rq_output_tokens rq) = Inr ot" "\<not> fl_eq F ot (fl_zero F)"
    and "\<not> fl_eq F (hw_local_dram_bandwidth_bytes_s hw) (fl_zero F)"
      "\<not> fl_eq F (hw_remote_kv_bandwidth_bytes_s hw) (fl_zero F)" "\<not> fl_eq F (hw_decode_ops_s hw) (fl_zero F)"
      "\<not> fl_eq F (hw_prefill_ops_s hw) (fl_zero F)"
  shows "\<exists>r. simulate_request F m hw rq = Inr r \<and> rr_request_id r = rq_request_id rq"
proof -
  have "\<forall>i\<in>set [0..rq_output_tokens rq - 1]. \<exists>x. fl_conv F (rq_prefix_tokens rq + i) = Inr x" using assms(2) by simp
  note tokens = decode_tokens_returns [OF assms(1) this assms(6-8)]
  obtain t where "decode_tokens F m hw rq
      (fl_sub F (fl_sub F (fl_of_int F 1) (hw_kv_local_hit_rate hw)) (hw_kv_remote_hit_rate hw)) [0..rq_output_tokens rq - 1]
      \<lparr>dt_kv_read = fl_zero F, dt_local_kv = fl_zero F, dt_remote_kv = fl_zero F, dt_cold_kv = fl_zero F,
       dt_weight_read = fl_zero F, dt_decode_s = fl_zero F\<rparr> = Inr t"
    using tokens by blast
  then show ?thesis
    by (simp add: simulate_request_def assms int_mul_def fl_div_def Let_def)
qed

lemma map_res_returns: "\<forall>x\<in>set xs. \<exists>y. f x = Inr y \<and> g y = h x \<Longrightarrow> \<exists>ys. map_res f xs = Inr ys \<and> map g ys = map h xs"
  by (induction xs) auto

section \<open>Percentiles of floats\<close>

lemma length_fl_insert [simp]: "length (fl_insert F x ys) = Suc (length ys)"
  by (induction ys) simp_all

lemma length_py_sorted [simp]: "length (py_sorted F xs) = length xs"
  by (induction xs) (simp_all add: py_sorted_def)

lemma py_sorted_Nil [simp]: "py_sorted F xs = [] \<longleftrightarrow> xs = []"
  by (simp flip: length_0_conv del: length_0_conv)

lemma py_index_in: "0 \<le> i \<Longrightarrow> i < int (length xs) \<Longrightarrow> py_index xs i = Inr (xs ! nat i)"
  by (simp add: py_index_def)

lemma median_returns:
  "xs \<noteq> [] \<Longrightarrow> \<not> fl_eq F (fl_of_int F 2) (fl_zero F) \<Longrightarrow> \<exists>x. median F xs = Inr x"
proof -
  assume "xs \<noteq> []" and two: "\<not> fl_eq F (fl_of_int F 2) (fl_zero F)"
  then have n: "0 < length xs" by simp
  define i where "i = int (length xs) div 2"
  have i: "0 \<le> i" "i < int (length xs)" and pos: "int (length xs) mod 2 \<noteq> 1 \<Longrightarrow> 1 \<le> i"
    unfolding i_def using n by presburger+
  let ?ys = "py_sorted F xs"
  have "py_index ?ys i = Inr (?ys ! nat i)" using i by (simp add: py_index_in)
  moreover have "py_index ?ys (i - 1) = Inr (?ys ! nat (i - 1))" if "int (length xs) mod 2 \<noteq> 1"
    using i pos [OF that] by (simp add: py_index_in)
  ultimately show ?thesis
    using two n by (cases "int (length xs) mod 2 = 1") (simp_all add: median_def Let_def fl_div_def flip: i_def)
qed

lemma percentile_returns:
  assumes n: "int (length xs) \<le> 2 ^ 53" and pct: "b64_finite pct" "0 \<le> b64_val pct" "b64_val pct \<le> 1"
  shows "\<exists>x. percentile (b64_sim L) xs pct = Inr x"
proof (cases "length xs \<le> 1")
  case True
  then have "xs = [] \<or> length xs = 1" by (cases xs) simp_all
  then show ?thesis by (auto simp: percentile_def Let_def)
next
  case False
  define k where "k = int (length xs) - 1"
  have k: "0 < k" "\<bar>k\<bar> \<le> 2 ^ 53" using False n by (simp_all add: k_def)
  define rank where "rank = b64_mul (round_ratio k 1 0) pct"
  note conv = b64_of_int [OF k(2)]
  have "b64_form 0" using b64_form_of_int [of 0] by simp
  moreover have "0 \<le> b64_val (round_ratio k 1 0) * b64_val pct" using k pct conv by simp
  moreover have "b64_val (round_ratio k 1 0) * b64_val pct \<le> real_of_int k" using k pct conv mult_left_le by simp
  ultimately have rank: "b64_finite rank" "0 \<le> b64_val rank" "b64_val rank \<le> real_of_int k"
    unfolding rank_def using b64_mul_between [OF conv(1) pct(1) _ b64_form_of_int [OF k(2)]] by simp_all
  define low where "low = \<lfloor>b64_val rank\<rfloor>"
  have low: "0 \<le> low" "low \<le> k" using rank floor_mono [OF rank(3)] by (simp_all add: low_def)
  have trunc: "b64_trunc rank = Inr low" unfolding low_def by (rule b64_trunc_val [OF rank(1,2)])
  have conv_low: "b64_conv low = Inr (round_ratio low 1 0)" by (rule b64_of_int(3)) (use low k in linarith)
  let ?ys = "py_sorted (b64_sim L) xs"
  have ne: "xs \<noteq> []" using False by (cases xs) simp_all
  have "0 \<le> min (low + 1) k" "min (low + 1) k < int (length ?ys)" "low < int (length ?ys)"
    using low k ne by (simp_all add: k_def)
  then have "py_index ?ys low = Inr (?ys ! nat low)" "py_index ?ys (min (low + 1) k) = Inr (?ys ! nat (min (low + 1) k))"
    using low(1) by (simp_all only: py_index_in)
  then show ?thesis
    using False conv(3) trunc conv_low ne by (auto simp: percentile_def Let_def rank_def k_def)
qed

lemma b64_pct:
  "pct95 (b64_sim L) = B_fin 8556839292003942 (- 53)" "pct99 (b64_sim L) = B_fin 8917127262193582 (- 53)"
proof -
  have "b64_div (round_ratio 95 1 0) (round_ratio 100 1 0) = B_fin 8556839292003942 (- 53)" by code_simp
  then show "pct95 (b64_sim L) = B_fin 8556839292003942 (- 53)" by (simp add: pct95_def)
  have "b64_div (round_ratio 99 1 0) (round_ratio 100 1 0) = B_fin 8917127262193582 (- 53)" by code_simp
  then show "pct99 (b64_sim L) = B_fin 8917127262193582 (- 53)" by (simp add: pct99_def)
qed

lemma percentiles_return:
  assumes "int (length xs) \<le> 2 ^ 53"
  shows "\<exists>x. percentile (b64_sim L) xs (pct95 (b64_sim L)) = Inr x" "\<exists>x. percentile (b64_sim L) xs (pct99 (b64_sim L)) = Inr x"
  by (rule percentile_returns [OF assms]; simp add: b64_pct power_int_minus)+

lemma b64_two: "\<not> fl_eq (b64_sim L) (fl_of_int (b64_sim L) 2) (fl_zero (b64_sim L))"
  using b64_of_int [of 2] b64_of_int [of 0] b64_eq_val [of "round_ratio 2 1 0" "B_fin 0 0"] by simp

lemma b64_int_nonzero:
  "i \<noteq> 0 \<Longrightarrow> \<bar>i\<bar> \<le> 2 ^ 53 \<Longrightarrow> \<not> b64_eq (round_ratio i 1 0) (B_fin 0 0)"
  using b64_of_int [of i] b64_eq_val [of "round_ratio i 1 0" "B_fin 0 0"] by simp

text \<open>A positive total makes a divisor that is not zero.\<close>

lemma b64_pos_nonzero: "b64_less (B_fin 0 0) x \<Longrightarrow> \<not> b64_eq x (B_fin 0 0)"
  by (cases x) (auto simp: Let_def)

lemma summarize_returns:
  assumes "results \<noteq> []" "int (length results) \<le> 2 ^ 53" "\<bar>\<Sum>rq\<leftarrow>requests. rq_output_tokens rq\<bar> \<le> 2 ^ 53"
  shows "\<exists>s. summarize (b64_sim L) requests results = Inr s \<and> ts_requests s = int (length results) \<and>
    ts_output_tokens s = (\<Sum>rq\<leftarrow>requests. rq_output_tokens rq)"
proof -
  let ?F = "b64_sim L"
  have "\<exists>x. median ?F (map g results) = Inr x" for g
    by (rule median_returns) (use assms(1) b64_two in simp_all)
  then obtain mt mp where med: "median ?F (map rr_ttft_s results) = Inr mt" "median ?F (map rr_tpot_s results) = Inr mp"
    by blast
  have pct: "\<exists>x. percentile ?F (map g results) (pct95 ?F) = Inr x" "\<exists>x. percentile ?F (map g results) (pct99 ?F) = Inr x" for g
    by (rule percentiles_return; use assms(2) in simp)+
  obtain t95 t99 p95 p99 where per:
      "percentile ?F (map rr_ttft_s results) (pct95 ?F) = Inr t95" "percentile ?F (map rr_ttft_s results) (pct99 ?F) = Inr t99"
      "percentile ?F (map rr_tpot_s results) (pct95 ?F) = Inr p95" "percentile ?F (map rr_tpot_s results) (pct99 ?F) = Inr p99"
    using pct [of rr_ttft_s] pct [of rr_tpot_s] by blast
  show ?thesis
    unfolding summarize_def Let_def med per bind_res_simps
    using b64_of_int(3) [OF assms(3)] b64_pos_nonzero by (auto simp: fl_div_def)
qed

section \<open>Generated traces\<close>

text \<open>The number of reused tokens is the exact product cut off, or one more where rounding reaches an integer.\<close>

lemma reused_between:
  assumes "0 \<le> prefix" "prefix \<le> 2 ^ 53" "b64_finite r" "0 \<le> b64_val r" "b64_val r \<le> 1"
  defines "x \<equiv> real_of_int prefix * b64_val r"
  shows "\<exists>reused. bind_res (int_mul (b64_sim L) prefix r) (fl_trunc (b64_sim L)) = Inr reused \<and>
    \<lfloor>x\<rfloor> \<le> reused \<and> reused \<le> \<lceil>x\<rceil> \<and> 0 \<le> reused \<and> reused \<le> prefix"
proof -
  let ?y = "b64_mul (round_ratio prefix 1 0) r"
  have p: "\<bar>prefix\<bar> \<le> 2 ^ 53" using assms by simp
  note conv = b64_of_int [OF p]
  have x: "b64_val (round_ratio prefix 1 0) * b64_val r = x" by (simp add: conv x_def)
  have x0: "0 \<le> x" "x \<le> real_of_int prefix" using assms mult_left_le [of "b64_val r" "real_of_int prefix"] by (simp_all add: x_def)
  have low: "0 \<le> \<lfloor>x\<rfloor>" and high: "\<lceil>x\<rceil> \<le> prefix" and fc: "\<lfloor>x\<rfloor> \<le> \<lceil>x\<rceil>"
    using x0 by (simp_all add: ceiling_le_iff)
  have "\<bar>\<lfloor>x\<rfloor>\<bar> \<le> 2 ^ 53" "\<bar>\<lceil>x\<rceil>\<bar> \<le> 2 ^ 53" using low high fc p by linarith+
  then have y: "b64_finite ?y" "real_of_int \<lfloor>x\<rfloor> \<le> b64_val ?y" "b64_val ?y \<le> real_of_int \<lceil>x\<rceil>"
    using b64_mul_between [OF conv(1) assms(3) b64_form_of_int b64_form_of_int, of "\<lfloor>x\<rfloor>" "\<lceil>x\<rceil>"] x by simp_all
  define z where "z = \<lfloor>b64_val ?y\<rfloor>"
  have z: "\<lfloor>x\<rfloor> \<le> z" "z \<le> \<lceil>x\<rceil>" using floor_mono [OF y(2)] floor_mono [OF y(3)] by (simp_all add: z_def)
  have "b64_trunc ?y = Inr z" unfolding z_def using y low by (intro b64_trunc_val) linarith+
  then have "bind_res (int_mul (b64_sim L) prefix r) (fl_trunc (b64_sim L)) = Inr z" using conv(3) by (simp add: int_mul_def)
  moreover have "0 \<le> z" "z \<le> prefix" using z low high by linarith+
  ultimately show ?thesis using z by blast
qed

lemma generated_configs_b64:
  "\<exists>m per_token. ModelConfig_from_dict (b64_sim L) generated_model = Inr m \<and> kv_bytes_per_token (b64_sim L) m = Inr per_token"
  "HardwareConfig_from_dict (b64_sim L) (generated_hardware (b64_sim L)) =
    Inr \<lparr>hw_local_dram_bandwidth_bytes_s = round_ratio 800000000000 1 0, hw_remote_kv_bandwidth_bytes_s = round_ratio 224000000000 1 0,
      hw_prefill_ops_s = round_ratio 5000000000000000 1 0, hw_decode_ops_s = round_ratio 1000000000000000 1 0,
      hw_collective_latency_s = b64_div (round_ratio 1 1 0) (round_ratio 1000 1 0),
      hw_kv_local_hit_rate = b64_div (round_ratio 9 1 0) (round_ratio 10 1 0),
      hw_kv_remote_hit_rate = b64_div (round_ratio 8 1 0) (round_ratio 100 1 0)\<rparr>"
proof -
  show "\<exists>m per_token. ModelConfig_from_dict (b64_sim L) generated_model = Inr m \<and> kv_bytes_per_token (b64_sim L) m = Inr per_token"
    by (simp add: ModelConfig_from_dict_def generated_model_def int_field_def float_field_def kv_bytes_per_token_def
        mul_int_def b64_of_int)
  have "\<not> b64_less (round_ratio 1 1 0) (b64_add (b64_div (round_ratio 9 1 0) (round_ratio 10 1 0)) (b64_div (round_ratio 8 1 0) (round_ratio 100 1 0)))"
    by code_simp
  then show "HardwareConfig_from_dict (b64_sim L) (generated_hardware (b64_sim L)) =
    Inr \<lparr>hw_local_dram_bandwidth_bytes_s = round_ratio 800000000000 1 0, hw_remote_kv_bandwidth_bytes_s = round_ratio 224000000000 1 0,
      hw_prefill_ops_s = round_ratio 5000000000000000 1 0, hw_decode_ops_s = round_ratio 1000000000000000 1 0,
      hw_collective_latency_s = b64_div (round_ratio 1 1 0) (round_ratio 1000 1 0),
      hw_kv_local_hit_rate = b64_div (round_ratio 9 1 0) (round_ratio 10 1 0),
      hw_kv_remote_hit_rate = b64_div (round_ratio 8 1 0) (round_ratio 100 1 0)\<rparr>"
    by (simp add: HardwareConfig_from_dict_def generated_hardware_def float_field_def ratio_def b64_of_int)
qed

lemma simulate_generated_b64:
  assumes "0 \<le> prefix" "prefix \<le> 2 ^ 52" "0 \<le> reused" "reused \<le> prefix"
    and hw: "HardwareConfig_from_dict (b64_sim L) (generated_hardware (b64_sim L)) = Inr hw"
    and per: "kv_bytes_per_token (b64_sim L) m = Inr per_token"
  shows "\<exists>r. simulate_request (b64_sim L) m hw (generated prefix reused k) = Inr r \<and> rr_request_id r = ''generated-'' @ pad4 k"
proof -
  define out where "out = 512 + (int k mod 4) * 256"
  have "0 \<le> int k mod 4" "int k mod 4 < 4" by simp_all
  then have out: "512 \<le> out" "out \<le> 1280" by (simp_all add: out_def)
  note hw = hw [unfolded generated_configs_b64(2), simplified, symmetric]
  have "\<exists>r. simulate_request (b64_sim L) m hw (generated prefix reused k) = Inr r \<and>
      rr_request_id r = rq_request_id (generated prefix reused k)"
  proof (rule simulate_request_returns)
    show "kv_bytes_per_token (b64_sim L) m = Inr per_token" by (rule per)
    show "\<forall>i\<in>{0..<rq_output_tokens (generated prefix reused k)}.
        \<exists>x. fl_conv (b64_sim L) (rq_prefix_tokens (generated prefix reused k) + i) = Inr x"
    proof (intro ballI exI)
      fix i assume "i \<in> {0..<rq_output_tokens (generated prefix reused k)}"
      then have "\<bar>prefix + i\<bar> \<le> 2 ^ 53" using assms(1,2) out by (auto simp: generated_def simp flip: out_def)
      then show "fl_conv (b64_sim L) (rq_prefix_tokens (generated prefix reused k) + i) = Inr (round_ratio (prefix + i) 1 0)"
        by (simp add: generated_def b64_of_int(3))
    qed
    have "\<bar>prefix - reused\<bar> \<le> 2 ^ 53" using assms by simp
    then show "fl_conv (b64_sim L) (rq_new_prefill_tokens (generated prefix reused k)) = Inr (round_ratio (prefix - reused) 1 0)"
      by (simp add: generated_def b64_of_int(3))
    have o: "\<bar>out\<bar> \<le> 2 ^ 53" "out \<noteq> 0" using out by simp_all
    then show "fl_conv (b64_sim L) (rq_output_tokens (generated prefix reused k)) = Inr (round_ratio out 1 0)"
      by (simp add: generated_def b64_of_int(3) flip: out_def)
    show "\<not> fl_eq (b64_sim L) (round_ratio out 1 0) (fl_zero (b64_sim L))" using b64_int_nonzero [OF o(2,1)] by simp
  qed (simp_all add: hw b64_int_nonzero)
  then show ?thesis by (simp add: generated_def)
qed

lemma generated_outputs:
  "sum_list (map rq_output_tokens (map (generated prefix reused) ks)) = (\<Sum>k\<leftarrow>ks. 512 + (int k mod 4) * 256)"
  by (simp add: comp_def generated_def)

lemma generated_outputs_bound:
  "0 \<le> (\<Sum>k\<leftarrow>ks. 512 + (int k mod 4) * 256)" "(\<Sum>k\<leftarrow>ks. 512 + (int k mod 4) * 256) \<le> int (length ks) * 1280"
proof -
  have k: "0 \<le> int k mod 4" "int k mod 4 \<le> 3" for k using pos_mod_bound [of 4 "int k"] by simp_all
  show "0 \<le> (\<Sum>k\<leftarrow>ks. 512 + (int k mod 4) * 256)" by (intro sum_list_nonneg) (auto simp: k intro: add_nonneg_nonneg)
  show "(\<Sum>k\<leftarrow>ks. 512 + (int k mod 4) * 256) \<le> int (length ks) * 1280"
    using sum_list_const_le [of ks "\<lambda>k. 512 + (int k mod 4) * 256" 1280] k(2) by fastforce
qed

text \<open>Any trace with the generator's model, hardware and requests is simulated, whatever the order of its keys.\<close>

lemma simulate_generated_requests:
  fixes L :: b64_lib and trace :: "b64 dict" and n :: int
  defines "F \<equiv> b64_sim L" and "ks \<equiv> [0..<nat n]"
  assumes n: "0 < n" "n \<le> 2 ^ 42" and "0 \<le> prefix" "prefix \<le> 2 ^ 52" "0 \<le> reused" "reused \<le> prefix"
    and fields: "map_of trace ''trace_name'' = Some name" "map_of trace ''model'' = Some mj"
      "map_of trace ''hardware'' = Some hj" "map_of trace ''requests'' = Some (J_list items)"
    and mj: "ModelConfig_from_dict F mj = ModelConfig_from_dict F generated_model"
    and hj: "HardwareConfig_from_dict F hj = HardwareConfig_from_dict F (generated_hardware F)"
    and rqs: "map_res (Request_from_dict F) items = Inr (map (generated prefix reused) ks)"
  shows "\<exists>rep. simulate_trace F trace = Inr rep \<and> tr_trace_name rep = name \<and>
    (\<exists>results. tr_requests rep = map result_dict results) \<and> ts_requests (tr_summary rep) = n \<and>
    map (\<lambda>d. map_of d ''request_id'') (tr_requests rep) = map (\<lambda>k. Some (J_str (''generated-'' @ pad4 k))) ks \<and>
    ts_output_tokens (tr_summary rep) = (\<Sum>k\<leftarrow>ks. 512 + (int k mod 4) * 256)"
proof -
  let ?rqs = "map (generated prefix reused) ks"
  obtain m per_token where m: "ModelConfig_from_dict F generated_model = Inr m" and per: "kv_bytes_per_token F m = Inr per_token"
    unfolding F_def using generated_configs_b64(1) [of L] by blast
  obtain hw where hw: "HardwareConfig_from_dict F (generated_hardware F) = Inr hw"
    unfolding F_def using generated_configs_b64(2) by blast
  have "\<forall>rq\<in>set ?rqs. \<exists>s. simulate_request F m hw rq = Inr s \<and> rr_request_id s = rq_request_id rq"
    using simulate_generated_b64 [OF assms(5-8), of L, folded F_def, OF hw per] by (auto simp: generated_def)
  then obtain results where results: "map_res (simulate_request F m hw) ?rqs = Inr results"
      "map rr_request_id results = map rq_request_id ?rqs"
    using map_res_returns by blast
  have len: "length results = nat n" using arg_cong [OF results(2), of length] by (simp add: ks_def)
  have "results \<noteq> []" "int (length results) \<le> 2 ^ 53" using len n by auto
  moreover have "\<bar>\<Sum>rq\<leftarrow>?rqs. rq_output_tokens rq\<bar> \<le> 2 ^ 53"
    unfolding generated_outputs using generated_outputs_bound [of ks] n by (simp add: ks_def)
  ultimately obtain s where s: "summarize F ?rqs results = Inr s" "ts_requests s = int (length results)"
      "ts_output_tokens s = (\<Sum>rq\<leftarrow>?rqs. rq_output_tokens rq)"
    unfolding F_def using summarize_returns by blast
  have "items \<noteq> []" using rqs n by (cases items) (auto simp: ks_def)
  then have valid: "validate_trace_shape F trace = Inr ()"
    unfolding validate_Inr using fields m hw rqs mj hj by auto
  define rep where "rep = \<lparr>tr_trace_name = name, tr_kv_bytes_per_token = per_token, tr_summary = s,
      tr_requests = map result_dict results\<rparr>"
  from valid have "simulate_trace F trace = Inr rep"
    using fields mj hj m hw rqs results(1) s(1) per by (simp add: simulate_trace_def json_iter_def rep_def)
  moreover have "map (\<lambda>d. map_of d ''request_id'') (tr_requests rep) = map (\<lambda>i. Some (J_str i)) (map rr_request_id results)"
    by (simp add: rep_def result_dict_def)
  then have "map (\<lambda>d. map_of d ''request_id'') (tr_requests rep) = map (\<lambda>k. Some (J_str (''generated-'' @ pad4 k))) ks"
    unfolding results(2) by (simp add: generated_def)
  moreover have "tr_trace_name rep = name" "\<exists>results. tr_requests rep = map result_dict results"
    by (auto simp: rep_def)
  moreover have "ts_requests (tr_summary rep) = n" using s(2) len n by (simp add: rep_def)
  moreover have "ts_output_tokens (tr_summary rep) = (\<Sum>k\<leftarrow>ks. 512 + (int k mod 4) * 256)"
    by (simp only: rep_def trace_report.simps s(3) generated_outputs)
  ultimately show ?thesis by blast
qed

lemma build_trace_binary64:
  assumes "0 \<le> prefix" "prefix \<le> 2 ^ 52" "b64_finite r" "0 \<le> b64_val r" "b64_val r \<le> 1"
  shows "\<exists>reused trace. \<lfloor>of_int prefix * b64_val r\<rfloor> \<le> reused \<and> reused \<le> \<lceil>of_int prefix * b64_val r\<rceil> \<and>
    0 \<le> reused \<and> reused \<le> prefix \<and> build_trace (b64_sim L) n prefix r = Inr trace \<and>
    map_of trace ''trace_name'' = Some (J_str ''generated_agentic_coding_trace'') \<and>
    map_of trace ''model'' = Some generated_model \<and> map_of trace ''hardware'' = Some (generated_hardware (b64_sim L)) \<and>
    map_of trace ''requests'' = Some (J_list (map (generated_request prefix reused (prefix - reused)) [0..<nat n]))"
proof -
  have "prefix \<le> 2 ^ 53" using assms(2) by simp
  then obtain reused where reused: "bind_res (int_mul (b64_sim L) prefix r) (fl_trunc (b64_sim L)) = Inr reused"
      "\<lfloor>of_int prefix * b64_val r\<rfloor> \<le> reused" "reused \<le> \<lceil>of_int prefix * b64_val r\<rceil>" "0 \<le> reused" "reused \<le> prefix"
    using reused_between [OF assms(1) _ assms(3-5), of L] by blast
  obtain trace where "build_trace (b64_sim L) n prefix r = Inr trace"
      "map_of trace ''trace_name'' = Some (J_str ''generated_agentic_coding_trace'')"
      "map_of trace ''model'' = Some generated_model" "map_of trace ''hardware'' = Some (generated_hardware (b64_sim L))"
      "map_of trace ''requests'' = Some (J_list (map (generated_request prefix reused (prefix - reused)) [0..<nat n]))"
    using reused(1) by (auto simp: build_trace_def bind_res_Inr)
  with reused(2-5) show ?thesis by blast
qed

text \<open>
  With Python's binary64 floats, whatever \<open>exp\<close>, \<open>sqrt\<close>, \<open>sum\<close> and \<open>str\<close> of a list return: for a prefix of at most \<open>2 ^ 52\<close> tokens and a reuse ratio from 0 to 1, \<open>build_trace\<close>
  returns a trace whose requests reuse the exact product cut off to an integer or the integer just
  above it, never more than the prefix. The event model refuses the trace with \<open>ValueError\<close> if it has
  no requests; otherwise it accepts and simulates it without error, reporting every request under
  its own identifier and the sum of the output tokens.
\<close>

theorem generated_trace_simulates_binary64:
  assumes "n \<le> 2 ^ 42" "0 \<le> prefix" "prefix \<le> 2 ^ 52"
    and "b64_finite r" "0 \<le> b64_val r" "b64_val r \<le> 1"
  shows "\<exists>reused trace. \<lfloor>of_int prefix * b64_val r\<rfloor> \<le> reused \<and> reused \<le> \<lceil>of_int prefix * b64_val r\<rceil> \<and>
    0 \<le> reused \<and> reused \<le> prefix \<and> build_trace (b64_sim L) n prefix r = Inr trace \<and>
    map_of trace ''requests'' = Some (J_list (map (generated_request prefix reused (prefix - reused)) [0..<nat n])) \<and>
    (if n \<le> 0 then simulate_trace (b64_sim L) trace = Inl ValueError
     else \<exists>rep. simulate_trace (b64_sim L) trace = Inr rep \<and> ts_requests (tr_summary rep) = n \<and>
       map (\<lambda>d. map_of d ''request_id'') (tr_requests rep) = map (\<lambda>k. Some (J_str (''generated-'' @ pad4 k))) [0..<nat n] \<and>
       ts_output_tokens (tr_summary rep) = (\<Sum>k\<leftarrow>[0..<nat n]. 512 + (int k mod 4) * 256))"
proof -
  let ?F = "b64_sim L"
  obtain reused trace where reused: "\<lfloor>of_int prefix * b64_val r\<rfloor> \<le> reused" "reused \<le> \<lceil>of_int prefix * b64_val r\<rceil>"
      "0 \<le> reused" "reused \<le> prefix" and build: "build_trace ?F n prefix r = Inr trace"
    and fields: "map_of trace ''trace_name'' = Some (J_str ''generated_agentic_coding_trace'')"
      "map_of trace ''model'' = Some generated_model" "map_of trace ''hardware'' = Some (generated_hardware ?F)"
      "map_of trace ''requests'' = Some (J_list (map (generated_request prefix reused (prefix - reused)) [0..<nat n]))"
    using build_trace_binary64 [OF assms(2-6), of L n] by blast
  have "if n \<le> 0 then simulate_trace ?F trace = Inl ValueError
    else \<exists>rep. simulate_trace ?F trace = Inr rep \<and> ts_requests (tr_summary rep) = n \<and>
      map (\<lambda>d. map_of d ''request_id'') (tr_requests rep) = map (\<lambda>k. Some (J_str (''generated-'' @ pad4 k))) [0..<nat n] \<and>
      ts_output_tokens (tr_summary rep) = (\<Sum>k\<leftarrow>[0..<nat n]. 512 + (int k mod 4) * 256)"
  proof (cases "n \<le> 0")
    case True
    have "\<not> (\<exists>k\<in>set required_top. k \<notin> fst ` set trace)"
      using fields by (auto simp: required_top_def simp flip: map_of_eq_None_iff)
    then show ?thesis using True fields by (simp add: simulate_trace_def validate_trace_shape_def)
  next
    case False
    then have pos: "0 < n" by simp
    have "map_res (Request_from_dict ?F) (map (generated_request prefix reused (prefix - reused)) [0..<nat n]) =
        Inr (map (generated prefix reused) [0..<nat n])"
      using reused(4) by (simp add: map_res_generated)
    then show ?thesis
      using False simulate_generated_requests [OF pos assms(1-3) reused(3,4) fields refl refl] by auto
  qed
  with build reused fields(4) show ?thesis by blast
qed

text \<open>A ratio of 0.3 is a little less than three tenths, and ten times it rounds to 3: the upper case occurs.\<close>

theorem generated_trace_simulates_binary64_witness:
  "\<exists>trace rep. build_trace (b64_sim plain_lib) 2 10 (literal 3 10) = Inr trace \<and>
    simulate_trace (b64_sim plain_lib) trace = Inr rep \<and> ts_requests (tr_summary rep) = 2 \<and>
    ts_output_tokens (tr_summary rep) = 1280 \<and> \<lfloor>10 * b64_val (literal 3 10)\<rfloor> = 2 \<and>
    bind_res (int_mul (b64_sim plain_lib) 10 (literal 3 10)) (fl_trunc (b64_sim plain_lib)) = Inr 3"
proof -
  have r: "literal 3 10 = B_fin 5404319552844595 (- 54)" by code_simp
  have "b64_trunc (b64_mul (literal 10 1) (literal 3 10)) = Inr 3 \<and> b64_conv 10 = Inr (literal 10 1)" by code_simp
  then have mul: "bind_res (int_mul (b64_sim plain_lib) 10 (literal 3 10)) (fl_trunc (b64_sim plain_lib)) = Inr 3"
    by (simp add: int_mul_def)
  have val: "b64_finite (literal 3 10)" "0 \<le> b64_val (literal 3 10)" "b64_val (literal 3 10) \<le> 1"
      "\<lfloor>10 * b64_val (literal 3 10)\<rfloor> = 2"
    unfolding r by (simp_all add: power_int_minus floor_eq_iff)
  have "[0..<nat 2] = [0, 1]" by (simp add: upt_rec)
  then have sum: "(\<Sum>k\<leftarrow>[0..<nat 2]. 512 + (int k mod 4) * 256) = 1280" by simp
  obtain trace rep where "build_trace (b64_sim plain_lib) 2 10 (literal 3 10) = Inr trace"
      "simulate_trace (b64_sim plain_lib) trace = Inr rep" "ts_requests (tr_summary rep) = 2"
      "ts_output_tokens (tr_summary rep) = (\<Sum>k\<leftarrow>[0..<nat 2]. 512 + (int k mod 4) * 256)"
    using generated_trace_simulates_binary64 [of 2 10 "literal 3 10" plain_lib, OF _ _ _ val(1-3)] by auto
  then show ?thesis unfolding sum using val(4) mul by blast
qed

section \<open>What rounding breaks\<close>

text \<open>Two requests that differ only in their name, on hardware where nothing but the collective takes time.\<close>

definition two_equal_requests :: "b64 \<Rightarrow> b64 dict" where
  "two_equal_requests latency =
     (let rq = (\<lambda>name. J_obj [(''request_id'', J_str name), (''prefix_tokens'', J_int 8), (''reused_prefix_tokens'', J_int 8),
        (''new_prefill_tokens'', J_int 0), (''output_tokens'', J_int 1)]) in
      [(''trace_name'', J_str ''two equal requests''), (''model'', J_obj [(''layers'', J_int 1), (''hidden_size'', J_int 8),
         (''num_q_heads'', J_int 1), (''num_kv_heads'', J_int 1), (''head_dim'', J_int 8), (''kv_bytes_per_element'', J_int 0),
         (''weight_bytes_per_token'', J_int 0), (''decode_ops_per_token'', J_int 0), (''prefill_ops_per_token'', J_int 0)]),
       (''hardware'', J_obj [(''local_dram_bandwidth_bytes_s'', J_int 1), (''remote_kv_bandwidth_bytes_s'', J_int 1),
         (''prefill_ops_s'', J_int 1), (''decode_ops_s'', J_int 1), (''collective_latency_s'', J_float latency),
         (''kv_local_hit_rate'', J_int 1), (''kv_remote_hit_rate'', J_int 0)]),
       (''requests'', J_list [rq ''a'', rq ''b''])])"

text \<open>
  In binary64 the percentiles of the report need not be ordered and can leave the range of the data:
  the interpolation rounds. A trace that shows both, evaluated: the event model accepts a trace of two equal requests that take 1.3 s
  each and reports a 95th percentile below the 50th; with 1.7 s it reports one above the largest
  time. Over exact numbers \<open>percentile_order\<close> of theory \<open>Percentile\<close> excludes both.
\<close>

lemma equal_requests_percentiles:
  "(case simulate_trace (b64_sim plain_lib) (two_equal_requests (literal 13 10)) of Inl _ \<Rightarrow> False
    | Inr rep \<Rightarrow> ts_ttft_p50_s (tr_summary rep) = literal 13 10 \<and>
        b64_less (ts_ttft_p95_s (tr_summary rep)) (ts_ttft_p50_s (tr_summary rep))) \<and>
   (case simulate_trace (b64_sim plain_lib) (two_equal_requests (literal 17 10)) of Inl _ \<Rightarrow> False
    | Inr rep \<Rightarrow> list_all (\<lambda>d. map_of d ''ttft_s'' = Some (J_float (literal 17 10))) (tr_requests rep) \<and>
        b64_less (literal 17 10) (ts_ttft_p95_s (tr_summary rep)))"
  by code_simp

section \<open>The cold share of the KV traffic\<close>

text \<open>A float that is not negative: zero, positive, infinite or NaN.\<close>

definition not_negative :: "b64 \<Rightarrow> bool" where
  "not_negative x = (\<not> b64_less x (B_fin 0 0))"

lemma not_negative_simps [simp]:
  "not_negative (B_fin m e) = (0 \<le> m)" "not_negative (B_inf s) = (\<not> s)" "not_negative B_nan"
  by (simp_all add: not_negative_def Let_def not_less zero_le_mult_iff)

lemma not_negative_val: "b64_finite x \<Longrightarrow> not_negative x = (0 \<le> b64_val x)"
proof (cases x)
  case (B_fin m e)
  have "0 * 2 powi e \<le> real_of_int m * 2 powi e \<longleftrightarrow> 0 \<le> real_of_int m"
    by (subst mult_le_cancel_right_pos) simp_all
  then show ?thesis by (simp add: B_fin)
qed simp_all

lemma round_ratio_not_negative: "0 < d \<Longrightarrow> 0 \<le> n \<Longrightarrow> not_negative (round_ratio n d s)"
  by (auto simp: round_ratio_def round_positive_def Let_def sgn_if intro!: int_round_half_even_ge)

lemma b64_add_not_negative: "not_negative a \<Longrightarrow> not_negative b \<Longrightarrow> not_negative (b64_add a b)"
  by (cases a; cases b) (auto simp: Let_def intro!: round_ratio_not_negative)

lemma b64_mul_not_negative: "not_negative a \<Longrightarrow> not_negative b \<Longrightarrow> not_negative (b64_mul a b)"
  by (cases a; cases b) (auto intro!: round_ratio_not_negative)

lemma b64_conv_not_negative: "0 \<le> i \<Longrightarrow> b64_conv i = Inr x \<Longrightarrow> not_negative x"
  using round_ratio_not_negative [of 1 i 0] by (cases "round_ratio i 1 0") (auto simp: b64_conv_def)

lemma decode_token_not_negative:
  assumes "decode_token (b64_sim L) m hw rq cold i t = Inr t'"
    and "kv_bytes_per_token (b64_sim L) m = Inr p" "not_negative p" "0 \<le> rq_prefix_tokens rq + i"
    and "not_negative (hw_kv_local_hit_rate hw)" "not_negative (hw_kv_remote_hit_rate hw)"
    and "not_negative (dt_local_kv t)" "not_negative (dt_remote_kv t)" "not_negative cold \<Longrightarrow> not_negative (dt_cold_kv t)"
  shows "not_negative (dt_local_kv t')" "not_negative (dt_remote_kv t')" "not_negative cold \<Longrightarrow> not_negative (dt_cold_kv t')"
  using assms by (auto simp: decode_token_def bind_res_Inr int_mul_def Let_def
      intro!: b64_add_not_negative b64_mul_not_negative intro: b64_conv_not_negative)

lemma decode_tokens_not_negative:
  assumes "decode_tokens (b64_sim L) m hw rq cold is t = Inr t'"
    and "kv_bytes_per_token (b64_sim L) m = Inr p" "not_negative p" "\<forall>i\<in>set is. 0 \<le> rq_prefix_tokens rq + i"
    and "not_negative (hw_kv_local_hit_rate hw)" "not_negative (hw_kv_remote_hit_rate hw)"
    and "not_negative (dt_local_kv t)" "not_negative (dt_remote_kv t)" "not_negative cold \<Longrightarrow> not_negative (dt_cold_kv t)"
  shows "not_negative (dt_local_kv t') \<and> not_negative (dt_remote_kv t') \<and> (not_negative cold \<longrightarrow> not_negative (dt_cold_kv t'))"
  using assms(1,4,7-9)
proof (induction "is" arbitrary: t)
  case (Cons i rest)
  from Cons.prems(1) obtain u where u: "decode_token (b64_sim L) m hw rq cold i t = Inr u"
      "decode_tokens (b64_sim L) m hw rq cold rest u = Inr t'"
    by (auto simp: bind_res_Inr)
  have "0 \<le> rq_prefix_tokens rq + i" using Cons.prems(2) by simp
  note step = decode_token_not_negative [OF u(1) assms(2,3) this assms(5,6) Cons.prems(3-5)]
  show ?case using Cons.prems(2) by (intro Cons.IH [OF u(2)] step) simp_all
qed simp

text \<open>
  What the float comparison admits, and what the two subtractions then leave: rounding to nearest
  does not cross the multiples of \<open>2 ^ -53\<close> from 0 to 1, nor the second rate.
\<close>

lemma b64_form_fraction:
  assumes "\<bar>k\<bar> \<le> 2 ^ 53"
  shows "b64_form (real_of_int k / 2 ^ 53)" "b64_form (real_of_int k / 2 ^ 52)"
proof -
  have "\<bar>real_of_int k\<bar> \<le> real_of_int (2 ^ 53)" using assms by (simp only: of_int_le_iff flip: of_int_abs)
  then have "\<bar>real_of_int k\<bar> \<le> 2 ^ 53" by simp
  have "b64_form (real_of_int k / 2 ^ n)" if "n \<le> 53" for n
  proof -
    have "\<bar>real_of_int k / 2 ^ n\<bar> \<le> \<bar>real_of_int k\<bar>" by (simp add: abs_divide divide_le_eq mult_le_cancel_left1)
    also note \<open>\<bar>real_of_int k\<bar> \<le> 2 ^ 53\<close>
    also have "(2::real) ^ 53 < 2 ^ 1024" by (rule power_strict_increasing) simp_all
    finally have "\<bar>real_of_int k / 2 ^ n\<bar> < 2 ^ 1024" .
    moreover have "real_of_int k / 2 ^ n = real_of_int k * 2 powi (- int n)" "- 1074 \<le> - int n"
      using that by (simp_all add: power_int_minus divide_inverse)
    ultimately show ?thesis unfolding b64_form_def using assms by blast
  qed
  from this [of 53] this [of 52] show "b64_form (real_of_int k / 2 ^ 53)" "b64_form (real_of_int k / 2 ^ 52)" by simp_all
qed

lemma round_ratio_above:
  assumes "0 < n" "0 < d" "b64_form y" "y \<le> real_of_int n / real_of_int d * 2 powi s" "real_of_int m * 2 powi e < y"
  shows "b64_less (B_fin m e) (round_ratio n d s)"
proof -
  obtain m' f where r: "round_positive n d s = (m', f)" by (cases "round_positive n d s")
  have "y \<le> real_of_int m' * 2 powi f" using round_positive_monotone(2) [OF assms(1,2) r assms(3,4)] .
  then show ?thesis using assms(1,5) r b64_less_B_fin [of m e m' f] by (simp add: round_ratio_def)
qed

lemma b64_add_above:
  assumes "b64_finite a" "b64_finite b" "b64_form y" "y \<le> b64_val a + b64_val b" "0 < y" "real_of_int m * 2 powi e < y"
  shows "b64_less (B_fin m e) (b64_add a b)"
proof -
  obtain m1 e1 m2 e2 where ab: "a = B_fin m1 e1" "b = B_fin m2 e2" using assms(1,2) by (cases a; cases b) simp_all
  let ?k = "min e1 e2"
  let ?n = "m1 * 2 ^ nat (e1 - ?k) + m2 * 2 ^ nat (e2 - ?k)"
  have eq: "b64_val a + b64_val b = real_of_int ?n / real_of_int 1 * 2 powi ?k"
    by (simp only: of_int_add scaled_int min.cobounded1 min.cobounded2) (simp add: ab field_simps)
  then have "0 < real_of_int ?n * 2 powi ?k" using assms(4,5) by simp
  then have "0 < real_of_int ?n" by (simp only: zero_less_mult_iff) (meson less_asym zero_less_power_int zero_less_numeral)
  then have "0 < ?n" by (simp only: of_int_0_less_iff)
  moreover have "b64_add a b = round_ratio ?n 1 ?k" by (simp add: ab Let_def)
  ultimately show ?thesis
    using round_ratio_above [OF _ zero_less_one assms(3) assms(4) [unfolded eq] assms(6)] by simp
qed

lemma b64_one: "round_ratio 1 1 0 = B_fin (2 ^ 52) (- 52)"
  by code_simp

lemma accepted_sum_bound:
  assumes "b64_finite l" "b64_finite r" "\<not> b64_less (round_ratio 1 1 0) (b64_add l r)"
  shows "b64_val l + b64_val r < 1 + 1 / 2 ^ 52"
proof (rule ccontr)
  assume "\<not> ?thesis"
  then have big: "1 + 1 / 2 ^ 52 \<le> b64_val l + b64_val r" by simp
  have "b64_form (real_of_int (2 ^ 52 + 1) / 2 ^ 52)" by (rule b64_form_fraction) simp
  then have "b64_form (1 + 1 / 2 ^ 52)" by (simp add: add_divide_distrib)
  from b64_add_above [OF assms(1,2) this big, of "2 ^ 52" "- 52"] show False
    using assms(3) unfolding b64_one by (simp add: power_int_minus)
qed

lemma cold_share_bounds:
  assumes "b64_finite l" "b64_finite r" "0 \<le> b64_val l" "0 \<le> b64_val r" "b64_val l + b64_val r \<le> 1 + 1 / 2 ^ 52"
  defines "c \<equiv> b64_add (b64_add (round_ratio 1 1 0) (b64_neg l)) (b64_neg r)"
  shows "b64_finite c \<and> - 3 / 2 ^ 53 \<le> b64_val c \<and> b64_val c \<le> 1 \<and> (b64_val l + b64_val r \<le> 1 \<longrightarrow> 0 \<le> b64_val c)"
proof -
  note one = b64_of_int [of 1, simplified]
  have form1: "b64_form 1" and form0: "b64_form 0" and low: "b64_form (- 3 / 2 ^ 53)"
    using b64_form_of_int [of 1] b64_form_of_int [of 0] b64_form_fraction(1) [of "- 3"] by simp_all
  define k where "k = \<lfloor>(1 - b64_val l) * 2 ^ 53\<rfloor>"
  have k: "real_of_int k \<le> (1 - b64_val l) * 2 ^ 53" "(1 - b64_val l) * 2 ^ 53 < real_of_int k + 1"
    unfolding k_def by linarith+
  have "\<bar>k\<bar> \<le> 2 ^ 53" using k assms(3-5) by (simp add: abs_le_iff)
  then have formk: "b64_form (real_of_int k / 2 ^ 53)" by (rule b64_form_fraction(1))
  let ?u = "b64_add (round_ratio 1 1 0) (b64_neg l)"
  have neg: "b64_finite (b64_neg l)" "b64_finite (b64_neg r)" using assms(1,2) by simp_all
  have u: "b64_finite ?u" "real_of_int k / 2 ^ 53 \<le> b64_val ?u" "b64_val ?u \<le> 1"
    using b64_add_between [OF one(1) neg(1) formk form1] k(1) assms(3) one(2) by (simp_all add: field_simps)
  have "- 3 / 2 ^ 53 \<le> b64_val ?u + b64_val (b64_neg r)" using u(2) k(2) assms(5) by (simp add: field_simps)
  moreover have "b64_val ?u + b64_val (b64_neg r) \<le> 1" using u(3) assms(4) by simp
  ultimately have c: "b64_finite c" "- 3 / 2 ^ 53 \<le> b64_val c" "b64_val c \<le> 1"
    unfolding c_def using b64_add_between [OF u(1) neg(2) low form1] by simp_all
  moreover have "0 \<le> b64_val c" if sum: "b64_val l + b64_val r \<le> 1"
  proof -
    have "b64_val r \<le> b64_val ?u"
      using b64_add_between(2) [OF one(1) neg(1) b64_form_val [OF assms(2)] form1] sum assms(3) one(2) by simp
    then show ?thesis
      unfolding c_def using b64_add_between(2) [OF u(1) neg(2) form0 form1] u(3) assms(4) by simp
  qed
  ultimately show ?thesis by simp
qed


lemma simulate_request_not_negative:
  assumes "simulate_request (b64_sim L) m hw rq = Inr res"
    and p: "kv_bytes_per_token (b64_sim L) m = Inr p" "not_negative p" and prefix: "0 \<le> rq_prefix_tokens rq"
    and rates: "not_negative (hw_kv_local_hit_rate hw)" "not_negative (hw_kv_remote_hit_rate hw)"
  defines "F \<equiv> b64_sim L"
  defines "cold \<equiv> fl_sub F (fl_sub F (fl_of_int F 1) (hw_kv_local_hit_rate hw)) (hw_kv_remote_hit_rate hw)"
  shows "not_negative (rr_local_kv_bytes res) \<and> not_negative (rr_remote_kv_bytes res) \<and>
    (not_negative cold \<longrightarrow> not_negative (rr_cold_kv_bytes res))"
proof -
  let ?zero = "\<lparr>dt_kv_read = fl_zero F, dt_local_kv = fl_zero F, dt_remote_kv = fl_zero F, dt_cold_kv = fl_zero F,
    dt_weight_read = fl_zero F, dt_decode_s = fl_zero F\<rparr>"
  obtain t where t: "decode_tokens F m hw rq cold [0..rq_output_tokens rq - 1] ?zero = Inr t"
      "rr_local_kv_bytes res = dt_local_kv t" "rr_remote_kv_bytes res = dt_remote_kv t" "rr_cold_kv_bytes res = dt_cold_kv t"
    using assms(1) unfolding F_def cold_def by (auto simp: simulate_request_def bind_res_Inr Let_def)
  have "\<forall>i\<in>set [0..rq_output_tokens rq - 1]. 0 \<le> rq_prefix_tokens rq + i" using prefix by simp
  then show ?thesis
    unfolding t(2-4) by (intro decode_tokens_not_negative [OF t(1) [unfolded F_def] p _ rates]) (simp_all add: F_def)
qed

text \<open>
  C38: the check that the hit rates add up to at most 1 is made in binary64, and so is the cold share
  \<open>1 - local - remote\<close> of an accepted configuration. For rates that are finite and not negative, a
  model whose KV bytes per token are not negative and a prefix of at least 0 tokens: the exact sum of
  the accepted rates is less than \<open>1 + 2 ^ -52\<close>, the cold share is finite and lies between
  \<open>-3 * 2 ^ -53\<close> and 1, the local and remote KV bytes of a simulated request are not negative, and
  its cold KV bytes are negative only if the exact sum of the rates exceeds 1, which rounding hid
  from the check. The witness is such a request: rates 0.8 and 0.2.
\<close>

theorem cold_traffic_sign:
  assumes "HardwareConfig_from_dict (b64_sim L) hj = Inr hw"
    and "b64_finite (hw_kv_local_hit_rate hw)" "b64_finite (hw_kv_remote_hit_rate hw)"
      "0 \<le> b64_val (hw_kv_local_hit_rate hw)" "0 \<le> b64_val (hw_kv_remote_hit_rate hw)"
    and "kv_bytes_per_token (b64_sim L) m = Inr p" "not_negative p" "0 \<le> rq_prefix_tokens rq"
    and "simulate_request (b64_sim L) m hw rq = Inr res"
  shows "b64_val (hw_kv_local_hit_rate hw) + b64_val (hw_kv_remote_hit_rate hw) < 1 + 1 / 2 ^ 52 \<and>
    (let cold = b64_add (b64_add (round_ratio 1 1 0) (b64_neg (hw_kv_local_hit_rate hw))) (b64_neg (hw_kv_remote_hit_rate hw)) in
      b64_finite cold \<and> - 3 / 2 ^ 53 \<le> b64_val cold \<and> b64_val cold \<le> 1) \<and>
    not_negative (rr_local_kv_bytes res) \<and> not_negative (rr_remote_kv_bytes res) \<and>
    (not_negative (rr_cold_kv_bytes res) \<or> 1 < b64_val (hw_kv_local_hit_rate hw) + b64_val (hw_kv_remote_hit_rate hw))"
proof -
  let ?l = "hw_kv_local_hit_rate hw" and ?r = "hw_kv_remote_hit_rate hw"
  let ?cold = "b64_add (b64_add (round_ratio 1 1 0) (b64_neg ?l)) (b64_neg ?r)"
  have "\<not> b64_less (round_ratio 1 1 0) (b64_add ?l ?r)"
    using assms(1) by (auto simp: HardwareConfig_from_dict_def bind_res_Inr split: if_splits)
  then have sum: "b64_val ?l + b64_val ?r < 1 + 1 / 2 ^ 52" by (rule accepted_sum_bound [OF assms(2,3)])
  note share = cold_share_bounds [OF assms(2-5) less_imp_le [OF sum]]
  have "not_negative ?l" "not_negative ?r" using assms(2-5) not_negative_val by blast+
  note signs = simulate_request_not_negative [OF assms(9,6-8) this, simplified]
  show ?thesis using sum share signs not_negative_val [of ?cold] by (auto simp: Let_def)
qed

text \<open>Hit rates of 0.8 and 0.2, with the bandwidths of the generated traces.\<close>

definition full_hit_rates :: "b64 json" where
  "full_hit_rates = J_obj [(''local_dram_bandwidth_bytes_s'', J_int 800000000000),
     (''remote_kv_bandwidth_bytes_s'', J_int 224000000000), (''prefill_ops_s'', J_int 5000000000000000),
     (''decode_ops_s'', J_int 1000000000000000), (''collective_latency_s'', J_float (literal 1 1000)),
     (''kv_local_hit_rate'', J_float (literal 8 10)), (''kv_remote_hit_rate'', J_float (literal 2 10))]"

definition cold_request :: "int \<Rightarrow> request" where
  "cold_request prefix = \<lparr>rq_request_id = ''a'', rq_prefix_tokens = prefix, rq_reused_prefix_tokens = 0,
     rq_new_prefill_tokens = prefix, rq_output_tokens = 2, rq_tenant_id = ''t'', rq_locality_domain = ''d'', rq_priority = 0\<rparr>"

lemma full_hit_rates_simulated:
  "case (ModelConfig_from_dict (b64_sim plain_lib) generated_model, HardwareConfig_from_dict (b64_sim plain_lib) full_hit_rates) of
     (Inr m, Inr hw) \<Rightarrow>
       hw_kv_local_hit_rate hw = B_fin 7205759403792794 (- 53) \<and> hw_kv_remote_hit_rate hw = B_fin 7205759403792794 (- 55) \<and>
       (case (kv_bytes_per_token (b64_sim plain_lib) m, simulate_request (b64_sim plain_lib) m hw (cold_request 1000)) of
          (Inr p, Inr res) \<Rightarrow> not_negative p \<and> \<not> not_negative (rr_cold_kv_bytes res)
        | _ \<Rightarrow> False)
   | _ \<Rightarrow> False"
  by code_simp

theorem cold_traffic_sign_witness:
  "\<exists>m hw res. HardwareConfig_from_dict (b64_sim plain_lib) full_hit_rates = Inr hw \<and>
    simulate_request (b64_sim plain_lib) m hw (cold_request 1000) = Inr res \<and>
    not_negative (rr_local_kv_bytes res) \<and> not_negative (rr_remote_kv_bytes res) \<and> \<not> not_negative (rr_cold_kv_bytes res) \<and>
    1 < b64_val (hw_kv_local_hit_rate hw) + b64_val (hw_kv_remote_hit_rate hw) \<and>
    b64_val (hw_kv_local_hit_rate hw) + b64_val (hw_kv_remote_hit_rate hw) < 1 + 1 / 2 ^ 52"
proof -
  obtain m hw p res where accepted: "HardwareConfig_from_dict (b64_sim plain_lib) full_hit_rates = Inr hw"
    and rates: "hw_kv_local_hit_rate hw = B_fin 7205759403792794 (- 53)" "hw_kv_remote_hit_rate hw = B_fin 7205759403792794 (- 55)"
    and p: "kv_bytes_per_token (b64_sim plain_lib) m = Inr p" "not_negative p"
    and res: "simulate_request (b64_sim plain_lib) m hw (cold_request 1000) = Inr res" "\<not> not_negative (rr_cold_kv_bytes res)"
    using full_hit_rates_simulated by (auto split: sum.splits)
  have "b64_finite (hw_kv_local_hit_rate hw)" "b64_finite (hw_kv_remote_hit_rate hw)"
      "0 \<le> b64_val (hw_kv_local_hit_rate hw)" "0 \<le> b64_val (hw_kv_remote_hit_rate hw)"
    unfolding rates by (simp_all add: power_int_minus)
  from cold_traffic_sign [OF accepted this p _ res(1)] accepted res show ?thesis by (auto simp: cold_request_def)
qed

end
