(* ===== verification/JsonText.thy ===== *)
theory JsonText
  imports FloatText "HOL-Library.Char_ord" "HOL-Library.List_Lexorder"
begin

text \<open>
  The JSON texts the tools exchange: \<open>json.dumps(..., sort_keys=True)\<close> and \<open>json.loads\<close> of Python's
  standard library, over any float record. A character is a code point below 256; an escape above
  that is outside the model, which refuses it. The recursion limit of the interpreter is not modelled.
\<close>

section \<open>Writing\<close>

definition hex_digit :: "int \<Rightarrow> char" where
  "hex_digit n = (if n < 10 then char_of (48 + n) else char_of (87 + n))"

definition escape :: "char \<Rightarrow> string" where
  "escape c =
     (let n = (of_char c :: int) in
      if n = 34 then [CHR 0x5C, c] else if n = 92 then [c, c]
      else if n = 10 then [CHR 0x5C, CHR ''n''] else if n = 13 then [CHR 0x5C, CHR ''r'']
      else if n = 9 then [CHR 0x5C, CHR ''t''] else if n = 12 then [CHR 0x5C, CHR ''f'']
      else if n = 8 then [CHR 0x5C, CHR ''b'']
      else if 32 \<le> n \<and> n \<le> 126 then [c]
      else [CHR 0x5C, CHR ''u'', CHR ''0'', CHR ''0'', hex_digit (n div 16), hex_digit (n mod 16)])"

definition quote :: char where "quote = CHR 0x22"

definition json_string :: "string \<Rightarrow> string" where
  "json_string s = quote # concat (map escape s) @ [quote]"

text \<open>The names JSON gives to NaN and the infinities; other floats are written by \<open>repr\<close>.\<close>

definition json_float :: "('f, 'x) sim_ops_scheme \<Rightarrow> 'f \<Rightarrow> string" where
  "json_float F x =
     (if \<not> fl_eq F x x then ''NaN''
      else case fl_parse F ''inf'' of
        Inl _ \<Rightarrow> fl_repr F (J_float x)
      | Inr infty \<Rightarrow>
          if fl_eq F x infty then ''Infinity'' else if fl_eq F x (fl_sub F (fl_zero F) infty) then ''-Infinity''
          else fl_repr F (J_float x))"

fun join :: "string \<Rightarrow> string list \<Rightarrow> string" where
  "join sep [] = []"
| "join sep [x] = x"
| "join sep (x # y # ys) = x @ sep @ join sep (y # ys)"

text \<open>The line break before an item at a level, with the indent of that level.\<close>

definition line_break :: "nat option \<Rightarrow> nat \<Rightarrow> string" where
  "line_break indent level = (case indent of None \<Rightarrow> [] | Some w \<Rightarrow> CHR 0x0A # replicate (w * level) (CHR '' ''))"

definition item_separator :: "nat option \<Rightarrow> nat \<Rightarrow> string" where
  "item_separator indent level = (case indent of None \<Rightarrow> '', '' | Some w \<Rightarrow> CHR '','' # line_break indent level)"

definition bracketed :: "nat option \<Rightarrow> nat \<Rightarrow> char \<Rightarrow> char \<Rightarrow> string list \<Rightarrow> string" where
  "bracketed indent level opening closing items =
     (if items = [] then [opening, closing]
      else opening # line_break indent (level + 1) @ join (item_separator indent (level + 1)) items @
        line_break indent level @ [closing])"

fun json_text :: "('f, 'x) sim_ops_scheme \<Rightarrow> nat option \<Rightarrow> nat \<Rightarrow> 'f json \<Rightarrow> string" where
  "json_text F indent level J_null = ''null''"
| "json_text F indent level (J_bool b) = (if b then ''true'' else ''false'')"
| "json_text F indent level (J_int i) = int_text i"
| "json_text F indent level (J_float x) = json_float F x"
| "json_text F indent level (J_str s) = json_string s"
| "json_text F indent level (J_list xs) =
     bracketed indent level (CHR ''['') (CHR '']'') (map (json_text F indent (level + 1)) xs)"
| "json_text F indent level (J_obj d) =
     bracketed indent level (CHR ''{'') (CHR ''}'')
       (map (\<lambda>(k, v). json_string k @ '': '' @ json_text F indent (level + 1) v) d)"

fun sort_json :: "'f json \<Rightarrow> 'f json" where
  "sort_json (J_list xs) = J_list (map sort_json xs)"
| "sort_json (J_obj d) = J_obj (sort_key fst (map (\<lambda>(k, v). (k, sort_json v)) d))"
| "sort_json v = v"

text \<open>\<open>str\<close> of an integer of more than 4300 digits is refused.\<close>

fun json_ints :: "'f json \<Rightarrow> int list" where
  "json_ints (J_int i) = [i]"
| "json_ints (J_list xs) = concat (map json_ints xs)"
| "json_ints (J_obj d) = concat (map (\<lambda>(k, v). json_ints v) d)"
| "json_ints v = []"

definition json_dumps :: "('f, 'x) sim_ops_scheme \<Rightarrow> nat option \<Rightarrow> 'f json \<Rightarrow> string res" where
  "json_dumps F indent v =
     (if \<exists>i\<in>set (json_ints v). 4300 < length (int_decimal \<bar>i\<bar>) then Inl ValueError
      else Inr (json_text F indent 0 (sort_json v)))"

section \<open>Reading\<close>

definition skip_space :: "string \<Rightarrow> string" where
  "skip_space s = dropWhile (\<lambda>c. (of_char c :: int) \<in> {9, 10, 13, 32}) s"

definition hex_value :: "char \<Rightarrow> int option" where
  "hex_value c = (let n = (of_char c :: int) in
     if 48 \<le> n \<and> n \<le> 57 then Some (n - 48) else if 97 \<le> n \<and> n \<le> 102 then Some (n - 87)
     else if 65 \<le> n \<and> n \<le> 70 then Some (n - 55) else None)"

text \<open>The character after a backslash other than \<open>u\<close>.\<close>

definition simple_escape :: "char \<Rightarrow> char option" where
  "simple_escape c = map_of [(quote, quote), (CHR 0x5C, CHR 0x5C), (CHR ''/'', CHR ''/''),
     (CHR ''b'', CHR 0x08), (CHR ''f'', CHR 0x0C), (CHR ''n'', CHR 0x0A),
     (CHR ''r'', CHR 0x0D), (CHR ''t'', CHR 0x09)] c"

text \<open>One character of a string and the rest.\<close>

definition scan_char :: "string \<Rightarrow> (char \<times> string) option" where
  "scan_char s =
     (if s = [] then None
      else if hd s \<noteq> CHR 0x5C then (if (of_char (hd s) :: int) < 32 then None else Some (hd s, tl s))
      else if take 3 (tl s) = ''u00'' \<and> 6 \<le> length s then
        (case (hex_value (s ! 4), hex_value (s ! 5)) of
           (Some x, Some y) \<Rightarrow> Some (char_of (16 * x + y), drop 6 s) | _ \<Rightarrow> None)
      else if tl s = [] then None
      else map_option (\<lambda>x. (x, drop 2 s)) (simple_escape (hd (tl s))))"

lemma scan_char_shorter: "scan_char s = Some (c, rest) \<Longrightarrow> length rest < length s"
  by (cases s) (auto simp: scan_char_def split: if_splits option.splits)

text \<open>The string up to the closing quote.\<close>

function scan_string :: "string \<Rightarrow> (string \<times> string) res" where
  "scan_string s =
     (if s \<noteq> [] \<and> hd s = quote then Inr ([], tl s)
      else case scan_char s of
        None \<Rightarrow> Inl ValueError
      | Some (c, rest) \<Rightarrow> bind_res (scan_string rest) (\<lambda>(t, after). Inr (c # t, after)))"
  by pat_completeness auto
termination by (relation "measure length") (auto dest: scan_char_shorter)

declare scan_string.simps [simp del]

text \<open>A number: the digits before the point, the fraction and the exponent where they are complete.\<close>

definition scan_int_part :: "string \<Rightarrow> string \<times> string" where
  "scan_int_part s =
     (if s \<noteq> [] \<and> hd s = CHR ''0'' then (''0'', tl s) else (takeWhile is_digit s, dropWhile is_digit s))"

definition scan_fraction :: "string \<Rightarrow> string \<times> string" where
  "scan_fraction s =
     (if s \<noteq> [] \<and> hd s = CHR ''.'' \<and> takeWhile is_digit (tl s) \<noteq> []
      then (CHR ''.'' # takeWhile is_digit (tl s), dropWhile is_digit (tl s)) else ([], s))"

definition scan_exponent :: "string \<Rightarrow> string \<times> string" where
  "scan_exponent s =
     (if s \<noteq> [] \<and> (hd s = CHR ''e'' \<or> hd s = CHR ''E'') then
        let signed = (tl s \<noteq> [] \<and> (hd (tl s) = CHR ''-'' \<or> hd (tl s) = CHR ''+''));
            sign = (if signed then [hd (tl s)] else []); ds = (if signed then tl (tl s) else tl s) in
        if takeWhile is_digit ds = [] then ([], s)
        else (hd s # sign @ takeWhile is_digit ds, dropWhile is_digit ds)
      else ([], s))"

definition scan_number :: "('f, 'x) sim_ops_scheme \<Rightarrow> string \<Rightarrow> ('f json \<times> string) res" where
  "scan_number F s =
     (let sign = (if s \<noteq> [] \<and> hd s = CHR ''-'' then ''-'' else []) in
      case scan_int_part (drop (length sign) s) of (ip, r1) \<Rightarrow>
      case scan_fraction r1 of (fr, r2) \<Rightarrow>
      case scan_exponent r2 of (ex, r3) \<Rightarrow>
        if ip = [] then Inl ValueError
        else if fr = [] \<and> ex = [] then bind_res (parse_int (sign @ ip)) (\<lambda>i. Inr (J_int i, r3))
        else bind_res (fl_parse F (sign @ ip @ fr @ ex)) (\<lambda>x. Inr (J_float x, r3)))"

text \<open>\<open>d[k] = v\<close> keeps the place of a key that is there.\<close>

fun dict_put :: "string \<Rightarrow> 'v \<Rightarrow> (string \<times> 'v) list \<Rightarrow> (string \<times> 'v) list" where
  "dict_put k v [] = [(k, v)]"
| "dict_put k v ((k', v') # d) = (if k' = k then (k, v) # d else (k', v') # dict_put k v d)"

definition scan_constant :: "('f, 'x) sim_ops_scheme \<Rightarrow> string \<Rightarrow> ('f json \<times> string) res option" where
  "scan_constant F s =
     (if take 4 s = ''null'' then Some (Inr (J_null, drop 4 s))
      else if take 4 s = ''true'' then Some (Inr (J_bool True, drop 4 s))
      else if take 5 s = ''false'' then Some (Inr (J_bool False, drop 5 s))
      else if take 3 s = ''NaN'' then Some (bind_res (fl_parse F ''nan'') (\<lambda>x. Inr (J_float x, drop 3 s)))
      else if take 8 s = ''Infinity'' then Some (bind_res (fl_parse F ''inf'') (\<lambda>x. Inr (J_float x, drop 8 s)))
      else if take 9 s = ''-Infinity'' then Some (bind_res (fl_parse F ''-inf'') (\<lambda>x. Inr (J_float x, drop 9 s)))
      else None)"

text \<open>
  The scanner. The first argument is fuel; every step that recurses has read a character, or is the
  first value of a list or dictionary, so twice the length of the text is enough.
\<close>

fun scan_value :: "nat \<Rightarrow> ('f, 'x) sim_ops_scheme \<Rightarrow> string \<Rightarrow> ('f json \<times> string) res"
and scan_items :: "nat \<Rightarrow> ('f, 'x) sim_ops_scheme \<Rightarrow> string \<Rightarrow> ('f json list \<times> string) res"
and scan_members :: "nat \<Rightarrow> ('f, 'x) sim_ops_scheme \<Rightarrow> 'f dict \<Rightarrow> string \<Rightarrow> ('f dict \<times> string) res" where
  "scan_value 0 F s = Inl OutOfFuel"
| "scan_value (Suc n) F s =
     (if s = [] then Inl ValueError
      else if hd s = quote then bind_res (scan_string (tl s)) (\<lambda>(t, r). Inr (J_str t, r))
      else if hd s = CHR ''{'' then
        (let r = skip_space (tl s) in
         if r \<noteq> [] \<and> hd r = CHR ''}'' then Inr (J_obj [], tl r)
         else bind_res (scan_members n F [] r) (\<lambda>(d, r). Inr (J_obj d, r)))
      else if hd s = CHR ''['' then
        (let r = skip_space (tl s) in
         if r \<noteq> [] \<and> hd r = CHR '']'' then Inr (J_list [], tl r)
         else bind_res (scan_items n F r) (\<lambda>(vs, r). Inr (J_list vs, r)))
      else case scan_constant F s of Some v \<Rightarrow> v | None \<Rightarrow> scan_number F s)"
| "scan_items 0 F s = Inl OutOfFuel"
| "scan_items (Suc n) F s =
     bind_res (scan_value n F s) (\<lambda>(v, r0).
     let r = skip_space r0 in
     if r \<noteq> [] \<and> hd r = CHR '']'' then Inr ([v], tl r)
     else if r \<noteq> [] \<and> hd r = CHR '','' then bind_res (scan_items n F (skip_space (tl r))) (\<lambda>(vs, r). Inr (v # vs, r))
     else Inl ValueError)"
| "scan_members 0 F d s = Inl OutOfFuel"
| "scan_members (Suc n) F d s =
     (if s = [] \<or> hd s \<noteq> quote then Inl ValueError
      else bind_res (scan_string (tl s)) (\<lambda>(k, r0).
        let r1 = skip_space r0 in
        if r1 = [] \<or> hd r1 \<noteq> CHR '':'' then Inl ValueError
        else bind_res (scan_value n F (skip_space (tl r1))) (\<lambda>(v, r2).
          let r = skip_space r2 in
          if r \<noteq> [] \<and> hd r = CHR ''}'' then Inr (dict_put k v d, tl r)
          else if r \<noteq> [] \<and> hd r = CHR '','' then scan_members n F (dict_put k v d) (skip_space (tl r))
          else Inl ValueError)))"

definition json_loads :: "('f, 'x) sim_ops_scheme \<Rightarrow> string \<Rightarrow> 'f json res" where
  "json_loads F s =
     (let t = skip_space s in
      bind_res (scan_value (2 * length t + 1) F t) (\<lambda>(v, r). if skip_space r = [] then Inr v else Inl ValueError))"

lemma json_demo:
  "json_loads (b64_sim plain_lib) '' {''  = Inl ValueError \<and>
   json_dumps (b64_sim plain_lib) None (J_obj [(''b'', J_list [J_int (- 12), J_bool True]), (''a'', J_float (literal 1 10))]) =
     Inr (concat [''{'', [quote], ''a'', [quote], '': 0.1, '', [quote], ''b'', [quote], '': [-12, true]}'']) \<and>
   json_loads (b64_sim plain_lib) (concat [''{'', [quote], ''a'', [quote], '': 0.1, '', [quote], ''b'', [quote], '': [-12, true]}'']) =
     Inr (J_obj [(''a'', J_float (literal 1 10)), (''b'', J_list [J_int (- 12), J_bool True])])"
  by code_simp

end
