(* ===== verification/JsonRoundTrip.thy ===== *)
theory JsonRoundTrip
  imports JsonText
begin

text \<open>
  The scanner has fuel enough on every text, and it reads what \<open>json_dumps\<close> writes: the same value
  with the keys of every dictionary in order. The locale \<open>float_text\<close> is what this needs of floats;
  binary64 provides it.
\<close>

section \<open>The fuel of the scanner is enough\<close>

lemma skip_space_le: "length (skip_space s) \<le> length s"
  by (simp add: skip_space_def length_dropWhile_le)

lemma scan_string_shorter: "scan_string s = Inr (t, r) \<Longrightarrow> length r < length s"
proof (induction s arbitrary: t r rule: scan_string.induct)
  case (1 s)
  show ?case
  proof (cases "s \<noteq> [] \<and> hd s = quote")
    case True
    then have "r = tl s" using 1(2) by (subst (asm) scan_string.simps) simp
    with True show ?thesis by (cases s) simp_all
  next
    case False
    then obtain c rest t' where c: "scan_char s = Some (c, rest)" "scan_string rest = Inr (t', r)"
      using 1(2) by (auto simp: scan_string.simps [of s] bind_res_Inr split: option.splits if_splits)
    then show ?thesis using 1(1) [OF False] scan_char_shorter [OF c(1)] by fastforce
  qed
qed

lemma scan_int_part_shorter: "scan_int_part s = (ip, r) \<Longrightarrow> length ip + length r = length s"
  by (auto simp: scan_int_part_def simp flip: length_append split: if_splits)

lemma scan_fraction_le: "scan_fraction s = (fr, r) \<Longrightarrow> length r \<le> length s"
  using length_dropWhile_le [of is_digit "tl s"] by (auto simp: scan_fraction_def split: if_splits)

lemma scan_exponent_le: "scan_exponent s = (ex, r) \<Longrightarrow> length r \<le> length s"
proof -
  assume "scan_exponent s = (ex, r)"
  then have "r = s \<or> r = dropWhile is_digit (tl (tl s)) \<or> r = dropWhile is_digit (tl s)"
    by (auto simp: scan_exponent_def Let_def split: if_splits)
  then show ?thesis
    using length_dropWhile_le [of is_digit "tl s"] length_dropWhile_le [of is_digit "tl (tl s)"] by auto
qed

lemma scan_number_shorter: "scan_number F s = Inr (v, r) \<Longrightarrow> length r < length s"
proof -
  assume a: "scan_number F s = Inr (v, r)"
  let ?sign = "if s \<noteq> [] \<and> hd s = CHR ''-'' then ''-'' else []"
  obtain ip r1 where ip: "scan_int_part (drop (length ?sign) s) = (ip, r1)" by (cases "scan_int_part (drop (length ?sign) s)")
  obtain fr r2 where fr: "scan_fraction r1 = (fr, r2)" by (cases "scan_fraction r1")
  obtain ex r3 where ex: "scan_exponent r2 = (ex, r3)" by (cases "scan_exponent r2")
  have "r = r3" "ip \<noteq> []"
    using a unfolding scan_number_def Let_def ip prod.case fr ex
    by (auto simp: bind_res_Inr split: if_splits)
  then have "0 < length ip" "length r \<le> length r1" using scan_fraction_le [OF fr] scan_exponent_le [OF ex] by simp_all
  moreover have "length ip + length r1 \<le> length s" using scan_int_part_shorter [OF ip] by (simp split: if_splits)
  ultimately show ?thesis by linarith
qed

lemma scan_constant_shorter: "scan_constant F s = Some (Inr (v, r)) \<Longrightarrow> length r < length s"
proof -
  assume a: "scan_constant F s = Some (Inr (v, r))"
  then have "s \<noteq> []" by (cases s) (simp_all add: scan_constant_def)
  then have "length (drop k s) < length s" if "0 < k" for k using that by (cases s) simp_all
  from this [of 3] this [of 4] this [of 5] this [of 8] this [of 9] show ?thesis
    using a unfolding scan_constant_def by (simp split: if_splits) (auto simp: bind_res_Inr)
qed

text \<open>What a successful step of the scanner has read.\<close>

lemma scan_value_SucE:
  assumes "scan_value (Suc n) F s = Inr (v, r)"
  obtains (str) t where "scan_string (tl s) = Inr (t, r)"
  | (empty) "skip_space (tl s) \<noteq> []" "r = tl (skip_space (tl s))"
  | (members) d where "scan_members n F [] (skip_space (tl s)) = Inr (d, r)"
  | (items) vs where "scan_items n F (skip_space (tl s)) = Inr (vs, r)"
  | (const) "scan_constant F s = Some (Inr (v, r))"
  | (number) "scan_number F s = Inr (v, r)"
  using assms by (auto simp: bind_res_Inr Let_def split: if_splits option.splits)

lemma scan_items_SucE:
  assumes "scan_items (Suc n) F s = Inr (vs, r)"
  obtains v r0 where "scan_value n F s = Inr (v, r0)" "skip_space r0 \<noteq> []"
    "r = tl (skip_space r0) \<or> (\<exists>ws. scan_items n F (skip_space (tl (skip_space r0))) = Inr (ws, r))"
  using assms by (auto simp: bind_res_Inr Let_def split: if_splits)

lemma scan_members_SucE:
  assumes "scan_members (Suc n) F d s = Inr (d', r)"
  obtains k r0 v r2 where "scan_string (tl s) = Inr (k, r0)" "skip_space r0 \<noteq> []"
    "scan_value n F (skip_space (tl (skip_space r0))) = Inr (v, r2)" "skip_space r2 \<noteq> []"
    "r = tl (skip_space r2) \<or> (\<exists>d2. scan_members n F (dict_put k v d) (skip_space (tl (skip_space r2))) = Inr (d2, r))"
  using assms by (auto simp: bind_res_Inr Let_def split: if_splits)

lemma skip_tl_less: "skip_space s \<noteq> [] \<Longrightarrow> length (tl (skip_space s)) < length s"
proof -
  assume "skip_space s \<noteq> []"
  then have "length (tl (skip_space s)) < length (skip_space s)" by (cases "skip_space s") simp_all
  then show ?thesis using skip_space_le [of s] by linarith
qed

lemma skip_tl_le: "length (skip_space (tl s)) \<le> length s" "length (tl s) \<le> length s"
  using skip_space_le [of "tl s"] by simp_all

lemma scan_shorter:
  "scan_value n F s = Inr (v, r) \<Longrightarrow> length r < length s"
  "scan_items n F s = Inr (vs, r) \<Longrightarrow> length r < length s"
  "scan_members n F d s = Inr (d', r) \<Longrightarrow> length r < length s"
proof (induction n arbitrary: s v r vs d d')
  case (Suc n)
  { case 1
    then show ?case
    proof (cases rule: scan_value_SucE)
      case (str t)
      then show ?thesis using scan_string_shorter skip_tl_le(2) by (metis less_le_trans)
    next
      case empty
      then show ?thesis using skip_tl_less skip_tl_le(2) by (metis less_le_trans)
    next
      case (members d)
      then show ?thesis using Suc(3) skip_tl_le(1) by (metis less_le_trans)
    next
      case (items vs)
      then show ?thesis using Suc(2) skip_tl_le(1) by (metis less_le_trans)
    qed (rule scan_constant_shorter scan_number_shorter; assumption)+
  next
    case 2
    then obtain v r0 where v: "scan_value n F s = Inr (v, r0)" "skip_space r0 \<noteq> []"
        "r = tl (skip_space r0) \<or> (\<exists>ws. scan_items n F (skip_space (tl (skip_space r0))) = Inr (ws, r))"
      by (rule scan_items_SucE)
    have "length r0 < length s" "length (tl (skip_space r0)) < length r0"
      using Suc(1) [OF v(1)] skip_tl_less [OF v(2)] by simp_all
    moreover have "length r \<le> length (tl (skip_space r0))"
      using v(3) Suc(2) skip_space_le by (metis le_refl less_imp_le order_trans)
    ultimately show ?case by linarith
  next
    case 3
    then obtain k r0 v r2 where v: "scan_string (tl s) = Inr (k, r0)" "skip_space r0 \<noteq> []"
        "scan_value n F (skip_space (tl (skip_space r0))) = Inr (v, r2)" "skip_space r2 \<noteq> []"
        "r = tl (skip_space r2) \<or> (\<exists>d2. scan_members n F (dict_put k v d) (skip_space (tl (skip_space r2))) = Inr (d2, r))"
      by (rule scan_members_SucE)
    have "length r0 < length (tl s)" "length (tl (skip_space r0)) < length r0" "length (tl (skip_space r2)) < length r2"
        "length r2 < length (skip_space (tl (skip_space r0)))"
      using scan_string_shorter [OF v(1)] skip_tl_less [OF v(2)] skip_tl_less [OF v(4)] Suc(1) [OF v(3)] by simp_all
    moreover have "length r \<le> length (tl (skip_space r2))"
      using v(5) Suc(3) skip_space_le by (metis le_refl less_imp_le order_trans)
    ultimately show ?case using skip_space_le [of "tl (skip_space r0)"] skip_tl_le(2) [of s] by linarith
  }
qed simp_all

text \<open>No step reports that the fuel is used up, if the reading of floats does not.\<close>

lemma bind_res_Inl: "bind_res r f = Inl e \<longleftrightarrow> r = Inl e \<or> (\<exists>x. r = Inr x \<and> f x = Inl e)"
  by (cases r) simp_all

lemma scan_string_error: "scan_string s = Inl e \<Longrightarrow> e = ValueError"
proof (induction s rule: scan_string.induct)
  case (1 s)
  show ?case
  proof (cases "s \<noteq> [] \<and> hd s = quote")
    case True
    then show ?thesis using 1(2) by (simp add: scan_string.simps [of s])
  next
    case False
    show ?thesis
    proof (cases "scan_char s")
      case None
      then show ?thesis using 1(2) False by (simp add: scan_string.simps [of s] del: de_Morgan_conj)
    next
      case (Some p)
      then obtain c rest where p: "p = (c, rest)" by (cases p)
      then have "scan_string rest = Inl e"
        using 1(2) False Some by (auto simp: scan_string.simps [of s] bind_res_Inl)
      then show ?thesis using 1(1) [OF False Some] p by simp
    qed
  qed
qed

lemma parse_int_error: "parse_int s = Inl e \<Longrightarrow> e = ValueError"
  by (auto simp: parse_int_def Let_def split: if_splits option.splits)

lemma scan_number_fuel: "(\<And>t. fl_parse F t \<noteq> Inl OutOfFuel) \<Longrightarrow> scan_number F s \<noteq> Inl OutOfFuel"
  by (auto simp: scan_number_def Let_def bind_res_Inl dest: parse_int_error split: prod.splits if_splits)

lemma scan_constant_fuel: "(\<And>t. fl_parse F t \<noteq> Inl OutOfFuel) \<Longrightarrow> scan_constant F s \<noteq> Some (Inl OutOfFuel)"
  by (auto simp: scan_constant_def bind_res_Inl)

lemma scan_value_fuelE:
  assumes "scan_value (Suc n) F s = Inl OutOfFuel" and "\<And>t. fl_parse F t \<noteq> Inl OutOfFuel"
  shows "s \<noteq> [] \<and> (scan_members n F [] (skip_space (tl s)) = Inl OutOfFuel \<or> scan_items n F (skip_space (tl s)) = Inl OutOfFuel)"
  using assms(1) scan_number_fuel [OF assms(2)] scan_constant_fuel [OF assms(2)]
  by (auto simp: bind_res_Inl Let_def dest: scan_string_error split: if_splits option.splits)

lemma scan_items_fuelE:
  assumes "scan_items (Suc n) F s = Inl OutOfFuel"
  shows "scan_value n F s = Inl OutOfFuel \<or>
    (\<exists>v r0. scan_value n F s = Inr (v, r0) \<and> skip_space r0 \<noteq> [] \<and> scan_items n F (skip_space (tl (skip_space r0))) = Inl OutOfFuel)"
  using assms by (auto simp: bind_res_Inl Let_def split: if_splits)

lemma scan_members_fuelE:
  assumes "scan_members (Suc n) F d s = Inl OutOfFuel"
  shows "s \<noteq> [] \<and> (\<exists>k r0. scan_string (tl s) = Inr (k, r0) \<and> skip_space r0 \<noteq> [] \<and>
    (let t = skip_space (tl (skip_space r0)) in scan_value n F t = Inl OutOfFuel \<or>
      (\<exists>v r2 d'. scan_value n F t = Inr (v, r2) \<and> skip_space r2 \<noteq> [] \<and>
        scan_members n F d' (skip_space (tl (skip_space r2))) = Inl OutOfFuel)))"
  using assms by (auto simp: bind_res_Inl Let_def dest: scan_string_error split: if_splits)

lemma scan_fuel:
  assumes p: "\<And>t. fl_parse F t \<noteq> Inl OutOfFuel"
  shows "2 * length s + 1 \<le> n \<Longrightarrow> scan_value n F s \<noteq> Inl OutOfFuel"
    "2 * length s + 2 \<le> n \<Longrightarrow> scan_items n F s \<noteq> Inl OutOfFuel"
    "2 * length s + 2 \<le> n \<Longrightarrow> scan_members n F d s \<noteq> Inl OutOfFuel"
proof (induction n arbitrary: s d)
  case (Suc n)
  { case 1
    show ?case
    proof
      assume "scan_value (Suc n) F s = Inl OutOfFuel"
      note e = scan_value_fuelE [OF this p]
      then have "length (skip_space (tl s)) < length s" using skip_space_le [of "tl s"] by (cases s) simp_all
      then have "2 * length (skip_space (tl s)) + 2 \<le> n" using 1 by linarith
      from e Suc(2) [OF this] Suc(3) [OF this, of "[]"] show False by simp
    qed
  next
    case 2
    show ?case
    proof
      assume "scan_items (Suc n) F s = Inl OutOfFuel"
      from scan_items_fuelE [OF this] consider "scan_value n F s = Inl OutOfFuel"
        | v r0 where "scan_value n F s = Inr (v, r0)" "skip_space r0 \<noteq> []"
            "scan_items n F (skip_space (tl (skip_space r0))) = Inl OutOfFuel"
        by blast
      then show False
      proof cases
        case 1
        then show False using Suc(1) [of s] 2 by simp
      next
        case (2 v r0)
        have "length (skip_space (tl (skip_space r0))) + 2 \<le> length s"
          using scan_shorter(1) [OF 2(1)] skip_tl_less [OF 2(2)] skip_space_le [of "tl (skip_space r0)"] by linarith
        then show False using Suc(2) [of "skip_space (tl (skip_space r0))"] 2(3) \<open>2 * length s + 2 \<le> Suc n\<close> by simp
      qed
    qed
  next
    case 3
    show ?case
    proof
      assume "scan_members (Suc n) F d s = Inl OutOfFuel"
      from scan_members_fuelE [OF this] obtain k r0 t where k: "s \<noteq> []" "scan_string (tl s) = Inr (k, r0)" "skip_space r0 \<noteq> []" "t = skip_space (tl (skip_space r0))"
          and e: "scan_value n F t = Inl OutOfFuel \<or> (\<exists>v r2 d'. scan_value n F t = Inr (v, r2) \<and> skip_space r2 \<noteq> [] \<and>
            scan_members n F d' (skip_space (tl (skip_space r2))) = Inl OutOfFuel)"
        unfolding Let_def by blast
      have t: "length t + 2 \<le> length s"
        using scan_string_shorter [OF k(2)] skip_tl_less [OF k(3)] skip_space_le [of "tl (skip_space r0)"] skip_tl_le(2) [of s]
        unfolding k(4) by linarith
      then have "scan_value n F t \<noteq> Inl OutOfFuel" using Suc(1) [of t] 3 by simp
      with e obtain v r2 d' where r2: "scan_value n F t = Inr (v, r2)" "skip_space r2 \<noteq> []"
          "scan_members n F d' (skip_space (tl (skip_space r2))) = Inl OutOfFuel" by blast
      have "length (skip_space (tl (skip_space r2))) + 2 \<le> length s"
        using scan_shorter(1) [OF r2(1)] skip_tl_less [OF r2(2)] skip_space_le [of "tl (skip_space r2)"] t by linarith
      then show False using Suc(3) [of "skip_space (tl (skip_space r2))"] r2(3) 3 by simp
    qed
  }
qed simp_all

text \<open>A text that is no JSON is refused with \<open>ValueError\<close>, and with nothing else.\<close>

lemma scan_error:
  assumes p: "\<And>t e. fl_parse F t = Inl e \<Longrightarrow> e = ValueError"
  shows "scan_value n F s = Inl e \<Longrightarrow> e = ValueError \<or> e = OutOfFuel"
    "scan_items n F s = Inl e \<Longrightarrow> e = ValueError \<or> e = OutOfFuel"
    "scan_members n F d s = Inl e \<Longrightarrow> e = ValueError \<or> e = OutOfFuel"
proof (induction n arbitrary: s d e)
  case (Suc n)
  have number: "scan_number F s = Inl e \<Longrightarrow> e = ValueError" for s e
    by (auto simp: scan_number_def Let_def bind_res_Inl dest: parse_int_error p split: prod.splits if_splits)
  have named: "scan_constant F s = Some (Inl e) \<Longrightarrow> e = ValueError" for s e
    by (auto simp: scan_constant_def bind_res_Inl dest: p split: if_splits)
  { case 1
    then show ?case using Suc(2,3)
      by (auto simp: bind_res_Inl Let_def dest: scan_string_error number named split: if_splits option.splits)
  next
    case 2
    then show ?case using Suc(1,2) by (auto simp: bind_res_Inl Let_def split: if_splits)
  next
    case 3
    then show ?case by (auto simp: bind_res_Inl Let_def dest: scan_string_error Suc(1) Suc(3) split: if_splits)
  }
qed simp_all

lemma json_loads_error:
  assumes "\<And>t e. fl_parse F t = Inl e \<Longrightarrow> e = ValueError" and "json_loads F s = Inl e"
  shows "e = ValueError"
proof -
  let ?t = "skip_space s"
  have "scan_value (2 * length ?t + 1) F ?t \<noteq> Inl OutOfFuel" by (rule scan_fuel(1)) (use assms(1) in auto)
  then show ?thesis
    using scan_error(1) [where F = F and n = "2 * length ?t + 1" and s = ?t and e = e, OF assms(1)] assms(2)
    by (auto simp: json_loads_def Let_def bind_res_Inl split: if_splits)
qed

section \<open>Strings read back\<close>

lemma hex_value_digit: "0 \<le> n \<Longrightarrow> n < 16 \<Longrightarrow> hex_value (hex_digit n) = Some n"
proof -
  assume n: "0 \<le> n" "n < 16"
  have "(of_char (hex_digit n) :: int) = (if n < 10 then 48 + n else 87 + n)"
    using n by (simp add: hex_digit_def of_char_of)
  then show ?thesis using n by (simp add: hex_value_def Let_def)
qed

lemma scan_char_simple:
  "(of_char c :: int) \<noteq> 92 \<Longrightarrow> 32 \<le> (of_char c :: int) \<Longrightarrow> scan_char (c # r) = Some (c, r)"
  by (auto simp: scan_char_def)

lemma scan_char_escape: "scan_char (escape c @ r) = Some (c, r)"
proof -
  define n where "n = (of_char c :: int)"
  have c: "c = char_of n" by (simp add: n_def)
  have "n = int (of_char c)" unfolding n_def by (rule of_nat_of_char [symmetric])
  then have n: "0 \<le> n" "n < 256" using nat_of_char_less_256 [of c] by simp_all
  have lit: "c = CHR 0x22 \<longleftrightarrow> n = 34" "c = CHR 0x5C \<longleftrightarrow> n = 92" "c = CHR 0x0A \<longleftrightarrow> n = 10" "c = CHR 0x0D \<longleftrightarrow> n = 13"
      "c = CHR 0x09 \<longleftrightarrow> n = 9" "c = CHR 0x0C \<longleftrightarrow> n = 12" "c = CHR 0x08 \<longleftrightarrow> n = 8"
    unfolding c using n by (simp_all add: char_of_eq_iff take_bit_int_eq_self)
  consider "c = CHR 0x22" | "c = CHR 0x5C" | "c = CHR 0x0A" | "c = CHR 0x0D" | "c = CHR 0x09" | "c = CHR 0x0C" | "c = CHR 0x08"
    | "n \<notin> {34, 92, 10, 13, 9, 12, 8}" "32 \<le> n" "n \<le> 126"
    | "n \<notin> {34, 92, 10, 13, 9, 12, 8}" "\<not> (32 \<le> n \<and> n \<le> 126)" unfolding lit by auto
  then show ?thesis
  proof cases
    case 8
    then have "escape c = [c]" by (simp add: escape_def flip: n_def)
    moreover have "scan_char (c # r) = Some (c, r)" by (rule scan_char_simple) (use 8 in \<open>simp_all flip: n_def\<close>)
    ultimately show ?thesis by simp
  next
    case 9
    then have "escape c = [CHR 0x5C, CHR ''u'', CHR ''0'', CHR ''0'', hex_digit (n div 16), hex_digit (n mod 16)]"
      by (simp add: escape_def flip: n_def)
    moreover have "hex_value (hex_digit (n div 16)) = Some (n div 16)" "hex_value (hex_digit (n mod 16)) = Some (n mod 16)"
      using n by (simp_all add: hex_value_digit)
    ultimately show ?thesis by (simp add: scan_char_def c)
  qed (simp_all add: escape_def scan_char_def simple_escape_def quote_def)
qed

lemma escape_first: "escape c \<noteq> []" "hd (escape c) \<noteq> quote"
  by (auto simp: escape_def Let_def quote_def split: if_splits)

lemma scan_string_json: "scan_string (concat (map escape s) @ quote # r) = Inr (s, r)"
proof (induction s)
  case Nil
  then show ?case by (subst scan_string.simps) simp
next
  case (Cons c s)
  let ?rest = "concat (map escape s) @ quote # r"
  have "scan_char (escape c @ ?rest) = Some (c, ?rest)" by (rule scan_char_escape)
  moreover have "hd (escape c @ ?rest) \<noteq> quote" using escape_first [of c] by simp
  ultimately have "scan_string (escape c @ ?rest) = Inr (c # s, r)"
    using Cons by (subst scan_string.simps) simp
  then show ?case by simp
qed

section \<open>Numbers read back\<close>

text \<open>What may follow a value.\<close>

definition value_end :: "string \<Rightarrow> bool" where
  "value_end r \<longleftrightarrow> r = [] \<or> hd r \<in> {CHR '','', CHR '']'', CHR ''}'', CHR 0x0A}"

lemma value_end_stops: "value_end r \<Longrightarrow> r = [] \<or> \<not> is_digit (hd r) \<and> hd r \<notin> {CHR ''.'', CHR ''e'', CHR ''E''}"
  by (auto simp: value_end_def is_digit_iff)

lemma scan_int_part_digits:
  assumes "list_all is_digit ip" "ip \<noteq> []" "hd ip \<noteq> CHR ''0'' \<or> ip = ''0''" "r = [] \<or> \<not> is_digit (hd r)"
  shows "scan_int_part (ip @ r) = (ip, r)"
  using take_digits [OF assms(1,4)] assms(2,3) by (auto simp: scan_int_part_def)

lemma scan_digits_value:
  "list_all is_digit ds \<Longrightarrow> ds \<noteq> [] \<or> prev \<Longrightarrow> scan_digits acc prev ds = Some (digits_value acc ds)"
  by (induction ds arbitrary: acc prev) (auto simp: is_digit_def)

lemma parse_int_text:
  assumes "length (int_decimal \<bar>i\<bar>) \<le> 4300"
  shows "parse_int (int_text i) = Inr i"
proof -
  define ds where "ds = int_decimal \<bar>i\<bar>"
  have ds: "list_all is_digit ds" "ds \<noteq> []" "digits_value 0 ds = \<bar>i\<bar>"
    by (simp_all add: ds_def int_decimal_digits digits_value_decimal)
  have layout: "int_text i = (if i < 0 then ''-'' else []) @ ds" by (simp add: int_text_def ds_def)
  have "list_all (\<lambda>c. \<not> is_space c) ((if i < 0 then ''-'' else []) @ ds)"
    using ds(1) float_char_plain by (auto simp: list_all_iff float_char_def)
  then have strip: "strip ((if i < 0 then ''-'' else []) @ ds) = (if i < 0 then ''-'' else []) @ ds" by (rule strip_plain)
  have hd: "hd ds \<noteq> CHR ''-''" "hd ds \<noteq> CHR ''+''" using ds(1,2) by (cases ds; auto simp: is_digit_iff)+
  have filter: "length (filter (\<lambda>c. digit_of c \<noteq> None) ds) \<le> 4300"
    using assms le_trans [OF length_filter_le] by (simp only: ds_def [symmetric])
  have scan: "scan_digits 0 False ds = Some \<bar>i\<bar>" using scan_digits_value [OF ds(1), of False 0] ds(2,3) by simp
  show ?thesis
    unfolding layout parse_int_def strip Let_def using filter hd ds(2) by (cases "i < 0") (simp_all add: scan)
qed

lemma no_fraction: "r = [] \<or> hd r \<noteq> CHR ''.'' \<Longrightarrow> scan_fraction r = ([], r)"
  by (auto simp: scan_fraction_def)

lemma no_exponent: "r = [] \<or> hd r \<noteq> CHR ''e'' \<and> hd r \<noteq> CHR ''E'' \<Longrightarrow> scan_exponent r = ([], r)"
  by (auto simp: scan_exponent_def)

lemma scan_fraction_digits:
  assumes "list_all is_digit fp" "fp \<noteq> []" "r = [] \<or> \<not> is_digit (hd r)"
  shows "scan_fraction (CHR ''.'' # fp @ r) = (CHR ''.'' # fp, r)"
  using take_digits [OF assms(1,3)] assms(2) by (simp add: scan_fraction_def)

lemma scan_exponent_text:
  assumes "case ex of None \<Rightarrow> True | Some (_, ds) \<Rightarrow> ds \<noteq> [] \<and> list_all is_digit ds" "value_end r"
  shows "scan_exponent (exponent_text ex @ r) = (exponent_text ex, r)"
proof (cases ex)
  case None
  then show ?thesis using value_end_stops [OF assms(2)] no_exponent [of r] by (auto simp: exponent_text_def)
next
  case (Some p)
  obtain neg ds where p: "p = (neg, ds)" by (cases p)
  have "takeWhile is_digit (ds @ r) = ds" "dropWhile is_digit (ds @ r) = r" "ds \<noteq> []"
    using take_digits [of ds r] assms value_end_stops [OF assms(2)] Some p by auto
  then show ?thesis by (simp add: scan_exponent_def exponent_text_def Some p Let_def)
qed

lemma scan_number_int:
  assumes "value_end r" and "length (int_decimal \<bar>i\<bar>) \<le> 4300"
  shows "scan_number F (int_text i @ r) = Inr (J_int i, r)"
proof -
  define ds where "ds = int_decimal \<bar>i\<bar>"
  have ds: "list_all is_digit ds" "ds \<noteq> []" "hd ds \<noteq> CHR ''0'' \<or> ds = ''0''"
  proof -
    show "list_all is_digit ds" "ds \<noteq> []" by (simp_all add: ds_def int_decimal_digits)
    show "hd ds \<noteq> CHR ''0'' \<or> ds = ''0''"
      using hd_decimal [of "\<bar>i\<bar>"] by (cases "i = 0") (simp_all add: ds_def int_decimal.simps [of 0])
  qed
  have layout: "int_text i = (if i < 0 then ''-'' else []) @ ds" by (simp add: int_text_def ds_def)
  have hd: "hd ds \<noteq> CHR ''-''" using ds(1,2) by (cases ds) (auto simp: is_digit_iff)
  note stop = value_end_stops [OF assms(1)]
  have "scan_int_part (ds @ r) = (ds, r)" by (rule scan_int_part_digits) (use ds stop in auto)
  moreover have "scan_fraction r = ([], r)" by (rule no_fraction) (use stop in auto)
  moreover have "scan_exponent r = ([], r)" by (rule no_exponent) (use stop in auto)
  ultimately show ?thesis
    using parse_int_text [OF assms(2)] ds(2) hd unfolding layout by (cases "i < 0") (simp_all add: scan_number_def)
qed

lemma scan_number_float:
  assumes "value_end r" "float_shape ip fp ex"
    and p: "fl_parse F ((if neg then ''-'' else []) @ float_syntax ip fp ex) = Inr x"
  shows "scan_number F (((if neg then ''-'' else []) @ float_syntax ip fp ex) @ r) = Inr (J_float x, r)"
proof -
  define fr where "fr = (if fp = [] then [] else CHR ''.'' # fp)"
  let ?e = "exponent_text ex"
  have s: "list_all is_digit ip" "ip \<noteq> []" "hd ip \<noteq> CHR ''0'' \<or> ip = ''0''" "list_all is_digit fp" "fp \<noteq> [] \<or> ex \<noteq> None"
    using assms(2) by (simp_all add: float_shape_def)
  have hd: "hd ip \<noteq> CHR ''-''" using s(1,2) by (cases ip) (auto simp: is_digit_iff)
  note stop = value_end_stops [OF assms(1)]
  have e: "?e @ r = [] \<or> \<not> is_digit (hd (?e @ r)) \<and> hd (?e @ r) \<noteq> CHR ''.''"
    using stop by (auto simp: exponent_text_def split: option.splits)
  have "scan_int_part (ip @ fr @ ?e @ r) = (ip, fr @ ?e @ r)"
    by (rule scan_int_part_digits) (use s e in \<open>auto simp: fr_def\<close>)
  moreover have "scan_fraction (fr @ ?e @ r) = (fr, ?e @ r)"
    using scan_fraction_digits [OF s(4), of "?e @ r"] no_fraction [of "?e @ r"] e by (auto simp: fr_def)
  moreover have "scan_exponent (?e @ r) = (?e, r)"
    by (rule scan_exponent_text) (use assms in \<open>simp_all add: float_shape_def\<close>)
  moreover have "fr \<noteq> [] \<or> ?e \<noteq> []" using s(5) by (auto simp: fr_def exponent_text_def split: option.splits)
  moreover have "float_syntax ip fp ex = ip @ fr @ ?e" by (simp add: float_syntax_def fr_def)
  ultimately show ?thesis using p s(2) hd by (cases neg) (auto simp: scan_number_def)
qed

section \<open>Values read back\<close>

text \<open>White space between values.\<close>

abbreviation white :: "string \<Rightarrow> bool" where
  "white w \<equiv> list_all (\<lambda>c. (of_char c :: int) \<in> {9, 10, 13, 32}) w"

lemma skip_white: "white w \<Longrightarrow> s = [] \<or> (of_char (hd s) :: int) \<notin> {9, 10, 13, 32} \<Longrightarrow> skip_space (w @ s) = s"
  by (induction w) (cases s; simp add: skip_space_def)+

lemma white_break: "white (line_break indent level)"
  by (auto simp: line_break_def list_all_iff split: option.splits)

lemma separator_white: "\<exists>w. item_separator indent level = CHR '','' # w \<and> white w"
  using white_break [of indent level] by (auto simp: item_separator_def split: option.splits)

text \<open>The first character of a value is no white space and no closing bracket.\<close>

definition value_start :: "string \<Rightarrow> bool" where
  "value_start s \<longleftrightarrow> s \<noteq> [] \<and> (of_char (hd s) :: int) \<notin> {9, 10, 13, 32} \<and> hd s \<noteq> CHR '']'' \<and> hd s \<noteq> CHR ''}''"

lemma value_start_digit: "is_digit (hd s) \<Longrightarrow> s \<noteq> [] \<Longrightarrow> value_start s"
  by (auto simp: value_start_def is_digit_iff)

lemma skip_value: "white w \<Longrightarrow> value_start s \<Longrightarrow> skip_space (w @ s @ r) = s @ r"
  by (rule skip_white) (auto simp: value_start_def)

lemma value_end_separator: "value_end (item_separator indent level @ r)"
  using separator_white [of indent level] by (auto simp: value_end_def)

lemma value_end_break: "hd r \<in> {CHR '']'', CHR ''}''} \<Longrightarrow> value_end (line_break indent level @ r)"
  by (auto simp: value_end_def line_break_def split: option.splits)

fun json_plain :: "('f \<Rightarrow> bool) \<Rightarrow> 'f json \<Rightarrow> bool" where
  "json_plain ok (J_int i) = (length (int_decimal \<bar>i\<bar>) \<le> 4300)"
| "json_plain ok (J_float x) = ok x"
| "json_plain ok (J_list xs) = list_all (json_plain ok) xs"
| "json_plain ok (J_obj d) = (distinct (map fst d) \<and> list_all (\<lambda>(k, v). json_plain ok v) d)"
| "json_plain ok v = True"

text \<open>Written and read back with fuel for twice the text.\<close>

definition reads_back :: "('f, 'x) sim_ops_scheme \<Rightarrow> nat option \<Rightarrow> 'f json \<Rightarrow> bool" where
  "reads_back F indent v \<longleftrightarrow> (\<forall>level n r. value_end r \<longrightarrow> 2 * length (json_text F indent level v) + 1 \<le> n \<longrightarrow>
     value_start (json_text F indent level v) \<and> scan_value n F (json_text F indent level v @ r) = Inr (v, r))"

lemma reads_back_start: "reads_back F indent v \<Longrightarrow> value_start (json_text F indent level v)"
  by (auto simp: reads_back_def value_end_def)

lemma reads_back_value:
  "reads_back F indent v \<Longrightarrow> value_end r \<Longrightarrow> 2 * length (json_text F indent level v) + 1 \<le> n \<Longrightarrow>
    scan_value n F (json_text F indent level v @ r) = Inr (v, r)"
  by (simp add: reads_back_def)

lemma join_Cons: "join sep (t # ts) = t @ (if ts = [] then [] else sep @ join sep ts)"
  by (cases ts) simp_all

lemma value_start_append: "value_start t \<Longrightarrow> value_start (t @ s)"
  by (simp add: value_start_def)

lemma scan_joined_items:
  assumes "\<forall>v\<in>set vs. reads_back F indent v" "vs \<noteq> []"
    and "2 * length (join (item_separator indent k) (map (json_text F indent k) vs)) + 2 \<le> n"
  shows "scan_items n F (join (item_separator indent k) (map (json_text F indent k) vs) @ line_break indent l @ CHR '']'' # r) = Inr (vs, r)"
  using assms
proof (induction vs arbitrary: n)
  case (Cons v vs)
  let ?t = "json_text F indent k v" and ?tail = "line_break indent l @ CHR '']'' # r"
  obtain m where n: "n = Suc m" using Cons.prems(3) by (cases n) simp_all
  have v: "reads_back F indent v" using Cons.prems(1) by simp
  show ?case
  proof (cases vs)
    case Nil
    have "scan_value m F (?t @ ?tail) = Inr (v, ?tail)"
      by (rule reads_back_value [OF v value_end_break]) (use Cons.prems(3) Nil n in simp_all)
    moreover have "skip_space ?tail = CHR '']'' # r" by (rule skip_white [OF white_break]) simp
    ultimately show ?thesis by (simp add: Nil n Let_def)
  next
    case more: (Cons v' vs')
    let ?rest = "join (item_separator indent k) (map (json_text F indent k) vs)"
    obtain w where w: "item_separator indent k = CHR '','' # w" "white w" using separator_white by blast
    have first: "value_start ?rest"
      using reads_back_start [of F indent v' k] Cons.prems(1) by (simp add: more join_Cons value_start_append)
    have len: "2 * length ?t + 1 \<le> m" "2 * length ?rest + 2 \<le> m"
      using Cons.prems(3) by (simp_all add: n join_Cons more w(1))
    have "scan_value m F (?t @ item_separator indent k @ ?rest @ ?tail) = Inr (v, item_separator indent k @ ?rest @ ?tail)"
      by (rule reads_back_value [OF v value_end_separator len(1)])
    moreover have "scan_items m F (?rest @ ?tail) = Inr (vs, r)"
      by (rule Cons.IH) (use Cons.prems(1) more len(2) in simp_all)
    moreover have "skip_space (w @ ?rest @ ?tail) = ?rest @ ?tail" by (rule skip_value [OF w(2) first])
    moreover have "join (item_separator indent k) (map (json_text F indent k) (v # vs)) @ ?tail =
        ?t @ item_separator indent k @ ?rest @ ?tail"
      by (simp add: more)
    ultimately show ?thesis by (simp add: n Let_def w skip_space_def)
  qed
qed simp

definition member_text :: "('f, 'x) sim_ops_scheme \<Rightarrow> nat option \<Rightarrow> nat \<Rightarrow> string \<times> 'f json \<Rightarrow> string" where
  "member_text F indent level = (\<lambda>(k, v). json_string k @ '': '' @ json_text F indent level v)"

lemma dict_put_new: "k \<notin> fst ` set d \<Longrightarrow> dict_put k v d = d @ [(k, v)]"
  by (induction d) auto

lemma scan_joined_members:
  assumes "\<forall>v\<in>snd ` set d. reads_back F indent v" "d \<noteq> []" "distinct (map fst (d0 @ d))"
    and "2 * length (join (item_separator indent k) (map (member_text F indent k) d)) + 2 \<le> n"
  shows "scan_members n F d0 (join (item_separator indent k) (map (member_text F indent k) d) @ line_break indent l @ CHR ''}'' # r) =
    Inr (d0 @ d, r)"
  using assms
proof (induction d arbitrary: n d0)
  case (Cons p d)
  obtain key v where p: "p = (key, v)" by (cases p)
  let ?t = "json_text F indent k v" and ?tail = "line_break indent l @ CHR ''}'' # r"
  obtain m where n: "n = Suc m" using Cons.prems(4) by (cases n) simp_all
  have v: "reads_back F indent v" using Cons.prems(1) p by simp
  have put: "dict_put key v d0 = d0 @ [(key, v)]"
    by (rule dict_put_new) (use Cons.prems(3) p in auto)
  have key: "scan_string (concat (map escape key) @ quote # s) = Inr (key, s)" for s by (rule scan_string_json)
  have colon: "skip_space ('': '' @ ?t @ s) = '': '' @ ?t @ s" "skip_space ('' '' @ ?t @ s) = ?t @ s" for s
    using skip_white [of "[]" "'': '' @ ?t @ s"] skip_value [of "'' ''", OF _ reads_back_start [OF v]] by simp_all
  show ?case
  proof (cases d)
    case Nil
    have "scan_value m F (?t @ ?tail) = Inr (v, ?tail)"
      by (rule reads_back_value [OF v value_end_break]) (use Cons.prems(4) Nil n p in \<open>simp_all add: member_text_def\<close>)
    moreover have "skip_space ?tail = CHR ''}'' # r" by (rule skip_white [OF white_break]) simp
    ultimately show ?thesis
      using colon [of ?tail] put by (simp add: Nil n p member_text_def json_string_def key Let_def)
  next
    case more: (Cons p' d')
    let ?rest = "join (item_separator indent k) (map (member_text F indent k) d)"
    obtain w where w: "item_separator indent k = CHR '','' # w" "white w" using separator_white by blast
    have "hd ?rest = quote" "?rest \<noteq> []"
      by (simp_all add: more join_Cons member_text_def json_string_def split: prod.splits)
    then have first: "value_start ?rest" by (simp add: value_start_def quote_def)
    have len: "2 * length ?t + 1 \<le> m" "2 * length ?rest + 2 \<le> m"
      using Cons.prems(4) by (simp_all add: n p join_Cons more w(1) member_text_def)
    have "scan_value m F (?t @ item_separator indent k @ ?rest @ ?tail) = Inr (v, item_separator indent k @ ?rest @ ?tail)"
      by (rule reads_back_value [OF v value_end_separator len(1)])
    moreover have "scan_members m F (d0 @ [p]) (?rest @ ?tail) = Inr ((d0 @ [p]) @ d, r)"
      by (rule Cons.IH) (use Cons.prems more len(2) in simp_all)
    moreover have "skip_space (w @ ?rest @ ?tail) = ?rest @ ?tail" by (rule skip_value [OF w(2) first])
    moreover have "join (item_separator indent k) (map (member_text F indent k) (p # d)) @ ?tail =
        quote # concat (map escape key) @ quote # '': '' @ ?t @ item_separator indent k @ ?rest @ ?tail"
      by (simp add: more p member_text_def json_string_def)
    ultimately show ?thesis
      using colon [of "item_separator indent k @ ?rest @ ?tail"] put by (simp add: n p key Let_def w skip_space_def)
  qed
qed simp

lemma scan_list:
  assumes xs: "\<forall>v\<in>set xs. reads_back F indent v" and n: "2 * length (json_text F indent level (J_list xs)) + 1 \<le> n"
  shows "scan_value n F (json_text F indent level (J_list xs) @ r) = Inr (J_list xs, r)"
proof (cases xs)
  case Nil
  have "skip_space (CHR '']'' # r) = CHR '']'' # r" using skip_white [of "[]" "CHR '']'' # r"] by simp
  then show ?thesis using n Nil by (cases n) (simp_all add: bracketed_def quote_def)
next
  case (Cons v vs)
  let ?j = "join (item_separator indent (level + 1)) (map (json_text F indent (level + 1)) xs)"
  let ?tail = "line_break indent level @ CHR '']'' # r"
  have layout: "json_text F indent level (J_list xs) @ r = CHR ''['' # line_break indent (level + 1) @ ?j @ ?tail"
    using Cons by (simp add: bracketed_def)
  have first: "value_start ?j"
    using reads_back_start [of F indent v "level + 1"] xs Cons by (simp add: join_Cons value_start_append)
  obtain m where m: "n = Suc m" using n by (cases n) simp_all
  have "2 * length ?j + 2 \<le> m" using n Cons by (simp add: bracketed_def m)
  then have "scan_items m F (?j @ ?tail) = Inr (xs, r)" by (intro scan_joined_items) (use xs Cons in simp_all)
  moreover have "skip_space (line_break indent (level + 1) @ ?j @ ?tail) = ?j @ ?tail" by (rule skip_value [OF white_break first])
  moreover have "?j @ ?tail \<noteq> []" "hd (?j @ ?tail) \<noteq> CHR '']''" using first by (simp_all add: value_start_def)
  ultimately show ?thesis unfolding layout m by (simp add: quote_def Let_def del: json_text.simps)
qed

lemma scan_obj:
  assumes d: "\<forall>v\<in>snd ` set d. reads_back F indent v" "distinct (map fst d)"
    and n: "2 * length (json_text F indent level (J_obj d)) + 1 \<le> n"
  shows "scan_value n F (json_text F indent level (J_obj d) @ r) = Inr (J_obj d, r)"
proof (cases d)
  case Nil
  have "skip_space (CHR ''}'' # r) = CHR ''}'' # r" using skip_white [of "[]" "CHR ''}'' # r"] by simp
  then show ?thesis using n Nil by (cases n) (simp_all add: bracketed_def quote_def)
next
  case (Cons p ps)
  let ?j = "join (item_separator indent (level + 1)) (map (member_text F indent (level + 1)) d)"
  let ?tail = "line_break indent level @ CHR ''}'' # r"
  have layout: "json_text F indent level (J_obj d) @ r = CHR ''{'' # line_break indent (level + 1) @ ?j @ ?tail"
    using Cons by (simp add: bracketed_def member_text_def)
  have "hd ?j = quote" "?j \<noteq> []"
    by (simp_all add: Cons join_Cons member_text_def json_string_def split: prod.splits)
  then have first: "value_start ?j" by (simp add: value_start_def quote_def)
  obtain m where m: "n = Suc m" using n by (cases n) simp_all
  have "2 * length ?j + 2 \<le> m" using n Cons by (simp add: bracketed_def m member_text_def)
  then have "scan_members m F [] (?j @ ?tail) = Inr ([] @ d, r)" by (intro scan_joined_members) (use d Cons in simp_all)
  moreover have "skip_space (line_break indent (level + 1) @ ?j @ ?tail) = ?j @ ?tail" by (rule skip_value [OF white_break first])
  moreover have "?j @ ?tail \<noteq> []" "hd (?j @ ?tail) \<noteq> CHR ''}''" using first by (simp_all add: value_start_def)
  ultimately show ?thesis unfolding layout m by (simp add: quote_def Let_def del: json_text.simps)
qed

lemma json_plain_sort: "json_plain ok v \<Longrightarrow> json_plain ok (sort_json v)"
proof (induction v)
  case (J_list xs)
  then show ?case by (simp add: list_all_iff)
next
  case (J_obj d)
  let ?d = "map (\<lambda>(k, v). (k, sort_json v)) d"
  have "mset (map fst (sort_key fst ?d)) = mset (map fst ?d)" by (simp only: mset_map mset_sort)
  moreover have "map fst ?d = map fst d" by (simp add: case_prod_unfold)
  moreover have "distinct (map fst d)" using J_obj.prems by simp
  ultimately have "distinct (map fst (sort_key fst ?d))" using mset_eq_imp_distinct_iff by metis
  moreover have "json_plain ok (sort_json v)" if "(k, v) \<in> set d" for k v
    using J_obj.IH [OF that, of v] J_obj.prems that by (auto simp: list_all_iff)
  then have "\<forall>p\<in>set ?d. case p of (k, v) \<Rightarrow> json_plain ok v" by auto
  ultimately show ?case by (simp add: list_all_iff)
qed simp_all

lemma json_plain_ints: "json_plain ok v \<Longrightarrow> i \<in> set (json_ints v) \<Longrightarrow> length (int_decimal \<bar>i\<bar>) \<le> 4300"
proof (induction v)
  case (J_list xs)
  then obtain v where "v \<in> set xs" "i \<in> set (json_ints v)" by auto
  then show ?case using J_list by (simp add: list_all_iff)
next
  case (J_obj d)
  then obtain k v where "(k, v) \<in> set d" "i \<in> set (json_ints v)" by auto
  then show ?case using J_obj.IH [of "(k, v)" v] J_obj.prems(1) by (auto simp: list_all_iff)
qed simp_all

text \<open>
  What the JSON layer needs of the texts of floats: a float in \<open>plain\<close> is no NaN and no infinity, is
  written as a number of JSON's syntax, and is read back as itself.
\<close>

locale float_text =
  fixes F :: "('f, 'x) sim_ops_scheme" and plain :: "'f \<Rightarrow> bool"
  assumes plain_number: "plain x \<Longrightarrow> fl_eq F x x"
    and plain_finite: "plain x \<Longrightarrow> fl_parse F ''inf'' = Inr y \<Longrightarrow> \<not> fl_eq F x y \<and> \<not> fl_eq F x (fl_sub F (fl_zero F) y)"
    and plain_syntax: "plain x \<Longrightarrow> \<exists>neg ip fp ex. float_shape ip fp ex \<and>
      fl_repr F (J_float x) = (if neg then ''-'' else []) @ float_syntax ip fp ex"
    and plain_parse: "plain x \<Longrightarrow> fl_parse F (fl_repr F (J_float x)) = Inr x"
begin

lemma json_float_repr: "plain x \<Longrightarrow> json_float F x = fl_repr F (J_float x)"
  using plain_number plain_finite by (auto simp: json_float_def split: sum.split)

lemma number_constant:
  assumes "is_digit (hd s) \<or> hd s = CHR ''-'' \<and> tl s \<noteq> [] \<and> is_digit (hd (tl s))" "s \<noteq> []"
  shows "scan_constant F s = None" "hd s \<notin> {quote, CHR ''{'', CHR ''[''}"
proof -
  have "hd s \<notin> {CHR ''n'', CHR ''t'', CHR ''f'', CHR ''N'', CHR ''I''}" "\<not> (hd s = CHR ''-'' \<and> hd (tl s) = CHR ''I'')"
    "hd s \<notin> {quote, CHR ''{'', CHR ''[''}"
    using assms(1) by (auto simp: is_digit_iff quote_def)
  moreover have "take (Suc k) s = c # cs \<Longrightarrow> hd s = c" for k c cs by (cases s) auto
  moreover have "take (Suc (Suc k)) s = c # c' # cs \<Longrightarrow> hd (tl s) = c'" for k c c' cs by (cases s; cases "tl s") auto
  ultimately show "scan_constant F s = None" "hd s \<notin> {quote, CHR ''{'', CHR ''[''}"
    by (auto simp: scan_constant_def numeral_eq_Suc)
qed

lemma scan_value_number:
  assumes "is_digit (hd s) \<or> hd s = CHR ''-'' \<and> tl s \<noteq> [] \<and> is_digit (hd (tl s))" "s \<noteq> []"
  shows "scan_value (Suc n) F (s @ r) = scan_number F (s @ r)" "value_start s"
proof -
  have "is_digit (hd (s @ r)) \<or> hd (s @ r) = CHR ''-'' \<and> tl (s @ r) \<noteq> [] \<and> is_digit (hd (tl (s @ r)))"
    using assms by (cases s; cases "tl s") auto
  note c = number_constant [OF this]
  then show "scan_value (Suc n) F (s @ r) = scan_number F (s @ r)" using assms(2) by auto
  show "value_start s" using assms by (auto simp: value_start_def is_digit_iff)
qed

lemma json_reads_back: "json_plain plain v \<Longrightarrow> reads_back F indent v"
proof (induction v)
  case J_null
  show ?case unfolding reads_back_def
  proof (intro allI impI)
    fix level n r assume "2 * length (json_text F indent level J_null) + 1 \<le> n"
    then show "value_start (json_text F indent level J_null) \<and> scan_value n F (json_text F indent level J_null @ r) = Inr (J_null, r)"
      by (cases n) (auto simp: value_start_def scan_constant_def quote_def)
  qed
next
  case (J_bool b)
  show ?case unfolding reads_back_def
  proof (intro allI impI)
    fix level n r assume "2 * length (json_text F indent level (J_bool b)) + 1 \<le> n"
    then show "value_start (json_text F indent level (J_bool b)) \<and>
        scan_value n F (json_text F indent level (J_bool b) @ r) = Inr (J_bool b, r)"
      by (cases n) (auto simp: value_start_def scan_constant_def quote_def)
  qed
next
  case (J_int i)
  have d: "is_digit (hd (int_decimal \<bar>i\<bar>))" using int_decimal_digits [of "\<bar>i\<bar>"] by (cases "int_decimal \<bar>i\<bar>") simp_all
  then have s: "is_digit (hd (int_text i)) \<or> hd (int_text i) = CHR ''-'' \<and> tl (int_text i) \<noteq> [] \<and> is_digit (hd (tl (int_text i)))"
      "int_text i \<noteq> []"
    by (auto simp: int_text_def)
  show ?case unfolding reads_back_def
  proof (intro allI impI)
    fix level n r assume "value_end r" "2 * length (json_text F indent level (J_int i)) + 1 \<le> n"
    then show "value_start (json_text F indent level (J_int i)) \<and> scan_value n F (json_text F indent level (J_int i) @ r) = Inr (J_int i, r)"
      using scan_value_number [OF s] scan_number_int [of r i F] J_int by (cases n) simp_all
  qed
next
  case (J_float x)
  then have x: "plain x" by simp
  obtain neg ip fp ex where sh: "float_shape ip fp ex" "fl_repr F (J_float x) = (if neg then ''-'' else []) @ float_syntax ip fp ex"
    using plain_syntax [OF x] by blast
  let ?s = "(if neg then ''-'' else []) @ float_syntax ip fp ex"
  have "is_digit (hd ip)" "ip \<noteq> []" using sh(1) by (cases ip; simp add: float_shape_def)+
  then have s: "is_digit (hd ?s) \<or> hd ?s = CHR ''-'' \<and> tl ?s \<noteq> [] \<and> is_digit (hd (tl ?s))" "?s \<noteq> []"
    by (auto simp: float_syntax_def)
  have p: "fl_parse F ?s = Inr x" using plain_parse [OF x] sh(2) by simp
  show ?case unfolding reads_back_def
  proof (intro allI impI)
    fix level n r assume r: "value_end r" and n: "2 * length (json_text F indent level (J_float x)) + 1 \<le> n"
    have t: "json_text F indent level (J_float x) = ?s" using json_float_repr [OF x] sh(2) by simp
    show "value_start (json_text F indent level (J_float x)) \<and> scan_value n F (json_text F indent level (J_float x) @ r) = Inr (J_float x, r)"
      unfolding t using scan_value_number [OF s] scan_number_float [OF r sh(1) p] n by (cases n) simp_all
  qed
next
  case (J_str s)
  show ?case unfolding reads_back_def
  proof (intro allI impI)
    fix level n r assume "2 * length (json_text F indent level (J_str s)) + 1 \<le> n"
    then show "value_start (json_text F indent level (J_str s)) \<and> scan_value n F (json_text F indent level (J_str s) @ r) = Inr (J_str s, r)"
      by (cases n) (auto simp: value_start_def json_string_def quote_def scan_string_json [unfolded quote_def])
  qed
next
  case (J_list xs)
  then have xs: "\<forall>v\<in>set xs. reads_back F indent v" by (auto simp: list_all_iff)
  have "value_start (json_text F indent level (J_list xs))" for level
    by (simp add: bracketed_def value_start_def)
  then show ?case unfolding reads_back_def using scan_list [OF xs] by blast
next
  case (J_obj d)
  then have d: "\<forall>v\<in>snd ` set d. reads_back F indent v" "distinct (map fst d)"
    by (auto simp: list_all_iff prod_set_defs)
  have "value_start (json_text F indent level (J_obj d))" for level
    by (simp add: bracketed_def value_start_def)
  then show ?case unfolding reads_back_def using scan_obj [OF d] by blast
qed

text \<open>The round trip: what was written, with white space after it, is read as the same value with the keys in order.\<close>

lemma loads_dumps:
  assumes "json_plain plain v" "white w" "value_end w"
  shows "\<exists>t. json_dumps F indent v = Inr t \<and> json_loads F (t @ w) = Inr (sort_json v)"
proof -
  let ?t = "json_text F indent 0 (sort_json v)"
  have "\<not> (\<exists>i\<in>set (json_ints v). 4300 < length (int_decimal \<bar>i\<bar>))"
    using json_plain_ints [OF assms(1)] by (auto simp: not_less)
  then have dumps: "json_dumps F indent v = Inr ?t" by (simp only: json_dumps_def if_False)
  have b: "reads_back F indent (sort_json v)" by (rule json_reads_back [OF json_plain_sort [OF assms(1)]])
  have skip: "skip_space (?t @ w) = ?t @ w" "skip_space w = []"
    using skip_value [OF _ reads_back_start [OF b], of "[]" 0 w] skip_white [OF assms(2), of "[]"] by simp_all
  have "scan_value (2 * length (?t @ w) + 1) F (?t @ w) = Inr (sort_json v, w)"
    by (rule reads_back_value [OF b assms(3)]) simp
  then have "json_loads F (?t @ w) = Inr (sort_json v)" by (simp only: json_loads_def skip Let_def bind_res_simps prod.case if_True simp_thms)
  with dumps show ?thesis by blast
qed

end

text \<open>Python's floats: every finite float in the form that rounding leaves.\<close>

definition b64_plain :: "b64 \<Rightarrow> bool" where
  "b64_plain x = (case x of B_fin m e \<Rightarrow> round_ratio m 1 e = x | _ \<Rightarrow> False)"

lemma b64_plain_cases:
  assumes "b64_plain x"
  obtains m e where "x = B_fin m e" "round_ratio m 1 e = B_fin m e"
  using assms by (cases x) (auto simp: b64_plain_def)

lemma b64_plain_texts:
  assumes "b64_plain x"
  shows "\<exists>neg ip fp ex. float_shape ip fp ex \<and> b64_repr x = (if neg then ''-'' else []) @ float_syntax ip fp ex"
    "b64_parse (b64_repr x) = Inr x"
proof -
  obtain m e where m: "x = B_fin m e" "round_ratio m 1 e = B_fin m e" using assms by (rule b64_plain_cases)
  show "b64_parse (b64_repr x) = Inr x" unfolding m(1) b64_parse_repr m(2) by (rule refl)
  show "\<exists>neg ip fp ex. float_shape ip fp ex \<and> b64_repr x = (if neg then ''-'' else []) @ float_syntax ip fp ex"
  proof (cases "m = 0")
    case True
    then have "b64_repr x = (if False then ''-'' else []) @ float_syntax ''0'' ''0'' None" "float_shape ''0'' ''0'' None"
      by (simp_all add: m(1) float_syntax_def exponent_text_def float_shape_def)
    then show ?thesis by blast
  next
    case False
    show ?thesis using b64_repr_shape [OF False, of e] unfolding m(1) by blast
  qed
qed

lemma b64_parse_inf: "b64_parse ''inf'' = Inr (B_inf False)"
  by code_simp

interpretation b64_text: float_text "b64_sim L" b64_plain for L
proof
  fix x y assume x: "b64_plain x"
  obtain m e where m: "x = B_fin m e" using x by (rule b64_plain_cases)
  show "fl_eq (b64_sim L) x x" by (simp add: m Let_def)
  show "\<not> fl_eq (b64_sim L) x y \<and> \<not> fl_eq (b64_sim L) x (fl_sub (b64_sim L) (fl_zero (b64_sim L)) y)"
    if "fl_parse (b64_sim L) ''inf'' = Inr y"
  proof -
    have "y = B_inf False" using that by (simp add: b64_parse_inf)
    then show ?thesis by (simp add: m)
  qed
  have r: "fl_repr (b64_sim L) (J_float x) = b64_repr x" by (simp add: b64_str_def)
  show "fl_parse (b64_sim L) (fl_repr (b64_sim L) (J_float x)) = Inr x"
    unfolding r using b64_plain_texts(2) [OF x] by simp
  show "\<exists>neg ip fp ex. float_shape ip fp ex \<and> fl_repr (b64_sim L) (J_float x) = (if neg then ''-'' else []) @ float_syntax ip fp ex"
    unfolding r by (rule b64_plain_texts(1) [OF x])
qed

end
