(* ===== verification/TraceFiles.thy ===== *)
theory TraceFiles
  imports JsonRoundTrip Binary64Trace
begin

text \<open>
  The two command-line tools of \<open>sim/\<close> end to end: \<open>generate_agentic_trace.py\<close> writes a trace as a
  JSON file, \<open>rcif_sim.py\<close> loads a file, simulates it and prints the report. The arguments are their
  values (theory \<open>Commands\<close> has the command lines); the file system is a map from paths to texts, and
  writing succeeds.
\<close>

section \<open>The tools\<close>

type_synonym files = "string \<rightharpoonup> string"

definition newline :: string where "newline = [CHR 0x0A]"

definition load_trace :: "('f, 'x) sim_ops_scheme \<Rightarrow> files \<Rightarrow> string \<Rightarrow> 'f json res" where
  "load_trace F files path = (case files path of None \<Rightarrow> Inl FileNotFoundError | Some t \<Rightarrow> json_loads F t)"

text \<open>
  \<open>simulate_trace\<close> of any JSON value: it first takes the set of the items, which a number does not have
  and a list of lists or dictionaries refuses; a list of all the required names passes that check and
  fails at \<open>trace["requests"]\<close>.
\<close>

definition simulate_value :: "('f, 'x) sim_ops_scheme \<Rightarrow> 'f json \<Rightarrow> 'f trace_report res" where
  "simulate_value F v =
     (case v of
        J_obj d \<Rightarrow> simulate_trace F d
      | J_list xs \<Rightarrow>
          if list_ex (\<lambda>x. case x of J_list _ \<Rightarrow> True | J_obj _ \<Rightarrow> True | _ \<Rightarrow> False) xs then Inl TypeError
          else if list_all (\<lambda>k. list_ex (\<lambda>x. case x of J_str s \<Rightarrow> s = k | _ \<Rightarrow> False) xs) required_top then Inl TypeError
          else Inl ValueError
      | J_str _ \<Rightarrow> Inl ValueError
      | _ \<Rightarrow> Inl TypeError)"

definition summary_json :: "'f trace_summary \<Rightarrow> 'f json" where
  "summary_json s = J_obj
     [(''requests'', J_int (ts_requests s)), (''output_tokens'', J_int (ts_output_tokens s)),
      (''ttft_p50_s'', J_float (ts_ttft_p50_s s)), (''ttft_p95_s'', J_float (ts_ttft_p95_s s)),
      (''ttft_p99_s'', J_float (ts_ttft_p99_s s)), (''tpot_p50_s'', J_float (ts_tpot_p50_s s)),
      (''tpot_p95_s'', J_float (ts_tpot_p95_s s)), (''tpot_p99_s'', J_float (ts_tpot_p99_s s)),
      (''accepted_tokens_per_s'', J_float (ts_accepted_tokens_per_s s)),
      (''kv_bytes_read'', J_float (ts_kv_bytes_read s)), (''kv_bytes_written'', J_float (ts_kv_bytes_written s)),
      (''weight_bytes_read'', J_float (ts_weight_bytes_read s)), (''local_kv_bytes'', J_float (ts_local_kv_bytes s)),
      (''remote_kv_bytes'', J_float (ts_remote_kv_bytes s)), (''cold_kv_bytes'', J_float (ts_cold_kv_bytes s))]"

definition report_json :: "'f trace_report \<Rightarrow> 'f json" where
  "report_json rep = J_obj
     [(''trace_name'', tr_trace_name rep),
      (''model'', J_obj [(''kv_bytes_per_token'', J_float (tr_kv_bytes_per_token rep))]),
      (''summary'', summary_json (tr_summary rep)), (''requests'', J_list (map J_obj (tr_requests rep)))]"

text \<open>\<open>main\<close> of \<open>rcif_sim.py\<close>: what it prints and the exit status.\<close>

definition simulator_main ::
  "('f, 'x) sim_ops_scheme \<Rightarrow> files \<Rightarrow> string \<Rightarrow> bool \<Rightarrow> (string \<times> int) res" where
  "simulator_main F files path pretty =
     bind_res (load_trace F files path) (\<lambda>v.
     bind_res (simulate_value F v) (\<lambda>rep.
     bind_res (json_dumps F (if pretty then Some 2 else None) (report_json rep)) (\<lambda>t. Inr (t @ newline, 0))))"

text \<open>\<open>main\<close> of \<open>generate_agentic_trace.py\<close> with the values of its arguments: the files and the exit status.\<close>

definition generator_main ::
  "('f, 'x) sim_ops_scheme \<Rightarrow> files \<Rightarrow> int \<Rightarrow> int \<Rightarrow> 'f \<Rightarrow> string \<Rightarrow> (files \<times> int) res" where
  "generator_main F files requests prefix_tokens reuse_ratio out_path =
     bind_res (build_trace F requests prefix_tokens reuse_ratio) (\<lambda>trace.
     bind_res (json_dumps F (Some 2) (J_obj trace)) (\<lambda>t. Inr (files(out_path \<mapsto> t @ newline), 0)))"

section \<open>A trace read back\<close>

lemma map_of_sorted:
  assumes "distinct (map fst d)"
  shows "map_of (sort_key fst (map (\<lambda>(k, v). (k, f v)) d)) = map_option f \<circ> map_of d"
proof -
  let ?d = "map (\<lambda>(k, v). (k, f v)) d"
  have keys: "map fst ?d = map fst d" by (simp add: case_prod_unfold)
  have "mset (map fst (sort_key fst ?d)) = mset (map fst ?d)" by (simp only: mset_map mset_sort)
  then have "distinct (map fst (sort_key fst ?d))" "distinct (map fst ?d)"
    using assms keys mset_eq_imp_distinct_iff by metis+
  then have "map_of (sort_key fst ?d) = map_of ?d" by (simp add: map_of_inject_set)
  also have "\<dots> = map_option f \<circ> map_of d" by (rule map_of_map)
  finally show ?thesis .
qed

text \<open>A dictionary without nested values keeps its lookups, and with them what is read from it.\<close>

definition flat :: "'f json \<Rightarrow> bool" where
  "flat v = (case v of J_obj d \<Rightarrow> distinct (map fst d) \<and> list_all (\<lambda>p. sort_json (snd p) = snd p) d | _ \<Rightarrow> False)"

lemma flat_lookups:
  assumes "flat v"
  shows "getitem k (sort_json v) = getitem k v" "dict_get k x (sort_json v) = dict_get k x v"
proof -
  obtain d where d: "v = J_obj d" "distinct (map fst d)" "\<forall>p\<in>set d. sort_json (snd p) = snd p"
    using assms by (auto simp: flat_def list_all_iff split: json.splits)
  have "map (\<lambda>(k, v). (k, sort_json v)) d = d" using d(3) by (intro map_idI) auto
  then have "map_of (sort_key fst d) = map_of d" using map_of_sorted [OF d(2), of id] by (simp add: option.map_id0)
  then show "getitem k (sort_json v) = getitem k v" "dict_get k x (sort_json v) = dict_get k x v"
    using \<open>map (\<lambda>(k, v). (k, sort_json v)) d = d\<close> by (simp_all add: d(1))
qed

lemma flat_configs:
  assumes "flat v"
  shows "ModelConfig_from_dict F (sort_json v) = ModelConfig_from_dict F v"
    "HardwareConfig_from_dict F (sort_json v) = HardwareConfig_from_dict F v"
    "Request_from_dict F (sort_json v) = Request_from_dict F v"
  unfolding ModelConfig_from_dict_def HardwareConfig_from_dict_def Request_from_dict_def int_field_def float_field_def
    flat_lookups [OF assms] by (rule refl)+

lemma flat_generated: "flat generated_model" "flat (generated_hardware F)" "flat (generated_request p r n k)"
  by (simp_all add: flat_def generated_model_def generated_hardware_def generated_request_def ratio_def)

section \<open>Generated traces can be written\<close>

lemma short_ints: "\<bar>i\<bar> < 10 ^ 20 \<Longrightarrow> length (int_decimal \<bar>i\<bar>) \<le> 4300"
proof (cases "i = 0")
  case False
  assume i: "\<bar>i\<bar> < 10 ^ 20"
  have "10 ^ (length (int_decimal \<bar>i\<bar>) - 1) \<le> \<bar>i\<bar>" by (rule length_decimal_low) (use False in simp)
  with i have "(10::int) ^ (length (int_decimal \<bar>i\<bar>) - 1) < 10 ^ 20" by linarith
  then have "length (int_decimal \<bar>i\<bar>) - 1 < 20" by (rule power_less_imp_less_exp [rotated]) simp
  then show ?thesis by simp
qed (simp add: int_decimal.simps [of 0])

lemma short_nats: "0 \<le> i \<Longrightarrow> i < 10 ^ 20 \<Longrightarrow> length (int_decimal i) \<le> 4300"
  using short_ints [of i] by simp

lemma generated_plain:
  assumes "0 \<le> prefix" "prefix \<le> 2 ^ 52" "0 \<le> reused" "reused \<le> prefix"
  shows "json_plain b64_plain generated_model" "json_plain b64_plain (generated_hardware (b64_sim L))"
    "json_plain b64_plain (generated_request prefix reused (prefix - reused) k)"
proof -
  show "json_plain b64_plain generated_model" by (simp add: generated_model_def short_nats)
  have "b64_plain (b64_div (round_ratio 1 1 0) (round_ratio 1000 1 0)) \<and> b64_plain (b64_div (round_ratio 9 1 0) (round_ratio 10 1 0)) \<and>
      b64_plain (b64_div (round_ratio 8 1 0) (round_ratio 100 1 0))"
    by code_simp
  then show "json_plain b64_plain (generated_hardware (b64_sim L))" by (simp add: generated_hardware_def ratio_def short_nats)
  have "0 \<le> int k mod 4" "int k mod 4 < 4" by simp_all
  then have "\<bar>512 + int k mod 4 * 256\<bar> < 10 ^ 20" by simp
  moreover have "\<bar>prefix\<bar> < 10 ^ 20" "\<bar>reused\<bar> < 10 ^ 20" "\<bar>prefix - reused\<bar> < 10 ^ 20" using assms by simp_all
  ultimately show "json_plain b64_plain (generated_request prefix reused (prefix - reused) k)"
    using short_ints [of prefix] short_ints [of reused] short_ints [of "prefix - reused"] short_ints [of "512 + int k mod 4 * 256"]
    by (simp add: generated_request_def short_nats)
qed

section \<open>Loading a file\<close>

text \<open>A file that is not there, a text that is no JSON, or a value: loading has no other outcome.\<close>

lemma load_trace_outcome:
  "load_trace (b64_sim L) files path =
     (case files path of None \<Rightarrow> Inl FileNotFoundError
      | Some t \<Rightarrow> (case json_loads (b64_sim L) t of Inr v \<Rightarrow> Inr v | Inl _ \<Rightarrow> Inl ValueError))"
proof -
  have "fl_parse (b64_sim L) u = Inl e \<Longrightarrow> e = ValueError" for u e
    by (auto simp: b64_parse_def Let_def split: if_splits option.splits)
  then show ?thesis
    using json_loads_error [of "b64_sim L"] by (auto simp: load_trace_def split: option.splits sum.splits)
qed

text \<open>
  C37: in binary64, a JSON value that was written by \<open>json.dumps\<close> with sorted keys and any indent and
  got a newline is loaded as the same value with the keys of every dictionary in order, provided its
  floats are finite, its integers have at most 4300 digits and no dictionary has a key twice. Strings
  may hold any characters below code point 256, and floats are read back bit by bit.
\<close>

theorem written_json_is_loaded:
  assumes "json_plain b64_plain v"
  shows "\<exists>t. json_dumps (b64_sim L) indent v = Inr t \<and>
    load_trace (b64_sim L) (files(path \<mapsto> t @ newline)) path = Inr (sort_json v) \<and>
    json_loads (b64_sim L) t = Inr (sort_json v)"
proof -
  have "white newline" "value_end newline" "white []" "value_end []" by (simp_all add: newline_def value_end_def)
  then show ?thesis
    using b64_text.loads_dumps [OF assms, where w = newline and indent = indent and L = L]
      b64_text.loads_dumps [OF assms, where w = "[]" and indent = indent and L = L]
    by (auto simp: load_trace_def)
qed

text \<open>A quote, a backslash, a newline and a character above 127 in a key, and floats of all layouts.\<close>

theorem written_json_is_loaded_witness:
  "\<exists>t. json_dumps (b64_sim plain_lib) (Some 2)
       (J_obj [([CHR 0x22, CHR 0x5C, CHR 0x0A, CHR 0xE9], J_list [J_null, J_int (- 7)]), (''a'', J_float (literal 1 3)),
         (''A'', J_float (literal (- (10 ^ 17)) 1))]) = Inr t \<and>
     load_trace (b64_sim plain_lib) [''f'' \<mapsto> t @ newline] ''f'' =
       Inr (J_obj [([CHR 0x22, CHR 0x5C, CHR 0x0A, CHR 0xE9], J_list [J_null, J_int (- 7)]),
         (''A'', J_float (literal (- (10 ^ 17)) 1)), (''a'', J_float (literal 1 3))])"
proof -
  let ?v = "J_obj [([CHR 0x22, CHR 0x5C, CHR 0x0A, CHR 0xE9], J_list [J_null, J_int (- 7)]), (''a'', J_float (literal 1 3)),
         (''A'', J_float (literal (- (10 ^ 17)) 1))]"
  have "b64_plain (literal 1 3) \<and> b64_plain (literal (- (10 ^ 17)) 1)" by code_simp
  moreover have "length (int_decimal 7) \<le> 4300" by (simp add: int_decimal.simps)
  ultimately have "json_plain b64_plain ?v" by simp
  moreover have "sort_json ?v = J_obj [([CHR 0x22, CHR 0x5C, CHR 0x0A, CHR 0xE9], J_list [J_null, J_int (- 7)]),
         (''A'', J_float (literal (- (10 ^ 17)) 1)), (''a'', J_float (literal 1 3))]"
    by code_simp
  ultimately show ?thesis using written_json_is_loaded [of ?v plain_lib "Some 2" Map.empty "''f''"] by auto
qed

section \<open>From the generator to the report\<close>

lemma build_trace_fields:
  assumes "build_trace (b64_sim L) n prefix r = Inr trace"
    "map_of trace ''requests'' = Some (J_list (map (generated_request prefix reused (prefix - reused)) [0..<nat n]))"
  shows "trace = [(''trace_name'', J_str ''generated_agentic_coding_trace''),
      (''description'', J_str ''Generated deterministic trace for architecture experiments.''),
      (''model'', generated_model), (''hardware'', generated_hardware (b64_sim L)),
      (''requests'', J_list (map (generated_request prefix reused (prefix - reused)) [0..<nat n]))]"
  using assms by (auto simp: build_trace_def bind_res_Inr)

lemma generated_file:
  assumes "0 \<le> prefix" "prefix \<le> 2 ^ 52" "0 \<le> reused" "reused \<le> prefix"
    and build: "build_trace (b64_sim L) n prefix r = Inr trace"
      "map_of trace ''requests'' = Some (J_list (map (generated_request prefix reused (prefix - reused)) [0..<nat n]))"
  shows "\<exists>t d'. generator_main (b64_sim L) files n prefix r out_path = Inr (files(out_path \<mapsto> t), 0) \<and>
    json_loads (b64_sim L) t = Inr (J_obj d') \<and> map_of d' = map_option sort_json \<circ> map_of trace"
proof -
  note trace = build_trace_fields [OF build]
  have "json_plain b64_plain (J_obj trace)"
    unfolding trace using generated_plain [OF assms(1-4)] by (simp add: list_all_iff)
  moreover have "white newline" "value_end newline" by (simp_all add: newline_def value_end_def)
  ultimately obtain t where t: "json_dumps (b64_sim L) (Some 2) (J_obj trace) = Inr t"
      "json_loads (b64_sim L) (t @ newline) = Inr (sort_json (J_obj trace))"
    using b64_text.loads_dumps by blast
  have "distinct (map fst trace)" unfolding trace by simp
  then have "map_of (sort_key fst (map (\<lambda>(k, v). (k, sort_json v)) trace)) = map_option sort_json \<circ> map_of trace"
    by (rule map_of_sorted)
  then show ?thesis using t build(1) by (auto simp: generator_main_def)
qed

lemma map_res_sorted:
  assumes "reused \<le> prefix"
  shows "map_res (Request_from_dict F) (map sort_json (map (generated_request prefix reused (prefix - reused)) ks)) =
    Inr (map (generated prefix reused) ks)"
  using assms by (induction ks) (simp_all add: flat_configs [OF flat_generated(3)] Request_generated)

text \<open>What the event model makes of the trace that was read back.\<close>

lemma simulate_loaded_trace:
  assumes "n \<le> 2 ^ 42" "0 \<le> prefix" "prefix \<le> 2 ^ 52" "0 \<le> reused" "reused \<le> prefix"
    and build: "build_trace (b64_sim L) n prefix r = Inr trace"
      "map_of trace ''requests'' = Some (J_list (map (generated_request prefix reused (prefix - reused)) [0..<nat n]))"
    and d: "map_of d = map_option sort_json \<circ> map_of trace"
  shows "if n \<le> 0 then simulate_trace (b64_sim L) d = Inl ValueError
    else \<exists>rep. simulate_trace (b64_sim L) d = Inr rep \<and> tr_trace_name rep = J_str ''generated_agentic_coding_trace'' \<and>
      (\<exists>results. tr_requests rep = map result_dict results) \<and> ts_requests (tr_summary rep) = n \<and>
      map (\<lambda>d. map_of d ''request_id'') (tr_requests rep) = map (\<lambda>k. Some (J_str (''generated-'' @ pad4 k))) [0..<nat n] \<and>
      ts_output_tokens (tr_summary rep) = (\<Sum>k\<leftarrow>[0..<nat n]. 512 + (int k mod 4) * 256)"
proof -
  note trace = build_trace_fields [OF build]
  let ?items = "map sort_json (map (generated_request prefix reused (prefix - reused)) [0..<nat n])"
  have fields: "map_of d ''trace_name'' = Some (J_str ''generated_agentic_coding_trace'')"
      "map_of d ''model'' = Some (sort_json generated_model)" "map_of d ''hardware'' = Some (sort_json (generated_hardware (b64_sim L)))"
      "map_of d ''requests'' = Some (J_list ?items)"
    unfolding d trace by simp_all
  show ?thesis
  proof (cases "n \<le> 0")
    case True
    have "\<not> (\<exists>k\<in>set required_top. k \<notin> fst ` set d)"
      using fields by (auto simp: required_top_def simp flip: map_of_eq_None_iff)
    then show ?thesis using True fields by (simp add: simulate_trace_def validate_trace_shape_def)
  next
    case False
    then show ?thesis
      using simulate_generated_requests [OF _ assms(1-5) fields flat_configs(1) [OF flat_generated(1)]
          flat_configs(2) [OF flat_generated(2)] map_res_sorted [OF assms(5)]] by simp
  qed
qed

lemma report_ints:
  assumes "tr_trace_name rep = J_str name" "tr_requests rep = map result_dict results"
  shows "set (json_ints (report_json rep)) = {ts_requests (tr_summary rep), ts_output_tokens (tr_summary rep)}"
  using assms by (auto simp: report_json_def summary_json_def result_dict_def)

lemma report_written:
  assumes "tr_trace_name rep = J_str name" "tr_requests rep = map result_dict results"
    and "\<bar>ts_requests (tr_summary rep)\<bar> < 10 ^ 20" "\<bar>ts_output_tokens (tr_summary rep)\<bar> < 10 ^ 20"
  shows "json_dumps F indent (report_json rep) = Inr (json_text F indent 0 (sort_json (report_json rep)))"
proof -
  have "\<not> (\<exists>i\<in>set (json_ints (report_json rep)). 4300 < length (int_decimal \<bar>i\<bar>))"
    unfolding report_ints [OF assms(1,2)] using short_ints [OF assms(3)] short_ints [OF assms(4)] by auto
  then show ?thesis by (simp only: json_dumps_def if_False)
qed

text \<open>
  The two tools fit together, in binary64 and through the JSON text on disk. For a prefix of at
  most \<open>2 ^ 52\<close> tokens and a reuse ratio from 0 to 1, the generator exits with 0 and changes only its
  output file. The simulator on that file raises \<open>ValueError\<close> when no requests were asked for;
  otherwise it exits with 0 and prints the JSON of a report with the requested number of requests
  under their own identifiers and the sum of their output tokens.
\<close>

theorem generated_file_simulates:
  assumes "n \<le> 2 ^ 42" "0 \<le> prefix" "prefix \<le> 2 ^ 52" "b64_finite r" "0 \<le> b64_val r" "b64_val r \<le> 1"
  shows "\<exists>t. generator_main (b64_sim L) files n prefix r out_path = Inr (files(out_path \<mapsto> t), 0) \<and>
    (if n \<le> 0 then simulator_main (b64_sim L) (files(out_path \<mapsto> t)) out_path pretty = Inl ValueError
     else \<exists>rep. simulator_main (b64_sim L) (files(out_path \<mapsto> t)) out_path pretty =
         Inr (json_text (b64_sim L) (if pretty then Some 2 else None) 0 (sort_json (report_json rep)) @ newline, 0) \<and>
       ts_requests (tr_summary rep) = n \<and>
       map (\<lambda>d. map_of d ''request_id'') (tr_requests rep) = map (\<lambda>k. Some (J_str (''generated-'' @ pad4 k))) [0..<nat n] \<and>
       ts_output_tokens (tr_summary rep) = (\<Sum>k\<leftarrow>[0..<nat n]. 512 + (int k mod 4) * 256))"
proof -
  let ?F = "b64_sim L"
  obtain reused trace where reused: "0 \<le> reused" "reused \<le> prefix" and build: "build_trace ?F n prefix r = Inr trace"
      "map_of trace ''requests'' = Some (J_list (map (generated_request prefix reused (prefix - reused)) [0..<nat n]))"
    using build_trace_binary64 [OF assms(2-6), of L n] by blast
  obtain t d' where t: "generator_main ?F files n prefix r out_path = Inr (files(out_path \<mapsto> t), 0)"
      "json_loads ?F t = Inr (J_obj d')" "map_of d' = map_option sort_json \<circ> map_of trace"
    using generated_file [OF assms(2,3) reused build, of files out_path] by blast
  note sim = simulate_loaded_trace [OF assms(1-3) reused build t(3)]
  have main: "simulator_main ?F (files(out_path \<mapsto> t)) out_path pretty = bind_res (simulate_trace ?F d') (\<lambda>rep.
      bind_res (json_dumps ?F (if pretty then Some 2 else None) (report_json rep)) (\<lambda>t. Inr (t @ newline, 0)))"
    by (simp add: simulator_main_def load_trace_def simulate_value_def t(2))
  show ?thesis
  proof (cases "n \<le> 0")
    case True
    then show ?thesis using t(1) sim by (intro exI [of _ t]) (simp add: main)
  next
    case False
    let ?tokens = "\<Sum>k\<leftarrow>[0..<nat n]. 512 + (int k mod 4) * 256"
    obtain rep results where rep: "simulate_trace ?F d' = Inr rep" "tr_trace_name rep = J_str ''generated_agentic_coding_trace''"
        "tr_requests rep = map result_dict results" "ts_requests (tr_summary rep) = n"
        "map (\<lambda>d. map_of d ''request_id'') (tr_requests rep) = map (\<lambda>k. Some (J_str (''generated-'' @ pad4 k))) [0..<nat n]"
        "ts_output_tokens (tr_summary rep) = ?tokens"
      using sim False by auto
    have "\<bar>n\<bar> < 10 ^ 20" "\<bar>?tokens\<bar> < 10 ^ 20" using generated_outputs_bound [of "[0..<nat n]"] assms(1) False by simp_all
    then have "json_dumps ?F indent (report_json rep) = Inr (json_text ?F indent 0 (sort_json (report_json rep)))" for indent
      by (intro report_written [OF rep(2,3)]) (simp_all only: rep(4,6))
    then have "simulator_main ?F (files(out_path \<mapsto> t)) out_path pretty =
        Inr (json_text ?F (if pretty then Some 2 else None) 0 (sort_json (report_json rep)) @ newline, 0)"
      by (simp only: main rep(1) bind_res_simps)
    with rep(4-6) have "\<exists>rep. simulator_main ?F (files(out_path \<mapsto> t)) out_path pretty =
        Inr (json_text ?F (if pretty then Some 2 else None) 0 (sort_json (report_json rep)) @ newline, 0) \<and>
      ts_requests (tr_summary rep) = n \<and>
      map (\<lambda>d. map_of d ''request_id'') (tr_requests rep) = map (\<lambda>k. Some (J_str (''generated-'' @ pad4 k))) [0..<nat n] \<and>
      ts_output_tokens (tr_summary rep) = ?tokens"
      by blast
    with t(1) show ?thesis unfolding if_not_P [OF False] by blast
  qed
qed

text \<open>With the generator's default arguments, and a ratio that is not a float of the form \<open>n / 2 ^ k\<close>.\<close>

theorem generated_file_simulates_witness:
  "\<exists>t rep. generator_main (b64_sim plain_lib) Map.empty 4 131072 (literal 9 10) ''trace.json'' =
      Inr ([''trace.json'' \<mapsto> t], 0) \<and>
    simulator_main (b64_sim plain_lib) [''trace.json'' \<mapsto> t] ''trace.json'' False =
      Inr (json_text (b64_sim plain_lib) None 0 (sort_json (report_json rep)) @ newline, 0) \<and>
    ts_requests (tr_summary rep) = 4 \<and> ts_output_tokens (tr_summary rep) = 3584"
proof -
  have r: "literal 9 10 = B_fin 8106479329266893 (- 53)" by code_simp
  have val: "b64_finite (literal 9 10)" "0 \<le> b64_val (literal 9 10)" "b64_val (literal 9 10) \<le> 1"
    unfolding r by (simp_all add: power_int_minus)
  have "[0..<nat 4] = [0, 1, 2, 3]" by (simp add: upt_rec)
  then have sum: "(\<Sum>k\<leftarrow>[0..<nat 4]. 512 + (int k mod 4) * 256) = 3584" by simp
  show ?thesis
    using generated_file_simulates [of 4 131072 "literal 9 10" plain_lib Map.empty "''trace.json''" False, OF _ _ _ val]
    unfolding sum by auto
qed

end
