(* ===== verification/ArgParse.thy ===== *)
theory ArgParse
  imports TraceFiles
begin

text \<open>
  The part of \<open>argparse\<close> the three command-line tools use: options with one value, flags, \<open>-h\<close>, at most
  one positional argument, abbreviations of long options, \<open>--option=value\<close>, arguments that look like
  negative numbers and the \<open>--\<close> separator, as in CPython 3.11.10. An error of the command line is
  \<open>SystemExit 2\<close>, \<open>-h\<close> is \<open>SystemExit 0\<close>; usage and error texts are not modelled.
\<close>

section \<open>Parsers\<close>

text \<open>
  A parser lists its options, each with the conversion of its value, or none for a flag that stores
  true, and its positional argument; \<open>cli_defaults\<close> is the namespace before parsing, keyed by the
  option strings.
\<close>

type_synonym 'v namespace = "string \<rightharpoonup> 'v"

record 'v cli =
  cli_options :: "(string \<times> (string \<Rightarrow> 'v res) option) list"
  cli_positional :: "(string \<times> (string \<Rightarrow> 'v res)) option"
  cli_defaults :: "'v namespace"
  cli_required :: "string list"
  cli_true :: 'v

definition option_strings :: "'v cli \<Rightarrow> string list" where
  "option_strings p = ''-h'' # ''--help'' # map fst (cli_options p)"

section \<open>What an argument is\<close>

text \<open>An option may come with the separator and the text of its value in the same argument.\<close>

datatype cli_token = Word string | Separator | Option string "(string \<times> string) option" | Unknown

definition begins :: "string \<Rightarrow> string \<Rightarrow> bool" where
  "begins pre s = (take (length pre) s = pre)"

text \<open>\<open>s.partition('=')\<close> of a string that has the character.\<close>

definition partition_eq :: "string \<Rightarrow> (string \<times> string) option" where
  "partition_eq s =
     (if CHR ''='' \<in> set s then Some (takeWhile (\<lambda>c. c \<noteq> CHR ''='') s, tl (dropWhile (\<lambda>c. c \<noteq> CHR ''='') s))
      else None)"

text \<open>The regular expression \<open>^-\d+$|^-\d*\.\d+$\<close>; its end also matches before a final newline.\<close>

definition negative_number :: "string \<Rightarrow> bool" where
  "negative_number s =
     (let t = (if s \<noteq> [] \<and> last s = CHR 0x0A then butlast s else s);
          rest = dropWhile is_digit (tl t) in
      t \<noteq> [] \<and> hd t = CHR ''-'' \<and>
      (rest = [] \<and> tl t \<noteq> [] \<or> rest \<noteq> [] \<and> hd rest = CHR ''.'' \<and> tl rest \<noteq> [] \<and> list_all is_digit (tl rest)))"

text \<open>The options an argument may abbreviate; after a single dash, the option of one character and its value.\<close>

definition option_tuples :: "string list \<Rightarrow> string \<Rightarrow> (string \<times> (string \<times> string) option) list" where
  "option_tuples opts s =
     (if begins ''--'' s then
        (case partition_eq s of
           None \<Rightarrow> map (\<lambda>opt. (opt, None)) (filter (begins s) opts)
         | Some (pre, val) \<Rightarrow> map (\<lambda>opt. (opt, Some (''='', val))) (filter (begins pre) opts))
      else
        concat (map (\<lambda>opt. if opt = take 2 s then [(opt, Some ([], drop 2 s))]
          else if begins s opt then [(opt, None)] else []) opts))"

definition classify :: "string list \<Rightarrow> string \<Rightarrow> cli_token res" where
  "classify opts s =
     (if s = [] \<or> hd s \<noteq> CHR ''-'' then Inr (Word s)
      else if s \<in> set opts then Inr (Option s None)
      else if length s = 1 then Inr (Word s)
      else
        case (case partition_eq s of Some (pre, val) \<Rightarrow> if pre \<in> set opts then Some (pre, val) else None | None \<Rightarrow> None) of
          Some (pre, val) \<Rightarrow> Inr (Option pre (Some (''='', val)))
        | None \<Rightarrow>
          (case option_tuples opts s of
             [(opt, val)] \<Rightarrow> Inr (Option opt val)
           | _ # _ \<Rightarrow> Inl (SystemExit 2)
           | [] \<Rightarrow> if negative_number s \<or> CHR '' '' \<in> set s then Inr (Word s) else Inr Unknown))"

text \<open>All arguments after \<open>--\<close> are words.\<close>

fun classify_all :: "string list \<Rightarrow> string list \<Rightarrow> cli_token list res" where
  "classify_all opts [] = Inr []"
| "classify_all opts (s # ss) =
     (if s = ''--'' then Inr (Separator # map Word ss)
      else bind_res (classify opts s) (\<lambda>t. bind_res (classify_all opts ss) (\<lambda>ts. Inr (t # ts))))"

section \<open>Consuming the arguments\<close>

text \<open>\<open>ValueError\<close> and \<open>TypeError\<close> of a conversion are reported as errors of the command line.\<close>

definition convert :: "(string \<Rightarrow> 'v res) \<Rightarrow> string \<Rightarrow> 'v res" where
  "convert f s = (case f s of Inl e \<Rightarrow> if e = ValueError \<or> e = TypeError then Inl (SystemExit 2) else Inl e | Inr v \<Rightarrow> Inr v)"

text \<open>\<open>-h\<close> takes no value: the characters after it are read as more options of one character.\<close>

fun short_help :: "string \<Rightarrow> string \<Rightarrow> int" where
  "short_help sep [] = 2"
| "short_help sep (c # cs) =
     (if sep \<noteq> [] \<or> c = CHR ''-'' then 2
      else if c \<noteq> CHR ''h'' then 0
      else if cs = [] then 0 else if hd cs = CHR ''='' then 2 else short_help [] cs)"

definition help_exit :: "string \<Rightarrow> (string \<times> string) option \<Rightarrow> int" where
  "help_exit opt val =
     (case val of None \<Rightarrow> 0 | Some (sep, s) \<Rightarrow> if opt = ''-h'' then short_help sep s else 2)"

text \<open>
  \<open>waiting\<close> is the positional argument that has not been seen, \<open>extras\<close> says that an argument was not
  recognised. A separator belongs to the positional argument it stands next to.
\<close>

fun consume ::
  "'v cli \<Rightarrow> (string \<times> (string \<Rightarrow> 'v res)) option \<Rightarrow> bool \<Rightarrow> 'v namespace \<Rightarrow> cli_token list \<Rightarrow> 'v namespace res"
where
  "consume p waiting extras ns [] =
     (if list_ex (\<lambda>k. ns k = None) (cli_required p) \<or> extras then Inl (SystemExit 2) else Inr ns)"
| "consume p waiting extras ns (Word s # ts) =
     (case waiting of None \<Rightarrow> consume p None True ns ts
      | Some (name, f) \<Rightarrow> bind_res (convert f s) (\<lambda>v.
          consume p None extras (ns(name \<mapsto> v)) (case ts of Separator # ts' \<Rightarrow> ts' | _ \<Rightarrow> ts)))"
| "consume p waiting extras ns (Separator # ts) =
     (if waiting = None \<or> ts = [] then consume p waiting True ns ts else consume p waiting extras ns ts)"
| "consume p waiting extras ns (Unknown # ts) = consume p waiting True ns ts"
| "consume p waiting extras ns (Option opt val # ts) =
     (if opt = ''-h'' \<or> opt = ''--help'' then Inl (SystemExit (help_exit opt val))
      else case map_of (cli_options p) opt of
        None \<Rightarrow> Inl (SystemExit 2)
      | Some None \<Rightarrow>
          (case val of None \<Rightarrow> consume p waiting extras (ns(opt \<mapsto> cli_true p)) ts | Some _ \<Rightarrow> Inl (SystemExit 2))
      | Some (Some f) \<Rightarrow>
          (case val of
             Some (_, s) \<Rightarrow> bind_res (convert f s) (\<lambda>v. consume p waiting extras (ns(opt \<mapsto> v)) ts)
           | None \<Rightarrow>
             (case ts of
                Word s # ts' \<Rightarrow> bind_res (convert f s) (\<lambda>v. consume p waiting extras (ns(opt \<mapsto> v)) ts')
              | _ \<Rightarrow> Inl (SystemExit 2))))"

definition parse_args :: "'v cli \<Rightarrow> string list \<Rightarrow> 'v namespace res" where
  "parse_args p args =
     bind_res (classify_all (option_strings p) args) (consume p (cli_positional p) False (cli_defaults p))"

section \<open>Command lines that are accepted\<close>

text \<open>The options of the tools are long; a word is an argument that is not taken for an option.\<close>

definition long_options :: "'v cli \<Rightarrow> bool" where
  "long_options p \<longleftrightarrow> list_all (\<lambda>opt. take 2 opt = ''--'' \<and> 2 < length opt \<and> CHR ''='' \<notin> set opt) (map fst (cli_options p))"

definition plain_word :: "string \<Rightarrow> bool" where
  "plain_word s \<longleftrightarrow> s = [] \<or> hd s \<noteq> CHR ''-'' \<or> negative_number s"

lemma long_option:
  assumes "long_options p" "opt \<in> set (map fst (cli_options p))"
  obtains c cs where "opt = CHR ''-'' # CHR ''-'' # c # cs" "CHR ''='' \<notin> set opt"
proof -
  have opt: "take 2 opt = ''--''" "2 < length opt" "CHR ''='' \<notin> set opt"
    using assms by (auto simp: long_options_def list_all_iff)
  then show thesis
    by (cases opt; cases "tl opt"; cases "tl (tl opt)") (auto intro: that)
qed

lemma negative_number_begin:
  assumes "negative_number s"
  obtains c cs where "s = CHR ''-'' # c # cs" "is_digit c \<or> c = CHR ''.''" "CHR ''='' \<notin> set s"
proof -
  define t where "t = (if s \<noteq> [] \<and> last s = CHR 0x0A then butlast s else s)"
  define rest where "rest = dropWhile is_digit (tl t)"
  have neg: "t \<noteq> []" "hd t = CHR ''-''"
      "rest = [] \<and> tl t \<noteq> [] \<or> rest \<noteq> [] \<and> hd rest = CHR ''.'' \<and> tl rest \<noteq> [] \<and> list_all is_digit (tl rest)"
    using assms unfolding negative_number_def Let_def t_def [symmetric] rest_def [symmetric] by simp_all
  have s: "s = t \<or> s = t @ [CHR 0x0A]"
    using append_butlast_last_id [of s] unfolding t_def by metis
  have split: "tl t = takeWhile is_digit (tl t) @ rest" by (simp add: rest_def)
  have digits: "\<forall>c \<in> set (takeWhile is_digit (tl t)). is_digit c" by (auto dest: set_takeWhileD)
  obtain c cs where tl: "tl t = c # cs"
    using neg(3) split by (cases "tl t") auto
  have c: "is_digit c \<or> c = CHR ''.''"
    using neg(3) by (cases "is_digit c") (simp_all add: rest_def tl)
  have "\<forall>c \<in> set rest. is_digit c \<or> c = CHR ''.''"
    using neg(3) by (cases rest) (simp_all add: list_all_iff)
  with digits have "\<forall>c \<in> set (tl t). is_digit c \<or> c = CHR ''.''"
    by (subst split) (simp only: set_append ball_Un, simp)
  moreover have "\<not> is_digit (CHR ''='')" "CHR ''='' \<noteq> CHR ''.''" by (simp_all add: is_digit_iff)
  ultimately have "CHR ''='' \<notin> set (tl t)" by metis
  moreover have t: "t = CHR ''-'' # c # cs" using neg(1,2) tl by (metis list.collapse)
  ultimately have "CHR ''='' \<notin> set t" by (simp add: tl)
  then have eq: "CHR ''='' \<notin> set s" using s by auto
  from s show thesis
  proof
    assume "s = t"
    then show thesis using that [of c cs] t c eq by simp
  next
    assume "s = t @ [CHR 0x0A]"
    then show thesis using that [of c "cs @ [CHR 0x0A]"] t c eq by simp
  qed
qed

lemma classify_word:
  assumes "long_options p" "plain_word s"
  shows "classify (option_strings p) s = Inr (Word s)"
proof (cases "s = [] \<or> hd s \<noteq> CHR ''-''")
  case False
  then have neg: "negative_number s" using assms(2) by (simp add: plain_word_def)
  then obtain c cs where s: "s = CHR ''-'' # c # cs" "is_digit c \<or> c = CHR ''.''" "CHR ''='' \<notin> set s"
    by (rule negative_number_begin)
  have c: "c \<noteq> CHR ''-''" "c \<noteq> CHR ''h''" using s(2) by (auto simp: is_digit_iff)
  have opt: "opt \<noteq> s" "opt \<noteq> take 2 s" "\<not> begins s opt" if "opt \<in> set (option_strings p)" for opt
  proof -
    have "opt = ''-h'' \<or> (\<exists>d ds. opt = CHR ''-'' # CHR ''-'' # d # ds)"
    proof (cases "opt \<in> set (map fst (cli_options p))")
      case True
      then show ?thesis using long_option [OF assms(1)] by metis
    next
      case False
      then have "opt = ''-h'' \<or> opt = ''--help''" using that by (simp add: option_strings_def)
      then show ?thesis by auto
    qed
    then show "opt \<noteq> s" "opt \<noteq> take 2 s" "\<not> begins s opt" using c by (auto simp: s(1) begins_def)
  qed
  then have "s \<notin> set (option_strings p)" by blast
  moreover have "partition_eq s = None" using s(3) by (simp add: partition_eq_def)
  moreover have "option_tuples (option_strings p) s = []"
    using opt c by (simp add: option_tuples_def begins_def s(1))
  moreover have "length s \<noteq> 1" by (simp add: s(1))
  ultimately show ?thesis using neg by (simp add: classify_def)
qed (simp add: classify_def)

text \<open>
  An option given with its value, as two arguments or joined by \<open>=\<close>; the namespace a list of them
  leaves, where the last of several counts.
\<close>

type_synonym given_option = "string \<times> string \<times> bool"

definition option_words :: "given_option \<Rightarrow> string list" where
  "option_words g = (case g of (opt, val, joined) \<Rightarrow> if joined then [opt @ ''='' @ val] else [opt, val])"

definition option_tokens :: "given_option \<Rightarrow> cli_token list" where
  "option_tokens g = (case g of (opt, val, joined) \<Rightarrow> if joined then [Option opt (Some (''='', val))] else [Option opt None, Word val])"

definition accepted :: "'v cli \<Rightarrow> (string \<Rightarrow> string \<Rightarrow> 'v) \<Rightarrow> given_option \<Rightarrow> bool" where
  "accepted p conv g \<longleftrightarrow> (case g of (opt, val, joined) \<Rightarrow>
     (\<exists>f. map_of (cli_options p) opt = Some (Some f) \<and> f val = Inr (conv opt val)) \<and> (joined \<or> plain_word val) \<and> opt \<notin> {''-h'', ''--help''})"

text \<open>An option of the parser in full, with a value that is not taken for an option.\<close>

definition formed :: "'v cli \<Rightarrow> given_option \<Rightarrow> bool" where
  "formed p g \<longleftrightarrow> (case g of (opt, val, joined) \<Rightarrow>
     (\<exists>f. map_of (cli_options p) opt = Some (Some f)) \<and> (joined \<or> plain_word val) \<and> opt \<notin> {''-h'', ''--help''})"

lemma accepted_formed: "accepted p conv g \<Longrightarrow> formed p g"
  by (auto simp: accepted_def formed_def)

definition given_text :: "given_option list \<Rightarrow> string \<rightharpoonup> string" where
  "given_text given = map_of (rev (map (\<lambda>(opt, val, _). (opt, val)) given))"

lemma classify_joined:
  assumes "long_options p" "opt \<in> set (map fst (cli_options p))"
  shows "classify (option_strings p) (opt @ ''='' @ val) = Inr (Option opt (Some (''='', val)))"
    "classify (option_strings p) opt = Inr (Option opt None)" "opt \<noteq> ''--''" "opt @ ''='' @ val \<noteq> ''--''"
proof -
  obtain c cs where opt: "opt = CHR ''-'' # CHR ''-'' # c # cs" "CHR ''='' \<notin> set opt"
    using long_option [OF assms] by metis
  have strings: "opt \<in> set (option_strings p)" using assms(2) by (simp add: option_strings_def)
  then show "classify (option_strings p) opt = Inr (Option opt None)" by (simp add: classify_def opt(1))
  show "opt \<noteq> ''--''" "opt @ ''='' @ val \<noteq> ''--''" by (simp_all add: opt(1))
  have keep: "\<forall>x \<in> set opt. x \<noteq> CHR ''=''" using opt(2) by metis
  then have part: "partition_eq (opt @ ''='' @ val) = Some (opt, val)"
    by (simp add: partition_eq_def takeWhile_append dropWhile_append)
  have none: "opt @ ''='' @ val \<notin> set (option_strings p)"
  proof
    assume "opt @ ''='' @ val \<in> set (option_strings p)"
    then consider "opt @ ''='' @ val = ''-h''" | "opt @ ''='' @ val = ''--help''"
      | "opt @ ''='' @ val \<in> set (map fst (cli_options p))" by (auto simp: option_strings_def)
    then show False
    proof cases
      case 2
      then have "CHR ''='' \<in> set ''--help''" by (metis in_set_conv_decomp append_Cons append_Nil)
      then show False by simp
    next
      case 3
      then have "CHR ''='' \<notin> set (opt @ ''='' @ val)" using long_option [OF assms(1)] by metis
      then show False by simp
    qed (simp add: opt(1))
  qed
  have "hd (opt @ ''='' @ val) = CHR ''-''" "opt @ ''='' @ val \<noteq> []" "length (opt @ ''='' @ val) \<noteq> 1" by (simp_all add: opt(1))
  then show "classify (option_strings p) (opt @ ''='' @ val) = Inr (Option opt (Some (''='', val)))"
    using none strings by (simp only: classify_def part not_True_eq_False if_False simp_thms option.case prod.case if_True)
qed

lemma classify_formed:
  assumes "long_options p" "list_all (formed p) given"
  shows "classify_all (option_strings p) (concat (map option_words given) @ rest) =
    bind_res (classify_all (option_strings p) rest) (\<lambda>ts. Inr (concat (map option_tokens given) @ ts))"
  using assms(2)
proof (induction given)
  case (Cons g given)
  obtain opt val joined where g: "g = (opt, val, joined)" by (cases g)
  obtain f where f: "map_of (cli_options p) opt = Some (Some f)" "joined \<or> plain_word val"
    using Cons.prems by (auto simp: formed_def g)
  have "opt \<in> set (map fst (cli_options p))" using map_of_SomeD [OF f(1)] by force
  note joined = classify_joined [OF assms(1) this]
  have word: "classify (option_strings p) val = Inr (Word val)" "val \<noteq> ''--''" if "\<not> joined"
  proof -
    show "classify (option_strings p) val = Inr (Word val)" using classify_word [OF assms(1)] f(2) that by simp
    have "\<not> plain_word ''--''" by code_simp
    then show "val \<noteq> ''--''" using f(2) that by metis
  qed
  show ?case
    using Cons joined word by (simp add: g option_words_def option_tokens_def bind_res_def split: sum.split)
qed (simp add: bind_res_def split: sum.split)

lemma classify_given:
  assumes "long_options p" "list_all (accepted p conv) given"
  shows "classify_all (option_strings p) (concat (map option_words given) @ rest) =
    bind_res (classify_all (option_strings p) rest) (\<lambda>ts. Inr (concat (map option_tokens given) @ ts))"
  by (rule classify_formed [OF assms(1)]) (rule list.pred_mono_strong [OF assms(2)], rule accepted_formed)

lemma consume_given:
  assumes "list_all (accepted p conv) given"
  shows "consume p waiting extras ns (concat (map option_tokens given) @ ts) =
    consume p waiting extras (\<lambda>opt. case given_text given opt of None \<Rightarrow> ns opt | Some val \<Rightarrow> Some (conv opt val)) ts"
  using assms
proof (induction given arbitrary: ns)
  case Nil
  then show ?case by (simp add: given_text_def)
next
  case (Cons g given)
  obtain opt val joined where g: "g = (opt, val, joined)" by (cases g)
  obtain f where f: "map_of (cli_options p) opt = Some (Some f)" "f val = Inr (conv opt val)" "opt \<noteq> ''-h''" "opt \<noteq> ''--help''"
    using Cons.prems by (auto simp: accepted_def g)
  have "(\<lambda>o'. case given_text given o' of None \<Rightarrow> (ns(opt \<mapsto> conv opt val)) o' | Some v \<Rightarrow> Some (conv o' v)) =
    (\<lambda>o'. case given_text (g # given) o' of None \<Rightarrow> ns o' | Some v \<Rightarrow> Some (conv o' v))"
    by (auto simp: fun_eq_iff g given_text_def map_add_def split: option.split)
  then show ?case using Cons f by (simp add: g option_tokens_def convert_def)
qed

section \<open>What parsing can end with\<close>

text \<open>A value the namespace may hold under a name.\<close>

definition cli_value :: "'v cli \<Rightarrow> string \<Rightarrow> 'v \<Rightarrow> bool" where
  "cli_value p name v \<longleftrightarrow> cli_defaults p name = Some v \<or>
     map_of (cli_options p) name = Some None \<and> v = cli_true p \<or>
     (\<exists>f s. (map_of (cli_options p) name = Some (Some f) \<or> cli_positional p = Some (name, f)) \<and> f s = Inr v)"

text \<open>Conversions that fail with \<open>ValueError\<close> or \<open>TypeError\<close> only.\<close>

definition orderly :: "'v cli \<Rightarrow> bool" where
  "orderly p \<longleftrightarrow> (\<forall>name f s e. (map_of (cli_options p) name = Some (Some f) \<or> cli_positional p = Some (name, f)) \<longrightarrow>
     f s = Inl e \<longrightarrow> e = ValueError \<or> e = TypeError)"

text \<open>
  The meaning of options written in full, for a parser without positional argument: every value is
  converted, overridden ones included, the last of each option counts, and a value that cannot be
  read or a missing required option is an error of the command line.
\<close>

definition value_of :: "'v cli \<Rightarrow> string \<Rightarrow> string \<Rightarrow> 'v res" where
  "value_of p opt val = the (the (map_of (cli_options p) opt)) val"

lemma consume_formed:
  assumes "orderly p" "list_all (formed p) given"
  shows "consume p waiting extras ns (concat (map option_tokens given) @ ts) =
    (if list_all (\<lambda>(opt, val, joined). is_ok (value_of p opt val)) given
     then consume p waiting extras
       (\<lambda>opt. case given_text given opt of None \<Rightarrow> ns opt | Some val \<Rightarrow> Some (projr (value_of p opt val))) ts
     else Inl (SystemExit 2))"
  using assms(2)
proof (induction given arbitrary: ns)
  case Nil
  then show ?case by (simp add: given_text_def)
next
  case (Cons g given)
  obtain opt val joined where g: "g = (opt, val, joined)" by (cases g)
  obtain f where f: "map_of (cli_options p) opt = Some (Some f)" "opt \<noteq> ''-h''" "opt \<noteq> ''--help''"
    using Cons.prems by (auto simp: formed_def g)
  have step: "consume p waiting extras ns (concat (map option_tokens (g # given)) @ ts) =
      bind_res (convert f val) (\<lambda>v. consume p waiting extras (ns(opt \<mapsto> v)) (concat (map option_tokens given) @ ts))"
    using f by (simp add: g option_tokens_def)
  show ?case
  proof (cases "f val")
    case (Inl e)
    then have "e = ValueError \<or> e = TypeError" using assms(1) f(1) unfolding orderly_def by blast
    then show ?thesis unfolding step using Inl f(1) by (auto simp: convert_def g value_of_def is_ok_def)
  next
    case (Inr v)
    have "(\<lambda>o'. case given_text given o' of None \<Rightarrow> (ns(opt \<mapsto> v)) o' | Some s \<Rightarrow> Some (projr (value_of p o' s))) =
      (\<lambda>o'. case given_text (g # given) o' of None \<Rightarrow> ns o' | Some s \<Rightarrow> Some (projr (value_of p o' s)))"
      using f(1) Inr by (auto simp: fun_eq_iff g given_text_def map_add_def value_of_def split: option.split)
    then show ?thesis unfolding step using Cons Inr f(1) by (simp add: convert_def g value_of_def is_ok_def)
  qed
qed

lemma parse_formed:
  assumes "orderly p" "long_options p" "cli_positional p = None" "list_all (formed p) given"
  shows "parse_args p (concat (map option_words given)) =
    (if list_all (\<lambda>(opt, val, joined). is_ok (value_of p opt val)) given \<and>
        list_all (\<lambda>k. cli_defaults p k \<noteq> None \<or> given_text given k \<noteq> None) (cli_required p)
     then Inr (\<lambda>opt. case given_text given opt of None \<Rightarrow> cli_defaults p opt | Some val \<Rightarrow> Some (projr (value_of p opt val)))
     else Inl (SystemExit 2))"
proof -
  have "classify_all opts [] = Inr []" for opts by simp
  then show ?thesis
    using classify_formed [OF assms(2,4), of "[]"] consume_formed [OF assms(1,4), where ts = "[]"] assms(3)
    by (auto simp: parse_args_def list_all_iff [of _ "cli_required p"] list_ex_iff split: option.splits)
qed

definition usage_exit :: "pyerr \<Rightarrow> bool" where
  "usage_exit e \<longleftrightarrow> e = SystemExit 0 \<or> e = SystemExit 2"

lemma usage_exit_simps [simp]: "usage_exit (SystemExit n) = (n = 0 \<or> n = 2)"
  by (auto simp: usage_exit_def)

lemma help_exit_cases: "help_exit opt val = 0 \<or> help_exit opt val = 2"
proof -
  have "short_help sep s = 0 \<or> short_help sep s = 2" for sep s by (induction sep s rule: short_help.induct) auto
  then show ?thesis by (auto simp: help_exit_def split: option.split)
qed

definition ns_ok :: "'v cli \<Rightarrow> 'v namespace \<Rightarrow> bool" where
  "ns_ok p ns \<longleftrightarrow> (\<forall>k v. ns k = Some v \<longrightarrow> cli_value p k v) \<and> (\<forall>k. cli_defaults p k \<noteq> None \<longrightarrow> ns k \<noteq> None)"

lemma ns_ok_update: "ns_ok p ns \<Longrightarrow> cli_value p name v \<Longrightarrow> ns_ok p (ns(name \<mapsto> v))"
  by (simp add: ns_ok_def)

definition parse_ok :: "'v cli \<Rightarrow> 'v namespace res \<Rightarrow> bool" where
  "parse_ok p r = (case r of Inl e \<Rightarrow> usage_exit e
    | Inr ns \<Rightarrow> (\<forall>k \<in> set (cli_required p). ns k \<noteq> None) \<and> ns_ok p ns)"

lemma parse_ok_convert:
  assumes "orderly p" "map_of (cli_options p) name = Some (Some f) \<or> cli_positional p = Some (name, f)"
    and "\<And>v. f s = Inr v \<Longrightarrow> parse_ok p (k v)"
  shows "parse_ok p (bind_res (convert f s) k)"
proof (cases "f s")
  case (Inl e)
  then have "e = ValueError \<or> e = TypeError" using assms(1,2) unfolding orderly_def by blast
  then show ?thesis by (auto simp: convert_def Inl parse_ok_def)
qed (simp add: convert_def assms(3))

lemma consume_ok:
  assumes "orderly p" "waiting = None \<or> waiting = cli_positional p" "ns_ok p ns"
  shows "parse_ok p (consume p waiting extras ns ts)"
  using assms
proof (induction p waiting extras ns ts rule: consume.induct)
  case (1 p waiting extras ns)
  then show ?case by (auto simp: parse_ok_def list_ex_iff)
next
  case (2 p waiting extras ns s ts)
  show ?case
  proof (cases waiting)
    case None
    then show ?thesis using 2 by simp
  next
    case (Some nf)
    obtain name f where nf: "nf = (name, f)" by fastforce
    have pos: "cli_positional p = Some (name, f)" using 2(4) Some nf by simp
    have "parse_ok p (consume p None extras (ns(name \<mapsto> v)) (case ts of Separator # ts' \<Rightarrow> ts' | _ \<Rightarrow> ts))" if "f s = Inr v" for v
    proof -
      have "cli_value p name v" using pos that by (auto simp: cli_value_def)
      then have "ns_ok p (ns(name \<mapsto> v))" by (rule ns_ok_update [OF 2(5)])
      then show ?thesis by (rule 2(2) [OF Some nf [symmetric] 2(3) disjI1 [OF refl]])
    qed
    then show ?thesis using parse_ok_convert [OF 2(3), of name f] pos by (simp add: Some nf)
  qed
next
  case (5 p waiting extras ns opt val ts)
  consider "opt = ''-h'' \<or> opt = ''--help''" | "map_of (cli_options p) opt = None" | "map_of (cli_options p) opt = Some None"
    | f where "\<not> (opt = ''-h'' \<or> opt = ''--help'')" "map_of (cli_options p) opt = Some (Some f)" by fastforce
  then show ?case
  proof cases
    case 1
    then show ?thesis using help_exit_cases [of opt val] by (simp add: parse_ok_def)
  next
    case 2
    then show ?thesis using help_exit_cases [of opt val] by (simp add: parse_ok_def)
  next
    case 3
    show ?thesis
    proof (cases "opt = ''-h'' \<or> opt = ''--help''")
      case True
      then show ?thesis using help_exit_cases [of opt val] by (simp add: parse_ok_def)
    next
      case False
      have "cli_value p opt (cli_true p)" using 3 by (simp add: cli_value_def)
      then have "ns_ok p (ns(opt \<mapsto> cli_true p))" by (rule ns_ok_update [OF 5(6)])
      then have "parse_ok p (consume p waiting extras (ns(opt \<mapsto> cli_true p)) ts)" if "val = None"
        using 5(1) [OF False 3 refl that 5(4,5)] by blast
      then show ?thesis using False 3 by (cases val) (simp_all add: parse_ok_def)
    qed
  next
    case (4 f)
    have set: "ns_ok p (ns(opt \<mapsto> v))" if "f s = Inr v" for s v
      using 4(2) that by (intro ns_ok_update [OF 5(6)]) (auto simp: cli_value_def)
    show ?thesis
    proof (cases val)
      case None
      show ?thesis
      proof (cases "\<exists>s ts'. ts = Word s # ts'")
        case True
        then obtain s ts' where ts: "ts = Word s # ts'" by blast
        have "parse_ok p (bind_res (convert f s) (\<lambda>v. consume p waiting extras (ns(opt \<mapsto> v)) ts'))"
          by (rule parse_ok_convert [OF 5(4) disjI1 [OF 4(2)]], rule 5(2) [OF 4(1) 4(2) refl None ts refl 5(4,5) set])
        then show ?thesis using 4 by (simp add: None ts)
      next
        case False
        then have "consume p waiting extras ns (Option opt val # ts) = Inl (SystemExit 2)"
          using 4 None by (auto split: list.split cli_token.split)
        then show ?thesis by (simp add: parse_ok_def)
      qed
    next
      case (Some sv)
      obtain sep s where sv: "sv = (sep, s)" by fastforce
      have "parse_ok p (bind_res (convert f s) (\<lambda>v. consume p waiting extras (ns(opt \<mapsto> v)) ts))"
        by (rule parse_ok_convert [OF 5(4) disjI1 [OF 4(2)]], rule 5(3) [OF 4(1) 4(2) refl Some sv [symmetric] 5(4,5) set])
      then show ?thesis using 4 by (simp add: Some sv)
    qed
  qed
qed simp_all

lemma parse_args_ok: "orderly p \<Longrightarrow> parse_ok p (parse_args p args)"
proof -
  assume p: "orderly p"
  have "\<forall>e. classify opts s = Inl e \<longrightarrow> e = SystemExit 2" for opts s
    by (auto simp: classify_def split: option.split list.split)
  then have classified: "classify_all opts args = Inl e \<Longrightarrow> e = SystemExit 2" for opts e
    by (induction args) (auto simp: bind_res_def split: sum.splits if_splits)
  have consumed: "parse_ok p (consume p (cli_positional p) False (cli_defaults p) ts)" for ts
    by (rule consume_ok [OF p]) (simp_all add: ns_ok_def cli_value_def)
  show ?thesis
  proof (cases "classify_all (option_strings p) args")
    case (Inl e)
    then show ?thesis using classified [OF Inl] by (simp add: parse_args_def parse_ok_def)
  next
    case (Inr ts)
    then show ?thesis using consumed [of ts] by (simp add: parse_args_def)
  qed
qed

end
