(* ===== verification/LineCoverage.thy ===== *)
theory LineCoverage
  imports PyText "HOL-Library.Multiset"
begin

text \<open>
  \<open>line_coverage\<close> of \<open>scripts/check_verilator_coverage.py\<close>: the count of covered lines in an LCOV file,
  given as its list of lines. The gate around it is in theory \<open>Commands\<close>.
\<close>

section \<open>The counts\<close>

record line_counts =
  lc_found :: int
  lc_hit :: int
  lc_da_found :: int
  lc_da_hit :: int

text \<open>\<open>line.split(",", 1)[1]\<close>\<close>

definition after_comma :: "string \<Rightarrow> string res" where
  "after_comma line = (case dropWhile (\<lambda>c. c \<noteq> CHR '','') line of [] \<Rightarrow> Inl IndexError | _ # rest \<Rightarrow> Inr rest)"

definition count_line :: "string \<Rightarrow> line_counts \<Rightarrow> line_counts res" where
  "count_line line c =
     (if take 3 line = ''LF:'' then
        bind_res (parse_int (drop 3 line)) (\<lambda>n. Inr (c\<lparr>lc_found := lc_found c + n\<rparr>))
      else if take 3 line = ''LH:'' then
        bind_res (parse_int (drop 3 line)) (\<lambda>n. Inr (c\<lparr>lc_hit := lc_hit c + n\<rparr>))
      else if take 3 line = ''DA:'' then
        bind_res (bind_res (after_comma line) parse_int) (\<lambda>n.
        Inr (c\<lparr>lc_da_found := lc_da_found c + 1, lc_da_hit := lc_da_hit c + of_bool (n > 0)\<rparr>))
      else Inr c)"

fun count_lines :: "string list \<Rightarrow> line_counts \<Rightarrow> line_counts res" where
  "count_lines [] c = Inr c"
| "count_lines (line # lines) c = bind_res (count_line line c) (count_lines lines)"

definition line_coverage :: "string list \<Rightarrow> (int \<times> int) res" where
  "line_coverage lines =
     bind_res (count_lines lines \<lparr>lc_found = 0, lc_hit = 0, lc_da_found = 0, lc_da_hit = 0\<rparr>) (\<lambda>c.
     case (if lc_found c = 0 then (lc_da_found c, lc_da_hit c) else (lc_found c, lc_hit c)) of (found, hit) \<Rightarrow>
       if found = 0 then Inl ValueError else Inr (hit, found))"

section \<open>The order of the records does not matter\<close>

text \<open>The amounts one line adds.\<close>

definition add_counts :: "line_counts \<Rightarrow> line_counts \<Rightarrow> line_counts" where
  "add_counts a b = \<lparr>lc_found = lc_found a + lc_found b, lc_hit = lc_hit a + lc_hit b,
     lc_da_found = lc_da_found a + lc_da_found b, lc_da_hit = lc_da_hit a + lc_da_hit b\<rparr>"

definition no_counts :: line_counts where
  "no_counts = \<lparr>lc_found = 0, lc_hit = 0, lc_da_found = 0, lc_da_hit = 0\<rparr>"

lemma count_line_add: "count_line line c = bind_res (count_line line no_counts) (\<lambda>d. Inr (add_counts c d))"
  by (cases "parse_int (drop 3 line)"; cases "bind_res (after_comma line) parse_int")
    (simp_all add: count_line_def no_counts_def add_counts_def)

lemma add_counts_ac: "add_counts (add_counts a b) c = add_counts (add_counts a c) b"
  by (simp add: add_counts_def)

lemma count_line_swap:
  assumes "count_line x c = Inr d" "count_line y d = Inr e"
  shows "\<exists>d'. count_line y c = Inr d' \<and> count_line x d' = Inr e"
proof -
  obtain dx where x: "count_line x no_counts = Inr dx" "d = add_counts c dx"
    using assms(1) count_line_add [of x c] by (auto simp: bind_res_Inr)
  obtain dy where y: "count_line y no_counts = Inr dy" "e = add_counts d dy"
    using assms(2) count_line_add [of y d] by (auto simp: bind_res_Inr)
  have "count_line y c = Inr (add_counts c dy)" using count_line_add [of y c] y by simp
  moreover have "count_line x (add_counts c dy) = Inr e"
    using count_line_add [of x "add_counts c dy"] x y by (simp add: add_counts_ac)
  ultimately show ?thesis by blast
qed

lemma count_lines_front:
  assumes "count_lines (xs @ x # ys) c = Inr e"
  shows "count_lines (x # xs @ ys) c = Inr e"
  using assms
proof (induction xs arbitrary: c)
  case (Cons z xs)
  then obtain d where d: "count_line z c = Inr d" "count_lines (xs @ x # ys) d = Inr e" by (auto simp: bind_res_Inr)
  from Cons.IH [OF d(2)] obtain d2 where d2: "count_line x d = Inr d2" "count_lines (xs @ ys) d2 = Inr e"
    by (auto simp: bind_res_Inr)
  from count_line_swap [OF d(1) d2(1)] d2(2) show ?case by auto
qed simp

lemma count_lines_perm:
  assumes "count_lines xs c = Inr e" and "mset xs = mset ys"
  shows "count_lines ys c = Inr e"
  using assms
proof (induction ys arbitrary: xs c)
  case (Cons y ys)
  then have "y \<in> set xs" by (metis list.set_intros(1) set_mset_mset)
  then obtain us vs where xs: "xs = us @ y # vs" by (auto simp: in_set_conv_decomp)
  then have "mset (us @ vs) = mset ys" using Cons.prems(2) by simp
  moreover have "count_lines (y # us @ vs) c = Inr e" using Cons.prems(1) count_lines_front xs by blast
  ultimately show ?case using Cons.IH by (auto simp: bind_res_Inr)
qed simp

text \<open>
  C40: when \<open>line_coverage\<close> counts a file it counts every reordering of its lines to the same result,
  so reports may be concatenated in any order; the found count is never 0, and in a file without
  \<open>LF\<close> and \<open>LH\<close> records the hit lines are at most the found lines.
\<close>

theorem coverage_order_independent:
  assumes "line_coverage lines = Inr (hit, found)" and "mset lines = mset lines'"
  shows "line_coverage lines' = Inr (hit, found) \<and> found \<noteq> 0 \<and>
    ((\<forall>l\<in>set lines. take 3 l \<noteq> ''LF:'' \<and> take 3 l \<noteq> ''LH:'') \<longrightarrow> 0 \<le> hit \<and> hit \<le> found)"
proof -
  let ?zero = "\<lparr>lc_found = 0, lc_hit = 0, lc_da_found = 0, lc_da_hit = 0\<rparr>"
  obtain c where c: "count_lines lines ?zero = Inr c" using assms(1) by (auto simp: line_coverage_def bind_res_Inr)
  have "count_lines lines' ?zero = Inr c" by (rule count_lines_perm [OF c assms(2)])
  then have "line_coverage lines' = line_coverage lines" by (simp add: line_coverage_def c)
  moreover have "found \<noteq> 0" using assms(1) by (auto simp: line_coverage_def c split: if_splits)
  moreover have "0 \<le> hit \<and> hit \<le> found" if da: "\<forall>l\<in>set lines. take 3 l \<noteq> ''LF:'' \<and> take 3 l \<noteq> ''LH:''"
  proof -
    have "count_lines ls a = Inr b \<Longrightarrow> (\<forall>l\<in>set ls. take 3 l \<noteq> ''LF:'' \<and> take 3 l \<noteq> ''LH:'') \<Longrightarrow>
        lc_found a = 0 \<and> 0 \<le> lc_da_hit a \<and> lc_da_hit a \<le> lc_da_found a \<Longrightarrow>
        lc_found b = 0 \<and> 0 \<le> lc_da_hit b \<and> lc_da_hit b \<le> lc_da_found b" for ls a b
    proof (induction ls arbitrary: a)
      case (Cons l ls)
      then obtain a' where a': "count_line l a = Inr a'" "count_lines ls a' = Inr b" by (auto simp: bind_res_Inr)
      have "lc_found a' = 0 \<and> 0 \<le> lc_da_hit a' \<and> lc_da_hit a' \<le> lc_da_found a'"
        using a'(1) Cons.prems by (auto simp: count_line_def bind_res_Inr split: if_splits)
      with Cons.IH [OF a'(2)] Cons.prems(2) show ?case by simp
    qed simp
    from this [OF c da] assms(1) show ?thesis by (auto simp: line_coverage_def c split: if_splits)
  qed
  ultimately show ?thesis using assms(1) by simp
qed

lemma coverage_demo:
  "line_coverage [''TN:'', ''DA:3,7'', ''DA:4,0''] = Inr (1, 2) \<and> line_coverage [''LF:10'', ''LH:9'', ''DA:1,0''] = Inr (9, 10)
   \<and> line_coverage [''DA:7''] = Inl IndexError \<and> line_coverage [] = Inl ValueError"
  by code_simp

theorem coverage_order_independent_witness:
  "line_coverage [''DA:4,0'', ''DA:3,7''] = Inr (1, 2)"
proof -
  have count: "line_coverage [''DA:3,7'', ''DA:4,0''] = Inr (1, 2)" by code_simp
  have perm: "mset [''DA:3,7'', ''DA:4,0''] = mset [''DA:4,0'', ''DA:3,7'']" by (simp add: add_mset_commute)
  from coverage_order_independent [OF count perm] show ?thesis by blast
qed

end
