(* ===== verification/Commands.thy ===== *)
theory Commands
  imports ArgParse LineCoverage
begin

text \<open>
  The three command-line tools from their argument vectors: \<open>generate_agentic_trace.py\<close>,
  \<open>rcif_sim.py\<close> and \<open>check_verilator_coverage.py\<close> with its report line. A path is taken as it is
  written on the command line.
\<close>

section \<open>The generator and the simulator\<close>

datatype 'f arg_value = A_int int | A_float 'f | A_path string | A_flag bool

definition path_arg :: "string \<Rightarrow> 'f arg_value res" where
  "path_arg s = Inr (A_path s)"

definition int_arg :: "string \<Rightarrow> 'f arg_value res" where
  "int_arg s = bind_res (parse_int s) (\<lambda>i. Inr (A_int i))"

definition float_arg :: "('f, 'x) sim_float_scheme \<Rightarrow> string \<Rightarrow> 'f arg_value res" where
  "float_arg F s = bind_res (fl_parse F s) (\<lambda>x. Inr (A_float x))"

definition generator_cli :: "('f, 'x) sim_float_scheme \<Rightarrow> 'f arg_value cli" where
  "generator_cli F = \<lparr>
     cli_options = [(''--requests'', Some int_arg), (''--prefix-tokens'', Some int_arg),
       (''--reuse-ratio'', Some (float_arg F)), (''--output'', Some path_arg)],
     cli_positional = None,
     cli_defaults = [''--requests'' \<mapsto> A_int 4, ''--prefix-tokens'' \<mapsto> A_int 131072,
       ''--reuse-ratio'' \<mapsto> A_float (fl_quot F (fl_of_int F 9) (fl_of_int F 10))],
     cli_required = [''--output''], cli_true = A_flag True\<rparr>"

definition generator_command ::
  "('f, 'x) sim_ops_scheme \<Rightarrow> files \<Rightarrow> string list \<Rightarrow> (files \<times> int) res" where
  "generator_command F files args =
     bind_res (parse_args (generator_cli F) args) (\<lambda>ns.
     case (ns ''--requests'', ns ''--prefix-tokens'', ns ''--reuse-ratio'', ns ''--output'') of
       (Some (A_int requests), Some (A_int prefix_tokens), Some (A_float reuse_ratio), Some (A_path out_path)) \<Rightarrow>
         generator_main F files requests prefix_tokens reuse_ratio out_path
     | _ \<Rightarrow> Inl AttributeError)"

definition simulator_cli :: "'f arg_value cli" where
  "simulator_cli = \<lparr>cli_options = [(''--pretty'', None)], cli_positional = Some (''trace'', path_arg),
     cli_defaults = [''--pretty'' \<mapsto> A_flag False], cli_required = [''trace''], cli_true = A_flag True\<rparr>"

definition simulator_command ::
  "('f, 'x) sim_ops_scheme \<Rightarrow> files \<Rightarrow> string list \<Rightarrow> (string \<times> int) res" where
  "simulator_command F files args =
     bind_res (parse_args (simulator_cli :: 'f arg_value cli) args) (\<lambda>ns.
     case (ns ''trace'', ns ''--pretty'') of
       (Some (A_path path), Some (A_flag pretty)) \<Rightarrow> simulator_main F files path pretty
     | _ \<Rightarrow> Inl AttributeError)"

section \<open>The coverage gate\<close>

definition read_text :: "files \<Rightarrow> string \<Rightarrow> string res" where
  "read_text files path = (case files path of None \<Rightarrow> Inl FileNotFoundError | Some t \<Rightarrow> Inr t)"

text \<open>\<open>str.splitlines\<close>: a carriage return with its newline is one end of line.\<close>

definition line_end :: "char \<Rightarrow> bool" where
  "line_end c = ((of_char c :: int) \<in> {10, 11, 12, 13, 28, 29, 30, 133})"

function splitlines :: "string \<Rightarrow> string list" where
  "splitlines s =
     (if s = [] then []
      else takeWhile (\<lambda>c. \<not> line_end c) s #
        (let rest = dropWhile (\<lambda>c. \<not> line_end c) s in
         if rest = [] then []
         else if hd rest = CHR 0x0D \<and> tl rest \<noteq> [] \<and> hd (tl rest) = CHR 0x0A then splitlines (tl (tl rest))
         else splitlines (tl rest)))"
  by pat_completeness auto

termination
proof (relation "measure length", simp)
  fix s rest assume s: "s \<noteq> []" "rest = dropWhile (\<lambda>c. \<not> line_end c) s" "rest \<noteq> []"
  then have "length rest \<le> length s" by (simp add: length_dropWhile_le)
  moreover from s(3) have "length (tl rest) < length rest" by simp
  ultimately show "(tl (tl rest), s) \<in> measure length" "(tl rest, s) \<in> measure length" by auto
qed

declare splitlines.simps [simp del]

definition coverage_of_file :: "files \<Rightarrow> string \<Rightarrow> (int \<times> int) res" where
  "coverage_of_file files path = bind_res (read_text files path) (\<lambda>t. line_coverage (splitlines t))"

text \<open>\<open>main\<close> with the values of its arguments: what it prints and the exit status. \<open>fixed\<close> is \<open>{x:.2f}\<close>.\<close>

definition coverage_main ::
  "('f, 'x) sim_float_scheme \<Rightarrow> ('f \<Rightarrow> string) \<Rightarrow> files \<Rightarrow> string \<Rightarrow> 'f \<Rightarrow> (string \<times> int) res" where
  "coverage_main F fixed files path minimum =
     bind_res (coverage_of_file files path) (\<lambda>(hit, found).
     bind_res (fl_conv F hit) (\<lambda>fl_hit. bind_res (fl_conv F found) (\<lambda>fl_found.
     bind_res (fl_div F (fl_mul F (fl_of_int F 100) fl_hit) fl_found) (\<lambda>percent.
     Inr (''Verilator line coverage: '' @ int_text hit @ ''/'' @ int_text found @ '' ('' @ fixed percent @
            ''%), target '' @ fixed minimum @ ''%'' @ newline,
          if fl_less F percent minimum then 1 else 0)))))"

definition coverage_cli :: "('f, 'x) sim_float_scheme \<Rightarrow> 'f arg_value cli" where
  "coverage_cli F = \<lparr>cli_options = [(''--input'', Some path_arg), (''--minimum'', Some (float_arg F))],
     cli_positional = None, cli_defaults = Map.empty, cli_required = [''--input'', ''--minimum''], cli_true = A_flag True\<rparr>"

definition coverage_command ::
  "('f, 'x) sim_float_scheme \<Rightarrow> ('f \<Rightarrow> string) \<Rightarrow> files \<Rightarrow> string list \<Rightarrow> (string \<times> int) res" where
  "coverage_command F fixed files args =
     bind_res (parse_args (coverage_cli F) args) (\<lambda>ns.
     case (ns ''--input'', ns ''--minimum'') of
       (Some (A_path path), Some (A_float minimum)) \<Rightarrow> coverage_main F fixed files path minimum
     | _ \<Rightarrow> Inl AttributeError)"

text \<open>\<open>{x:.2f}\<close> of a binary64 float: its exact value rounded to hundredths, ties to even.\<close>

fun b64_fixed2 :: "b64 \<Rightarrow> string" where
  "b64_fixed2 (B_fin m e) =
     (let n = int_round_half_even (\<bar>m\<bar> * 100 * 2 ^ nat e) (2 ^ nat (- e)) in
      (if m < 0 then ''-'' else []) @ int_text (n div 100) @ ''.'' @
        [char_of (48 + n mod 100 div 10), char_of (48 + n mod 10)])"
| "b64_fixed2 (B_inf s) = (if s then ''-inf'' else ''inf'')"
| "b64_fixed2 B_nan = ''nan''"

lemma gate_demo:
  "splitlines [CHR ''a'', CHR 0x0D, CHR 0x0A, CHR 0x0A, CHR ''b'', CHR 0x0C] = [''a'', [], ''b''] \<and>
   coverage_command (b64_sim plain_lib) b64_fixed2
     [''f'' \<mapsto> ''DA:1,3'' @ newline @ ''DA:2,0'' @ newline @ ''DA:3,1'' @ newline] [''--min=66.7'', ''--input'', ''f''] =
     Inr (''Verilator line coverage: 2/3 (66.67%), target 66.70%'' @ newline, 1) \<and>
   coverage_command (b64_sim plain_lib) b64_fixed2 Map.empty [''--input'', ''f''] = Inl (SystemExit 2) \<and>
   coverage_command (b64_sim plain_lib) b64_fixed2 Map.empty [''-h''] = Inl (SystemExit 0) \<and>
   coverage_command (b64_sim plain_lib) b64_fixed2 Map.empty [''--input'', ''f'', ''--minimum'', ''9''] = Inl FileNotFoundError"
  by code_simp

section \<open>From one command line to the other\<close>

text \<open>Options of the generator with values it can read, in any order and repeated at will.\<close>

definition generator_words :: "given_option list \<Rightarrow> bool" where
  "generator_words given = list_all (\<lambda>(opt, val, joined). (joined \<or> plain_word val) \<and>
     (opt \<in> {''--requests'', ''--prefix-tokens''} \<and> is_ok (parse_int val) \<or>
      opt = ''--reuse-ratio'' \<and> is_ok (b64_parse val) \<or> opt = ''--output'')) given"

definition generator_value :: "string \<Rightarrow> string \<Rightarrow> b64 arg_value" where
  "generator_value opt val =
     (if opt = ''--output'' then A_path val
      else if opt = ''--reuse-ratio'' then (case b64_parse val of Inr x \<Rightarrow> A_float x | Inl _ \<Rightarrow> A_float B_nan)
      else (case parse_int val of Inr i \<Rightarrow> A_int i | Inl _ \<Rightarrow> A_int 0))"

text \<open>The ways to name the trace file on the command line of the simulator; after \<open>--\<close> any name will do.\<close>

definition simulator_words :: "string \<Rightarrow> bool \<Rightarrow> string list \<Rightarrow> bool" where
  "simulator_words path pretty args =
     (let flag = (if pretty then [''--pretty''] else []) in
      args = flag @ [''--'', path] \<or>
      (path = [] \<or> hd path \<noteq> CHR ''-'') \<and> (args = flag @ [path] \<or> args = path # flag))"

lemma generator_accepted:
  assumes "generator_words given"
  shows "list_all (accepted (generator_cli (b64_sim L)) generator_value) given"
proof -
  have "accepted (generator_cli (b64_sim L)) generator_value (opt, val, joined)"
    if "(joined \<or> plain_word val) \<and>
     (opt \<in> {''--requests'', ''--prefix-tokens''} \<and> is_ok (parse_int val) \<or>
      opt = ''--reuse-ratio'' \<and> is_ok (b64_parse val) \<or> opt = ''--output'')" for opt val joined
    using that
    by (auto simp: accepted_def generator_cli_def generator_value_def int_arg_def float_arg_def path_arg_def is_ok_def split: sum.splits)
  then show ?thesis using assms by (auto simp: generator_words_def list_all_iff)
qed

lemma generator_long: "long_options (generator_cli F)"
  by (simp add: long_options_def generator_cli_def)

lemma given_text_in: "given_text given opt = Some val \<Longrightarrow> \<exists>joined. (opt, val, joined) \<in> set given"
  by (auto simp: given_text_def dest!: map_of_SomeD)

lemma generator_parses:
  assumes "generator_words given" "given_text given ''--output'' = Some out_path"
  shows "parse_args (generator_cli (b64_sim L)) (concat (map option_words given)) =
    Inr (\<lambda>opt. case given_text given opt of None \<Rightarrow> cli_defaults (generator_cli (b64_sim L)) opt | Some val \<Rightarrow> Some (generator_value opt val))"
proof -
  note ok = generator_accepted [OF assms(1), of L]
  have "classify_all opts [] = Inr []" for opts by simp
  then show ?thesis
    using classify_given [OF generator_long ok, where rest = "[]"] consume_given [OF ok, where ts = "[]"] assms(2)
    by (simp add: parse_args_def) (simp add: generator_cli_def)
qed

lemma generator_given:
  assumes "generator_words given"
    and "case given_text given ''--requests'' of None \<Rightarrow> n = 4 | Some s \<Rightarrow> parse_int s = Inr n"
    and "case given_text given ''--prefix-tokens'' of None \<Rightarrow> prefix = 131072 | Some s \<Rightarrow> parse_int s = Inr prefix"
    and "case given_text given ''--reuse-ratio'' of None \<Rightarrow> r = literal 9 10 | Some s \<Rightarrow> b64_parse s = Inr r"
    and "given_text given ''--output'' = Some out_path"
  shows "generator_command (b64_sim L) files (concat (map option_words given)) = generator_main (b64_sim L) files n prefix r out_path"
proof -
  have ratio: "b64_div (round_ratio 9 1 0) (round_ratio 10 1 0) = literal 9 10" by code_simp
  let ?ns = "\<lambda>opt. case given_text given opt of None \<Rightarrow> cli_defaults (generator_cli (b64_sim L)) opt | Some val \<Rightarrow> Some (generator_value opt val)"
  have "?ns ''--requests'' = Some (A_int n)" "?ns ''--prefix-tokens'' = Some (A_int prefix)"
    "?ns ''--output'' = Some (A_path out_path)"
    using assms(2,3,5) by (auto simp: generator_cli_def generator_value_def split: option.splits)
  moreover have "?ns ''--reuse-ratio'' = Some (A_float r)"
    using assms(4) by (auto simp: generator_cli_def generator_value_def ratio split: option.splits)
  ultimately show ?thesis
    by (simp add: generator_command_def generator_parses [OF assms(1,5)])
qed

lemma simulator_given:
  assumes "simulator_words path pretty args"
  shows "simulator_command F files args = simulator_main F files path pretty"
proof -
  let ?p = "simulator_cli :: 'a arg_value cli" and ?flag = "if pretty then [''--pretty''] else []"
  have strings: "option_strings ?p = [''-h'', ''--help'', ''--pretty'']" by (simp add: option_strings_def simulator_cli_def)
  have flag: "classify [''-h'', ''--help'', ''--pretty''] ''--pretty'' = Inr (Option ''--pretty'' None)" by code_simp
  have word: "classify opts path = Inr (Word path)" "path \<noteq> ''--''" if "path = [] \<or> hd path \<noteq> CHR ''-''" for opts
    using that by (auto simp: classify_def)
  consider "args = ?flag @ [''--'', path]" | "path = [] \<or> hd path \<noteq> CHR ''-''" "args = ?flag @ [path]"
    | "path = [] \<or> hd path \<noteq> CHR ''-''" "args = path # ?flag"
    using assms by (auto simp: simulator_words_def Let_def)
  then have "\<exists>ns. parse_args ?p args = Inr ns \<and> ns ''trace'' = Some (A_path path) \<and> ns ''--pretty'' = Some (A_flag pretty)"
  proof cases
    case 1
    then show ?thesis
      by (simp add: parse_args_def strings flag) (simp add: simulator_cli_def convert_def path_arg_def)
  next
    case 2
    then show ?thesis using word
      by (simp add: parse_args_def strings flag) (simp add: simulator_cli_def convert_def path_arg_def)
  next
    case 3
    then show ?thesis using word
      by (simp add: parse_args_def strings flag) (simp add: simulator_cli_def convert_def path_arg_def)
  qed
  then show ?thesis by (auto simp: simulator_command_def)
qed

text \<open>
  C35: the two command lines fit together, in binary64 and through the file on disk. Give the
  generator any options it can read, written in full, in any order, as two arguments or joined by
  \<open>=\<close>, repeated or left to their defaults; \<open>n\<close>, \<open>prefix\<close> and \<open>r\<close> are what the last of each says. For at
  most \<open>2 ^ 42\<close> requests, a prefix of 0 to \<open>2 ^ 52\<close> tokens and a reuse ratio from 0 to 1 it exits with 0 and changes only the output file. The
  simulator, called with that file in any of its forms, raises \<open>ValueError\<close> when no requests were
  asked for; otherwise it exits with 0 and prints the JSON of a report with the requested number
  of requests under their own identifiers and the sum of their output tokens.
\<close>

theorem command_lines_simulate:
  assumes "generator_words given"
    and "case given_text given ''--requests'' of None \<Rightarrow> n = 4 | Some s \<Rightarrow> parse_int s = Inr n"
    and "case given_text given ''--prefix-tokens'' of None \<Rightarrow> prefix = 131072 | Some s \<Rightarrow> parse_int s = Inr prefix"
    and "case given_text given ''--reuse-ratio'' of None \<Rightarrow> r = literal 9 10 | Some s \<Rightarrow> b64_parse s = Inr r"
    and "given_text given ''--output'' = Some out_path" and "simulator_words out_path pretty args"
    and "n \<le> 2 ^ 42" "0 \<le> prefix" "prefix \<le> 2 ^ 52" "b64_finite r" "0 \<le> b64_val r" "b64_val r \<le> 1"
  shows "\<exists>t. generator_command (b64_sim L) files (concat (map option_words given)) = Inr (files(out_path \<mapsto> t), 0) \<and>
    (if n \<le> 0 then simulator_command (b64_sim L) (files(out_path \<mapsto> t)) args = Inl ValueError
     else \<exists>rep. simulator_command (b64_sim L) (files(out_path \<mapsto> t)) args =
         Inr (json_text (b64_sim L) (if pretty then Some 2 else None) 0 (sort_json (report_json rep)) @ newline, 0) \<and>
       ts_requests (tr_summary rep) = n \<and>
       map (\<lambda>d. map_of d ''request_id'') (tr_requests rep) = map (\<lambda>k. Some (J_str (''generated-'' @ pad4 k))) [0..<nat n] \<and>
       ts_output_tokens (tr_summary rep) = (\<Sum>k\<leftarrow>[0..<nat n]. 512 + (int k mod 4) * 256))"
  unfolding generator_given [OF assms(1-5)] simulator_given [OF assms(6)]
  by (rule generated_file_simulates [OF assms(7-12)])

text \<open>A repeated option, one that is joined, defaults for the others, and a file whose name looks like an option.\<close>

theorem command_lines_simulate_witness:
  "\<exists>t rep. generator_command (b64_sim plain_lib) Map.empty [''--requests'', ''7'', ''--output=-t'', ''--requests'', ''2''] =
      Inr ([''-t'' \<mapsto> t], 0) \<and>
    simulator_command (b64_sim plain_lib) [''-t'' \<mapsto> t] [''--pretty'', ''--'', ''-t''] =
      Inr (json_text (b64_sim plain_lib) (Some 2) 0 (sort_json (report_json rep)) @ newline, 0) \<and>
    ts_requests (tr_summary rep) = 2 \<and> ts_output_tokens (tr_summary rep) = 1280"
proof -
  let ?given = "[(''--requests'', ''7'', False), (''--output'', ''-t'', True), (''--requests'', ''2'', False)]"
  have given: "generator_words ?given" "given_text ?given ''--output'' = Some ''-t''"
    "case given_text ?given ''--requests'' of None \<Rightarrow> (2::int) = 4 | Some s \<Rightarrow> parse_int s = Inr 2"
    "case given_text ?given ''--prefix-tokens'' of None \<Rightarrow> (131072::int) = 131072 | Some s \<Rightarrow> parse_int s = Inr 131072"
    "case given_text ?given ''--reuse-ratio'' of None \<Rightarrow> literal 9 10 = literal 9 10 | Some s \<Rightarrow> b64_parse s = Inr (literal 9 10)"
    "concat (map option_words ?given) = [''--requests'', ''7'', ''--output=-t'', ''--requests'', ''2'']"
    by code_simp+
  have r: "literal 9 10 = B_fin 8106479329266893 (- 53)" by code_simp
  have val: "b64_finite (literal 9 10)" "0 \<le> b64_val (literal 9 10)" "b64_val (literal 9 10) \<le> 1"
    unfolding r by (simp_all add: power_int_minus)
  have "[0..<nat 2] = [0, 1]" by (simp add: upt_rec)
  then have sum: "(\<Sum>k\<leftarrow>[0..<nat 2]. 512 + (int k mod 4) * 256) = 1280" by simp
  have args: "simulator_words ''-t'' True [''--pretty'', ''--'', ''-t'']" by (simp add: simulator_words_def)
  show ?thesis
    using command_lines_simulate [OF given(1,3,4,5,2) args _ _ _ val, of plain_lib Map.empty] unfolding given(6) sum by auto
qed

section \<open>The verdict of the gate\<close>

lemma gate_percent:
  assumes "0 < found" "found \<le> 2 ^ 46" "\<bar>hit\<bar> \<le> 2 ^ 46"
    and form: "b64_form lo" "b64_form hi" and between: "lo \<le> real_of_int (100 * hit) / real_of_int found" "real_of_int (100 * hit) / real_of_int found \<le> hi"
  defines "percent \<equiv> b64_div (b64_mul (round_ratio 100 1 0) (round_ratio hit 1 0)) (round_ratio found 1 0)"
  shows "b64_finite percent" "lo \<le> b64_val percent" "b64_val percent \<le> hi"
    "b64_eq (round_ratio found 1 0) (B_fin 0 0) = False" "b64_conv hit = Inr (round_ratio hit 1 0)" "b64_conv found = Inr (round_ratio found 1 0)"
proof -
  have bounds: "\<bar>hit\<bar> \<le> 2 ^ 53" "\<bar>found\<bar> \<le> 2 ^ 53" "\<bar>100 * hit\<bar> \<le> 2 ^ 53" using assms(1-3) by simp_all
  note ints = b64_of_int [of 100, simplified] b64_of_int [OF bounds(1)] b64_of_int [OF bounds(2)]
  have exact: "b64_val (round_ratio 100 1 0) * b64_val (round_ratio hit 1 0) = real_of_int (100 * hit)"
    using ints by simp
  note form100 = b64_form_of_int [OF bounds(3)]
  have mul: "b64_finite (b64_mul (round_ratio 100 1 0) (round_ratio hit 1 0))"
    "b64_val (b64_mul (round_ratio 100 1 0) (round_ratio hit 1 0)) = real_of_int (100 * hit)"
    using b64_mul_between [OF ints(1) ints(4) form100 form100] exact by (simp_all add: antisym)
  have nz: "b64_val (round_ratio found 1 0) \<noteq> 0" using assms(1) ints by simp
  show "b64_finite percent" "lo \<le> b64_val percent" "b64_val percent \<le> hi"
    using b64_div_between [OF mul(1) ints(7) nz form] between by (simp_all add: percent_def mul(2) ints(8))
  show "b64_eq (round_ratio found 1 0) (B_fin 0 0) = False" using nz ints(7) by (simp add: b64_eq_val)
  show "b64_conv hit = Inr (round_ratio hit 1 0)" "b64_conv found = Inr (round_ratio found 1 0)" by (fact ints)+
qed

definition coverage_words :: "given_option list \<Rightarrow> bool" where
  "coverage_words given = list_all (\<lambda>(opt, val, joined). (joined \<or> plain_word val) \<and>
     (opt = ''--minimum'' \<and> is_ok (b64_parse val) \<or> opt = ''--input'')) given"

lemma coverage_given:
  assumes "coverage_words given" "given_text given ''--input'' = Some path"
    and "given_text given ''--minimum'' = Some s" "b64_parse s = Inr m"
  shows "coverage_command (b64_sim L) fixed files (concat (map option_words given)) = coverage_main (b64_sim L) fixed files path m"
proof -
  let ?p = "coverage_cli (b64_sim L)"
  let ?conv = "\<lambda>opt val. if opt = ''--input'' then A_path val else (case b64_parse val of Inr x \<Rightarrow> A_float x | Inl _ \<Rightarrow> A_float B_nan)"
  have "accepted ?p ?conv (opt, val, joined)"
    if "(joined \<or> plain_word val) \<and> (opt = ''--minimum'' \<and> is_ok (b64_parse val) \<or> opt = ''--input'')" for opt val joined
    using that by (auto simp: accepted_def coverage_cli_def float_arg_def path_arg_def is_ok_def split: sum.splits)
  then have ok: "list_all (accepted ?p ?conv) given" using assms(1) by (auto simp: coverage_words_def list_all_iff)
  have long: "long_options ?p" by (simp add: long_options_def coverage_cli_def)
  have "classify_all opts [] = Inr []" for opts by simp
  then have "parse_args ?p (concat (map option_words given)) =
      Inr (\<lambda>opt. case given_text given opt of None \<Rightarrow> cli_defaults ?p opt | Some val \<Rightarrow> Some (?conv opt val))"
    using classify_given [OF long ok, where rest = "[]"] consume_given [OF ok, where ts = "[]"] assms(2,3)
    by (simp add: parse_args_def) (simp add: coverage_cli_def)
  then show ?thesis by (simp add: coverage_command_def assms(2-4))
qed

text \<open>A quotient of at most \<open>2 ^ 46\<close> parts that is below a whole percentage is below a float below it.\<close>

lemma float_below_percentage:
  assumes "0 < found" "found \<le> 2 ^ 46" "0 \<le> k" "k \<le> 100" "100 * hit < k * found"
  shows "\<exists>x. b64_form x \<and> real_of_int (100 * hit) / real_of_int found \<le> x \<and> x < real_of_int k"
proof -
  define x where "x = real_of_int (k * 2 ^ 46 - 1) * 2 powi (- 46)"
  have unit: "(2::real) powi (- 46) = 1 / 2 ^ 46" by (simp only: power_int_minus power_int_numeral divide_inverse mult_1)
  have "(real_of_int k * 2 ^ 46 - 1) * (1 / 2 ^ 46) = real_of_int k - 1 / 2 ^ 46" by (simp add: field_simps)
  then have x_eq: "x = real_of_int k - 1 / 2 ^ 46"
    unfolding x_def unit by (simp only: of_int_diff of_int_mult of_int_power of_int_numeral of_int_1)
  have "\<bar>x\<bar> \<le> 101" using assms(3,4) unfolding x_eq by (simp add: abs_le_iff)
  also have "101 < (2::real) ^ 7" by simp
  also have "\<dots> \<le> 2 ^ 1024" by (rule power_increasing) simp_all
  finally have "\<bar>x\<bar> < 2 ^ 1024" .
  moreover have "\<bar>k * 2 ^ 46 - 1\<bar> \<le> 2 ^ 53" using assms(3,4) by simp
  moreover have "(- 1074 :: int) \<le> - 46" by simp
  ultimately have form: "b64_form x" unfolding b64_form_def using x_def by blast
  have "real_of_int (100 * hit) \<le> real_of_int (k * found - 1)" using assms(5) by (simp only: of_int_le_iff)
  moreover have "real_of_int found \<le> real_of_int (2 ^ 46)" using assms(2) by (simp only: of_int_le_iff)
  then have "real_of_int (k * found - 1) \<le> x * real_of_int found" unfolding x_eq by (simp add: left_diff_distrib)
  ultimately have "real_of_int (100 * hit) \<le> x * real_of_int found" by (rule order_trans)
  then have "real_of_int (100 * hit) / real_of_int found \<le> x" using assms(1) by (simp add: pos_divide_le_eq)
  with form show ?thesis by (intro exI [of _ x]) (simp add: x_eq)
qed

lemma gate_quotient_range:
  assumes "0 < found" "\<bar>hit\<bar> \<le> 2 ^ 46"
  obtains big where "b64_form big" "b64_form (- big)" "- big \<le> real_of_int (100 * hit) / real_of_int found"
    "real_of_int (100 * hit) / real_of_int found \<le> big"
proof
  let ?big = "real_of_int (100 * 2 ^ 46)"
  show "b64_form ?big" "b64_form (- ?big)" unfolding b64_form_uminus by (rule b64_form_of_int, simp)+
  have "\<bar>hit\<bar> * 1 \<le> 2 ^ 46 * found" using assms by (intro mult_mono) simp_all
  then have "- (100 * 2 ^ 46 * found) \<le> 100 * hit" "100 * hit \<le> 100 * 2 ^ 46 * found" by linarith+
  then have "real_of_int (- (100 * 2 ^ 46 * found)) \<le> real_of_int (100 * hit)" "real_of_int (100 * hit) \<le> real_of_int (100 * 2 ^ 46 * found)"
    by (simp_all only: of_int_le_iff)
  then show "- ?big \<le> real_of_int (100 * hit) / real_of_int found" "real_of_int (100 * hit) / real_of_int found \<le> ?big"
    using assms(1) by (simp_all add: pos_le_divide_eq pos_divide_le_eq)
qed

text \<open>
  C39: rounding does not change the verdict of the gate. With counts up to \<open>2 ^ 46\<close> and options in any
  order it prints the counts; a file whose exact percentage reaches the minimum exits with 0, for
  every finite minimum, and for a whole percentage from 0 to 100 the exit status is 1 exactly when
  a hundred times the hit lines is less than the minimum times the found lines.
\<close>

theorem coverage_gate_decides:
  assumes "coverage_words given" "given_text given ''--input'' = Some path" "given_text given ''--minimum'' = Some s"
    and "b64_parse s = Inr m" "b64_finite m"
    and "coverage_of_file files path = Inr (hit, found)" "0 < found" "found \<le> 2 ^ 46" "\<bar>hit\<bar> \<le> 2 ^ 46"
  shows "\<exists>rest status. coverage_command (b64_sim L) b64_fixed2 files (concat (map option_words given)) =
      Inr (''Verilator line coverage: '' @ int_text hit @ ''/'' @ int_text found @ rest, status) \<and>
    (b64_val m * found \<le> 100 * hit \<longrightarrow> status = 0) \<and>
    (\<forall>k. 0 \<le> k \<and> k \<le> 100 \<and> b64_val m = real_of_int k \<longrightarrow> status = (if 100 * hit < k * found then 1 else 0))"
proof -
  let ?q = "real_of_int (100 * hit) / real_of_int found"
  define percent where "percent = b64_div (b64_mul (round_ratio 100 1 0) (round_ratio hit 1 0)) (round_ratio found 1 0)"
  note gate = gate_percent [OF assms(7-9), folded percent_def]
  obtain big where big: "b64_form big" "b64_form (- big)" "- big \<le> ?q" "?q \<le> big"
    using gate_quotient_range [OF assms(7,9)] by blast
  note facts = gate(1,4-6) [OF big(2,1,3,4)]
  define status where "status = (if b64_val percent < b64_val m then 1 else 0 :: int)"
  have less: "b64_less percent m = (b64_val percent < b64_val m)" by (rule b64_less_val [OF facts(1) assms(5)])
  have run: "coverage_command (b64_sim L) b64_fixed2 files (concat (map option_words given)) =
      Inr (''Verilator line coverage: '' @ int_text hit @ ''/'' @ int_text found @ '' ('' @ b64_fixed2 percent @
            ''%), target '' @ b64_fixed2 m @ ''%'' @ newline, status)"
    unfolding coverage_given [OF assms(1-4)] coverage_main_def assms(6)
    by (simp add: facts(2-4) fl_div_def less percent_def [symmetric] status_def)
  have pass: "status = 0" if "b64_val m * found \<le> 100 * hit"
  proof -
    have "b64_val m \<le> ?q" using that assms(7) by (simp add: pos_le_divide_eq)
    then show ?thesis using gate(2) [OF b64_form_val [OF assms(5)] big(1) _ big(4)] by (simp add: status_def)
  qed
  have "status = (if 100 * hit < k * found then 1 else 0)" if k: "0 \<le> k" "k \<le> 100" "b64_val m = real_of_int k" for k
  proof (cases "100 * hit < k * found")
    case True
    then obtain x where x: "b64_form x" "?q \<le> x" "x < real_of_int k" using float_below_percentage [OF assms(7,8) k(1,2)] by blast
    then have "b64_val percent \<le> x" by (intro gate(3) [OF big(2) x(1) big(3)])
    then show ?thesis using x(3) k(3) True by (simp add: status_def)
  next
    case False
    then have "real_of_int (k * found) \<le> real_of_int (100 * hit)" by (simp only: of_int_le_iff not_less)
    then have "b64_val m * found \<le> 100 * hit" by (simp add: k(3))
    then show ?thesis using pass False by simp
  qed
  with run pass show ?thesis by blast
qed

text \<open>Two of three lines are below 67 percent; the minimum comes first and joined.\<close>

theorem coverage_gate_decides_witness:
  "\<exists>rest. coverage_command (b64_sim plain_lib) b64_fixed2
     [''f'' \<mapsto> ''DA:1,3'' @ newline @ ''DA:2,0'' @ newline @ ''DA:3,1''] [''--minimum=67'', ''--input'', ''f''] =
     Inr (''Verilator line coverage: '' @ int_text 2 @ ''/'' @ int_text 3 @ rest, 1)"
proof -
  let ?given = "[(''--minimum'', ''67'', True), (''--input'', ''f'', False)]"
  let ?files = "[''f'' \<mapsto> ''DA:1,3'' @ newline @ ''DA:2,0'' @ newline @ ''DA:3,1'']"
  have given: "coverage_words ?given" "given_text ?given ''--input'' = Some ''f''" "given_text ?given ''--minimum'' = Some ''67''"
    "coverage_of_file ?files ''f'' = Inr (2, 3)"
    "concat (map option_words ?given) = [''--minimum=67'', ''--input'', ''f'']" by code_simp+
  have m: "b64_parse ''67'' = Inr (B_fin 4714705859903488 (- 46))" by code_simp
  have "b64_val (B_fin 4714705859903488 (- 46)) = real_of_int 67" "b64_finite (B_fin 4714705859903488 (- 46))"
    by (simp_all add: power_int_minus)
  then obtain rest status where "coverage_command (b64_sim plain_lib) b64_fixed2 ?files [''--minimum=67'', ''--input'', ''f''] =
      Inr (''Verilator line coverage: '' @ int_text 2 @ ''/'' @ int_text 3 @ rest, status)"
    "status = (if (100 :: int) * 2 < 67 * 3 then 1 else 0)"
    using coverage_gate_decides [OF given(1-3) m _ given(4), of plain_lib, unfolded given(5)] by auto
  then show ?thesis by auto
qed

section \<open>Every command line\<close>

lemma b64_parse_error: "b64_parse s = Inl e \<Longrightarrow> e = ValueError"
  by (auto simp: b64_parse_def Let_def split: if_splits option.splits)

definition refuses_only :: "(string \<Rightarrow> 'v res) \<Rightarrow> bool" where
  "refuses_only f \<longleftrightarrow> (\<forall>s e. f s = Inl e \<longrightarrow> e = ValueError)"

lemma orderlyI:
  assumes "\<forall>c \<in> snd ` set (cli_options p). \<forall>f. c = Some f \<longrightarrow> refuses_only f" "\<forall>name f. cli_positional p = Some (name, f) \<longrightarrow> refuses_only f"
  shows "orderly p"
proof -
  have "refuses_only f" if "map_of (cli_options p) name = Some (Some f)" for name f
    using assms(1) map_of_SomeD [OF that] by force
  then show ?thesis using assms(2) unfolding orderly_def refuses_only_def by blast
qed

lemma refuses_only_args: "refuses_only int_arg" "refuses_only (float_arg (b64_sim L))" "refuses_only path_arg"
  by (auto simp: refuses_only_def int_arg_def float_arg_def path_arg_def bind_res_def
      dest: b64_parse_error parse_int_error split: sum.splits)

lemma orderly_tools:
  "orderly (generator_cli (b64_sim L))" "orderly (coverage_cli (b64_sim L))" "orderly (simulator_cli :: 'f arg_value cli)"
  by (rule orderlyI; simp add: generator_cli_def coverage_cli_def simulator_cli_def refuses_only_args)+

lemma parse_argsE:
  assumes "orderly p"
  obtains e where "usage_exit e" "parse_args p args = Inl e"
    | ns where "parse_args p args = Inr ns" "ns_ok p ns" "\<And>k. k \<in> set (cli_required p) \<Longrightarrow> ns k \<noteq> None"
  using parse_args_ok [OF assms, of args] that by (cases "parse_args p args") (auto simp: parse_ok_def)

lemma generator_outcome:
  "(\<exists>e. usage_exit e \<and> generator_command (b64_sim L) files args = Inl e) \<or>
     (\<exists>n prefix r out_path. generator_command (b64_sim L) files args = generator_main (b64_sim L) files n prefix r out_path)"
proof (rule parse_argsE [OF orderly_tools(1), of L args])
  let ?p = "generator_cli (b64_sim L)"
  fix ns assume ns: "parse_args ?p args = Inr ns" "ns_ok ?p ns" "\<And>k. k \<in> set (cli_required ?p) \<Longrightarrow> ns k \<noteq> None"
  have "cli_value ?p ''--requests'' v \<Longrightarrow> \<exists>i. v = A_int i" "cli_value ?p ''--prefix-tokens'' v \<Longrightarrow> \<exists>i. v = A_int i"
    "cli_value ?p ''--reuse-ratio'' v \<Longrightarrow> \<exists>x. v = A_float x" "cli_value ?p ''--output'' v \<Longrightarrow> \<exists>q. v = A_path q" for v
    by (auto simp: cli_value_def generator_cli_def int_arg_def float_arg_def path_arg_def bind_res_Inr)
  moreover have "ns k \<noteq> None" if "k \<in> {''--requests'', ''--prefix-tokens'', ''--reuse-ratio'', ''--output''}" for k
    using ns(2,3) that by (auto simp: ns_ok_def generator_cli_def)
  ultimately obtain n prefix r q where "ns ''--requests'' = Some (A_int n)" "ns ''--prefix-tokens'' = Some (A_int prefix)"
    "ns ''--reuse-ratio'' = Some (A_float r)" "ns ''--output'' = Some (A_path q)"
    using ns(2) unfolding ns_ok_def by (metis insertCI not_None_eq)
  then have "generator_command (b64_sim L) files args = generator_main (b64_sim L) files n prefix r q"
    by (simp add: generator_command_def ns(1))
  then show ?thesis by blast
qed (auto simp: generator_command_def)

lemma simulator_outcome:
  "(\<exists>e. usage_exit e \<and> simulator_command (b64_sim L) files args = Inl e) \<or>
     (\<exists>path pretty. simulator_command (b64_sim L) files args = simulator_main (b64_sim L) files path pretty)"
proof -
  let ?p = "simulator_cli :: b64 arg_value cli"
  have p: "orderly ?p" by (rule orderly_tools)
  show ?thesis
  proof (rule parse_argsE [OF p, of args])
    fix ns assume ns: "parse_args ?p args = Inr ns" "ns_ok ?p ns" "\<And>k. k \<in> set (cli_required ?p) \<Longrightarrow> ns k \<noteq> None"
    have "cli_value ?p ''trace'' v \<Longrightarrow> \<exists>q. v = A_path q" "cli_value ?p ''--pretty'' v \<Longrightarrow> \<exists>b. v = A_flag b" for v
      by (auto simp: cli_value_def simulator_cli_def path_arg_def)
    moreover have "ns k \<noteq> None" if "k \<in> {''trace'', ''--pretty''}" for k
      using ns(2,3) that by (auto simp: ns_ok_def simulator_cli_def)
    ultimately obtain path pretty where "ns ''trace'' = Some (A_path path)" "ns ''--pretty'' = Some (A_flag pretty)"
      using ns(2) unfolding ns_ok_def by (metis insertCI not_None_eq)
    then have "simulator_command (b64_sim L) files args = simulator_main (b64_sim L) files path pretty"
      by (simp add: simulator_command_def ns(1))
    then show ?thesis by blast
  qed (auto simp: simulator_command_def)
qed

lemma coverage_outcome:
  "(\<exists>e. usage_exit e \<and> coverage_command (b64_sim L) fixed files args = Inl e) \<or>
     (\<exists>path minimum. coverage_command (b64_sim L) fixed files args = coverage_main (b64_sim L) fixed files path minimum)"
proof (rule parse_argsE [OF orderly_tools(2), of L args])
  let ?p = "coverage_cli (b64_sim L)"
  fix ns assume ns: "parse_args ?p args = Inr ns" "ns_ok ?p ns" "\<And>k. k \<in> set (cli_required ?p) \<Longrightarrow> ns k \<noteq> None"
  have "cli_value ?p ''--input'' v \<Longrightarrow> \<exists>q. v = A_path q" "cli_value ?p ''--minimum'' v \<Longrightarrow> \<exists>x. v = A_float x" for v
    by (auto simp: cli_value_def coverage_cli_def float_arg_def path_arg_def bind_res_Inr)
  moreover have "ns k \<noteq> None" if "k \<in> {''--input'', ''--minimum''}" for k
    using ns(3) that by (auto simp: coverage_cli_def)
  ultimately obtain path minimum where "ns ''--input'' = Some (A_path path)" "ns ''--minimum'' = Some (A_float minimum)"
    using ns(2) unfolding ns_ok_def by (metis insertCI not_None_eq)
  then have "coverage_command (b64_sim L) fixed files args = coverage_main (b64_sim L) fixed files path minimum"
    by (simp add: coverage_command_def ns(1))
  then show ?thesis by blast
qed (auto simp: coverage_command_def)

text \<open>
  Whatever the command line, abbreviations and \<open>-h\<close> included, each of the three tools either ends
  with the usage exit status 0 or 2, before it reads or writes a file, or runs its \<open>main\<close> with values
  of the right kinds: \<open>main\<close> never fails on the namespace.
\<close>

lemmas every_command_line = generator_outcome simulator_outcome coverage_outcome

section \<open>What a command line means\<close>

definition coverage_names :: "string list" where
  "coverage_names = [''--input'', ''--minimum'']"

text \<open>
  Options of a tool written in full, in any order and repeated at will; a value that is an argument
  of its own is not taken for an option.
\<close>

definition spelled :: "string list \<Rightarrow> given_option list \<Rightarrow> bool" where
  "spelled opts given \<longleftrightarrow> list_all (\<lambda>(opt, val, joined). opt \<in> set opts \<and> (joined \<or> plain_word val)) given"

text \<open>What the last occurrence of an option says, or its default.\<close>

definition said :: "given_option list \<Rightarrow> string \<Rightarrow> (string \<Rightarrow> 'a res) \<Rightarrow> 'a \<Rightarrow> 'a" where
  "said given opt read_value fallback =
     (case given_text given opt of None \<Rightarrow> fallback | Some s \<Rightarrow> projr (read_value s))"

lemma is_ok_bind: "is_ok (Inr y)" "is_ok (bind_res r (\<lambda>x. Inr (g x))) = is_ok r" "is_ok r \<Longrightarrow> projr (bind_res r (\<lambda>x. Inr (g x))) = g (projr r)"
  by (simp_all add: is_ok_def) (cases r; simp)+

lemma spelled_value:
  assumes "spelled opts given" "list_all (\<lambda>(opt, val, joined). ok opt val) given" "given_text given opt = Some val"
  shows "opt \<in> set opts" "ok opt val"
  using given_text_in [OF assms(3)] assms(1,2) by (auto simp: spelled_def list_all_iff)

lemma value_of_generator:
  "value_of (generator_cli F) ''--requests'' = int_arg" "value_of (generator_cli F) ''--prefix-tokens'' = int_arg"
  "value_of (generator_cli F) ''--reuse-ratio'' = float_arg F" "value_of (generator_cli F) ''--output'' = path_arg"
  by (simp_all add: value_of_def generator_cli_def fun_eq_iff)

definition generator_names :: "string list" where
  "generator_names = [''--requests'', ''--prefix-tokens'', ''--reuse-ratio'', ''--output'']"

definition generator_reads :: "string \<Rightarrow> string \<Rightarrow> bool" where
  "generator_reads opt val \<longleftrightarrow>
     (if opt = ''--output'' then True else if opt = ''--reuse-ratio'' then is_ok (b64_parse val) else is_ok (parse_int val))"

lemma spelled_formed:
  assumes "spelled opts given" "\<And>opt. opt \<in> set opts \<Longrightarrow> (\<exists>f. map_of (cli_options p) opt = Some (Some f)) \<and> opt \<notin> {''-h'', ''--help''}"
  shows "list_all (formed p) given"
  using assms(1) unfolding spelled_def
proof (rule list.pred_mono_strong)
  fix g assume "case g of (opt, val, joined) \<Rightarrow> opt \<in> set opts \<and> (joined \<or> plain_word val)"
  then show "formed p g" using assms(2) by (cases g) (simp add: formed_def)
qed

lemma generator_ok:
  assumes "opt \<in> set generator_names"
  shows "is_ok (value_of (generator_cli (b64_sim L)) opt val) = generator_reads opt val"
proof -
  from assms consider "opt = ''--requests''" | "opt = ''--prefix-tokens''" | "opt = ''--reuse-ratio''" | "opt = ''--output''"
    by (auto simp: generator_names_def)
  then show ?thesis
    by cases (simp_all add: value_of_generator generator_reads_def int_arg_def float_arg_def path_arg_def is_ok_bind)
qed

lemma generator_parse:
  assumes "spelled generator_names given"
  shows "parse_args (generator_cli (b64_sim L)) (concat (map option_words given)) =
    (if list_all (\<lambda>(opt, val, joined). generator_reads opt val) given \<and> given_text given ''--output'' \<noteq> None
     then Inr (\<lambda>opt. case given_text given opt of None \<Rightarrow> cli_defaults (generator_cli (b64_sim L)) opt
       | Some val \<Rightarrow> Some (projr (value_of (generator_cli (b64_sim L)) opt val)))
     else Inl (SystemExit 2))"
proof -
  let ?p = "generator_cli (b64_sim L)"
  have formed: "list_all (formed ?p) given"
    by (rule spelled_formed [OF assms]) (auto simp: generator_names_def generator_cli_def)
  have "list_all (\<lambda>(opt, val, joined). is_ok (value_of ?p opt val)) given = list_all (\<lambda>(opt, val, joined). generator_reads opt val) given"
  proof (rule list.pred_cong [OF refl])
    fix g assume "g \<in> set given"
    then show "(case g of (opt, val, joined) \<Rightarrow> is_ok (value_of ?p opt val)) = (case g of (opt, val, joined) \<Rightarrow> generator_reads opt val)"
      using assms generator_ok by (cases g) (auto simp: spelled_def list_all_iff)
  qed
  with parse_formed [OF orderly_tools(1) generator_long _ formed] show ?thesis by (simp add: generator_cli_def)
qed


lemma said_conversion:
  assumes "\<And>val. given_text given opt = Some val \<Longrightarrow> is_ok (read_value val)"
  shows "(case given_text given opt of None \<Rightarrow> Some (g fallback) | Some val \<Rightarrow> Some (projr (bind_res (read_value val) (\<lambda>x. Inr (g x))))) =
    Some (g (said given opt read_value fallback))"
  using assms is_ok_bind(3) by (fastforce simp: said_def split: option.split)

lemma generator_defaults:
  "cli_defaults (generator_cli (b64_sim L)) ''--requests'' = Some (A_int 4)"
  "cli_defaults (generator_cli (b64_sim L)) ''--prefix-tokens'' = Some (A_int 131072)"
  "cli_defaults (generator_cli (b64_sim L)) ''--reuse-ratio'' = Some (A_float (literal 9 10))"
proof -
  have "b64_div (round_ratio 9 1 0) (round_ratio 10 1 0) = literal 9 10" by code_simp
  then show "cli_defaults (generator_cli (b64_sim L)) ''--requests'' = Some (A_int 4)"
    "cli_defaults (generator_cli (b64_sim L)) ''--prefix-tokens'' = Some (A_int 131072)"
    "cli_defaults (generator_cli (b64_sim L)) ''--reuse-ratio'' = Some (A_float (literal 9 10))"
    by (simp_all add: generator_cli_def)
qed

lemma generator_meaning:
  assumes "spelled generator_names given"
  shows "generator_command (b64_sim L) files (concat (map option_words given)) =
    (if list_all (\<lambda>(opt, val, joined). generator_reads opt val) given
     then (case given_text given ''--output'' of None \<Rightarrow> Inl (SystemExit 2)
       | Some out_path \<Rightarrow> generator_main (b64_sim L) files (said given ''--requests'' parse_int 4)
           (said given ''--prefix-tokens'' parse_int 131072) (said given ''--reuse-ratio'' b64_parse (literal 9 10)) out_path)
     else Inl (SystemExit 2))"
proof (cases "list_all (\<lambda>(opt, val, joined). generator_reads opt val) given \<and> given_text given ''--output'' \<noteq> None")
  case True
  then obtain out_path where out: "given_text given ''--output'' = Some out_path" by blast
  define ns where "ns = (\<lambda>opt. case given_text given opt of None \<Rightarrow> cli_defaults (generator_cli (b64_sim L)) opt
       | Some val \<Rightarrow> Some (projr (value_of (generator_cli (b64_sim L)) opt val)))"
  have parse: "parse_args (generator_cli (b64_sim L)) (concat (map option_words given)) = Inr ns"
    using generator_parse [OF assms, of L] True by (simp add: ns_def)
  note reads = spelled_value(2) [OF assms conjunct1 [OF True]]
  have "ns ''--requests'' = Some (A_int (said given ''--requests'' parse_int 4))"
    using said_conversion [of given "''--requests''" parse_int A_int 4] reads [of "''--requests''"]
    unfolding ns_def value_of_generator int_arg_def generator_defaults by (simp add: generator_reads_def)
  moreover have "ns ''--prefix-tokens'' = Some (A_int (said given ''--prefix-tokens'' parse_int 131072))"
    using said_conversion [of given "''--prefix-tokens''" parse_int A_int 131072] reads [of "''--prefix-tokens''"]
    unfolding ns_def value_of_generator int_arg_def generator_defaults by (simp add: generator_reads_def)
  moreover have "ns ''--reuse-ratio'' = Some (A_float (said given ''--reuse-ratio'' b64_parse (literal 9 10)))"
    using said_conversion [of given "''--reuse-ratio''" b64_parse A_float "literal 9 10"] reads [of "''--reuse-ratio''"]
    unfolding ns_def value_of_generator float_arg_def generator_defaults
    by (simp add: generator_reads_def cong: option.case_cong)
  moreover have "ns ''--output'' = Some (A_path out_path)"
    by (simp add: ns_def value_of_generator out path_arg_def)
  ultimately show ?thesis using True out by (simp add: generator_command_def parse)
next
  case False
  then show ?thesis using generator_parse [OF assms, of L]
    by (auto simp: generator_command_def split: option.split)
qed


lemma coverage_meaning:
  assumes "spelled coverage_names given"
  shows "coverage_command (b64_sim L) fixed files (concat (map option_words given)) =
    (if list_all (\<lambda>(opt, val, joined). opt = ''--minimum'' \<longrightarrow> is_ok (b64_parse val)) given
     then (case (given_text given ''--input'', given_text given ''--minimum'') of
         (Some path, Some m) \<Rightarrow> coverage_main (b64_sim L) fixed files path (projr (b64_parse m))
       | _ \<Rightarrow> Inl (SystemExit 2))
     else Inl (SystemExit 2))"
proof -
  let ?p = "coverage_cli (b64_sim L)" and ?ok = "\<lambda>opt val. opt = ''--minimum'' \<longrightarrow> is_ok (b64_parse val)"
  have value_of: "value_of ?p ''--input'' = path_arg" "value_of ?p ''--minimum'' = float_arg (b64_sim L)"
    by (simp_all add: value_of_def coverage_cli_def fun_eq_iff)
  have formed: "list_all (formed ?p) given"
    by (rule spelled_formed [OF assms]) (auto simp: coverage_names_def coverage_cli_def)
  have long: "long_options ?p" by (simp add: long_options_def coverage_cli_def)
  have ok: "list_all (\<lambda>(opt, val, joined). is_ok (value_of ?p opt val)) given = list_all (\<lambda>(opt, val, joined). ?ok opt val) given"
  proof (rule list.pred_cong [OF refl])
    fix g assume "g \<in> set given"
    then have "fst g = ''--input'' \<or> fst g = ''--minimum''"
      using assms by (auto simp: spelled_def list_all_iff coverage_names_def)
    then show "(case g of (opt, val, joined) \<Rightarrow> is_ok (value_of ?p opt val)) = (case g of (opt, val, joined) \<Rightarrow> ?ok opt val)"
      by (cases g) (auto simp: value_of path_arg_def float_arg_def is_ok_bind)
  qed
  define ns where "ns = (\<lambda>opt. case given_text given opt of None \<Rightarrow> cli_defaults ?p opt | Some val \<Rightarrow> Some (projr (value_of ?p opt val)))"
  have parse: "parse_args ?p (concat (map option_words given)) =
      (if list_all (\<lambda>(opt, val, joined). ?ok opt val) given \<and> given_text given ''--input'' \<noteq> None \<and> given_text given ''--minimum'' \<noteq> None
       then Inr ns else Inl (SystemExit 2))"
    using parse_formed [OF orderly_tools(2) long _ formed, folded ns_def] by (simp only: ok) (simp add: coverage_cli_def)
  have ns: "ns ''--input'' = Some (A_path path)" "ns ''--minimum'' = Some (A_float (projr (b64_parse m)))"
    if "list_all (\<lambda>(opt, val, joined). ?ok opt val) given" "given_text given ''--input'' = Some path" "given_text given ''--minimum'' = Some m"
    for path m
    using spelled_value(2) [OF assms that(1,3)] that(2,3)
    by (simp_all add: ns_def value_of path_arg_def float_arg_def is_ok_bind)
  show ?thesis
    by (auto simp: coverage_command_def parse ns split: option.split)
qed

text \<open>The simulator: flags and file names in any order, of which there must be exactly one.\<close>

definition simulator_word :: "string \<Rightarrow> bool" where
  "simulator_word w \<longleftrightarrow> w = ''--pretty'' \<or> plain_word w"

definition simulator_token :: "string \<Rightarrow> cli_token" where
  "simulator_token w = (if w = ''--pretty'' then Option w None else Word w)"

lemma simulator_classify:
  "list_all simulator_word args \<Longrightarrow>
     classify_all (option_strings (simulator_cli :: 'f arg_value cli)) args = Inr (map simulator_token args)"
proof (induction args)
  case (Cons w args)
  let ?p = "simulator_cli :: 'f arg_value cli"
  have "long_options ?p" by (simp add: long_options_def simulator_cli_def)
  note word = classify_word [OF this]
  have "classify (option_strings ?p) ''--pretty'' = Inr (Option ''--pretty'' None)"
    by (simp add: classify_def option_strings_def simulator_cli_def)
  moreover have "\<not> plain_word ''--''" by code_simp
  then have "w \<noteq> ''--''" using Cons.prems by (auto simp: simulator_word_def)
  moreover have "\<not> plain_word ''--pretty''" by code_simp
  ultimately show ?case using Cons word [of w] by (auto simp: simulator_word_def simulator_token_def bind_res_def)
qed simp

definition flagged :: "string list \<Rightarrow> 'f arg_value namespace \<Rightarrow> 'f arg_value namespace" where
  "flagged args ns = (if ''--pretty'' \<in> set args then ns(''--pretty'' \<mapsto> A_flag True) else ns)"

lemma simulator_consume_none:
  "consume (simulator_cli :: 'f arg_value cli) None extras ns (map simulator_token args) =
     (if extras \<or> filter (\<lambda>w. w \<noteq> ''--pretty'') args \<noteq> [] \<or> ns ''trace'' = None then Inl (SystemExit 2) else Inr (flagged args ns))"
  by (induction args arbitrary: extras ns)
    (auto simp: simulator_token_def simulator_cli_def flagged_def)

lemma simulator_consume:
  "ns ''trace'' = None \<Longrightarrow>
   consume (simulator_cli :: 'f arg_value cli) (Some (''trace'', path_arg)) False ns (map simulator_token args) =
     (case filter (\<lambda>w. w \<noteq> ''--pretty'') args of
        [path] \<Rightarrow> Inr (flagged args (ns(''trace'' \<mapsto> A_path path))) | _ \<Rightarrow> Inl (SystemExit 2))"
proof (induction args arbitrary: ns)
  case (Cons w args)
  show ?case
  proof (cases "w = ''--pretty''")
    case True
    define ns1 where "ns1 = ns(''--pretty'' \<mapsto> A_flag True)"
    have step: "consume (simulator_cli :: 'f arg_value cli) (Some (''trace'', path_arg)) False ns (map simulator_token (w # args)) =
        consume simulator_cli (Some (''trace'', path_arg)) False ns1 (map simulator_token args)"
      unfolding True list.map by (simp add: simulator_token_def simulator_cli_def ns1_def)
    have flag: "flagged args (ns1(''trace'' \<mapsto> A_path path)) = flagged (w # args) (ns(''trace'' \<mapsto> A_path path))" for path
      by (auto simp: flagged_def True fun_upd_twist ns1_def)
    have "ns1 ''trace'' = None" using Cons.prems by (simp add: ns1_def)
    moreover have "filter (\<lambda>w. w \<noteq> ''--pretty'') (w # args) = filter (\<lambda>w. w \<noteq> ''--pretty'') args" by (simp add: True)
    ultimately show ?thesis using Cons.IH [of ns1] unfolding step by (simp only: flag)
  next
    case False
    have "(case map simulator_token args of Separator # ts' \<Rightarrow> ts' | _ \<Rightarrow> map simulator_token args) = map simulator_token args"
      by (auto simp: simulator_token_def split: list.split cli_token.split if_splits)
    then have "consume (simulator_cli :: 'f arg_value cli) (Some (''trace'', path_arg)) False ns (map simulator_token (w # args)) =
        consume simulator_cli None False (ns(''trace'' \<mapsto> A_path w)) (map simulator_token args)"
      using False by (simp add: simulator_token_def convert_def path_arg_def)
    with False show ?thesis
      by (auto simp: simulator_consume_none flagged_def split: list.split)
  qed
qed (simp add: simulator_cli_def)

lemma simulator_meaning:
  assumes "list_all simulator_word args"
  shows "simulator_command F files args =
    (case filter (\<lambda>w. w \<noteq> ''--pretty'') args of
       [path] \<Rightarrow> simulator_main F files path (''--pretty'' \<in> set args) | _ \<Rightarrow> Inl (SystemExit 2))"
proof -
  let ?p = "simulator_cli :: 'a arg_value cli"
  have "parse_args ?p args = (case filter (\<lambda>w. w \<noteq> ''--pretty'') args of
      [path] \<Rightarrow> Inr (flagged args ((cli_defaults ?p)(''trace'' \<mapsto> A_path path))) | _ \<Rightarrow> Inl (SystemExit 2))"
    using simulator_consume [of "cli_defaults ?p" args]
    by (simp add: parse_args_def simulator_classify [OF assms]) (simp add: simulator_cli_def)
  then show ?thesis
    by (auto simp: simulator_command_def flagged_def simulator_cli_def split: list.split)
qed

text \<open>
  C36: what every command line of options written in full means, in binary64. Give each tool any list
  of its own options, in any order and repeated at will, each joined to its value by \<open>=\<close> or followed
  by a value that is not taken for an option (the simulator: flags and file names in any order).
  Then the generator and the gate run their \<open>main\<close> with what the last occurrence of each option
  says, or its default, if every given value can be read and the required options are there, and
  exit with status 2 otherwise; the simulator runs \<open>main\<close> on the one file that is named, pretty
  exactly if the flag was given, and exits with status 2 if no file or more than one is named.
\<close>

theorem command_lines_mean:
  assumes "spelled generator_names given" and "spelled coverage_names gate" and "list_all simulator_word args"
  shows "generator_command (b64_sim L) files (concat (map option_words given)) =
      (if list_all (\<lambda>(opt, val, joined). generator_reads opt val) given
       then (case given_text given ''--output'' of None \<Rightarrow> Inl (SystemExit 2)
         | Some out_path \<Rightarrow> generator_main (b64_sim L) files (said given ''--requests'' parse_int 4)
             (said given ''--prefix-tokens'' parse_int 131072) (said given ''--reuse-ratio'' b64_parse (literal 9 10)) out_path)
       else Inl (SystemExit 2)) \<and>
    coverage_command (b64_sim L) b64_fixed2 files (concat (map option_words gate)) =
      (if list_all (\<lambda>(opt, val, joined). opt = ''--minimum'' \<longrightarrow> is_ok (b64_parse val)) gate
       then (case (given_text gate ''--input'', given_text gate ''--minimum'') of
           (Some path, Some m) \<Rightarrow> coverage_main (b64_sim L) b64_fixed2 files path (projr (b64_parse m))
         | _ \<Rightarrow> Inl (SystemExit 2))
       else Inl (SystemExit 2)) \<and>
    simulator_command (b64_sim L) files args =
      (case filter (\<lambda>w. w \<noteq> ''--pretty'') args of
         [path] \<Rightarrow> simulator_main (b64_sim L) files path (''--pretty'' \<in> set args) | _ \<Rightarrow> Inl (SystemExit 2))"
  using generator_meaning [OF assms(1)] coverage_meaning [OF assms(2)] simulator_meaning [OF assms(3)] by blast

text \<open>
  A ratio that cannot be read, although a later one can; a gate without minimum; two files; and a
  generator that runs with the later number of requests and the default prefix and ratio.
\<close>

theorem command_lines_mean_witness:
  "generator_command (b64_sim plain_lib) Map.empty [''--reuse-ratio'', ''x'', ''--output=f'', ''--reuse-ratio=0.5''] = Inl (SystemExit 2) \<and>
   coverage_command (b64_sim plain_lib) b64_fixed2 Map.empty [''--input'', ''f''] = Inl (SystemExit 2) \<and>
   simulator_command (b64_sim plain_lib) Map.empty [''a'', ''--pretty'', ''b''] = Inl (SystemExit 2) \<and>
   generator_command (b64_sim plain_lib) Map.empty [''--requests'', ''7'', ''--output=f'', ''--requests=2''] =
     generator_main (b64_sim plain_lib) Map.empty 2 131072 (literal 9 10) ''f''"
proof -
  let ?given = "[(''--reuse-ratio'', ''x'', False), (''--output'', ''f'', True), (''--reuse-ratio'', ''0.5'', True)]"
  have words: "concat (map option_words ?given) = [''--reuse-ratio'', ''x'', ''--output=f'', ''--reuse-ratio=0.5'']"
    "concat (map option_words [(''--input'', ''f'', False)]) = [''--input'', ''f'']" by code_simp+
  have "spelled generator_names ?given" "spelled coverage_names [(''--input'', ''f'', False)]"
    "list_all simulator_word [''a'', ''--pretty'', ''b'']" by code_simp+
  note refused = command_lines_mean [OF this, unfolded words, of plain_lib Map.empty]
  let ?good = "[(''--requests'', ''7'', False), (''--output'', ''f'', True), (''--requests'', ''2'', True)]"
  have "concat (map option_words ?good) = [''--requests'', ''7'', ''--output=f'', ''--requests=2'']"
    "spelled generator_names ?good" "spelled coverage_names []" "list_all simulator_word []"
    "list_all (\<lambda>(opt, val, joined). generator_reads opt val) ?good" "given_text ?good ''--output'' = Some ''f''"
    "said ?good ''--requests'' parse_int 4 = 2" "said ?good ''--prefix-tokens'' parse_int 131072 = 131072"
    "said ?good ''--reuse-ratio'' b64_parse (literal 9 10) = literal 9 10"
    by code_simp+
  note good = this
  have "\<not> generator_reads ''--reuse-ratio'' ''x''" by code_simp
  then show ?thesis
    using refused command_lines_mean [OF good(2-4), of plain_lib Map.empty] good by (simp add: given_text_def)
qed

end
