(* ===== verification/ModalRunner.thy ===== *)
theory ModalRunner
  imports Prelude
begin

text \<open>
  \<open>infra/modal/run_verilator.py\<close> as far as it decides anything: the root of the repository, the files
  left out of the image, how the image is put together, and the targets the remote job accepts. A
  path is the list of its parts; the file system, the \<open>make\<close> process and the calls of the Modal
  library are parameters.
\<close>

definition REMOTE_ROOT :: "string list" where
  "REMOTE_ROOT = [''workspace'', ''RecursiveCompute'']"

text \<open>\<open>candidate.parents\<close>, nearest first; \<open>has parent name\<close> says that \<open>parent / name\<close> exists.\<close>

definition local_repo_root :: "(string list \<Rightarrow> string \<Rightarrow> bool) \<Rightarrow> string list list \<Rightarrow> string list res" where
  "local_repo_root has parents =
     (case find (\<lambda>parent. has parent ''README.md'' \<and> has parent ''rtl'') parents of
        Some parent \<Rightarrow> Inr parent
      | None \<Rightarrow> Inl RuntimeError)"

definition ignored_dirs :: "string list" where
  "ignored_dirs = [''.git'', ''__pycache__'', ''build'', ''.pytest_cache'', ''.mypy_cache'', ''.ruff_cache'']"

text \<open>\<open>path.suffix\<close>: from the last dot of the name, unless the name starts or ends with it.\<close>

definition suffix_of :: "string \<Rightarrow> string" where
  "suffix_of name =
     (let ext = rev (takeWhile (\<lambda>c. c \<noteq> CHR ''.'') (rev name)) in
      if ext = [] \<or> length ext + 1 \<ge> length name then [] else CHR ''.'' # ext)"

definition ignore_repo_path :: "string list \<Rightarrow> bool" where
  "ignore_repo_path parts \<longleftrightarrow>
     list_ex (\<lambda>part. part \<in> set ignored_dirs) parts \<or>
     parts \<noteq> [] \<and> suffix_of (last parts) \<in> {''.pyc'', ''.pdf''}"

text \<open>
  The image of the remote worker: Modal's \<open>debian_slim\<close> with three packages, and, where the script
  runs on the developer's machine, the repository without the ignored files. The image operations
  are Modal's: \<open>add_local_dir img root remote_path ignored\<close>.
\<close>

definition worker_image ::
  "(string \<Rightarrow> 'img) \<Rightarrow> ('img \<Rightarrow> string list \<Rightarrow> 'img) \<Rightarrow>
   ('img \<Rightarrow> string list \<Rightarrow> string list \<Rightarrow> (string list \<Rightarrow> bool) \<Rightarrow> 'img) \<Rightarrow>
   bool \<Rightarrow> (string list \<Rightarrow> string \<Rightarrow> bool) \<Rightarrow> string list list \<Rightarrow> 'img res"
where
  "worker_image debian_slim apt_install add_local_dir is_local has parents =
     (let image = apt_install (debian_slim ''3.12'') [''make'', ''g++'', ''verilator''] in
      if is_local then
        bind_res (local_repo_root has parents) (\<lambda>root. Inr (add_local_dir image root REMOTE_ROOT ignore_repo_path))
      else Inr image)"

definition ALLOWED_TARGETS :: "string list" where
  "ALLOWED_TARGETS = [''local-test'', ''local-lint'', ''local-verilate'', ''local-sim'', ''local-regress'',
     ''local-phase9'', ''local-phase10'']"

text \<open>\<open>make target\<close> is the exit status and the output of the process; the second part of the result
  is the list of the commands that were run.\<close>

definition run_target :: "(string \<Rightarrow> int \<times> string) \<Rightarrow> string \<Rightarrow> string res \<times> string list list" where
  "run_target make target =
     (if target \<notin> set ALLOWED_TARGETS then (Inl ValueError, [])
      else case make target of (returncode, stdout) \<Rightarrow>
        (if returncode \<noteq> 0 then Inl RuntimeError else Inr stdout, [[''make'', target]]))"

text \<open>The entry point: \<open>remote\<close> runs a function in the cloud; what it returns is printed.\<close>

definition runner_main ::
  "((string \<Rightarrow> string res \<times> string list list) \<Rightarrow> string \<Rightarrow> string res \<times> string list list) \<Rightarrow>
   (string \<Rightarrow> int \<times> string) \<Rightarrow> string option \<Rightarrow> string res \<times> string list list"
where
  "runner_main remote make target =
     (case remote (run_target make) (case target of None \<Rightarrow> ''local-regress'' | Some t \<Rightarrow> t) of
        (r, cmds) \<Rightarrow> (bind_res r (\<lambda>printed. Inr (printed @ [CHR 0x0A])), cmds))"

lemma ignored_directory_is_ignored_below:
  "d \<in> set ignored_dirs \<Longrightarrow> ignore_repo_path (pre @ d # rest)"
  by (auto simp: ignore_repo_path_def list_ex_iff)

lemma suffix_demo:
  "suffix_of ''a.b.pyc'' = ''.pyc'' \<and> suffix_of ''.pdf'' = [] \<and> suffix_of ''x.'' = [] \<and> suffix_of ''Makefile'' = []"
  by code_simp

lemma run_target_runs_allowed_only:
  "snd (run_target make target) = [[''make'', t]] \<Longrightarrow> t \<in> set ALLOWED_TARGETS"
  by (auto simp: run_target_def split: if_splits prod.splits)

text \<open>The files of an image that keeps exactly what is not ignored: none is below a build or cache directory.\<close>

lemma worker_image_clean:
  assumes "worker_image base apt (\<lambda>img root path ignored. filter (\<lambda>f. \<not> ignored f) (listing root)) True has parents = Inr files"
    and "f \<in> set files"
  shows "set f \<inter> set ignored_dirs = {} \<and> (\<exists>root \<in> set parents. has root ''README.md'' \<and> has root ''rtl'' \<and> f \<in> set (listing root))"
  using assms
  by (auto simp: worker_image_def local_repo_root_def ignore_repo_path_def list_ex_iff bind_res_def find_Some_iff
      split: option.splits dest!: nth_mem)

text \<open>An entry point without a target runs the regression; when \<open>make\<close> fails nothing is printed.\<close>

lemma runner_main_default:
  "runner_main (\<lambda>f. f) make None =
     (if fst (make ''local-regress'') = 0 then Inr (snd (make ''local-regress'') @ [CHR 0x0A]) else Inl RuntimeError,
      [[''make'', ''local-regress'']])"
  by (simp add: runner_main_def run_target_def ALLOWED_TARGETS_def bind_res_def split: prod.split)

end
