(* ===== verification/Spec2Isabelle.thy ===== *)
theory Spec2Isabelle
  imports Protocol Ring Scheduler Device ControlPlane Firmware Platform Driver Service
    TensorRef PyFloat AttentionRef Memory Prototype AgenticTrace
    FloatOps FloatNorm KVCache KVDecode DecodeBinary64 Monitor ChipTrace Backpressure
    PyText Percentile EventModel EventFacts TraceGen Binary64 FloatText
    Binary64Trace JsonText JsonRoundTrip TraceFiles ArgParse LineCoverage
    Commands ModalRunner
begin

text \<open>
  RecursiveCompute is the prototype of an inference accelerator. Its Python is the control plane
  (driver, firmware controller and device model), the FPGA backend that extends the device, the
  golden models the RTL is checked against, and the tools of the verification and planning flow.
  This library models that Python in Isabelle/HOL. All paths below are under \<open>src/\<close>.

  \<^bold>\<open>Parts and how they interact.\<close>

  The control plane is \<open>runtime/driver/\<close>. A client calls \<open>RcifDriver\<close> (theory \<open>Driver\<close>), which builds
  commands (theory \<open>Protocol\<close>), pushes them on the command ring of \<open>RcifDevice\<close> (theories \<open>Ring\<close> and
  \<open>Device\<close>), and in \<open>poll\<close> lets the device process them, lets the \<open>FirmwareController\<close> (theory
  \<open>Firmware\<close>) serve the fault ring, and moves completions into a mailbox. The driver and the
  controller share the device object, so their methods take and return the triple or pair of
  states. Python's late binding is the parameter \<open>eg\<close>, the \<open>_execute_graph\<close> method: the base
  class and \<open>FpgaPrototypeDevice\<close> (theory \<open>Prototype\<close>) give their own, and what the rest of the
  control plane needs of either is stated once, in the locales \<open>graph_engine\<close>, \<open>engine_frame\<close> and
  \<open>engine_contract\<close>, which both interpret. The FPGA backend calls the external memory (theory
  \<open>Memory\<close>), the attention reference (theory \<open>AttentionRef\<close>) and the tensor reference (theory
  \<open>TensorRef\<close>); \<open>run_agentic_trace\<close> (theory \<open>AgenticTrace\<close>) drives it through the driver.

  Independent of these are the paged KV cache with its attention decode (theories \<open>KVCache\<close> and
  \<open>KVDecode\<close>), the monitor with its trace-driven check and the backpressure exploration of phase 9
  (theories \<open>Monitor\<close>, \<open>ChipTrace\<close> and \<open>Backpressure\<close>), the coverage gate (\<open>LineCoverage\<close>) and the
  runner (\<open>ModalRunner\<close>). The trace generator writes a JSON file which the event model loads and
  simulates (theories \<open>TraceGen\<close>, \<open>EventModel\<close>, \<open>Percentile\<close>, \<open>EventFacts\<close>); theory \<open>TraceFiles\<close> runs one
  after the other, through the text on disk, and theory \<open>Commands\<close> from their command lines.

  \<^bold>\<open>Which theory models which code.\<close>

  \<^item> \<open>Prelude\<close>: exceptions as the datatype \<open>pyerr\<close>, results \<open>pyerr + 'a\<close>, sequencing, Python integers
    and their bit operations, facts on lists and maps.
  \<^item> \<open>Protocol\<close>: \<open>runtime/driver/protocol.py\<close>. The enumerations, the 16-byte graph node, commands,
    completions and faults. \<open>encode\<close> and \<open>decode\<close> are inverse to each other.
  \<^item> \<open>Ring\<close>, \<open>Scheduler\<close>, \<open>Device\<close>, \<open>ControlPlane\<close>: \<open>runtime/driver/device.py\<close>. A ring refines a bounded
    FIFO; the dependency scan of a graph is compared with executions in any order; the frame and
    accounting lemmas of the device operations are in \<open>ControlPlane\<close>.
  \<^item> \<open>Firmware\<close>, \<open>Platform\<close>: \<open>runtime/driver/firmware.py\<close>. Signing, ROM verification, boot and fault
    service; over all call sequences: secure boot, no rollback, the debug lock, page aliasing.
  \<^item> \<open>Driver\<close>, \<open>Service\<close>: \<open>runtime/driver/driver.py\<close>. The abstract service is a queue of requests, the
    misses that wait for fault service, a mailbox, a page table and the counters; the whole control
    plane refines it call by call, for every queue size that boots and every call of the driver,
    polls without fault service and a stopped device included. From it: what \<open>wait\<close> returns, when a
    client can stop the device and which answers are lost then. The lemmas on \<open>serving\<close> in
    \<open>ControlPlane\<close> and \<open>Driver\<close> hold for any graph engine and serve \<open>AgenticTrace\<close>.
  \<^item> \<open>TensorRef\<close>, \<open>FloatNorm\<close>, \<open>AttentionRef\<close>, \<open>PyFloat\<close>: \<open>dv/golden/tensor_ref.py\<close> and
    \<open>dv/golden/attention_ref.py\<close>. Ranges and meaning of the integer GEMV and RMSNorm, the online
    softmax against the two-pass one, and the correctly rounded \<open>int(a / b)\<close> it ends with.
  \<^item> \<open>Memory\<close>, \<open>Prototype\<close>, \<open>AgenticTrace\<close>: \<open>fpga/memory.py\<close> and \<open>fpga/prototype.py\<close>. Residency and
    eviction, the graph engine with its cycle account, the report of a whole trace, which is the
    dictionary of its JSON file, and where a malformed request stops it: the ids that are spent, the
    records and outputs written and the memory counters, no more and no less.
  \<^item> \<open>FloatOps\<close>, \<open>KVCache\<close>, \<open>KVDecode\<close>, \<open>DecodeBinary64\<close>: \<open>dv/golden/kv_cache_ref.py\<close>. The cache refines a
    list of tokens; masks, limits and paging are invisible to the decode, which is softmax attention
    and in binary64 stays finite.
  \<^item> \<open>Monitor\<close>, \<open>ChipTrace\<close>, \<open>Backpressure\<close>: \<open>dv/phase9/invariants.py\<close>. Conservation, exactly which
    traces are accepted, that the exploration ends, and that every state the moves of its loop reach
    drains by moves of the loop.
  \<^item> \<open>PyText\<close>, \<open>Percentile\<close>, \<open>EventModel\<close>, \<open>EventFacts\<close>: \<open>sim/event_model/rcif_sim.py\<close>. JSON values and
    their conversions, order statistics, the model itself, its closed form and its errors.
  \<^item> \<open>Binary64\<close>, \<open>FloatText\<close>, \<open>Binary64Trace\<close>: Python's floats with rounding, their texts, and the
    generator and event model run on them: what holds, how large the error in the cold share of
    accepted hit rates is and when it shows, and a trace whose percentiles lose their order.
  \<^item> \<open>JsonText\<close>, \<open>JsonRoundTrip\<close>, \<open>TraceFiles\<close>: \<open>json.dumps\<close> and \<open>json.loads\<close> as texts, that one reads what
    the other writes, and \<open>load_trace\<close> and the two \<open>main\<close> functions under \<open>sim/\<close>.
  \<^item> \<open>ArgParse\<close>, \<open>Commands\<close>: what the three tools use of \<open>argparse\<close>, their option tables and their \<open>main\<close>
    from the argument vector: with which values \<open>main\<close> runs for options written in full and when the
    tool exits with status 2 instead, that the tools fit together, and that rounding does not change
    the verdict of the coverage gate.
  \<^item> \<open>TraceGen\<close>: \<open>sim/tracegen/generate_agentic_trace.py\<close>; \<open>LineCoverage\<close>:
    \<open>scripts/check_verilator_coverage.py\<close>; \<open>ModalRunner\<close>: \<open>infra/modal/run_verilator.py\<close>.

  \<^bold>\<open>Conventions.\<close>

  An object is a record of its attributes. A method that changes it and may raise returns the pair
  of the result and the object afterwards, so that the changes made before a \<open>raise\<close> stay. A
  dictionary is a map, or an association list where its order or its keys are read. Python
  integers are \<open>int\<close>, and every wrap-around of the source is written out (\<open>AND MASK32\<close>,
  \<open>AND MASK64\<close>, saturating counters). Messages of exceptions are not modelled.

  \<^bold>\<open>Loops and bounds.\<close>

  \<^item> \<open>process\<close> pops commands until the ring is empty or the budget is used: \<open>process_loop\<close> gets one
    unit of fuel more than the ring holds, and executing a command pushes none, so the fuel
    never runs out.
  \<^item> \<open>service_faults\<close> and \<open>wait\<close> are bounded in the source, by a budget and a number of polls, and
    recurse on that bound.
  \<^item> A graph has at most eight nodes; the scan recurses on the nodes that remain.
  \<^item> \<open>exhaust_legal_backpressure\<close> may run forever and is a partial function whose value is \<open>None\<close> then;
    for arguments that are not negative it is proved to end.
  \<^item> \<open>scan_value\<close> and its companions read JSON with one unit of fuel per call; twice the length of the
    text and one is proved to be enough.
  \<^item> The refinement of the service holds for every queue size that boots and for sessions short enough
    that the 64-bit request ids do not repeat. What depends on all faults being served in one poll
    holds for queues of at most 16 entries, the budget of fault service.

  \<^bold>\<open>Floating point.\<close>

  Where the code computes with floats the operations are a record the definitions take, in the order
  the code applies them. What is proved for every record (masks, paging, errors) holds for binary64;
  closed forms and bounds are proved for the instance with exact numbers (\<open>real_ops\<close>, \<open>real_sim\<close>) and
  say nothing about rounding. \<open>b64_sim\<close> and \<open>b64_ops\<close> are the instances with binary64 numbers: there the
  generated traces are simulated without error and the decode of bounded numbers does not overflow,
  while percentiles can lose their order and hit rates that were accepted can leave a negative share,
  of at least \<open>-3 * 2 ^ -53\<close>.
  \<open>int(total / denominator)\<close> of the attention reference is modelled with its rounding.

  \<^bold>\<open>Parameters.\<close>

  SHA-256 and HMAC are arguments of the firmware definitions; the theorems state what they need of
  them where they need it. The \<open>make\<close> process, the file system and the calls of the Modal library are
  arguments in \<open>ModalRunner\<close>, the files a map from paths to texts in \<open>TraceFiles\<close> and \<open>Commands\<close>. \<open>exp\<close>,
  \<open>sqrt\<close> and \<open>sum\<close> of floats and \<open>str\<close> of lists and dictionaries are arguments of \<open>b64_sim\<close>; theory
  \<open>DecodeBinary64\<close> states the laws it uses of the first three and proves that of \<open>sum\<close> for adding up
  from left to right.

  \<^bold>\<open>Not modelled.\<close>

  The usage and error texts of \<open>argparse\<close>, and features of it that the tools do not use. Paths are
  compared as they are written, and writing a file succeeds. The resources the Modal worker asks for
  and the transport of its calls have no behaviour here. Characters are code points below 256; the
  sign of a float zero and the recursion limit of the interpreter are not modelled. The fields
  \<open>hidden_size\<close>, \<open>num_q_heads\<close> and the priority of a request are parsed by the event model and then not
  used by the code. What is left of the Python are imports, docstrings, class headers and the package
  \<open>__init__\<close> files, which only re-export names. The tests and the SystemVerilog, C++ and C sources
  are outside this library.
\<close>

end
